(* ===== verification/Glip_Prelude.thy ===== *)
theory Glip_Prelude
  imports Main "HOL-Library.Word"
begin

text \<open>
  The prelude of the development: the names of the C types the sources use, the value of a C
  function call that may run into undefined behaviour or a failed \<open>assert\<close>, the byte-array
  memory with \<open>memcpy\<close>, the \<^verbatim>\<open>errno.h\<close> constants, and the generic facts on words that
  the component theories share.
\<close>

unbundle bit_operations_syntax

section \<open>C types\<close>

text \<open>
  The library is built for a 64 bit Linux target: \<open>size_t\<close>, \<open>ssize_t\<close> and
  \<open>unsigned long\<close> have 64 bits, \<open>int\<close> and \<open>unsigned int\<close> have 32.  A word carries no
  sign; where the source declares a signed variable the model reads the word with \<open>sint\<close>.
  The return code of a function (zero, or a negated error number) is an \<open>int\<close>.
\<close>

type_synonym u8 = "8 word"
type_synonym u16 = "16 word"
type_synonym u32 = "32 word"
type_synonym u64 = "64 word"
type_synonym size_t = "64 word"

definition EINVAL :: int where "EINVAL = 22"
definition ENOMEM :: int where "ENOMEM = 12"
definition EOVERFLOW :: int where "EOVERFLOW = 75"
definition ETIMEDOUT :: int where "ETIMEDOUT = 110"

named_theorems errno_defs \<open>the values of the error numbers\<close>

declare EINVAL_def [errno_defs] ENOMEM_def [errno_defs] EOVERFLOW_def [errno_defs]
  ETIMEDOUT_def [errno_defs]

section \<open>Executions that may fault\<close>

text \<open>
  A C function either returns or stops the program: a failed \<open>assert\<close> aborts, an access
  outside an array, an overflowing signed operation and a division by zero are undefined behaviour.  These stops are
  values, so that their absence is something to prove.  \<open>Blocked\<close> is the value of a call that has not
  returned: it waits for an event its environment has not delivered.
\<close>

datatype fault = Assert_Failed | Mem_Fault | Int_Overflow | Div_Zero | Blocked

type_synonym 'a exec = "fault + 'a"

definition cbind :: "'a exec \<Rightarrow> ('a \<Rightarrow> 'b exec) \<Rightarrow> 'b exec" where
  "cbind m f = (case m of Inl e \<Rightarrow> Inl e | Inr x \<Rightarrow> f x)"

definition c_assert :: "bool \<Rightarrow> unit exec" where
  "c_assert p = (if p then Inr () else Inl Assert_Failed)"

lemma cbind_Inr [simp]: "cbind (Inr x) f = f x"
  by (simp add: cbind_def)

lemma cbind_Inl [simp]: "cbind (Inl e) f = Inl e"
  by (simp add: cbind_def)

lemma cbind_cong [fundef_cong]:
  "m = m' \<Longrightarrow> (\<And>x. m' = Inr x \<Longrightarrow> f x = g x) \<Longrightarrow> cbind m f = cbind m' g"
  by (cases m') simp_all

lemma cbind_eq_Inr_iff: "cbind m f = Inr y \<longleftrightarrow> (\<exists>x. m = Inr x \<and> f x = Inr y)"
  by (cases m) simp_all

lemma cbind_eq_Inl_iff: "cbind m f = Inl e \<longleftrightarrow> m = Inl e \<or> (\<exists>x. m = Inr x \<and> f x = Inl e)"
  by (cases m) simp_all

lemma c_assert_True [simp]: "c_assert True = Inr ()"
  by (simp add: c_assert_def)

lemma c_assert_False [simp]: "c_assert False = Inl Assert_Failed"
  by (simp add: c_assert_def)

lemma c_assert_eq_Inr [simp]: "c_assert p = Inr u \<longleftrightarrow> p"
  by (simp add: c_assert_def)

section \<open>Byte arrays\<close>

text \<open>
  An allocated array is the list of its bytes and a pointer into it is an offset.  \<open>memcpy\<close>
  copies \<open>n\<close> bytes from offset \<open>s\<close> of \<open>src\<close> to offset \<open>d\<close> of \<open>dst\<close>;
  leaving either array is a fault.
\<close>

definition memcpy :: "u8 list \<Rightarrow> nat \<Rightarrow> u8 list \<Rightarrow> nat \<Rightarrow> nat \<Rightarrow> u8 list exec" where
  "memcpy dst d src s n =
     (if d + n \<le> length dst \<and> s + n \<le> length src
      then Inr (take d dst @ take n (drop s src) @ drop (d + n) dst)
      else Inl Mem_Fault)"

lemma memcpy_ok:
  "d + n \<le> length dst \<Longrightarrow> s + n \<le> length src \<Longrightarrow>
     memcpy dst d src s n = Inr (take d dst @ take n (drop s src) @ drop (d + n) dst)"
  by (simp add: memcpy_def)

lemma memcpy_length: "memcpy dst d src s n = Inr dst' \<Longrightarrow> length dst' = length dst"
  by (auto simp: memcpy_def split: if_splits)

lemma memcpy_zero [simp]: "d \<le> length dst \<Longrightarrow> s \<le> length src \<Longrightarrow> memcpy dst d src s 0 = Inr dst"
  by (simp add: memcpy_def)

text \<open>
  The allocator belongs to the environment: asked for \<open>n\<close> bytes it fails or returns a block, whose
  contents nobody has promised.  \<open>calloc\<close> clears the block, \<open>realloc\<close> keeps what the old block
  held.
\<close>

type_synonym allocator = "nat \<Rightarrow> u8 list option"

definition alloc_ok :: "allocator \<Rightarrow> bool" where
  "alloc_ok al \<longleftrightarrow> (\<forall>n m. al n = Some m \<longrightarrow> length m = n)"

definition calloc :: "allocator \<Rightarrow> nat \<Rightarrow> u8 list option" where
  "calloc al n = map_option (\<lambda>m. replicate (length m) 0) (al n)"

definition realloc :: "allocator \<Rightarrow> u8 list option \<Rightarrow> nat \<Rightarrow> u8 list option" where
  "realloc al old n =
     map_option (\<lambda>m. case old of None \<Rightarrow> m | Some b \<Rightarrow> take n b @ drop (length b) m) (al n)"

lemma realloc_length: "alloc_ok al \<Longrightarrow> realloc al old n = Some m \<Longrightarrow> length m = n"
  by (auto simp: alloc_ok_def realloc_def split: option.splits)

lemma calloc_length: "alloc_ok al \<Longrightarrow> calloc al n = Some m \<Longrightarrow> length m = n"
  by (auto simp: alloc_ok_def calloc_def)

text \<open>An allocator that never fails, for the examples.\<close>

definition good_alloc :: allocator where
  "good_alloc n = Some (replicate n 0)"

lemma good_alloc_ok [simp]: "alloc_ok good_alloc"
  by (simp add: alloc_ok_def good_alloc_def)

section \<open>Facts on words\<close>

named_theorems word_nat \<open>rules that read words as natural numbers\<close>

lemma unat_two_power [word_nat]: "k < LENGTH('a) \<Longrightarrow> unat (2 ^ k :: 'a::len word) = 2 ^ k"
proof -
  assume "k < LENGTH('a)"
  then have "(2::nat) ^ k < 2 ^ LENGTH('a)" by simp
  then have "unat (of_nat (2 ^ k) :: 'a word) = 2 ^ k"
    by (simp only: unat_of_nat mod_less)
  then show ?thesis by simp
qed

lemma unat_and_mask [word_nat]: "unat (x AND (2 ^ k - 1) :: 'a::len word) = unat x mod 2 ^ k"
  by (metis take_bit_eq_mask mask_eq_exp_minus_1 unsigned_take_bit_eq take_bit_eq_mod)

lemma bit_top_nat: "(x::nat) < 2 ^ Suc k \<Longrightarrow> bit x k \<longleftrightarrow> 2 ^ k \<le> x"
proof -
  assume a: "x < 2 ^ Suc k"
  show ?thesis
  proof (cases "2 ^ k \<le> x")
    case True
    then have "x div 2 ^ k = 1" using a by (simp add: div_nat_eqI)
    with True show ?thesis by (simp add: bit_iff_odd)
  qed (simp add: bit_iff_odd)
qed

lemma unset_bit_nat: "bit (x::nat) k \<Longrightarrow> unset_bit k x = x - 2 ^ k"
proof -
  assume b: "bit x k"
  have "int (unset_bit k x) = int x - 2 ^ k"
    using b by (simp add: of_nat_unset_bit_eq unset_bit_eq bit_of_nat_iff_bit)
  then show ?thesis by (metis nat_int nat_minus_as_int of_nat_power of_nat_numeral)
qed

text \<open>Flipping the top bit of a \<open>k + 1\<close> bit number adds or removes \<open>2 ^ k\<close>.\<close>

lemma xor_top_nat:
  "(x::nat) < 2 ^ Suc k \<Longrightarrow> x XOR 2 ^ k = (if 2 ^ k \<le> x then x - 2 ^ k else x + 2 ^ k)"
  using flip_bit_eq_if [of k x] bit_top_nat [of x k] unset_bit_nat [of x k]
  by (auto simp: flip_bit_eq_xor set_bit_eq push_bit_eq_mult)

lemma unat_xor_top [word_nat]:
  "unat (x::'a::len word) < 2 ^ Suc k \<Longrightarrow> k < LENGTH('a) \<Longrightarrow>
     unat (x XOR 2 ^ k) = (if 2 ^ k \<le> unat x then unat x - 2 ^ k else unat x + 2 ^ k)"
  using xor_top_nat [of "unat x" k] by (simp add: unsigned_xor_eq unat_two_power)

lemma unat_ucast_up:
  "LENGTH('a::len) \<le> LENGTH('b::len) \<Longrightarrow> unat (ucast (x::'a word) :: 'b word) = unat x"
proof -
  assume "LENGTH('a) \<le> LENGTH('b)"
  then have "(2::nat) ^ LENGTH('a) \<le> 2 ^ LENGTH('b)" by (rule power_increasing) simp
  moreover have "unat x < 2 ^ LENGTH('a)" by (rule unsigned_less)
  ultimately have "unat x < 2 ^ LENGTH('b)" by (rule less_le_trans [rotated])
  then show ?thesis by (simp only: unsigned_ucast_eq take_bit_nat_eq_self)
qed

lemma small_word_bit: "unat (x::'a::len word) < 2 ^ k \<Longrightarrow> bit x n \<Longrightarrow> n < k"
proof (rule ccontr)
  assume x: "unat x < 2 ^ k" "bit x n" and "\<not> n < k"
  then have "(2::nat) ^ k \<le> 2 ^ n" by (intro power_increasing) simp_all
  then have "unat x < 2 ^ n" using x(1) by (rule less_le_trans [rotated])
  then have "unat x div 2 ^ n = 0" by (rule div_less)
  moreover have "bit (unat x) n" using x(2) by (simp add: bit_unsigned_iff)
  ultimately show False by (simp add: bit_iff_odd)
qed

lemma unat_of_nat_small: "n < 2 ^ LENGTH('a) \<Longrightarrow> unat (of_nat n :: 'a::len word) = n"
  by (simp only: unat_of_nat mod_less)

lemma unat_size [simp]: "n < 2 ^ 31 \<Longrightarrow> unat (of_nat n :: size_t) = n"
  by (rule unat_of_nat_small) simp

lemma unat_add_small:
  "unat x + unat y < 2 ^ LENGTH('a) \<Longrightarrow> unat (x + y :: 'a::len word) = unat x + unat y"
  by (simp add: unat_word_ariths)

lemma unat_minus_le: "y \<le> x \<Longrightarrow> unat (x - y :: 'a::len word) = unat x - unat y"
  by (rule unat_sub)

lemma sint_small: "unat x < 2 ^ (LENGTH('a) - 1) \<Longrightarrow> sint (x::'a::len word) = int (unat x)"
proof -
  assume "unat x < 2 ^ (LENGTH('a) - 1)"
  then have "int (unat x) < int (2 ^ (LENGTH('a) - 1))" unfolding of_nat_less_iff .
  then have "uint x < 2 ^ (LENGTH('a) - 1)" unfolding of_nat_power of_nat_numeral uint_nat .
  moreover have "0 \<le> uint x" by simp
  ultimately have "signed_take_bit (LENGTH('a) - 1) (uint x) = uint x"
    by (intro signed_take_bit_int_eq_self) linarith+
  then show ?thesis by (simp only: sint_uint uint_nat One_nat_def)
qed

text \<open>The sign of a difference of two small numbers.\<close>

lemma sint_diff_small:
  assumes "unat x < 2 ^ (LENGTH('a) - 1)" and "unat y < 2 ^ (LENGTH('a) - 1)"
  shows "sint (x - y :: 'a::len word) = int (unat x) - int (unat y)"
proof -
  define M where "M = (2::int) ^ (LENGTH('a) - 1)"
  have sx: "sint x = int (unat x)" and sy: "sint y = int (unat y)"
    using assms by (simp_all only: sint_small)
  have "int (unat x) < int (2 ^ (LENGTH('a) - 1))" "int (unat y) < int (2 ^ (LENGTH('a) - 1))"
    using assms by (simp_all only: of_nat_less_iff)
  then have b: "int (unat x) < M" "int (unat y) < M"
    by (simp_all only: M_def of_nat_power of_nat_numeral)
  have "signed_take_bit (LENGTH('a) - 1) (int (unat x) - int (unat y)) =
      int (unat x) - int (unat y)"
  proof (rule signed_take_bit_int_eq_self)
    show "- (2 ^ (LENGTH('a) - 1)) \<le> int (unat x) - int (unat y)"
      using b unfolding M_def [symmetric] by linarith
    show "int (unat x) - int (unat y) < 2 ^ (LENGTH('a) - 1)"
      using b unfolding M_def [symmetric] by linarith
  qed
  then show ?thesis by (simp only: sint_word_diff sx sy)
qed

section \<open>Narrowing to \<open>int\<close>\<close>

text \<open>A size stored in a variable of type \<open>int\<close>, and an \<open>int\<close> widened to a size.\<close>

definition to_int :: "size_t \<Rightarrow> u32" where
  "to_int x = ucast x"

definition of_int32 :: "u32 \<Rightarrow> size_t" where
  "of_int32 x = scast x"

lemma unat_to_int: "unat x < 2 ^ 32 \<Longrightarrow> unat (to_int x) = unat x"
  by (simp add: to_int_def unsigned_ucast_eq take_bit_nat_eq_self)

lemma sint_to_int: "unat x < 2 ^ 31 \<Longrightarrow> sint (to_int x) = int (unat x)"
  using sint_small [of "to_int x"] unat_to_int [of x] by simp

text \<open>Below \<open>2 ^ 31\<close> the detour through \<open>int\<close> changes nothing.\<close>

lemma of_int32_to_int: "unat x < 2 ^ 31 \<Longrightarrow> of_int32 (to_int x) = x"
proof -
  assume x: "unat x < 2 ^ 31"
  then have u: "unat (to_int x) = unat x"
    by (simp add: to_int_def unsigned_ucast_eq take_bit_nat_eq_self)
  have "sint (to_int x) = int (unat x)"
    using sint_small [of "to_int x"] x u by simp
  then have "of_int32 (to_int x) = word_of_int (int (unat x))"
    by (simp only: of_int32_def scast_eq)
  then show ?thesis by simp
qed

end
