(* ===== verification/Ring_Memory.thy ===== *)
theory Ring_Memory
  imports Glip_Prelude
begin

text \<open>
  The mathematics of a ring of cells, over natural numbers and lists, shared by the proofs about
  the circular buffer: the \<open>n\<close> cells from position \<open>s\<close> on (\<open>ring_slice\<close>), the ring after a
  byte string has been laid down from position \<open>s\<close> on (\<open>ring_put\<close>), and how the two meet.
  The last section says what one or two \<open>memcpy\<close> calls do in these terms.
\<close>

definition ring_slice :: "'a list \<Rightarrow> nat \<Rightarrow> nat \<Rightarrow> 'a list" where
  "ring_slice mem s n = map (\<lambda>i. mem ! ((s + i) mod length mem)) [0..<n]"

definition ring_put :: "'a list \<Rightarrow> nat \<Rightarrow> 'a list \<Rightarrow> 'a list" where
  "ring_put mem s bs =
     map (\<lambda>j. let d = (j + length mem - s mod length mem) mod length mem
              in if d < length bs then bs ! d else mem ! j) [0..<length mem]"

lemma length_ring_slice [simp]: "length (ring_slice mem s n) = n"
  by (simp add: ring_slice_def)

lemma length_ring_put [simp]: "length (ring_put mem s bs) = length mem"
  by (simp add: ring_put_def)

lemma ring_slice_0 [simp]: "ring_slice mem s 0 = []"
  by (simp add: ring_slice_def)

lemma ring_slice_nth: "i < n \<Longrightarrow> ring_slice mem s n ! i = mem ! ((s + i) mod length mem)"
  by (simp add: ring_slice_def)

lemma ring_slice_add: "ring_slice mem s (m + n) = ring_slice mem s m @ ring_slice mem (s + m) n"
  by (rule nth_equalityI) (auto simp: ring_slice_nth nth_append add.assoc)

lemma ring_slice_take: "m \<le> n \<Longrightarrow> take m (ring_slice mem s n) = ring_slice mem s m"
  using ring_slice_add [of mem s m "n - m"] by simp

lemma ring_slice_drop: "m \<le> n \<Longrightarrow> drop m (ring_slice mem s n) = ring_slice mem (s + m) (n - m)"
  using ring_slice_add [of mem s m "n - m"] by simp

lemma ring_slice_mod: "ring_slice mem (s mod length mem) n = ring_slice mem s n"
  by (simp add: ring_slice_def mod_add_left_eq)

text \<open>A slice that does not pass the end of the array is a stretch of it; one that does is two.\<close>

lemma ring_slice_contiguous:
  assumes "s mod length mem + n \<le> length mem"
  shows "ring_slice mem s n = take n (drop (s mod length mem) mem)"
proof (rule nth_equalityI)
  show "length (ring_slice mem s n) = length (take n (drop (s mod length mem) mem))"
    using assms by simp
  fix i assume "i < length (ring_slice mem s n)"
  then have i: "i < n" by simp
  then have "(s + i) mod length mem = s mod length mem + i"
    using assms by (metis add_less_cancel_left mod_add_left_eq mod_less order_less_le_trans)
  then show "ring_slice mem s n ! i = take n (drop (s mod length mem) mem) ! i"
    using i assms by (simp add: ring_slice_nth)
qed

lemma ring_slice_split:
  assumes "length mem \<le> s mod length mem + n" and "n \<le> length mem" and "mem \<noteq> []"
  shows "ring_slice mem s n =
    drop (s mod length mem) mem @ take (n - (length mem - s mod length mem)) mem"
proof -
  let ?S = "length mem" and ?o = "s mod length mem"
  have o: "?o < ?S" using assms(3) by simp
  have "(?o + (?S - ?o)) mod ?S = 0" using o by simp
  then have z: "(s + (?S - ?o)) mod ?S = 0" by (metis mod_add_left_eq)
  have "ring_slice mem s n = ring_slice mem s ((?S - ?o) + (n - (?S - ?o)))"
    using assms(1) o by simp
  also have "\<dots> = ring_slice mem s (?S - ?o) @ ring_slice mem (s + (?S - ?o)) (n - (?S - ?o))"
    by (rule ring_slice_add)
  also have "ring_slice mem s (?S - ?o) = drop ?o mem"
    using o by (simp add: ring_slice_contiguous)
  also have "ring_slice mem (s + (?S - ?o)) (n - (?S - ?o)) = take (n - (?S - ?o)) mem"
    using ring_slice_contiguous [of "s + (?S - ?o)" mem "n - (?S - ?o)"] z assms(2) by simp
  finally show ?thesis .
qed

text \<open>The distance of a cell from the start of a written string, and what is read back.\<close>

lemma ring_dist:
  assumes "i < S" and "0 < (S::nat)"
  shows "((s + i) mod S + S - s mod S) mod S = i"
proof -
  have "s mod S \<le> S" using assms(2) by (simp add: less_imp_le)
  then have "((s + i) mod S + S - s mod S) mod S = ((s + i) mod S + (S - s mod S)) mod S"
    by simp
  also have "\<dots> = (s mod S + i + (S - s mod S)) mod S"
    by (metis mod_add_left_eq)
  also have "\<dots> = (i + S) mod S"
    using mod_less_divisor [OF assms(2), of s] by (simp add: algebra_simps)
  finally show ?thesis using assms(1) by simp
qed

lemma ring_dist_before:
  assumes "i < m" and "m \<le> (S::nat)"
  shows "((s + i) mod S + S - (s + m) mod S) mod S = S - (m - i)"
proof -
  have S: "0 < S" using assms by simp
  have eq: "(s + i) mod S = (s + m + (S - (m - i))) mod S"
  proof -
    have "s + m + (S - (m - i)) = (s + i) + S" using assms by simp
    then show ?thesis by (simp only: mod_add_self2)
  qed
  show ?thesis unfolding eq by (rule ring_dist) (use assms in simp_all)
qed

lemma ring_put_nth:
  "j < length mem \<Longrightarrow> ring_put mem s bs ! j =
     (if (j + length mem - s mod length mem) mod length mem < length bs
      then bs ! ((j + length mem - s mod length mem) mod length mem) else mem ! j)"
  by (simp add: ring_put_def Let_def)

lemma ring_slice_put_same:
  assumes "length bs \<le> length mem" and "mem \<noteq> []"
  shows "ring_slice (ring_put mem s bs) s (length bs) = bs"
  using assms by (intro nth_equalityI) (auto simp: ring_slice_nth ring_put_nth ring_dist)

lemma ring_slice_put_before:
  assumes "m + length bs \<le> length mem" and "mem \<noteq> []"
  shows "ring_slice (ring_put mem (s + m) bs) s m = ring_slice mem s m"
  using assms
  by (intro nth_equalityI) (auto simp: ring_slice_nth ring_put_nth ring_dist_before)

text \<open>Laying a string down behind a slice extends the slice: the heart of a ring buffer write.\<close>

lemma ring_slice_put_append:
  assumes "m + length bs \<le> length mem" and "mem \<noteq> []"
  shows "ring_slice (ring_put mem (s + m) bs) s (m + length bs) = ring_slice mem s m @ bs"
  using assms by (simp add: ring_slice_add ring_slice_put_before ring_slice_put_same)

lemma ring_put_mod: "ring_put mem (s mod length mem) bs = ring_put mem s bs"
  by (simp add: ring_put_def)

lemma ring_put_Nil [simp]: "ring_put mem s [] = mem"
  by (rule nth_equalityI) (simp_all add: ring_put_nth)

section \<open>Copies into a ring\<close>

lemma ring_put_nth_offset:
  assumes "j < length mem"
  shows "ring_put mem s bs ! j =
    (if s mod length mem \<le> j
     then (if j - s mod length mem < length bs then bs ! (j - s mod length mem) else mem ! j)
     else (if j + length mem - s mod length mem < length bs
           then bs ! (j + length mem - s mod length mem) else mem ! j))"
proof -
  let ?S = "length mem" and ?o = "s mod length mem"
  have o: "?o < ?S" by (rule mod_less_divisor) (rule le_less_trans [OF le0 assms])
  have "(j + ?S - ?o) mod ?S = (if ?o \<le> j then j - ?o else j + ?S - ?o)"
  proof (cases "?o \<le> j")
    case True
    then have "j + ?S - ?o = (j - ?o) + ?S" by simp
    then have "(j + ?S - ?o) mod ?S = (j - ?o) mod ?S" by (simp only: mod_add_self2)
    then show ?thesis using True assms by simp
  next
    case False
    then show ?thesis using assms o by simp
  qed
  then show ?thesis using assms by (simp add: ring_put_nth)
qed

lemma ring_put_contiguous:
  assumes "s mod length mem + length bs \<le> length mem" and "mem \<noteq> []"
  shows "ring_put mem s bs =
    take (s mod length mem) mem @ bs @ drop (s mod length mem + length bs) mem"
proof (rule nth_equalityI)
  let ?S = "length mem" and ?o = "s mod length mem"
  show "length (ring_put mem s bs) = length (take ?o mem @ bs @ drop (?o + length bs) mem)"
    using assms by simp
  fix j assume "j < length (ring_put mem s bs)"
  then have j: "j < ?S" by simp
  have o: "?o < ?S" using assms(2) by simp
  from ring_put_nth_offset [OF j, of s bs]
  show "ring_put mem s bs ! j = (take ?o mem @ bs @ drop (?o + length bs) mem) ! j"
    using j o assms(1) by (auto simp: nth_append)
qed

lemma ring_put_split:
  assumes "length mem \<le> s mod length mem + length bs" and "length bs \<le> length mem"
    and "mem \<noteq> []"
  shows "ring_put mem s bs =
    (let e = length mem - s mod length mem
     in drop e bs @ drop (length bs - e) (take (s mod length mem) mem) @ take e bs)"
proof -
  define p where "p = s mod length mem"
  have "p < length mem" using assms(3) by (simp add: p_def)
  then obtain e where e: "length mem = p + e" "0 < e"
    by (metis less_imp_add_positive)
  then obtain r where r: "length bs = e + r" "r \<le> p"
    using assms(1,2) p_def by (metis add.commute add_le_cancel_left le_add_diff_inverse)
  have nth: "ring_put mem s bs ! j = (drop e bs @ drop r (take p mem) @ take e bs) ! j"
    if j: "j < length mem" for j
  proof -
    have *: "ring_put mem s bs ! j =
      (if p \<le> j then bs ! (j - p) else if j < r then bs ! (j + e) else mem ! j)"
      using ring_put_nth_offset [OF j, of s bs, folded p_def] j r unfolding e(1)
      by auto
    have len: "length (drop e bs) = r" "length (drop r (take p mem)) = p - r"
      using e(1) r by auto
    show ?thesis
      using r j e(1) len
      by (cases "p \<le> j"; cases "j < r") (auto simp: * nth_append add.commute)
  qed
  have "ring_put mem s bs = drop e bs @ drop r (take p mem) @ take e bs"
    using e r nth by (intro nth_equalityI) simp_all
  moreover have "length mem - s mod length mem = e" "length bs - e = r"
    using e(1) r(1) p_def by linarith+
  ultimately show ?thesis by (simp only: Let_def p_def)
qed

lemma memcpy_ring_put:
  assumes "s mod length mem + n \<le> length mem" and "n \<le> length src" and "mem \<noteq> []"
  shows "memcpy mem (s mod length mem) src 0 n = Inr (ring_put mem s (take n src))"
  using assms ring_put_contiguous [of s mem "take n src"] by (simp add: memcpy_def min_def)

lemma memcpy_ring_put_split:
  assumes "length mem \<le> s mod length mem + n" and "n \<le> length mem" and "n \<le> length src"
    and "mem \<noteq> []"
  shows "cbind (memcpy mem (s mod length mem) src 0 (length mem - s mod length mem))
           (\<lambda>d. memcpy d 0 src (length mem - s mod length mem)
                 (n - (length mem - s mod length mem)))
         = Inr (ring_put mem s (take n src))"
proof -
  let ?o = "s mod length mem"
  obtain e where e: "length mem = ?o + e" "0 < e"
    using assms(4) by (metis le_add_diff_inverse length_greater_0_conv less_imp_le
        mod_less_divisor zero_less_diff)
  then have c: "length mem - ?o = e" "e \<le> n" "e \<le> length src" "n - e \<le> ?o"
    using assms by linarith+
  define m1 where "m1 = take ?o mem @ take e src"
  have m1: "length m1 = length mem" "take ?o m1 = take ?o mem" "drop ?o m1 = take e src"
    using e(1) c(3) by (simp_all add: m1_def)
  have one: "memcpy mem ?o src 0 (length mem - ?o) = Inr m1"
    using e(1) c by (simp add: memcpy_def m1_def)
  have two: "memcpy m1 0 src e (n - e) = Inr (take (n - e) (drop e src) @ drop (n - e) m1)"
    using c assms m1(1) by (simp add: memcpy_def)
  have "drop (n - e) m1 = drop (n - e) (take ?o mem) @ take e src"
    using c(4) e(1) by (simp add: m1_def)
  then show ?thesis
    using one two c e(1) assms ring_put_split [of mem s "take n src"]
    by (simp add: Let_def drop_take min_absorb1)
qed

lemma memcpy_ring_slice:
  assumes "s mod length mem + n \<le> length mem" and "d + n \<le> length dst"
  shows "memcpy dst d mem (s mod length mem) n =
    Inr (take d dst @ ring_slice mem s n @ drop (d + n) dst)"
  using assms by (simp add: memcpy_def ring_slice_contiguous)

lemma memcpy_ring_slice_split:
  assumes "length mem \<le> s mod length mem + n" and "n \<le> length mem" and "n \<le> length dst"
    and "mem \<noteq> []"
  shows "cbind (memcpy dst 0 mem (s mod length mem) (length mem - s mod length mem))
           (\<lambda>d. memcpy d (length mem - s mod length mem) mem 0
                 (n - (length mem - s mod length mem)))
         = Inr (ring_slice mem s n @ drop n dst)"
proof -
  let ?o = "s mod length mem"
  obtain e where e: "length mem = ?o + e" "0 < e"
    using assms(4) by (metis le_add_diff_inverse length_greater_0_conv less_imp_le
        mod_less_divisor zero_less_diff)
  then have c: "length mem - ?o = e" "e \<le> n" "e \<le> length dst" "n - e \<le> length mem"
    using assms by linarith+
  have one: "memcpy dst 0 mem ?o (length mem - ?o) = Inr (drop ?o mem @ drop e dst)"
    using e(1) c by (simp add: memcpy_def)
  have len: "length (drop ?o mem) = e" using e(1) by simp
  have two: "memcpy (drop ?o mem @ drop e dst) e mem 0 (n - e) =
      Inr (drop ?o mem @ take (n - e) mem @ drop n dst)"
    using c assms(3) len by (simp add: memcpy_def)
  show ?thesis
    using one two c e(1) assms ring_slice_split [of mem s n] by simp
qed

end
