(* ===== verification/Cbuf.thy ===== *)
theory Cbuf
  imports Ring_Memory
begin

text \<open>
  The circular buffer of \<^verbatim>\<open>glip/src/cbuf.c\<close>.  The record has the fields of
  \<^verbatim>\<open>struct cbuf\<close>; every function of the file is a definition over it.  The read and write
  positions run over twice the buffer size, so that a full and an empty buffer differ.
\<close>

section \<open>State\<close>

text \<open>
  The mutex only brackets the update of a position and has no place in the sequential model; the
  condition variable is the count of broadcasts issued on it.  A temporary buffer is \<open>None\<close> while
  its pointer is \<open>NULL\<close>.
\<close>

record cbuf =
  level_changed :: nat
  wr_ptr :: size_t
  rd_ptr :: size_t
  cb_size :: size_t
  cb_data :: "u8 list"
  hint_max_read_size :: size_t
  read_data_tmp_size :: size_t
  read_data_tmp :: "u8 list option"
  hint_max_write_size :: size_t
  write_data_tmp_size :: size_t
  write_data_tmp :: "u8 list option"

text \<open>What \<open>cbuf_reserve\<close> and \<open>cbuf_peek\<close> hand out: a pointer into the ring or a temporary buffer.\<close>

datatype bufptr = Null_Ptr | Data_At nat | Read_Tmp | Write_Tmp

definition write_tmp_ptr :: "cbuf \<Rightarrow> bufptr" where
  "write_tmp_ptr b = (case write_data_tmp b of None \<Rightarrow> Null_Ptr | Some _ \<Rightarrow> Write_Tmp)"

definition read_tmp_ptr :: "cbuf \<Rightarrow> bufptr" where
  "read_tmp_ptr b = (case read_data_tmp b of None \<Rightarrow> Null_Ptr | Some _ \<Rightarrow> Read_Tmp)"

text \<open>A load and a store of the caller through such a pointer.\<close>

definition ptr_block :: "cbuf \<Rightarrow> bufptr \<Rightarrow> u8 list" where
  "ptr_block b p = (case p of Null_Ptr \<Rightarrow> [] | Data_At off \<Rightarrow> drop off (cb_data b)
     | Read_Tmp \<Rightarrow> (case read_data_tmp b of None \<Rightarrow> [] | Some t \<Rightarrow> t)
     | Write_Tmp \<Rightarrow> (case write_data_tmp b of None \<Rightarrow> [] | Some t \<Rightarrow> t))"

definition ptr_load :: "cbuf \<Rightarrow> bufptr \<Rightarrow> nat \<Rightarrow> u8 list exec" where
  "ptr_load b p n =
     (if n \<le> length (ptr_block b p) then Inr (take n (ptr_block b p)) else Inl Mem_Fault)"

definition ptr_store :: "cbuf \<Rightarrow> bufptr \<Rightarrow> u8 list \<Rightarrow> cbuf exec" where
  "ptr_store b p bs =
     (case p of
        Null_Ptr \<Rightarrow> (if bs = [] then Inr b else Inl Mem_Fault)
      | Data_At off \<Rightarrow> cbind (memcpy (cb_data b) off bs 0 (length bs)) (\<lambda>d. Inr (b\<lparr>cb_data := d\<rparr>))
      | Read_Tmp \<Rightarrow> (case read_data_tmp b of None \<Rightarrow> Inl Mem_Fault | Some t \<Rightarrow>
          cbind (memcpy t 0 bs 0 (length bs)) (\<lambda>t'. Inr (b\<lparr>read_data_tmp := Some t'\<rparr>)))
      | Write_Tmp \<Rightarrow> (case write_data_tmp b of None \<Rightarrow> Inl Mem_Fault | Some t \<Rightarrow>
          cbind (memcpy t 0 bs 0 (length bs)) (\<lambda>t'. Inr (b\<lparr>write_data_tmp := Some t'\<rparr>))))"

section \<open>Operations\<close>

definition cbuf_ptr_add :: "cbuf \<Rightarrow> size_t \<Rightarrow> size_t \<Rightarrow> size_t" where
  "cbuf_ptr_add b val1 val2 = (val1 + val2) AND (2 * cb_size b - 1)"

text \<open>
  The size of a temporary buffer.  The loop counts how often \<open>size_tmp\<close> can be halved; the shift
  is one of an \<open>int\<close>, undefined once its result leaves the type.
\<close>

function calc_log2 :: "size_t \<Rightarrow> nat \<Rightarrow> nat" where
  "calc_log2 size_tmp log2_size =
     (let size_tmp' = drop_bit 1 size_tmp
      in if size_tmp' \<noteq> 0 then calc_log2 size_tmp' (log2_size + 1) else log2_size)"
  by pat_completeness auto
termination
proof (relation "measure (\<lambda>(s, _). unat s)")
  fix s x :: size_t
  assume x: "x = drop_bit 1 s" and nz: "x \<noteq> 0"
  have "unat x = unat s div 2" unfolding x by (simp add: drop_bit_eq_div unat_div)
  moreover have "0 < unat x" using nz by (simp add: unat_gt_0)
  ultimately show "((x, l + 1), (s, l)) \<in> measure (\<lambda>(s, _). unat s)" for l :: nat by simp
qed simp

definition cbuf_calc_bufsize :: "size_t \<Rightarrow> size_t \<Rightarrow> size_t exec" where
  "cbuf_calc_bufsize size_req size_max =
     (let log2_size = calc_log2 size_req 0
      in if 31 \<le> log2_size + 1 then Inl Int_Overflow
         else (let pow_two = push_bit (log2_size + 1) 1
               in if pow_two > size_max then Inr size_max else Inr pow_two))"

text \<open>
  \<open>struct_ok\<close> is the outcome of the first \<open>calloc\<close> (the context structure), \<open>al\<close> the
  allocator behind the second (the data array).
\<close>

definition cbuf_init :: "bool \<Rightarrow> allocator \<Rightarrow> size_t \<Rightarrow> (cbuf option \<times> int) exec" where
  "cbuf_init struct_ok al sz =
     cbind (c_assert (sz \<noteq> 0 \<and> sz AND (sz - 1) = 0)) (\<lambda>_.
       if \<not> struct_ok then Inr (None, - ENOMEM)
       else (case calloc al (unat sz) of
           None \<Rightarrow> Inr (None, - ENOMEM)
         | Some d \<Rightarrow> Inr (Some
             \<lparr>level_changed = 0, wr_ptr = 0, rd_ptr = 0, cb_size = sz, cb_data = d,
              hint_max_read_size = 0, read_data_tmp_size = 0, read_data_tmp = None,
              hint_max_write_size = 0, write_data_tmp_size = 0, write_data_tmp = None\<rparr>, 0)))"

text \<open>Freeing gives all memory of the buffer back; no buffer is left.\<close>

definition cbuf_free :: "cbuf \<Rightarrow> cbuf option \<times> int" where
  "cbuf_free b = (None, 0)"

definition cbuf_set_hint_max_read_size :: "cbuf \<Rightarrow> size_t \<Rightarrow> cbuf \<times> int" where
  "cbuf_set_hint_max_read_size b hint = (b\<lparr>hint_max_read_size := hint\<rparr>, 0)"

definition cbuf_set_hint_max_write_size :: "cbuf \<Rightarrow> size_t \<Rightarrow> cbuf \<times> int" where
  "cbuf_set_hint_max_write_size b hint = (b\<lparr>hint_max_write_size := hint\<rparr>, 0)"

definition cbuf_is_empty :: "cbuf \<Rightarrow> bool" where
  "cbuf_is_empty b = (wr_ptr b = rd_ptr b)"

definition cbuf_is_full :: "cbuf \<Rightarrow> bool" where
  "cbuf_is_full b = (wr_ptr b = rd_ptr b XOR cb_size b)"

text \<open>
  The part of \<open>cbuf_fill_level\<close> behind the test for a full buffer.  The difference is an
  \<open>ssize_t\<close>: its sign is the top bit of the word.
\<close>

definition cbuf_level_diff :: "cbuf \<Rightarrow> size_t" where
  "cbuf_level_diff b =
     (let fill_level = (wr_ptr b AND (cb_size b - 1)) - (rd_ptr b AND (cb_size b - 1))
      in if sint fill_level < 0 then fill_level + cb_size b else fill_level)"

definition cbuf_fill_level :: "cbuf \<Rightarrow> size_t" where
  "cbuf_fill_level b = (if cbuf_is_full b then cb_size b else cbuf_level_diff b)"

definition cbuf_free_level :: "cbuf \<Rightarrow> size_t" where
  "cbuf_free_level b = cb_size b - cbuf_fill_level b"

text \<open>The update of a position under the level mutex, with the broadcast that goes with it.\<close>

definition advance_wr :: "cbuf \<Rightarrow> size_t \<Rightarrow> cbuf" where
  "advance_wr b sz = b\<lparr>wr_ptr := cbuf_ptr_add b (wr_ptr b) sz, level_changed := level_changed b + 1\<rparr>"

definition advance_rd :: "cbuf \<Rightarrow> size_t \<Rightarrow> cbuf" where
  "advance_rd b sz = b\<lparr>rd_ptr := cbuf_ptr_add b (rd_ptr b) sz, level_changed := level_changed b + 1\<rparr>"

text \<open>The one or two copies of a write, then the whole call.\<close>

definition cbuf_write_copy :: "cbuf \<Rightarrow> u8 list \<Rightarrow> size_t \<Rightarrow> u8 list exec" where
  "cbuf_write_copy b src sz =
     (let off = wr_ptr b AND (cb_size b - 1)
      in if off + sz \<le> cb_size b
         then memcpy (cb_data b) (unat off) src 0 (unat sz)
         else (let size_at_end = cb_size b - off; size_at_start = sz - size_at_end
               in cbind (memcpy (cb_data b) (unat off) src 0 (unat size_at_end))
                    (\<lambda>d. memcpy d 0 src (unat size_at_end) (unat size_at_start))))"

definition cbuf_write :: "cbuf \<Rightarrow> u8 list \<Rightarrow> size_t \<Rightarrow> (cbuf \<times> int) exec" where
  "cbuf_write b src sz =
     (let free_level = cbuf_free_level b
      in if sz > free_level then Inr (b, - EINVAL)
         else cbind (cbuf_write_copy b src sz)
           (\<lambda>d. Inr (advance_wr (b\<lparr>cb_data := d\<rparr>) sz, 0)))"

definition cbuf_reserve ::
    "allocator \<Rightarrow> cbuf \<Rightarrow> size_t \<Rightarrow> (cbuf \<times> bufptr option \<times> int) exec" where
  "cbuf_reserve al b sz =
     (let free_level = cbuf_free_level b; off = wr_ptr b AND (cb_size b - 1)
      in if sz > free_level then Inr (b, None, - EINVAL)
         else if off + sz \<le> cb_size b then Inr (b, Some (Data_At (unat off)), 0)
         else if write_data_tmp_size b < sz then
           cbind (if sz \<le> hint_max_write_size b then Inr (hint_max_write_size b)
                  else cbuf_calc_bufsize sz (cb_size b))
             (\<lambda>n. let b' = b\<lparr>write_data_tmp_size := n,
                            write_data_tmp := realloc al (write_data_tmp b) (unat n)\<rparr>
                  in if write_data_tmp b' = None then Inr (b', None, - ENOMEM)
                     else Inr (b', Some (write_tmp_ptr b'), 0))
         else Inr (b, Some (write_tmp_ptr b), 0))"

definition cbuf_commit :: "cbuf \<Rightarrow> bufptr \<Rightarrow> size_t \<Rightarrow> (cbuf \<times> int) exec" where
  "cbuf_commit b p sz =
     (if sz = 0 then Inr (b, 0)
      else cbind
        (if p = write_tmp_ptr b
         then (let off = wr_ptr b AND (cb_size b - 1); size_at_end = cb_size b - off;
                   tmp = ptr_block b p
               in cbind (memcpy (cb_data b) (unat off) tmp 0 (unat size_at_end))
                    (\<lambda>d. if sz > size_at_end
                         then memcpy d 0 tmp (unat size_at_end) (unat (sz - size_at_end))
                         else Inr d))
         else Inr (cb_data b))
        (\<lambda>d. Inr (advance_wr (b\<lparr>cb_data := d\<rparr>) sz, 0)))"

text \<open>
  In the split case of \<open>cbuf_read\<close> and \<open>cbuf_peek\<close> the first part has a length of type
  \<open>int\<close>, which is widened again where it is used (\<open>to_int\<close>, \<open>of_int32\<close>).
\<close>

definition cbuf_split_copy :: "cbuf \<Rightarrow> u8 list \<Rightarrow> size_t \<Rightarrow> u8 list exec" where
  "cbuf_split_copy b dst sz =
     (let off = rd_ptr b AND (cb_size b - 1); size_to_end = of_int32 (to_int (cb_size b - off))
      in cbind (memcpy dst 0 (cb_data b) (unat off) (unat size_to_end))
           (\<lambda>d. memcpy d (unat size_to_end) (cb_data b) 0 (unat (sz - size_to_end))))"

definition cbuf_read_copy :: "cbuf \<Rightarrow> u8 list \<Rightarrow> size_t \<Rightarrow> u8 list exec" where
  "cbuf_read_copy b dst sz =
     (let off = rd_ptr b AND (cb_size b - 1)
      in if off + sz \<le> cb_size b
         then memcpy dst 0 (cb_data b) (unat off) (unat sz)
         else cbuf_split_copy b dst sz)"

text \<open>\<open>dst\<close> is the caller's array; the result holds its new contents.\<close>

definition cbuf_read :: "cbuf \<Rightarrow> u8 list \<Rightarrow> size_t \<Rightarrow> (cbuf \<times> u8 list \<times> int) exec" where
  "cbuf_read b dst sz =
     (if sz = 0 then Inr (b, dst, 0)
      else (let fill_level = cbuf_fill_level b
            in if fill_level < sz then Inr (b, dst, - EINVAL)
               else cbind (cbuf_read_copy b dst sz) (\<lambda>d. Inr (advance_rd b sz, d, 0))))"

definition cbuf_peek ::
    "allocator \<Rightarrow> cbuf \<Rightarrow> size_t \<Rightarrow> (cbuf \<times> bufptr option \<times> int) exec" where
  "cbuf_peek al b sz =
     (if sz = 0 then Inr (b, None, 0)
      else (let fill_level = cbuf_fill_level b; off = rd_ptr b AND (cb_size b - 1)
            in if fill_level < sz then Inr (b, None, - EINVAL)
               else if off + sz \<le> cb_size b then Inr (b, Some (Data_At (unat off)), 0)
               else cbind
                 (if read_data_tmp_size b < sz then
                    cbind (if sz \<le> hint_max_read_size b then Inr (hint_max_read_size b)
                           else cbuf_calc_bufsize sz (cb_size b))
                      (\<lambda>n. Inr (b\<lparr>read_data_tmp_size := n,
                                  read_data_tmp := realloc al (read_data_tmp b) (unat n)\<rparr>))
                  else Inr b)
                 (\<lambda>b'. if read_data_tmp_size b < sz \<and> read_data_tmp b' = None
                       then Inr (b', None, - ENOMEM)
                       else cbind (cbuf_split_copy b' (ptr_block b' (read_tmp_ptr b')) sz)
                         (\<lambda>t. Inr (b'\<lparr>read_data_tmp := Some t\<rparr>, Some Read_Tmp, 0)))))"

definition cbuf_discard :: "cbuf \<Rightarrow> size_t \<Rightarrow> cbuf \<times> int" where
  "cbuf_discard b sz =
     (if cbuf_fill_level b < sz then (b, - EINVAL) else (advance_rd b sz, 0))"

text \<open>
  Waiting: the two pthread calls return \<open>lock_rv\<close> and \<open>wait_rv\<close>; the second is made only when
  the first succeeded.
\<close>

definition cbuf_wait_for_level_change :: "int \<Rightarrow> int \<Rightarrow> int" where
  "cbuf_wait_for_level_change lock_rv wait_rv = (if lock_rv \<noteq> 0 then - lock_rv else - wait_rv)"

definition cbuf_timedwait_for_level_change :: "int \<Rightarrow> int \<Rightarrow> int" where
  "cbuf_timedwait_for_level_change lock_rv wait_rv = (if lock_rv \<noteq> 0 then - lock_rv else - wait_rv)"

end
