(* ===== verification/Cbuf_Refinement.thy ===== *)
theory Cbuf_Refinement
  imports Cbuf
begin

text \<open>
  The circular buffer refines a bounded queue of bytes.  \<open>cbuf_wf\<close> is the representation
  invariant, \<open>contents\<close> the abstraction; the lemmas say what every operation of \<open>Cbuf\<close> does to
  the contents, on success and on each error path, and that no operation faults.
\<close>

section \<open>Representation invariant and abstraction\<close>

definition cbuf_fill :: "cbuf \<Rightarrow> nat" where
  "cbuf_fill b =
     (unat (wr_ptr b) + 2 * unat (cb_size b) - unat (rd_ptr b)) mod (2 * unat (cb_size b))"

text \<open>
  The size is a power of two; up to \<open>2 ^ 29\<close> bytes the \<open>int\<close> conversions and the \<open>int\<close> shift of
  the file are exact (the library uses buffers of 32 and 64 KiB).
\<close>

definition cbuf_wf :: "cbuf \<Rightarrow> bool" where
  "cbuf_wf b \<longleftrightarrow> (\<exists>k\<le>29. cb_size b = 2 ^ k) \<and> length (cb_data b) = unat (cb_size b) \<and>
     unat (wr_ptr b) < 2 * unat (cb_size b) \<and> unat (rd_ptr b) < 2 * unat (cb_size b) \<and>
     cbuf_fill b \<le> unat (cb_size b)"

definition tmp_ok :: "size_t \<Rightarrow> u8 list option \<Rightarrow> bool" where
  "tmp_ok sz t = (case t of None \<Rightarrow> sz = 0 | Some m \<Rightarrow> length m = unat sz)"

definition cbuf_tmp_wf :: "cbuf \<Rightarrow> bool" where
  "cbuf_tmp_wf b \<longleftrightarrow> tmp_ok (read_data_tmp_size b) (read_data_tmp b) \<and>
     tmp_ok (write_data_tmp_size b) (write_data_tmp b)"

definition contents :: "cbuf \<Rightarrow> u8 list" where
  "contents b = ring_slice (cb_data b) (unat (rd_ptr b)) (cbuf_fill b)"

abbreviation capacity :: "cbuf \<Rightarrow> nat" where
  "capacity b \<equiv> unat (cb_size b)"

lemma length_contents [simp]: "length (contents b) = cbuf_fill b"
  by (simp add: contents_def)

lemma cbuf_wfD:
  assumes "cbuf_wf b"
  shows "length (cb_data b) = capacity b" "unat (wr_ptr b) < 2 * capacity b"
    "unat (rd_ptr b) < 2 * capacity b" "cbuf_fill b \<le> capacity b" "0 < capacity b"
    "capacity b \<le> 2 ^ 29" "cb_data b \<noteq> []"
proof -
  from assms obtain k where k: "k \<le> 29" "cb_size b = 2 ^ k" by (auto simp: cbuf_wf_def)
  then have c: "capacity b = 2 ^ k" by (simp add: unat_two_power)
  have "(2::nat) ^ k \<le> 2 ^ 29" using k(1) by (intro power_increasing) simp_all
  then show "capacity b \<le> 2 ^ 29" by (simp only: c)
  show "0 < capacity b" by (simp add: c)
  show "cb_data b \<noteq> []" using assms c by (auto simp: cbuf_wf_def)
qed (use assms in \<open>simp_all add: cbuf_wf_def\<close>)

text \<open>The fill level is the distance from the read to the write position, and unique as such.\<close>

lemma wr_rd_fill:
  assumes "cbuf_wf b"
  shows "unat (wr_ptr b) = (unat (rd_ptr b) + cbuf_fill b) mod (2 * capacity b)"
proof -
  note D = cbuf_wfD [OF assms]
  have "(unat (rd_ptr b) + cbuf_fill b) mod (2 * capacity b) =
      (unat (rd_ptr b) + (unat (wr_ptr b) + 2 * capacity b - unat (rd_ptr b))) mod (2 * capacity b)"
    by (simp add: cbuf_fill_def mod_add_right_eq)
  also have "\<dots> = (unat (wr_ptr b) + 2 * capacity b) mod (2 * capacity b)"
    using D(3) by simp
  also have "\<dots> = unat (wr_ptr b)" using D(2) by simp
  finally show ?thesis by simp
qed

lemma cbuf_fill_eqI:
  assumes "unat (wr_ptr b) = (unat (rd_ptr b) + f) mod (2 * capacity b)"
    and "f < 2 * capacity b" and "unat (rd_ptr b) < 2 * capacity b"
  shows "cbuf_fill b = f"
  using ring_dist [of f "2 * capacity b" "unat (rd_ptr b)"] assms by (simp add: cbuf_fill_def)

lemma unat_wr_off:
  assumes "cbuf_wf b"
  shows "unat (wr_ptr b AND (cb_size b - 1)) = unat (wr_ptr b) mod capacity b"
  using assms by (auto simp: cbuf_wf_def unat_and_mask unat_two_power)

lemma unat_rd_off:
  assumes "cbuf_wf b"
  shows "unat (rd_ptr b AND (cb_size b - 1)) = unat (rd_ptr b) mod capacity b"
  using assms by (auto simp: cbuf_wf_def unat_and_mask unat_two_power)

lemma unat_ptr_add:
  assumes "cbuf_wf b" and "unat p < 2 * capacity b" and "unat n \<le> capacity b"
  shows "unat (cbuf_ptr_add b p n) = (unat p + unat n) mod (2 * capacity b)"
proof -
  from assms(1) obtain k where k: "k \<le> 29" "cb_size b = 2 ^ k" by (auto simp: cbuf_wf_def)
  have c: "capacity b = 2 ^ k" using k by (simp add: unat_two_power)
  have "unat p + unat n < 2 ^ 64" using assms(2,3) cbuf_wfD(6) [OF assms(1)] by simp
  then have s: "unat (p + n) = unat p + unat n" by (intro unat_add_small) simp
  have "cbuf_ptr_add b p n = (p + n) AND (2 ^ Suc k - 1)"
    by (simp add: cbuf_ptr_add_def k(2))
  then show ?thesis by (simp only: unat_and_mask s) (simp add: c)
qed

section \<open>Levels\<close>

lemma cbuf_is_full_iff:
  assumes "cbuf_wf b"
  shows "cbuf_is_full b \<longleftrightarrow> cbuf_fill b = capacity b"
proof -
  note D = cbuf_wfD [OF assms]
  from assms obtain k where k: "k \<le> 29" "cb_size b = 2 ^ k" by (auto simp: cbuf_wf_def)
  have c: "capacity b = 2 ^ k" using k by (simp add: unat_two_power)
  let ?r = "unat (rd_ptr b)" and ?S = "capacity b"
  have "unat (rd_ptr b XOR cb_size b) = (if ?S \<le> ?r then ?r - ?S else ?r + ?S)"
    using unat_xor_top [of "rd_ptr b" k] D(3) k by (simp add: unat_two_power)
  also have "\<dots> = (?r + ?S) mod (2 * ?S)"
    using D(3) by (auto simp: mod_if)
  finally have x: "unat (rd_ptr b XOR cb_size b) = (?r + ?S) mod (2 * ?S)" .
  have "cbuf_is_full b \<longleftrightarrow> unat (wr_ptr b) = (?r + ?S) mod (2 * ?S)"
    by (simp add: cbuf_is_full_def flip: x word_unat_eq_iff)
  also have "\<dots> \<longleftrightarrow> cbuf_fill b = ?S"
    using wr_rd_fill [OF assms] cbuf_fill_eqI [of b ?S] D by auto
  finally show ?thesis .
qed

lemma cbuf_is_empty_iff:
  assumes "cbuf_wf b"
  shows "cbuf_is_empty b \<longleftrightarrow> cbuf_fill b = 0"
  using wr_rd_fill [OF assms] cbuf_fill_eqI [of b 0] cbuf_wfD [OF assms]
  by (auto simp: cbuf_is_empty_def word_unat_eq_iff)

text \<open>The difference of the positions is the fill level up to a full buffer, which reads as empty.\<close>

lemma unat_level_diff:
  assumes "cbuf_wf b" and "cbuf_fill b < capacity b"
  shows "unat (cbuf_level_diff b) = cbuf_fill b"
proof -
  note D = cbuf_wfD [OF assms(1)]
  define S f where "S = capacity b" and "f = cbuf_fill b"
  define x y where "x = wr_ptr b AND (cb_size b - 1)" and "y = rd_ptr b AND (cb_size b - 1)"
  have f: "f < S" using assms(2) by (simp add: S_def f_def)
  have x: "unat x = unat (wr_ptr b) mod S" and y: "unat y = unat (rd_ptr b) mod S"
    by (simp_all add: x_def y_def S_def unat_wr_off unat_rd_off assms(1))
  have S: "0 < S" "S \<le> 2 ^ 29" using D by (simp_all add: S_def)
  have b: "unat x < S" "unat y < S" using S by (simp_all add: x y)
  have "unat x = (unat y + f) mod S"
  proof -
    have "unat (wr_ptr b) mod S = (unat (rd_ptr b) + f) mod (2 * S) mod S"
      using wr_rd_fill [OF assms(1)] by (simp add: S_def f_def)
    also have "\<dots> = (unat (rd_ptr b) + f) mod S" by (simp add: mod_mod_cancel)
    finally show ?thesis by (simp add: x y mod_add_left_eq)
  qed
  then have xy: "unat x = (if unat y + f < S then unat y + f else unat y + f - S)"
    using b f by (auto simp: mod_if)
  have sgn: "sint (x - y) = int (unat x) - int (unat y)"
    using b S by (intro sint_diff_small) simp_all
  have lvl: "cbuf_level_diff b = (if sint (x - y) < 0 then x - y + cb_size b else x - y)"
    by (simp add: cbuf_level_diff_def Let_def x_def y_def)
  show ?thesis
  proof (cases "unat y + f < S")
    case True
    then have "unat (x - y) = f"
      using xy by (subst unat_minus_le) (simp_all add: word_le_nat_alt)
    then show ?thesis using True xy by (simp add: lvl sgn f_def)
  next
    case False
    have "unat (x + cb_size b) = unat x + S"
      using b S by (subst unat_add_small) (simp_all add: S_def)
    then have "unat (x + cb_size b - y) = f"
      using xy False b by (subst unat_minus_le) (simp_all add: word_le_nat_alt)
    then show ?thesis using False xy f by (simp add: lvl sgn f_def add_diff_eq diff_add_eq)
  qed
qed

lemma level_diff_full:
  assumes "cbuf_wf b" and "cbuf_fill b = capacity b"
  shows "cbuf_level_diff b = 0"
proof -
  have "unat (wr_ptr b) mod capacity b = unat (rd_ptr b) mod capacity b"
    using wr_rd_fill [OF assms(1)] assms(2) by (simp add: mod_mod_cancel)
  then have "wr_ptr b AND (cb_size b - 1) = rd_ptr b AND (cb_size b - 1)"
    by (simp add: word_unat_eq_iff unat_wr_off unat_rd_off assms(1))
  then show ?thesis by (simp add: cbuf_level_diff_def)
qed

lemma unat_fill_level:
  assumes "cbuf_wf b"
  shows "unat (cbuf_fill_level b) = cbuf_fill b"
  using cbuf_is_full_iff [OF assms] unat_level_diff [OF assms] cbuf_wfD(4) [OF assms]
  by (simp add: cbuf_fill_level_def)

lemma unat_free_level:
  assumes "cbuf_wf b"
  shows "unat (cbuf_free_level b) = capacity b - cbuf_fill b"
  using unat_fill_level [OF assms] cbuf_wfD(4) [OF assms]
  by (simp add: cbuf_free_level_def unat_minus_le word_le_nat_alt)

section \<open>Moving the positions\<close>

lemma advance_simps [simp]:
  "cb_size (advance_wr b n) = cb_size b" "cb_data (advance_wr b n) = cb_data b"
  "rd_ptr (advance_wr b n) = rd_ptr b" "cb_size (advance_rd b n) = cb_size b"
  "cb_data (advance_rd b n) = cb_data b" "wr_ptr (advance_rd b n) = wr_ptr b"
  "level_changed (advance_wr b n) = level_changed b + 1"
  "level_changed (advance_rd b n) = level_changed b + 1"
  "read_data_tmp (advance_wr b n) = read_data_tmp b"
  "read_data_tmp (advance_rd b n) = read_data_tmp b"
  "write_data_tmp (advance_wr b n) = write_data_tmp b"
  "write_data_tmp (advance_rd b n) = write_data_tmp b"
  "read_data_tmp_size (advance_wr b n) = read_data_tmp_size b"
  "read_data_tmp_size (advance_rd b n) = read_data_tmp_size b"
  "write_data_tmp_size (advance_wr b n) = write_data_tmp_size b"
  "write_data_tmp_size (advance_rd b n) = write_data_tmp_size b"
  by (simp_all add: advance_wr_def advance_rd_def)

text \<open>Fields the invariant and the abstraction do not read.\<close>

lemma cbuf_wf_frame:
  assumes "cb_size b' = cb_size b" "cb_data b' = cb_data b" "wr_ptr b' = wr_ptr b"
    "rd_ptr b' = rd_ptr b"
  shows "cbuf_wf b' \<longleftrightarrow> cbuf_wf b" "contents b' = contents b" "cbuf_fill b' = cbuf_fill b"
    "cbuf_fill_level b' = cbuf_fill_level b" "cbuf_free_level b' = cbuf_free_level b"
  using assms
  by (simp_all add: cbuf_wf_def contents_def cbuf_fill_def cbuf_fill_level_def
      cbuf_free_level_def cbuf_is_full_def cbuf_level_diff_def Let_def)

lemma cbuf_data_update:
  assumes "cbuf_wf b" and "length d = length (cb_data b)"
  shows "cbuf_wf (b\<lparr>cb_data := d\<rparr>)" "cbuf_fill (b\<lparr>cb_data := d\<rparr>) = cbuf_fill b"
  using assms by (simp_all add: cbuf_wf_def cbuf_fill_def)

lemma advance_wr_fill:
  assumes "cbuf_wf b" and "cbuf_fill b + unat n \<le> capacity b"
  shows "cbuf_wf (advance_wr b n)" "cbuf_fill (advance_wr b n) = cbuf_fill b + unat n"
proof -
  note D = cbuf_wfD [OF assms(1)]
  let ?M = "2 * capacity b"
  have "unat (wr_ptr (advance_wr b n)) = (unat (wr_ptr b) + unat n) mod ?M"
    using assms D by (simp add: advance_wr_def unat_ptr_add)
  also have "\<dots> = (unat (rd_ptr b) + (cbuf_fill b + unat n)) mod ?M"
    unfolding wr_rd_fill [OF assms(1)] by (simp add: mod_add_left_eq add.assoc)
  finally have w: "unat (wr_ptr (advance_wr b n)) =
      (unat (rd_ptr b) + (cbuf_fill b + unat n)) mod ?M" .
  show f: "cbuf_fill (advance_wr b n) = cbuf_fill b + unat n"
    using w assms D by (intro cbuf_fill_eqI) simp_all
  have "unat (wr_ptr (advance_wr b n)) < ?M" using w D by simp
  then show "cbuf_wf (advance_wr b n)" using assms f by (simp add: cbuf_wf_def)
qed

lemma advance_rd_fill:
  assumes "cbuf_wf b" and "unat n \<le> cbuf_fill b"
  shows "cbuf_wf (advance_rd b n)" "cbuf_fill (advance_rd b n) = cbuf_fill b - unat n"
    "unat (rd_ptr (advance_rd b n)) = (unat (rd_ptr b) + unat n) mod (2 * capacity b)"
proof -
  note D = cbuf_wfD [OF assms(1)]
  let ?M = "2 * capacity b"
  show r: "unat (rd_ptr (advance_rd b n)) = (unat (rd_ptr b) + unat n) mod ?M"
    using assms D by (simp add: advance_rd_def unat_ptr_add)
  have "unat (wr_ptr b) = (unat (rd_ptr b) + unat n + (cbuf_fill b - unat n)) mod ?M"
    unfolding wr_rd_fill [OF assms(1)] using assms(2) by simp
  then have w: "unat (wr_ptr (advance_rd b n)) =
      (unat (rd_ptr (advance_rd b n)) + (cbuf_fill b - unat n)) mod ?M"
    by (simp add: r mod_add_left_eq)
  have rl: "unat (rd_ptr (advance_rd b n)) < ?M" using r D by simp
  show f: "cbuf_fill (advance_rd b n) = cbuf_fill b - unat n"
    using w rl D by (intro cbuf_fill_eqI) simp_all
  have "cbuf_fill b - unat n \<le> capacity b" using D(4) by linarith
  then show "cbuf_wf (advance_rd b n)" using assms f rl by (simp add: cbuf_wf_def)
qed

text \<open>The cells behind the contents are where a write goes.\<close>

lemma ring_put_at_wr:
  assumes "cbuf_wf b"
  shows "ring_put (cb_data b) (unat (wr_ptr b)) bs =
    ring_put (cb_data b) (unat (rd_ptr b) + cbuf_fill b) bs"
proof -
  note D = cbuf_wfD [OF assms]
  have "unat (wr_ptr b) mod capacity b = (unat (rd_ptr b) + cbuf_fill b) mod capacity b"
    unfolding wr_rd_fill [OF assms] by (simp add: mod_mod_cancel)
  then show ?thesis using ring_put_mod [of "cb_data b"] D(1) by metis
qed

lemma contents_advance_wr:
  assumes "cbuf_wf b" and "cbuf_fill b + unat n \<le> capacity b"
  shows "contents (advance_wr b n) =
    contents b @ ring_slice (cb_data b) (unat (wr_ptr b)) (unat n)"
proof -
  note D = cbuf_wfD [OF assms(1)]
  have "unat (wr_ptr b) mod capacity b = (unat (rd_ptr b) + cbuf_fill b) mod capacity b"
    unfolding wr_rd_fill [OF assms(1)] by (simp add: mod_mod_cancel)
  then have "ring_slice (cb_data b) (unat (rd_ptr b) + cbuf_fill b) (unat n) =
      ring_slice (cb_data b) (unat (wr_ptr b)) (unat n)"
    using ring_slice_mod [of "cb_data b"] D(1) by metis
  then show ?thesis
    using advance_wr_fill [OF assms] by (simp add: contents_def ring_slice_add)
qed

lemma contents_put:
  assumes "cbuf_wf b" and "cbuf_fill b + length bs \<le> capacity b"
  shows "contents (b\<lparr>cb_data := ring_put (cb_data b) (unat (wr_ptr b)) bs\<rparr>) = contents b"
  using assms cbuf_wfD [OF assms(1)]
  by (simp add: contents_def cbuf_data_update ring_put_at_wr ring_slice_put_before)

lemma contents_write:
  assumes "cbuf_wf b" and "cbuf_fill b + length bs \<le> capacity b" and "unat n \<le> length bs"
  shows "contents (advance_wr (b\<lparr>cb_data := ring_put (cb_data b) (unat (wr_ptr b)) bs\<rparr>) n) =
    contents b @ take (unat n) bs"
proof -
  note D = cbuf_wfD [OF assms(1)]
  let ?b = "b\<lparr>cb_data := ring_put (cb_data b) (unat (wr_ptr b)) bs\<rparr>"
  have "cbuf_wf ?b" "cbuf_fill ?b = cbuf_fill b"
    using assms(1) by (simp_all add: cbuf_data_update)
  moreover have "ring_slice (cb_data ?b) (unat (wr_ptr ?b)) (unat n) = take (unat n) bs"
    using ring_slice_put_same [of bs "cb_data b" "unat (wr_ptr b)"] assms(2,3) D
      ring_slice_take [OF assms(3), of "cb_data ?b" "unat (wr_ptr b)"] by simp
  ultimately show ?thesis
    using contents_advance_wr [of ?b n] contents_put [OF assms(1,2)] assms(2,3) by simp
qed

lemma contents_advance_rd:
  assumes "cbuf_wf b" and "unat n \<le> cbuf_fill b"
  shows "contents (advance_rd b n) = drop (unat n) (contents b)"
proof -
  note D = cbuf_wfD [OF assms(1)]
  have m: "(unat (rd_ptr b) + unat n) mod (2 * capacity b) mod capacity b =
      (unat (rd_ptr b) + unat n) mod capacity b"
    by (simp add: mod_mod_cancel)
  have "contents (advance_rd b n) = ring_slice (cb_data b)
      ((unat (rd_ptr b) + unat n) mod (2 * capacity b)) (cbuf_fill b - unat n)"
    using advance_rd_fill [OF assms] by (simp add: contents_def)
  also have "\<dots> = ring_slice (cb_data b) (unat (rd_ptr b) + unat n) (cbuf_fill b - unat n)"
    using ring_slice_mod [of "cb_data b" "(unat (rd_ptr b) + unat n) mod (2 * capacity b)"]
      ring_slice_mod [of "cb_data b" "unat (rd_ptr b) + unat n"] D(1) m by simp
  also have "\<dots> = drop (unat n) (contents b)"
    using assms(2) by (simp add: contents_def ring_slice_drop)
  finally show ?thesis .
qed

section \<open>Basic mode: write, read, discard\<close>

lemma cbuf_write_einval:
  "cbuf_wf b \<Longrightarrow> capacity b - cbuf_fill b < unat sz \<Longrightarrow> cbuf_write b src sz = Inr (b, - EINVAL)"
  by (simp add: cbuf_write_def word_less_nat_alt unat_free_level)

lemma off_add_le_iff:
  assumes "cbuf_wf b" and "unat off < capacity b" and "unat sz \<le> capacity b"
  shows "off + sz \<le> cb_size b \<longleftrightarrow> unat off + unat sz \<le> capacity b"
  using assms cbuf_wfD(6) [OF assms(1)] by (simp add: word_le_nat_alt unat_add_small)

text \<open>The copy of \<open>cbuf_write\<close>, in either of its two cases, lays the string down behind the contents.\<close>

lemma cbuf_write_copy_ok:
  assumes "cbuf_wf b" and "unat sz \<le> capacity b" and "unat sz \<le> length src"
  shows "cbuf_write_copy b src sz =
    Inr (ring_put (cb_data b) (unat (wr_ptr b)) (take (unat sz) src))"
proof -
  note D = cbuf_wfD [OF assms(1)]
  define off where "off = wr_ptr b AND (cb_size b - 1)"
  have o: "unat off = unat (wr_ptr b) mod length (cb_data b)"
    using unat_wr_off [OF assms(1)] D(1) by (simp add: off_def)
  have ol: "unat off < capacity b" using o D by simp
  note sz = assms(2)
  have e: "unat (cb_size b - off) = length (cb_data b) - unat off"
    using ol D(1) by (subst unat_minus_le) (simp_all add: word_le_nat_alt)
  show ?thesis
  proof (cases "unat off + unat sz \<le> capacity b")
    case True
    then show ?thesis
      using o D assms(3) memcpy_ring_put [of "unat (wr_ptr b)" "cb_data b" "unat sz" src]
      by (simp add: cbuf_write_copy_def off_add_le_iff [OF assms(1) ol sz] flip: off_def)
  next
    case False
    then have "cb_size b - off \<le> sz" using e D(1) by (simp add: word_le_nat_alt)
    then have "unat (sz - (cb_size b - off)) = unat sz - (length (cb_data b) - unat off)"
      by (simp add: unat_minus_le e)
    then show ?thesis
      using False o e D assms(3) sz
        memcpy_ring_put_split [of "cb_data b" "unat (wr_ptr b)" "unat sz" src]
      by (simp add: cbuf_write_copy_def Let_def off_add_le_iff [OF assms(1) ol sz] flip: off_def)
  qed
qed

lemma cbuf_write_ok:
  assumes "cbuf_wf b" and "unat sz \<le> capacity b - cbuf_fill b" and "unat sz \<le> length src"
  shows "cbuf_write b src sz =
    Inr (advance_wr (b\<lparr>cb_data :=
      ring_put (cb_data b) (unat (wr_ptr b)) (take (unat sz) src)\<rparr>) sz, 0)"
  using assms cbuf_write_copy_ok [OF assms(1) _ assms(3)]
  by (simp add: cbuf_write_def word_less_nat_alt unat_free_level)

lemma cbuf_read_zero: "cbuf_read b dst 0 = Inr (b, dst, 0)"
  by (simp add: cbuf_read_def)

lemma cbuf_read_einval:
  "cbuf_wf b \<Longrightarrow> cbuf_fill b < unat sz \<Longrightarrow> cbuf_read b dst sz = Inr (b, dst, - EINVAL)"
  by (auto simp: cbuf_read_def word_less_nat_alt unat_fill_level)

lemma cbuf_split_copy_ok:
  assumes "cbuf_wf b" and "unat sz \<le> capacity b" and "unat sz \<le> length dst"
    and "capacity b < unat (rd_ptr b) mod capacity b + unat sz"
  shows "cbuf_split_copy b dst sz =
    Inr (ring_slice (cb_data b) (unat (rd_ptr b)) (unat sz) @ drop (unat sz) dst)"
proof -
  note D = cbuf_wfD [OF assms(1)]
  define off where "off = rd_ptr b AND (cb_size b - 1)"
  have o: "unat off = unat (rd_ptr b) mod length (cb_data b)"
    using unat_rd_off [OF assms(1)] D(1) by (simp add: off_def)
  have ol: "unat off < capacity b" using o D by simp
  have e: "unat (cb_size b - off) = length (cb_data b) - unat off"
    using ol D(1) by (subst unat_minus_le) (simp_all add: word_le_nat_alt)
  have i: "of_int32 (to_int (cb_size b - off)) = cb_size b - off"
    using e D by (intro of_int32_to_int) simp
  have "cb_size b - off \<le> sz" using e o D(1) assms(4) by (simp add: word_le_nat_alt)
  then have "unat (sz - (cb_size b - off)) = unat sz - (length (cb_data b) - unat off)"
    by (simp add: unat_minus_le e)
  then show ?thesis
    using o e i D assms memcpy_ring_slice_split [of "cb_data b" "unat (rd_ptr b)" "unat sz" dst]
    by (simp add: cbuf_split_copy_def Let_def flip: off_def)
qed

lemma cbuf_read_copy_ok:
  assumes "cbuf_wf b" and "unat sz \<le> cbuf_fill b" and "unat sz \<le> length dst"
  shows "cbuf_read_copy b dst sz = Inr (take (unat sz) (contents b) @ drop (unat sz) dst)"
proof -
  note D = cbuf_wfD [OF assms(1)]
  define off where "off = rd_ptr b AND (cb_size b - 1)"
  have o: "unat off = unat (rd_ptr b) mod length (cb_data b)"
    using unat_rd_off [OF assms(1)] D(1) by (simp add: off_def)
  have ol: "unat off < capacity b" using o D by simp
  have sz: "unat sz \<le> capacity b" using assms(2) D by simp
  have c: "take (unat sz) (contents b) = ring_slice (cb_data b) (unat (rd_ptr b)) (unat sz)"
    using assms(2) by (simp add: contents_def ring_slice_take)
  show ?thesis
  proof (cases "unat off + unat sz \<le> capacity b")
    case True
    then show ?thesis
      using o D assms(3) c memcpy_ring_slice [of "unat (rd_ptr b)" "cb_data b" "unat sz" 0 dst]
      by (simp add: cbuf_read_copy_def off_add_le_iff [OF assms(1) ol sz] flip: off_def)
  next
    case split: False
    then show ?thesis
      using o D c cbuf_split_copy_ok [OF assms(1) sz assms(3)]
      by (simp add: cbuf_read_copy_def off_add_le_iff [OF assms(1) ol sz] flip: off_def)
  qed
qed

lemma cbuf_read_ok:
  assumes "cbuf_wf b" and "unat sz \<le> cbuf_fill b" and "unat sz \<le> length dst"
  shows "cbuf_read b dst sz =
    Inr (if sz = 0 then b else advance_rd b sz,
         take (unat sz) (contents b) @ drop (unat sz) dst, 0)"
  using assms cbuf_read_copy_ok [OF assms]
  by (auto simp: cbuf_read_def word_less_nat_alt unat_fill_level)

lemma cbuf_discard_ok:
  "cbuf_wf b \<Longrightarrow> unat sz \<le> cbuf_fill b \<Longrightarrow> cbuf_discard b sz = (advance_rd b sz, 0)"
  by (simp add: cbuf_discard_def word_less_nat_alt unat_fill_level)

lemma cbuf_discard_einval:
  "cbuf_wf b \<Longrightarrow> cbuf_fill b < unat sz \<Longrightarrow> cbuf_discard b sz = (b, - EINVAL)"
  by (simp add: cbuf_discard_def word_less_nat_alt unat_fill_level)

section \<open>API mode: reserve and commit\<close>

lemma calc_log2_bounds:
  assumes "s \<noteq> 0"
  shows "\<exists>d. calc_log2 s l = l + d \<and> 2 ^ d \<le> unat s \<and> unat s < 2 ^ Suc d"
  using assms
proof (induction s l rule: calc_log2.induct)
  case (1 s l)
  have h: "unat (drop_bit 1 s) = unat s div 2" by (simp add: drop_bit_eq_div unat_div)
  show ?case
  proof (cases "drop_bit 1 s = 0")
    case True
    then have "unat s div 2 = 0" using h by simp
    moreover have "0 < unat s" using "1.prems" by (simp add: unat_gt_0)
    ultimately show ?thesis using True by (intro exI [of _ 0]) simp
  next
    case False
    from "1.IH" [OF refl False False] obtain d where
      d: "calc_log2 (drop_bit 1 s) (l + 1) = l + 1 + d" "2 ^ d \<le> unat s div 2"
        "unat s div 2 < 2 ^ Suc d"
      using h by auto
    have "2 ^ Suc d \<le> unat s" "unat s < 2 ^ Suc (Suc d)" using d(2,3) by auto
    then show ?thesis using False d(1) by (intro exI [of _ "Suc d"]) simp
  qed
qed

declare calc_log2.simps [simp del]

lemma cbuf_calc_bufsize_ok:
  assumes "req \<noteq> 0" and "unat req \<le> 2 ^ 29"
  shows "\<exists>d n. cbuf_calc_bufsize req mx = Inr n \<and> 2 ^ d \<le> unat req \<and> unat req < 2 ^ Suc d \<and>
    unat n = min (2 ^ Suc d) (unat mx)"
proof -
  from calc_log2_bounds [OF assms(1), of 0] obtain d where
    d: "calc_log2 req 0 = d" "2 ^ d \<le> unat req" "unat req < 2 ^ Suc d" by auto
  have "(2::nat) ^ d \<le> 2 ^ 29" using d(2) assms(2) by linarith
  then have d29: "d \<le> 29" by (rule power_le_imp_le_exp [rotated]) simp
  have p: "unat (push_bit (Suc d) (1::size_t)) = 2 ^ Suc d"
    using d29 by (simp add: push_bit_eq_mult unat_two_power del: power_Suc)
  show ?thesis
    using d d29 p
    by (intro exI [of _ d] exI [of _ "if push_bit (Suc d) 1 > mx then mx else push_bit (Suc d) 1"])
      (auto simp: cbuf_calc_bufsize_def word_less_nat_alt min_def)
qed

text \<open>What \<open>cbuf_reserve\<close> hands out and \<open>cbuf_commit\<close> relies on.\<close>

definition reserved :: "cbuf \<Rightarrow> bufptr \<Rightarrow> nat \<Rightarrow> bool" where
  "reserved b p n \<longleftrightarrow> cbuf_fill b + n \<le> capacity b \<and>
     (let off = unat (wr_ptr b) mod capacity b
      in p = Data_At off \<and> off + n \<le> capacity b \<or>
         p = Write_Tmp \<and> capacity b < off + n \<and>
           (\<exists>t. write_data_tmp b = Some t \<and> n \<le> length t))"

lemma cbuf_reserve_einval:
  "cbuf_wf b \<Longrightarrow> capacity b - cbuf_fill b < unat sz \<Longrightarrow>
     cbuf_reserve al b sz = Inr (b, None, - EINVAL)"
  by (simp add: cbuf_reserve_def word_less_nat_alt unat_free_level)

lemma cbuf_reserve_cases:
  assumes "cbuf_wf b" and "cbuf_tmp_wf b" and "alloc_ok al"
    and "unat sz \<le> capacity b - cbuf_fill b"
  obtains (ok) b' p where "cbuf_reserve al b sz = Inr (b', Some p, 0)" "cbuf_wf b'"
      "cbuf_tmp_wf b'" "contents b' = contents b" "cb_size b' = cb_size b" "reserved b' p (unat sz)"
  | (no_memory) b' n where "cbuf_reserve al b sz = Inr (b', None, - ENOMEM)" "cbuf_wf b'"
      "contents b' = contents b" "al n = None"
      "\<And>al'. cbuf_reserve al' b' sz = Inr (b', Some Null_Ptr, 0)"
proof -
  note D = cbuf_wfD [OF assms(1)]
  define off where "off = wr_ptr b AND (cb_size b - 1)"
  have o: "unat off = unat (wr_ptr b) mod capacity b"
    using unat_wr_off [OF assms(1)] D(1) by (simp add: off_def)
  have ol: "unat off < capacity b" using o D by simp
  have sz: "unat sz \<le> capacity b" "cbuf_fill b + unat sz \<le> capacity b" using assms(4) D(4) by simp_all
  have nf: "\<not> sz > cbuf_free_level b"
    using assms(4) by (simp add: word_less_nat_alt unat_free_level [OF assms(1)])
  note def = cbuf_reserve_def [of al b sz, unfolded Let_def, folded off_def]
  note le = off_add_le_iff [OF assms(1) ol sz(1)]
  show ?thesis
  proof (cases "unat off + unat sz \<le> capacity b")
    case True
    then have "cbuf_reserve al b sz = Inr (b, Some (Data_At (unat off)), 0)"
      using nf by (simp add: def le)
    moreover have "reserved b (Data_At (unat off)) (unat sz)"
      unfolding reserved_def Let_def using True sz o by simp
    ultimately show ?thesis using assms by (intro ok) simp_all
  next
    case split: False
    then have nz: "sz \<noteq> 0" using ol by auto
    show ?thesis
    proof (cases "write_data_tmp_size b < sz")
      case False
      then obtain t where t: "write_data_tmp b = Some t" "unat sz \<le> length t"
        using assms(2) nz
        by (auto simp: cbuf_tmp_wf_def tmp_ok_def word_less_nat_alt unat_eq_0 split: option.splits)
      have "cbuf_reserve al b sz = Inr (b, Some Write_Tmp, 0)"
        using split False nf t by (simp add: def le write_tmp_ptr_def)
      moreover have "reserved b Write_Tmp (unat sz)"
        unfolding reserved_def Let_def using split sz o t by simp
      ultimately show ?thesis using assms by (intro ok) simp_all
    next
      case grow: True
      have "unat sz \<le> 2 ^ 29" using sz D by linarith
      then obtain n where n: "(if sz \<le> hint_max_write_size b then Inr (hint_max_write_size b)
          else cbuf_calc_bufsize sz (cb_size b)) = Inr n" "unat sz \<le> unat n"
        using cbuf_calc_bufsize_ok [OF nz, of "cb_size b"] sz
        by (cases "sz \<le> hint_max_write_size b") (auto simp: word_le_nat_alt)
      define b' where "b' = b\<lparr>write_data_tmp_size := n,
        write_data_tmp := realloc al (write_data_tmp b) (unat n)\<rparr>"
      have fr: "cbuf_wf b'" "contents b' = contents b" "cbuf_fill b' = cbuf_fill b"
        using assms(1) cbuf_wf_frame [of b' b] by (simp_all add: b'_def)
      have step: "cbuf_reserve al b sz = (if write_data_tmp b' = None
          then Inr (b', None, - ENOMEM) else Inr (b', Some (write_tmp_ptr b'), 0))"
        using split grow nf n(1) by (simp add: def le b'_def)
      show ?thesis
      proof (cases "realloc al (write_data_tmp b) (unat n)")
        case None
        have cs: "cb_size b' = cb_size b" and "wr_ptr b' AND (cb_size b' - 1) = off"
          "\<not> write_data_tmp_size b' < sz" "write_tmp_ptr b' = Null_Ptr"
          using None n(2) by (simp_all add: b'_def off_def write_tmp_ptr_def word_less_nat_alt)
        moreover have "\<not> sz > cbuf_free_level b'"
          using assms(4) unat_free_level [OF fr(1)] fr(3)
          by (simp add: word_less_nat_alt cs)
        ultimately have "cbuf_reserve al' b' sz = Inr (b', Some Null_Ptr, 0)" for al'
          using split by (simp add: cbuf_reserve_def Let_def le cs)
        then show ?thesis using None
          using step fr by (intro no_memory [of b' "unat n"]) (simp_all add: b'_def realloc_def)
      next
        case (Some t)
        then have t: "length t = unat n" "write_data_tmp b' = Some t"
          using realloc_length [OF assms(3)] by (simp_all add: b'_def)
        have "cbuf_tmp_wf b'"
          using assms(2) t by (simp add: cbuf_tmp_wf_def tmp_ok_def b'_def)
        moreover have "reserved b' Write_Tmp (unat sz)"
          using split sz o t n(2) fr(3) by (simp add: reserved_def Let_def b'_def)
        ultimately show ?thesis
          using step t fr by (intro ok [of b' Write_Tmp]) (simp_all add: write_tmp_ptr_def b'_def)
      qed
    qed
  qed
qed

text \<open>A store of the caller through a reserved pointer stays in the reservation.\<close>

lemma ptr_store_reserved:
  assumes "cbuf_wf b" and "reserved b p n" and "length bs \<le> n"
  obtains b' where "ptr_store b p bs = Inr b'" "cbuf_wf b'" "contents b' = contents b"
    "reserved b' p n" "take (length bs) (ptr_block b' p) = bs" "cb_size b' = cb_size b"
    "cbuf_tmp_wf b' = cbuf_tmp_wf b"
proof -
  note D = cbuf_wfD [OF assms(1)]
  define off where "off = unat (wr_ptr b) mod capacity b"
  have room: "cbuf_fill b + n \<le> capacity b" using assms(2) by (simp add: reserved_def)
  from assms(2) consider (data) "p = Data_At off" "off + n \<le> capacity b"
    | (tmp) t where "p = Write_Tmp" "capacity b < off + n" "write_data_tmp b = Some t"
        "n \<le> length t"
    by (auto simp: reserved_def Let_def off_def)
  then show thesis
  proof cases
    case data
    have off': "off = unat (wr_ptr b) mod length (cb_data b)" by (simp add: off_def D(1))
    define b' where "b' = b\<lparr>cb_data := ring_put (cb_data b) (unat (wr_ptr b)) bs\<rparr>"
    have st: "ptr_store b p bs = Inr b'"
      using memcpy_ring_put [of "unat (wr_ptr b)" "cb_data b" "length bs" bs] data assms(3) D
      by (simp add: ptr_store_def b'_def off')
    have wf: "cbuf_wf b'" "cbuf_fill b' = cbuf_fill b"
      using assms(1) by (simp_all add: b'_def cbuf_data_update)
    have c: "contents b' = contents b"
      using wf(2) room assms(3) D
      by (simp add: contents_def b'_def ring_put_at_wr [OF assms(1)] ring_slice_put_before)
    have blk: "take (length bs) (ptr_block b' p) = bs"
      using ring_put_contiguous [of "unat (wr_ptr b)" "cb_data b" bs] data(2) assms(3) D
      by (simp add: ptr_block_def data(1) b'_def off')
    have r: "reserved b' p n"
      using assms(2) wf(2) by (simp add: reserved_def b'_def)
    show thesis using that [OF st wf(1) c r blk] by (simp add: b'_def cbuf_tmp_wf_def)
  next
    case tmp
    define b' where "b' = b\<lparr>write_data_tmp := Some (bs @ drop (length bs) t)\<rparr>"
    have st: "ptr_store b p bs = Inr b'"
      using tmp assms(3) by (simp add: ptr_store_def memcpy_def b'_def)
    have fr: "cbuf_wf b'" "contents b' = contents b" "cbuf_fill b' = cbuf_fill b"
      using assms(1) cbuf_wf_frame [of b' b] by (simp_all add: b'_def)
    have blk: "take (length bs) (ptr_block b' p) = bs"
      by (simp add: ptr_block_def tmp(1) b'_def)
    have r: "reserved b' p n"
      using assms(2,3) tmp fr(3) by (simp add: reserved_def b'_def)
    have "cbuf_tmp_wf b' = cbuf_tmp_wf b"
      using tmp assms(3) by (simp add: cbuf_tmp_wf_def tmp_ok_def b'_def)
    then show thesis using that [OF st fr(1,2) r blk] by (simp add: b'_def)
  qed
qed

lemma cbuf_commit_zero: "cbuf_commit b p 0 = Inr (b, 0)"
  by (simp add: cbuf_commit_def)

lemma cbuf_commit_ok:
  assumes "cbuf_wf b" and "reserved b p n" and "unat sz \<le> n"
  obtains b' where "cbuf_commit b p sz = Inr (b', 0)" "cbuf_wf b'"
    "contents b' = contents b @ take (unat sz) (ptr_block b p)" "cb_size b' = cb_size b"
    "cbuf_tmp_wf b' = cbuf_tmp_wf b"
proof (cases "sz = 0")
  case True
  then show thesis using that [of b] assms(1) by (simp add: cbuf_commit_zero)
next
  case nz: False
  note D = cbuf_wfD [OF assms(1)]
  define off where "off = wr_ptr b AND (cb_size b - 1)"
  have o: "unat off = unat (wr_ptr b) mod length (cb_data b)"
    using unat_wr_off [OF assms(1)] D(1) by (simp add: off_def)
  have ol: "unat off < capacity b" using o D by simp
  have room: "cbuf_fill b + n \<le> capacity b" using assms(2) by (simp add: reserved_def)
  from assms(2) consider (data) "p = Data_At (unat off)" "unat off + n \<le> capacity b"
    | (tmp) t where "p = Write_Tmp" "capacity b < unat off + n" "write_data_tmp b = Some t"
        "n \<le> length t"
    by (auto simp: reserved_def Let_def o D(1))
  then show thesis
  proof cases
    case data
    define bs where "bs = take (unat sz) (drop (unat off) (cb_data b))"
    have len: "length bs = unat sz" using data assms(3) D by (simp add: bs_def)
    have same: "ring_put (cb_data b) (unat (wr_ptr b)) bs = cb_data b"
      using ring_put_contiguous [of "unat (wr_ptr b)" "cb_data b" bs] data assms(3) D len o
      by (simp add: bs_def) (metis append_take_drop_id drop_drop add.commute)
    have fill: "cbuf_fill b + length bs \<le> capacity b" using room assms(3) len by simp
    have ne: "p \<noteq> write_tmp_ptr b" using data by (simp add: write_tmp_ptr_def split: option.splits)
    have "cbuf_commit b p sz = Inr (advance_wr b sz, 0)"
      using nz ne by (simp add: cbuf_commit_def)
    moreover have "contents (advance_wr b sz) = contents b @ take (unat sz) (ptr_block b p)"
      using contents_write [OF assms(1) fill, of sz] same len
      by (simp add: bs_def ptr_block_def data(1))
    ultimately show thesis
      using that [of "advance_wr b sz"] advance_wr_fill(1) [OF assms(1), of sz] fill len
      by (simp add: cbuf_tmp_wf_def)
  next
    case tmp
    define e where "e = cb_size b - off"
    have e: "unat e = length (cb_data b) - unat off"
      using ol D(1) unfolding e_def by (subst unat_minus_le) (simp_all add: word_le_nat_alt)
    define m where "m = max (unat sz) (unat e)"
    have m: "unat sz \<le> m" "m \<le> n" "m \<le> length t" "length (cb_data b) \<le> unat off + m"
      using assms(3) tmp e D(1) ol by (auto simp: m_def)
    define bs where "bs = take m t"
    have len: "length bs = m" using m by (simp add: bs_def)
    define d where "d = ring_put (cb_data b) (unat (wr_ptr b)) bs"
    have p: "p = write_tmp_ptr b" "ptr_block b p = t"
      using tmp by (simp_all add: write_tmp_ptr_def ptr_block_def)
    have two: "cbind (memcpy (cb_data b) (unat off) t 0 (unat e))
        (\<lambda>d. if e < sz then memcpy d 0 t (unat e) (unat (sz - e)) else Inr d) = Inr d"
    proof (cases "e < sz")
      case True
      then have "m = unat sz" "unat (sz - e) = unat sz - unat e"
        by (auto simp: m_def word_less_nat_alt unat_minus_le word_le_nat_alt)
      then show ?thesis
        using memcpy_ring_put_split [of "cb_data b" "unat (wr_ptr b)" m t] True m D(1,7) o e room
        by (simp add: d_def bs_def)
    next
      case False
      then have "m = unat e" by (simp add: m_def word_less_nat_alt)
      then show ?thesis
        using memcpy_ring_put [of "unat (wr_ptr b)" "cb_data b" m t] False m D o e ol
        by (simp add: d_def bs_def)
    qed
    have "cbuf_commit b p sz = Inr (advance_wr (b\<lparr>cb_data := d\<rparr>) sz, 0)"
      unfolding cbuf_commit_def [of b p sz, unfolded Let_def, folded off_def, folded e_def] p(2)
      using nz two p(1) by simp
    moreover have "contents (advance_wr (b\<lparr>cb_data := d\<rparr>) sz) =
        contents b @ take (unat sz) (ptr_block b p)"
      using contents_write [OF assms(1), of bs sz] room m len p(2)
      by (simp add: d_def bs_def min_def)
    moreover have "cbuf_wf (advance_wr (b\<lparr>cb_data := d\<rparr>) sz)"
      using advance_wr_fill(1) [of "b\<lparr>cb_data := d\<rparr>" sz] cbuf_data_update [OF assms(1), of d]
        room assms(3) by (simp add: d_def)
    ultimately show thesis
      using that [of "advance_wr (b\<lparr>cb_data := d\<rparr>) sz"] by (simp add: cbuf_tmp_wf_def)
  qed
qed

section \<open>API mode: peek\<close>

lemma cbuf_peek_zero: "cbuf_peek al b 0 = Inr (b, None, 0)"
  by (simp add: cbuf_peek_def)

lemma cbuf_peek_einval:
  "cbuf_wf b \<Longrightarrow> cbuf_fill b < unat sz \<Longrightarrow> cbuf_peek al b sz = Inr (b, None, - EINVAL)"
  by (auto simp: cbuf_peek_def Let_def word_less_nat_alt unat_fill_level)

lemma cbuf_peek_cases:
  assumes "cbuf_wf b" and "cbuf_tmp_wf b" and "alloc_ok al"
    and "unat sz \<le> cbuf_fill b" and "sz \<noteq> 0"
  obtains (ok) b' p where "cbuf_peek al b sz = Inr (b', Some p, 0)" "cbuf_wf b'"
      "cbuf_tmp_wf b'" "contents b' = contents b" "cb_size b' = cb_size b"
      "ptr_load b' p (unat sz) = Inr (take (unat sz) (contents b))"
  | (no_memory) b' n where "cbuf_peek al b sz = Inr (b', None, - ENOMEM)" "cbuf_wf b'"
      "contents b' = contents b" "al n = None"
proof -
  note D = cbuf_wfD [OF assms(1)]
  define off where "off = rd_ptr b AND (cb_size b - 1)"
  have o: "unat off = unat (rd_ptr b) mod capacity b"
    using unat_rd_off [OF assms(1)] D(1) by (simp add: off_def)
  have ol: "unat off < capacity b" using o D by simp
  have sz: "unat sz \<le> capacity b" using assms(4) D(4) by simp
  have nf: "\<not> cbuf_fill_level b < sz"
    using assms(4) by (simp add: word_less_nat_alt unat_fill_level [OF assms(1)])
  have c: "take (unat sz) (contents b) = ring_slice (cb_data b) (unat (rd_ptr b)) (unat sz)"
    using assms(4) by (simp add: contents_def ring_slice_take)
  note def = cbuf_peek_def [of al b sz, unfolded Let_def, folded off_def]
  note le = off_add_le_iff [OF assms(1) ol sz]
  show ?thesis
  proof (cases "unat off + unat sz \<le> capacity b")
    case True
    then have "cbuf_peek al b sz = Inr (b, Some (Data_At (unat off)), 0)"
      using nf assms(5) by (simp add: def le)
    moreover have "ptr_load b (Data_At (unat off)) (unat sz) = Inr (take (unat sz) (contents b))"
      using True o D ring_slice_contiguous [of "unat (rd_ptr b)" "cb_data b" "unat sz"]
      by (simp add: ptr_load_def ptr_block_def c)
    ultimately show ?thesis using assms by (intro ok) simp_all
  next
    case split: False
    have finish: ?thesis
      if b': "cbuf_wf b'" "contents b' = contents b" "cb_size b' = cb_size b"
          "rd_ptr b' = rd_ptr b" "cb_data b' = cb_data b" "cbuf_tmp_wf b'"
        and t: "read_data_tmp b' = Some t" "unat sz \<le> length t"
        and eq: "cbuf_peek al b sz = cbind (cbuf_split_copy b' t sz)
          (\<lambda>t. Inr (b'\<lparr>read_data_tmp := Some t\<rparr>, Some Read_Tmp, 0))" for b' t
    proof -
      define u where "u = take (unat sz) (contents b) @ drop (unat sz) t"
      define b'' where "b'' = b'\<lparr>read_data_tmp := Some u\<rparr>"
      have cp: "cbuf_split_copy b' t sz = Inr u"
        using cbuf_split_copy_ok [OF b'(1) _ t(2)] b'(3-5) sz split o c by (simp add: u_def)
      have fr: "cbuf_wf b''" "contents b'' = contents b" "cb_size b'' = cb_size b"
        using b' cbuf_wf_frame [of b'' b'] by (simp_all add: b''_def)
      have "cbuf_tmp_wf b''"
        using b'(6) t assms(4) by (simp add: cbuf_tmp_wf_def tmp_ok_def b''_def u_def min_def)
      moreover have "ptr_load b'' Read_Tmp (unat sz) = Inr (take (unat sz) (contents b))"
        using assms(4) t(2) by (simp add: ptr_load_def ptr_block_def b''_def u_def min_def)
      ultimately show ?thesis
        using cp eq fr by (intro ok [of b'' Read_Tmp]) (simp_all add: b''_def)
    qed
    show ?thesis
    proof (cases "read_data_tmp_size b < sz")
      case False
      then obtain t where t: "read_data_tmp b = Some t" "unat sz \<le> length t"
        using assms(2,5)
        by (auto simp: cbuf_tmp_wf_def tmp_ok_def word_less_nat_alt unat_eq_0 split: option.splits)
      show ?thesis
        by (rule finish [of b t])
          (use split False nf t assms in \<open>simp_all add: def le read_tmp_ptr_def ptr_block_def\<close>)
    next
      case grow: True
      have "unat sz \<le> 2 ^ 29" using sz D by linarith
      then obtain n where n: "(if sz \<le> hint_max_read_size b then Inr (hint_max_read_size b)
          else cbuf_calc_bufsize sz (cb_size b)) = Inr n" "unat sz \<le> unat n"
        using cbuf_calc_bufsize_ok [OF assms(5), of "cb_size b"] sz
        by (cases "sz \<le> hint_max_read_size b") (auto simp: word_le_nat_alt)
      define b' where "b' = b\<lparr>read_data_tmp_size := n,
        read_data_tmp := realloc al (read_data_tmp b) (unat n)\<rparr>"
      have fr: "cbuf_wf b'" "contents b' = contents b"
        using assms(1) cbuf_wf_frame [of b' b] by (simp_all add: b'_def)
      have step: "cbuf_peek al b sz = (if read_data_tmp b' = None
          then Inr (b', None, - ENOMEM)
          else cbind (cbuf_split_copy b' (ptr_block b' (read_tmp_ptr b')) sz)
            (\<lambda>t. Inr (b'\<lparr>read_data_tmp := Some t\<rparr>, Some Read_Tmp, 0)))"
        using split grow nf n(1) assms(5) by (simp add: def le b'_def)
      show ?thesis
      proof (cases "realloc al (read_data_tmp b) (unat n)")
        case None
        then show ?thesis
          using step fr by (intro no_memory [of b' "unat n"]) (simp_all add: b'_def realloc_def)
      next
        case (Some t)
        then have t: "length t = unat n" "read_data_tmp b' = Some t"
          using realloc_length [OF assms(3)] by (simp_all add: b'_def)
        have "cbuf_tmp_wf b'"
          using assms(2) t by (simp add: cbuf_tmp_wf_def tmp_ok_def b'_def)
        then show ?thesis
          by (intro finish [of b' t])
            (use fr t n(2) step in \<open>simp_all add: b'_def read_tmp_ptr_def ptr_block_def\<close>)
      qed
    qed
  qed
qed

end
