(* ===== verification/Fifo_Contract.thy ===== *)
theory Fifo_Contract
  imports Glip_Prelude
begin

text \<open>
  The contract between a byte queue and the code that moves data through it: the calls the
  backends make on a circular buffer and what they rely on.  The lemmas are proved once here and
  used through the interpretation on the circular buffer (theory \<open>Cbuf_Fifo\<close>).
\<close>

locale byte_fifo =
  fixes inv :: "'q \<Rightarrow> bool"
    and cap :: "'q \<Rightarrow> nat"
    and queue :: "'q \<Rightarrow> u8 list"
    and level :: "'q \<Rightarrow> size_t"
    and room :: "'q \<Rightarrow> size_t"
    and put :: "'q \<Rightarrow> u8 list \<Rightarrow> size_t \<Rightarrow> ('q \<times> int) exec"
    and get :: "'q \<Rightarrow> u8 list \<Rightarrow> size_t \<Rightarrow> ('q \<times> u8 list \<times> int) exec"
    and drop_front :: "'q \<Rightarrow> size_t \<Rightarrow> 'q \<times> int"
  assumes bounded: "inv q \<Longrightarrow> length (queue q) \<le> cap q"
    and cap_small: "inv q \<Longrightarrow> cap q \<le> 2 ^ 29"
    and level: "inv q \<Longrightarrow> unat (level q) = length (queue q)"
    and room: "inv q \<Longrightarrow> unat (room q) = cap q - length (queue q)"
    and put: "inv q \<Longrightarrow> unat n \<le> cap q - length (queue q) \<Longrightarrow> unat n \<le> length src \<Longrightarrow>
      \<exists>q'. put q src n = Inr (q', 0) \<and> inv q' \<and> cap q' = cap q \<and>
        queue q' = queue q @ take (unat n) src"
    and put_full: "inv q \<Longrightarrow> cap q - length (queue q) < unat n \<Longrightarrow>
      put q src n = Inr (q, - EINVAL)"
    and get: "inv q \<Longrightarrow> unat n \<le> length (queue q) \<Longrightarrow> unat n \<le> length dst \<Longrightarrow>
      \<exists>q'. get q dst n = Inr (q', take (unat n) (queue q) @ drop (unat n) dst, 0) \<and> inv q' \<and>
        cap q' = cap q \<and> queue q' = drop (unat n) (queue q)"
    and get_short: "inv q \<Longrightarrow> length (queue q) < unat n \<Longrightarrow> get q dst n = Inr (q, dst, - EINVAL)"
    and drop_front: "inv q \<Longrightarrow> unat n \<le> length (queue q) \<Longrightarrow>
      \<exists>q'. drop_front q n = (q', 0) \<and> inv q' \<and> cap q' = cap q \<and>
        queue q' = drop (unat n) (queue q)"
    and drop_short: "inv q \<Longrightarrow> length (queue q) < unat n \<Longrightarrow> drop_front q n = (q, - EINVAL)"
begin

text \<open>No call of the contract faults, whatever the sizes.\<close>

lemma put_total: "inv q \<Longrightarrow> unat n \<le> length src \<Longrightarrow> \<exists>q' rv. put q src n = Inr (q', rv) \<and> inv q'"
  using put [of q n src] put_full [of q n src] by (meson linorder_not_le)

lemma get_total: "inv q \<Longrightarrow> unat n \<le> length dst \<Longrightarrow>
    \<exists>q' d rv. get q dst n = Inr (q', d, rv) \<and> inv q' \<and> length d = length dst"
proof -
  assume a: "inv q" "unat n \<le> length dst"
  show ?thesis
  proof (cases "unat n \<le> length (queue q)")
    case True
    then show ?thesis using get [OF a(1) True a(2)] a(2) by fastforce
  next
    case False
    then show ?thesis using get_short [OF a(1), of n dst] a(1) by auto
  qed
qed

text \<open>
  The two patterns of the backends' non-blocking calls: write as much as fits, read as much as
  there is.
\<close>

lemma put_some:
  assumes "inv q" and "unat n \<le> length src"
    and "unat m = min (unat n) (cap q - length (queue q))"
  shows "\<exists>q'. put q src m = Inr (q', 0) \<and> inv q' \<and> cap q' = cap q \<and>
    queue q' = queue q @ take (unat m) src"
  using put [OF assms(1), of m src] assms by simp

lemma get_some:
  assumes "inv q" and "unat n \<le> length dst" and "unat m = min (unat n) (length (queue q))"
  shows "\<exists>q'. get q dst m = Inr (q', take (unat m) (queue q) @ drop (unat m) dst, 0) \<and> inv q' \<and>
    cap q' = cap q \<and> queue q' = drop (unat m) (queue q)"
  using get [OF assms(1), of m dst] assms by simp

text \<open>Discarding the whole fill level empties the queue: the reset of a backend.\<close>

lemma drop_all:
  assumes "inv q"
  shows "\<exists>q'. drop_front q (level q) = (q', 0) \<and> inv q' \<and> cap q' = cap q \<and> queue q' = []"
  using drop_front [OF assms, of "level q"] level [OF assms] by simp

text \<open>What is put and got back later comes out unchanged and in order.\<close>

lemma put_get:
  assumes "inv q" and "queue q = []" and "unat n \<le> cap q" and "unat n \<le> length src"
    and "unat n \<le> length dst" and "put q src n = Inr (q', rv)"
  shows "\<exists>q''. get q' dst n = Inr (q'', take (unat n) src @ drop (unat n) dst, 0) \<and> queue q'' = []"
proof -
  from put [OF assms(1), of n src] assms have q': "inv q'" "queue q' = take (unat n) src" by auto
  then show ?thesis using get [OF q'(1), of n dst] assms(4,5) by auto
qed

end

end
