(* ===== verification/Cbuf_Fifo.thy ===== *)
theory Cbuf_Fifo
  imports Cbuf_Refinement Fifo_Contract
begin

text \<open>
  The circular buffer as a byte queue: it fulfils the contract \<open>byte_fifo\<close>, it is created empty,
  and whatever sequence of calls of both modes is made on it, the bytes come out in the order in
  which they went in.
\<close>

interpretation cq: byte_fifo cbuf_wf capacity contents cbuf_fill_level cbuf_free_level
  cbuf_write cbuf_read cbuf_discard
proof
  fix b :: cbuf and n :: size_t and src :: "u8 list"
  assume b: "cbuf_wf b" and n: "unat n \<le> capacity b - length (contents b)" "unat n \<le> length src"
  let ?d = "ring_put (cb_data b) (unat (wr_ptr b)) (take (unat n) src)"
  have "cbuf_wf (b\<lparr>cb_data := ?d\<rparr>)" "cbuf_fill (b\<lparr>cb_data := ?d\<rparr>) = cbuf_fill b"
    using b by (simp_all add: cbuf_data_update)
  then show "\<exists>q'. cbuf_write b src n = Inr (q', 0) \<and> cbuf_wf q' \<and> capacity q' = capacity b \<and>
      contents q' = contents b @ take (unat n) src"
    using b n cbuf_write_ok [of b n src] contents_write [of b "take (unat n) src" n]
      advance_wr_fill(1) [of "b\<lparr>cb_data := ?d\<rparr>" n] cbuf_wfD(4) [OF b]
    by simp
next
  fix b :: cbuf and n :: size_t and dst :: "u8 list"
  assume b: "cbuf_wf b" and n: "unat n \<le> length (contents b)" "unat n \<le> length dst"
  then show "\<exists>q'. cbuf_read b dst n = Inr (q', take (unat n) (contents b) @ drop (unat n) dst, 0) \<and>
      cbuf_wf q' \<and> capacity q' = capacity b \<and> contents q' = drop (unat n) (contents b)"
    using cbuf_read_ok [of b n dst] advance_rd_fill(1) [of b n] contents_advance_rd [of b n]
    by (cases "n = 0") simp_all
qed (simp_all add: cbuf_wfD cbuf_wfD(6) [simplified] unat_fill_level unat_free_level cbuf_write_einval cbuf_read_einval
  cbuf_discard_ok cbuf_discard_einval advance_rd_fill contents_advance_rd)

section \<open>Calls of the backends\<close>

lemma fifo_small:
  assumes "cbuf_wf b"
  shows "length (contents b) < 2 ^ 31" "capacity b - length (contents b) < 2 ^ 31"
    "unat (cbuf_fill_level b) < 2 ^ 31" "unat (cbuf_free_level b) < 2 ^ 31"
  using cq.bounded [OF assms] cq.cap_small [OF assms] cq.level [OF assms] cq.room [OF assms]
  by simp_all

lemma unat_min: "unat (min (a :: 'a::len word) b) = min (unat a) (unat b)"
  by (simp add: min_def word_le_nat_alt)

text \<open>Storing a block that fits, and discarding, which may be refused.\<close>

lemma cbuf_put_block:
  assumes "cbuf_wf b" and "length (contents b) + length bs \<le> capacity b"
  shows "\<exists>b'. cbuf_write b bs (of_nat (length bs)) = Inr (b', 0) \<and> cbuf_wf b' \<and>
    capacity b' = capacity b \<and> contents b' = contents b @ bs"
proof -
  have "length bs < 2 ^ 31" using assms(2) cq.cap_small [OF assms(1)] by simp
  then show ?thesis using cq.put [OF assms(1), of "of_nat (length bs)" bs] assms(2) by simp
qed

lemma discard_some:
  assumes "cbuf_wf b"
  obtains b' rv j where "cbuf_discard b n = (b', rv)" "cbuf_wf b'" "capacity b' = capacity b"
    "contents b' = drop j (contents b)"
proof (cases "unat n \<le> length (contents b)")
  case True
  then show thesis using cq.drop_front [OF assms] that by metis
next
  case False
  then show thesis using cq.drop_short [OF assms, of n] that [of b _ 0] assms by simp
qed

section \<open>Creation\<close>

lemma power_of_two_test:
  fixes sz :: size_t
  shows "sz \<noteq> 0 \<and> sz AND (sz - 1) = 0 \<longleftrightarrow> (\<exists>k<64. sz = 2 ^ k)"
proof
  assume a: "sz \<noteq> 0 \<and> sz AND (sz - 1) = 0"
  then obtain k where k: "2 ^ k \<le> unat sz" "unat sz < 2 ^ Suc k"
    using calc_log2_bounds [of sz 0] by auto
  have "(2::nat) ^ k < 2 ^ 64" using k(1) unsigned_less [of sz, where ?'a = nat] by simp
  then have k64: "k < 64" by (rule power_less_imp_less_exp [rotated]) simp
  have "unat sz = 2 ^ k"
  proof (rule ccontr)
    assume "unat sz \<noteq> 2 ^ k"
    then have "unat (sz - 1) = unat sz - 1" "2 ^ k \<le> unat sz - 1" "unat sz - 1 < 2 ^ Suc k"
      using a k by (auto simp: unat_minus_one)
    then have "bit (unat (sz - 1)) k" "bit (unat sz) k"
      using k bit_top_nat by (simp_all del: power_Suc)
    then have "bit (unat (sz AND (sz - 1))) k" by (simp add: unsigned_and_eq bit_and_iff)
    then show False using a by simp
  qed
  then have "sz = 2 ^ k" using k64 by (simp add: word_unat_eq_iff unat_two_power)
  then show "\<exists>k<64. sz = 2 ^ k" using k64 by blast
next
  assume "\<exists>k<64. sz = 2 ^ k"
  then obtain k where k: "k < 64" "sz = 2 ^ k" by blast
  have "unat (sz AND (sz - 1)) = 0" using k by (simp add: unat_and_mask unat_two_power)
  moreover have "unat sz \<noteq> 0" using k by (simp add: unat_two_power)
  ultimately show "sz \<noteq> 0 \<and> sz AND (sz - 1) = 0"
    by (metis unat_0 unsigned_0 word_unat_eq_iff)
qed

lemma cbuf_init_ok:
  assumes "k \<le> 29" and "alloc_ok al" and "al (2 ^ k) \<noteq> None"
  obtains b where "cbuf_init True al (2 ^ k) = Inr (Some b, 0)" "cbuf_wf b" "cbuf_tmp_wf b"
    "contents b = []" "capacity b = 2 ^ k"
proof -
  have c: "unat (2 ^ k :: size_t) = 2 ^ k" using assms(1) by (simp add: unat_two_power)
  have p: "(2 ^ k :: size_t) \<noteq> 0 \<and> (2 ^ k :: size_t) AND (2 ^ k - 1) = 0"
    unfolding power_of_two_test using assms(1) by (intro exI [of _ k]) simp
  obtain d where d: "calloc al (2 ^ k) = Some d" using assms(3) by (auto simp: calloc_def)
  define b where "b = \<lparr>level_changed = 0, wr_ptr = 0, rd_ptr = 0, cb_size = 2 ^ k, cb_data = d,
    hint_max_read_size = 0, read_data_tmp_size = 0, read_data_tmp = None,
    hint_max_write_size = 0, write_data_tmp_size = 0, write_data_tmp = None\<rparr>"
  have f: "cbuf_fill b = 0" by (simp add: b_def cbuf_fill_def)
  show thesis
  proof (rule that [of b])
    show "cbuf_init True al (2 ^ k) = Inr (Some b, 0)"
      using p d c by (simp add: cbuf_init_def b_def)
    show "cbuf_wf b"
      using assms(1) f c calloc_length [OF assms(2) d] by (auto simp: cbuf_wf_def b_def)
    show "cbuf_tmp_wf b" by (simp add: b_def cbuf_tmp_wf_def tmp_ok_def)
    show "contents b = []" using f by (simp add: contents_def)
    show "capacity b = 2 ^ k" using c by (simp add: b_def)
  qed
qed

section \<open>Sequences of calls\<close>

text \<open>
  One call, or one pair of calls of the API mode with the accesses of the caller in between:
  reserve room for \<open>n\<close> bytes, fill in \<open>bs\<close> and commit the first \<open>m\<close>; peek at \<open>n\<close> bytes and
  discard the first \<open>m\<close>.
\<close>

datatype cbuf_op = Op_Write "u8 list" size_t | Op_Read size_t
  | Op_Reserve_Commit size_t "u8 list" size_t | Op_Peek_Discard size_t size_t
  | Op_Hint_Read size_t | Op_Hint_Write size_t

text \<open>The result holds the bytes the buffer accepted and the bytes it delivered.\<close>

fun cbuf_op_step :: "allocator \<Rightarrow> cbuf \<Rightarrow> cbuf_op \<Rightarrow> (cbuf \<times> u8 list \<times> u8 list) exec" where
  "cbuf_op_step al b (Op_Write bs n) =
     cbind (cbuf_write b bs n) (\<lambda>(b', rv). Inr (b', if rv = 0 then take (unat n) bs else [], []))"
| "cbuf_op_step al b (Op_Read n) =
     cbind (cbuf_read b (replicate (unat n) 0) n) (\<lambda>(b', d, rv). Inr (b', [], if rv = 0 then d else []))"
| "cbuf_op_step al b (Op_Reserve_Commit n bs m) =
     cbind (cbuf_reserve al b n) (\<lambda>(b', p, rv).
       case p of None \<Rightarrow> Inr (b', [], [])
       | Some p \<Rightarrow> cbind (ptr_store b' p bs) (\<lambda>b''.
           cbind (cbuf_commit b'' p m) (\<lambda>(b''', rv). Inr (b''', take (unat m) bs, []))))"
| "cbuf_op_step al b (Op_Peek_Discard n m) =
     cbind (cbuf_peek al b n) (\<lambda>(b', p, rv).
       case p of None \<Rightarrow> Inr (b', [], [])
       | Some p \<Rightarrow> cbind (ptr_load b' p (unat m)) (\<lambda>d. Inr (fst (cbuf_discard b' m), [], d)))"
| "cbuf_op_step al b (Op_Hint_Read h) = Inr (fst (cbuf_set_hint_max_read_size b h), [], [])"
| "cbuf_op_step al b (Op_Hint_Write h) = Inr (fst (cbuf_set_hint_max_write_size b h), [], [])"

text \<open>What the documentation asks of the caller.\<close>

fun cbuf_op_ok :: "cbuf_op \<Rightarrow> bool" where
  "cbuf_op_ok (Op_Write bs n) = (unat n \<le> length bs)"
| "cbuf_op_ok (Op_Reserve_Commit n bs m) = (unat m \<le> length bs \<and> length bs \<le> unat n)"
| "cbuf_op_ok (Op_Peek_Discard n m) = (m \<le> n)"
| "cbuf_op_ok _ = True"

fun cbuf_run :: "allocator \<Rightarrow> cbuf \<Rightarrow> cbuf_op list \<Rightarrow> (cbuf \<times> u8 list \<times> u8 list) exec" where
  "cbuf_run al b [] = Inr (b, [], [])"
| "cbuf_run al b (x # xs) =
     cbind (cbuf_op_step al b x) (\<lambda>(b', i, out).
       cbind (cbuf_run al b' xs) (\<lambda>(b'', is, outs). Inr (b'', i @ is, out @ outs)))"

definition alloc_total :: "allocator \<Rightarrow> bool" where
  "alloc_total al \<longleftrightarrow> alloc_ok al \<and> (\<forall>n. al n \<noteq> None)"

lemma good_alloc_total [simp]: "alloc_total good_alloc"
  by (simp add: alloc_total_def good_alloc_def alloc_ok_def)

lemma cbuf_write_tmp_wf: "cbuf_write b src n = Inr (b', rv) \<Longrightarrow> cbuf_tmp_wf b' = cbuf_tmp_wf b"
  by (auto simp: cbuf_write_def cbuf_tmp_wf_def Let_def cbind_eq_Inr_iff split: if_splits)

lemma cbuf_read_tmp_wf: "cbuf_read b dst n = Inr (b', d, rv) \<Longrightarrow> cbuf_tmp_wf b' = cbuf_tmp_wf b"
  by (auto simp: cbuf_read_def cbuf_tmp_wf_def Let_def cbind_eq_Inr_iff split: if_splits)

lemma cbuf_discard_tmp_wf: "cbuf_tmp_wf (fst (cbuf_discard b n)) = cbuf_tmp_wf b"
  by (simp add: cbuf_discard_def cbuf_tmp_wf_def)

lemma ptr_load_take:
  "ptr_load b p n = Inr d \<Longrightarrow> m \<le> n \<Longrightarrow> ptr_load b p m = Inr (take m d)"
  by (auto simp: ptr_load_def min_def split: if_splits)

text \<open>One call keeps the invariant and the order of the bytes.\<close>

definition fifo_step :: "cbuf \<Rightarrow> (cbuf \<times> u8 list \<times> u8 list) exec \<Rightarrow> bool" where
  "fifo_step b r = (case r of Inl _ \<Rightarrow> False
     | Inr (b', i, out) \<Rightarrow> cbuf_wf b' \<and> cbuf_tmp_wf b' \<and> capacity b' = capacity b \<and>
         out @ contents b' = contents b @ i)"

lemma fifo_step_write:
  assumes "cbuf_wf b" and "cbuf_tmp_wf b" and "unat n \<le> length bs"
  shows "fifo_step b (cbuf_op_step al b (Op_Write bs n))"
proof (cases "unat n \<le> capacity b - length (contents b)")
  case True
  from cq.put [OF assms(1) True assms(3)] obtain b' where
    b': "cbuf_write b bs n = Inr (b', 0)" "cbuf_wf b'" "capacity b' = capacity b"
      "contents b' = contents b @ take (unat n) bs" by blast
  then show ?thesis using cbuf_write_tmp_wf [OF b'(1)] assms(2) by (simp add: fifo_step_def)
next
  case False
  then show ?thesis
    using cq.put_full [OF assms(1), of n bs] assms by (simp add: fifo_step_def EINVAL_def)
qed

lemma fifo_step_read:
  assumes "cbuf_wf b" and "cbuf_tmp_wf b"
  shows "fifo_step b (cbuf_op_step al b (Op_Read n))"
proof (cases "unat n \<le> length (contents b)")
  case True
  let ?d = "replicate (unat n) 0 :: u8 list"
  from cq.get [OF assms(1) True, of ?d] obtain b' where
    b': "cbuf_read b ?d n = Inr (b', take (unat n) (contents b) @ drop (unat n) ?d, 0)"
      "cbuf_wf b'" "capacity b' = capacity b" "contents b' = drop (unat n) (contents b)" by auto
  then show ?thesis using cbuf_read_tmp_wf [OF b'(1)] assms(2) by (simp add: fifo_step_def)
next
  case False
  then show ?thesis
    using cq.get_short [OF assms(1)] assms by (simp add: fifo_step_def EINVAL_def)
qed

text \<open>Reserving, storing through the pointer and committing, in one.\<close>

lemma reserve_store_commit:
  assumes "cbuf_wf b" and "cbuf_tmp_wf b" and "alloc_total al"
    and "unat n \<le> capacity b - length (contents b)" and "length bs \<le> unat n"
  obtains b1 p b2 where "cbuf_reserve al b n = Inr (b1, Some p, 0)" "contents b1 = contents b"
    "ptr_store b1 p bs = Inr b2" "cbuf_wf b2" "cbuf_tmp_wf b2" "contents b2 = contents b"
    "cb_size b2 = cb_size b"
    "\<forall>m. unat m \<le> length bs \<longrightarrow> (\<exists>b3. cbuf_commit b2 p m = Inr (b3, 0) \<and> cbuf_wf b3 \<and>
       cbuf_tmp_wf b3 \<and> cb_size b3 = cb_size b \<and> contents b3 = contents b @ take (unat m) bs)"
proof -
  have al: "alloc_ok al" "\<And>n. al n \<noteq> None" using assms(3) by (auto simp: alloc_total_def)
  from assms(1,2) al(1) assms(4) [unfolded length_contents] show thesis
  proof (cases rule: cbuf_reserve_cases)
    case (ok b1 p)
    obtain b2 where b2: "ptr_store b1 p bs = Inr b2" "cbuf_wf b2" "contents b2 = contents b1"
      "reserved b2 p (unat n)" "take (length bs) (ptr_block b2 p) = bs" "cb_size b2 = cb_size b1"
      "cbuf_tmp_wf b2 = cbuf_tmp_wf b1"
      by (rule ptr_store_reserved [OF ok(2,6) assms(5)])
    have commit: "\<exists>b3. cbuf_commit b2 p m = Inr (b3, 0) \<and> cbuf_wf b3 \<and>
        cbuf_tmp_wf b3 \<and> cb_size b3 = cb_size b \<and> contents b3 = contents b @ take (unat m) bs"
      if "unat m \<le> length bs" for m
    proof -
      have mn: "unat m \<le> unat n" using that assms(5) by simp
      obtain b3 where b3: "cbuf_commit b2 p m = Inr (b3, 0)" "cbuf_wf b3"
        "contents b3 = contents b2 @ take (unat m) (ptr_block b2 p)" "cb_size b3 = cb_size b2"
        "cbuf_tmp_wf b3 = cbuf_tmp_wf b2"
        by (rule cbuf_commit_ok [OF b2(2,4) mn])
      have "take (unat m) (ptr_block b2 p) = take (unat m) bs"
        using b2(5) that by (metis min.absorb1 take_take)
      then show ?thesis using ok b2 b3 by simp
    qed
    have "cbuf_tmp_wf b2" "contents b2 = contents b" "cb_size b2 = cb_size b" using ok b2 by simp_all
    then show thesis by (rule that [OF ok(1,4) b2(1,2)]) (use commit in blast)
  next
    case (no_memory b' k)
    then show thesis using al(2) by blast
  qed
qed

lemma fifo_step_reserve_commit:
  assumes "cbuf_wf b" and "cbuf_tmp_wf b" and "alloc_total al"
    and "unat m \<le> length bs" and "length bs \<le> unat n"
  shows "fifo_step b (cbuf_op_step al b (Op_Reserve_Commit n bs m))"
proof (cases "unat n \<le> capacity b - length (contents b)")
  case False
  then show ?thesis using cbuf_reserve_einval [OF assms(1)] assms by (simp add: fifo_step_def)
next
  case True
  obtain b1 p b2 where b: "cbuf_reserve al b n = Inr (b1, Some p, 0)" "contents b1 = contents b"
    "ptr_store b1 p bs = Inr b2" "cbuf_wf b2" "cbuf_tmp_wf b2" "contents b2 = contents b" "cb_size b2 = cb_size b"
    "\<forall>m. unat m \<le> length bs \<longrightarrow> (\<exists>b3. cbuf_commit b2 p m = Inr (b3, 0) \<and> cbuf_wf b3 \<and>
       cbuf_tmp_wf b3 \<and> cb_size b3 = cb_size b \<and> contents b3 = contents b @ take (unat m) bs)"
    by (rule reserve_store_commit [OF assms(1-3) True assms(5)])
  show ?thesis using b(1,3) b(8) assms(4) by (auto simp: fifo_step_def)
qed

lemma fifo_step_peek_discard:
  assumes "cbuf_wf b" and "cbuf_tmp_wf b" and "alloc_total al" and "m \<le> n"
  shows "fifo_step b (cbuf_op_step al b (Op_Peek_Discard n m))"
proof (cases "n = 0 \<or> cbuf_fill b < unat n")
  case True
  then show ?thesis
    using cbuf_peek_einval [OF assms(1), of n al] assms by (auto simp: fifo_step_def cbuf_peek_zero)
next
  case False
  then have n: "unat n \<le> cbuf_fill b" "n \<noteq> 0" by auto
  have al: "alloc_ok al" "\<And>n. al n \<noteq> None" using assms(3) by (auto simp: alloc_total_def)
  have mn: "unat m \<le> unat n" using assms(4) by (simp add: word_le_nat_alt)
  from assms(1,2) al(1) n show ?thesis
  proof (cases rule: cbuf_peek_cases)
    case (ok b1 p)
    have "cbuf_fill b1 = cbuf_fill b" using ok(4) length_contents by metis
    then have d: "cbuf_discard b1 m = (advance_rd b1 m, 0)" "unat m \<le> cbuf_fill b1"
      using cbuf_discard_ok [OF ok(2)] mn n by simp_all
    have "ptr_load b1 p (unat m) = Inr (take (unat m) (contents b))"
      using ptr_load_take [OF ok(6) mn] mn by simp
    then show ?thesis
      using ok d advance_rd_fill(1) [OF ok(2) d(2)] contents_advance_rd [OF ok(2) d(2)]
        cbuf_discard_tmp_wf [of b1 m]
      by (simp add: fifo_step_def)
  next
    case (no_memory b' k)
    then show ?thesis using al(2) by blast
  qed
qed

lemma cbuf_op_step_fifo:
  assumes "cbuf_wf b" and "cbuf_tmp_wf b" and "alloc_total al" and "cbuf_op_ok x"
  shows "fifo_step b (cbuf_op_step al b x)"
proof (cases x)
  case (Op_Hint_Read h)
  then show ?thesis
    using assms cbuf_wf_frame [of "b\<lparr>hint_max_read_size := h\<rparr>" b]
    by (simp add: fifo_step_def cbuf_set_hint_max_read_size_def cbuf_tmp_wf_def)
next
  case (Op_Hint_Write h)
  then show ?thesis
    using assms cbuf_wf_frame [of "b\<lparr>hint_max_write_size := h\<rparr>" b]
    by (simp add: fifo_step_def cbuf_set_hint_max_write_size_def cbuf_tmp_wf_def)
qed (use assms fifo_step_write fifo_step_read fifo_step_reserve_commit fifo_step_peek_discard
  in simp_all)

lemma fifo_stepE:
  assumes "fifo_step b r"
  obtains b' i out where "r = Inr (b', i, out)" "cbuf_wf b'" "cbuf_tmp_wf b'"
    "capacity b' = capacity b" "out @ contents b' = contents b @ i"
  using assms by (auto simp: fifo_step_def split: sum.splits)

lemma cbuf_run_fifo_step:
  assumes "cbuf_wf b" and "cbuf_tmp_wf b" and "alloc_total al" and "\<forall>x\<in>set xs. cbuf_op_ok x"
  shows "fifo_step b (cbuf_run al b xs)"
  using assms
proof (induction xs arbitrary: b)
  case Nil
  then show ?case by (simp add: fifo_step_def)
next
  case (Cons x xs)
  obtain b' i out where 1: "cbuf_op_step al b x = Inr (b', i, out)" "cbuf_wf b'" "cbuf_tmp_wf b'"
    "capacity b' = capacity b" "out @ contents b' = contents b @ i"
    by (rule fifo_stepE [OF cbuf_op_step_fifo [of b al x]]) (use Cons.prems in auto)
  obtain b'' i' out' where 2: "cbuf_run al b' xs = Inr (b'', i', out')" "cbuf_wf b''"
    "cbuf_tmp_wf b''" "capacity b'' = capacity b'" "out' @ contents b'' = contents b' @ i'"
    by (rule fifo_stepE [OF Cons.IH [OF 1(2,3) Cons.prems(3)]]) (use Cons.prems in auto)
  have "(out @ out') @ contents b'' = contents b @ i @ i'"
    using 1(5) 2(5) by (metis append.assoc)
  then show ?case using 1 2 by (simp add: fifo_step_def)
qed

end
