(* ===== verification/Cbuf_Concurrent.thy ===== *)
theory Cbuf_Concurrent
  imports Cbuf_Fifo
begin

text \<open>
  One reading and one writing thread on a circular buffer.  \<open>cbuf_write\<close> and \<open>cbuf_read\<close> are cut
  into steps at their accesses to the shared positions; the steps of the two threads interleave
  freely.  A step reads or writes shared memory at once (sequential consistency); the copies touch
  disjoint parts of the array, so a copy is one step.  The level mutex makes the update of a
  position one step.
\<close>

section \<open>Steps\<close>

text \<open>
  Where a thread is inside its call: about to test for a full buffer, about to take the difference
  of the positions, about to compare with the requested size, about to copy, about to advance.
\<close>

datatype writer = W_Idle | W_Check "u8 list" size_t | W_Level "u8 list" size_t
  | W_Test "u8 list" size_t size_t | W_Copy "u8 list" size_t | W_Advance "u8 list" size_t

datatype reader = R_Idle | R_Check "u8 list" size_t | R_Level "u8 list" size_t
  | R_Test "u8 list" size_t size_t | R_Copy "u8 list" size_t | R_Advance "u8 list" size_t

text \<open>\<open>taken_in\<close> and \<open>given_out\<close> record the bytes of the completed writes and reads.\<close>

record conc =
  ring :: cbuf
  wthread :: writer
  rthread :: reader
  taken_in :: "u8 list"
  given_out :: "u8 list"

definition conc_init :: "cbuf \<Rightarrow> conc" where
  "conc_init b = \<lparr>ring = b, wthread = W_Idle, rthread = R_Idle, taken_in = [], given_out = []\<rparr>"

inductive writer_step :: "conc \<Rightarrow> conc \<Rightarrow> bool" where
  w_call: "wthread s = W_Idle \<Longrightarrow> unat n \<le> length src \<Longrightarrow>
     writer_step s (s\<lparr>wthread := W_Check src n\<rparr>)"
| w_full: "wthread s = W_Check src n \<Longrightarrow> cbuf_is_full (ring s) \<Longrightarrow>
     writer_step s (s\<lparr>wthread := W_Test src n (cb_size (ring s) - cb_size (ring s))\<rparr>)"
| w_not_full: "wthread s = W_Check src n \<Longrightarrow> \<not> cbuf_is_full (ring s) \<Longrightarrow>
     writer_step s (s\<lparr>wthread := W_Level src n\<rparr>)"
| w_level: "wthread s = W_Level src n \<Longrightarrow>
     writer_step s (s\<lparr>wthread := W_Test src n (cb_size (ring s) - cbuf_level_diff (ring s))\<rparr>)"
| w_einval: "wthread s = W_Test src n free_level \<Longrightarrow> n > free_level \<Longrightarrow>
     writer_step s (s\<lparr>wthread := W_Idle\<rparr>)"
| w_go: "wthread s = W_Test src n free_level \<Longrightarrow> \<not> n > free_level \<Longrightarrow>
     writer_step s (s\<lparr>wthread := W_Copy src n\<rparr>)"
| w_copy: "wthread s = W_Copy src n \<Longrightarrow> cbuf_write_copy (ring s) src n = Inr d \<Longrightarrow>
     writer_step s (s\<lparr>ring := (ring s)\<lparr>cb_data := d\<rparr>, wthread := W_Advance src n\<rparr>)"
| w_advance: "wthread s = W_Advance src n \<Longrightarrow>
     writer_step s (s\<lparr>ring := advance_wr (ring s) n, wthread := W_Idle,
       taken_in := taken_in s @ take (unat n) src\<rparr>)"

inductive reader_step :: "conc \<Rightarrow> conc \<Rightarrow> bool" where
  r_zero: "rthread s = R_Idle \<Longrightarrow> reader_step s s"
| r_call: "rthread s = R_Idle \<Longrightarrow> n \<noteq> 0 \<Longrightarrow> unat n \<le> length dst \<Longrightarrow>
     reader_step s (s\<lparr>rthread := R_Check dst n\<rparr>)"
| r_full: "rthread s = R_Check dst n \<Longrightarrow> cbuf_is_full (ring s) \<Longrightarrow>
     reader_step s (s\<lparr>rthread := R_Test dst n (cb_size (ring s))\<rparr>)"
| r_not_full: "rthread s = R_Check dst n \<Longrightarrow> \<not> cbuf_is_full (ring s) \<Longrightarrow>
     reader_step s (s\<lparr>rthread := R_Level dst n\<rparr>)"
| r_level: "rthread s = R_Level dst n \<Longrightarrow>
     reader_step s (s\<lparr>rthread := R_Test dst n (cbuf_level_diff (ring s))\<rparr>)"
| r_einval: "rthread s = R_Test dst n fill_level \<Longrightarrow> fill_level < n \<Longrightarrow>
     reader_step s (s\<lparr>rthread := R_Idle\<rparr>)"
| r_go: "rthread s = R_Test dst n fill_level \<Longrightarrow> \<not> fill_level < n \<Longrightarrow>
     reader_step s (s\<lparr>rthread := R_Copy dst n\<rparr>)"
| r_copy: "rthread s = R_Copy dst n \<Longrightarrow> cbuf_read_copy (ring s) dst n = Inr d \<Longrightarrow>
     reader_step s (s\<lparr>rthread := R_Advance d n\<rparr>)"
| r_advance: "rthread s = R_Advance dst n \<Longrightarrow>
     reader_step s (s\<lparr>ring := advance_rd (ring s) n, rthread := R_Idle,
       given_out := given_out s @ take (unat n) dst\<rparr>)"

definition conc_step :: "conc \<Rightarrow> conc \<Rightarrow> bool" where
  "conc_step s t \<longleftrightarrow> writer_step s t \<or> reader_step s t"

inductive conc_reachable :: "cbuf \<Rightarrow> conc \<Rightarrow> bool" for b where
  conc_start: "conc_reachable b (conc_init b)"
| conc_next: "conc_reachable b s \<Longrightarrow> conc_step s t \<Longrightarrow> conc_reachable b t"

section \<open>Invariant\<close>

text \<open>What each thread knows at each point; stale knowledge errs on the safe side.\<close>

fun writer_ok :: "cbuf \<Rightarrow> writer \<Rightarrow> bool" where
  "writer_ok b W_Idle = True"
| "writer_ok b (W_Check src n) = (unat n \<le> length src)"
| "writer_ok b (W_Level src n) = (unat n \<le> length src \<and> cbuf_fill b < capacity b)"
| "writer_ok b (W_Test src n f) = (unat n \<le> length src \<and> unat f \<le> capacity b - cbuf_fill b)"
| "writer_ok b (W_Copy src n) = (unat n \<le> length src \<and> unat n \<le> capacity b - cbuf_fill b)"
| "writer_ok b (W_Advance src n) = (unat n \<le> capacity b - cbuf_fill b \<and>
     ring_slice (cb_data b) (unat (wr_ptr b)) (unat n) = take (unat n) src)"

fun reader_ok :: "cbuf \<Rightarrow> reader \<Rightarrow> bool" where
  "reader_ok b (R_Test dst n l) = (unat n \<le> length dst \<and> unat l \<le> cbuf_fill b)"
| "reader_ok b (R_Copy dst n) = (unat n \<le> length dst \<and> unat n \<le> cbuf_fill b)"
| "reader_ok b (R_Advance dst n) =
     (unat n \<le> cbuf_fill b \<and> take (unat n) dst = take (unat n) (contents b))"
| "reader_ok b (R_Check dst n) = (unat n \<le> length dst)"
| "reader_ok b (R_Level dst n) = (unat n \<le> length dst)"
| "reader_ok b R_Idle = True"

definition conc_inv :: "cbuf \<Rightarrow> conc \<Rightarrow> bool" where
  "conc_inv b s \<longleftrightarrow> cbuf_wf (ring s) \<and> capacity (ring s) = capacity b \<and>
     given_out s @ contents (ring s) = contents b @ taken_in s \<and>
     writer_ok (ring s) (wthread s) \<and> reader_ok (ring s) (rthread s)"

text \<open>The other thread's moves do not falsify what a thread knows.\<close>

lemma reader_ok_mono:
  assumes "reader_ok b r" and "contents b' = contents b @ bs"
  shows "reader_ok b' r"
proof -
  have "cbuf_fill b' = cbuf_fill b + length bs" using assms(2) by (metis length_append length_contents)
  then show ?thesis using assms by (cases r) auto
qed

lemma writer_ok_mono:
  assumes "writer_ok b w" and "cbuf_fill b' \<le> cbuf_fill b" and "cb_size b' = cb_size b"
    and "cb_data b' = cb_data b" and "wr_ptr b' = wr_ptr b"
  shows "writer_ok b' w"
  using assms by (cases w) auto

lemma writer_step_inv: "writer_step s t \<Longrightarrow> conc_inv b s \<Longrightarrow> conc_inv b t"
proof (induction rule: writer_step.induct)
  case (w_full s src n)
  then show ?case by (auto simp: conc_inv_def)
next
  case (w_not_full s src n)
  then show ?case
    using cbuf_is_full_iff [of "ring s"] cbuf_wfD(4) [of "ring s"] by (auto simp: conc_inv_def)
next
  case (w_level s src n)
  then have "cbuf_wf (ring s)" "cbuf_fill (ring s) < capacity (ring s)"
    by (auto simp: conc_inv_def)
  then have "unat (cb_size (ring s) - cbuf_level_diff (ring s)) =
      capacity (ring s) - cbuf_fill (ring s)"
    by (simp add: unat_minus_le word_le_nat_alt unat_level_diff)
  then show ?case using w_level by (simp add: conc_inv_def)
next
  case (w_copy s src n d)
  let ?b = "ring s" and ?bs = "take (unat n) src"
  have I: "cbuf_wf ?b" "unat n \<le> length src" "unat n \<le> capacity ?b - cbuf_fill ?b"
    using w_copy by (auto simp: conc_inv_def)
  note D = cbuf_wfD [OF I(1)]
  have d: "d = ring_put (cb_data ?b) (unat (wr_ptr ?b)) ?bs"
    using cbuf_write_copy_ok [OF I(1) order_trans [OF I(3) diff_le_self] I(2)] w_copy(2) by simp
  have room: "cbuf_fill ?b + length ?bs \<le> capacity ?b" using I(3) D(4) by simp
  have wf: "cbuf_wf (?b\<lparr>cb_data := d\<rparr>)" "cbuf_fill (?b\<lparr>cb_data := d\<rparr>) = cbuf_fill ?b"
    "contents (?b\<lparr>cb_data := d\<rparr>) = contents ?b"
    using I(1) cbuf_data_update [OF I(1), of d] contents_put [OF I(1) room] by (simp_all add: d)
  have "ring_slice d (unat (wr_ptr ?b)) (unat n) = ?bs"
    using ring_slice_put_same [of ?bs "cb_data ?b" "unat (wr_ptr ?b)"] room I(2) D by (simp add: d)
  then show ?case
    using w_copy wf I reader_ok_mono [of ?b "rthread s" "?b\<lparr>cb_data := d\<rparr>" "[]"]
    by (simp add: conc_inv_def)
next
  case (w_advance s src n)
  let ?b = "ring s"
  have I: "cbuf_wf ?b" "unat n \<le> capacity ?b - cbuf_fill ?b"
    "ring_slice (cb_data ?b) (unat (wr_ptr ?b)) (unat n) = take (unat n) src"
    using w_advance by (auto simp: conc_inv_def)
  have room: "cbuf_fill ?b + unat n \<le> capacity ?b" using I(2) cbuf_wfD(4) [OF I(1)] by simp
  have c: "contents (advance_wr ?b n) = contents ?b @ take (unat n) src"
    using contents_advance_wr [OF I(1) room] I(3) by simp
  show ?case
    using w_advance advance_wr_fill(1) [OF I(1) room] c reader_ok_mono [OF _ c, of "rthread s"]
    by (auto simp: conc_inv_def)
qed (auto simp: conc_inv_def word_less_nat_alt)

lemma reader_step_inv: "reader_step s t \<Longrightarrow> conc_inv b s \<Longrightarrow> conc_inv b t"
proof (induction rule: reader_step.induct)
  case (r_full s dst n)
  then show ?case using cbuf_is_full_iff [of "ring s"] by (auto simp: conc_inv_def)
next
  case (r_level s dst n)
  then have w: "cbuf_wf (ring s)" by (simp add: conc_inv_def)
  have "unat (cbuf_level_diff (ring s)) \<le> cbuf_fill (ring s)"
    using unat_level_diff [OF w] level_diff_full [OF w] cbuf_wfD(4) [OF w]
    by (cases "cbuf_fill (ring s) = capacity (ring s)") simp_all
  then show ?case using r_level by (simp add: conc_inv_def)
next
  case (r_copy s dst n d)
  then have "cbuf_wf (ring s)" "unat n \<le> cbuf_fill (ring s)" "unat n \<le> length dst"
    by (simp_all add: conc_inv_def)
  from cbuf_read_copy_ok [OF this] r_copy show ?case by (auto simp: conc_inv_def)
next
  case (r_advance s dst n)
  let ?b = "ring s"
  have I: "cbuf_wf ?b" "unat n \<le> cbuf_fill ?b" "take (unat n) dst = take (unat n) (contents ?b)"
    using r_advance by (auto simp: conc_inv_def)
  show ?case
    using r_advance advance_rd_fill [OF I(1,2)] contents_advance_rd [OF I(1,2)] I(3)
      writer_ok_mono [of ?b "wthread s" "advance_rd ?b n"]
    by (auto simp: conc_inv_def)
qed (auto simp: conc_inv_def word_less_nat_alt)

lemma conc_reachable_inv: "conc_reachable b s \<Longrightarrow> cbuf_wf b \<Longrightarrow> conc_inv b s"
proof (induction rule: conc_reachable.induct)
  case conc_start
  then show ?case by (simp add: conc_inv_def conc_init_def)
next
  case (conc_next s t)
  then show ?case by (auto simp: conc_step_def dest: writer_step_inv reader_step_inv)
qed

text \<open>A copy step is never stuck on a fault.\<close>

lemma conc_copies_total:
  assumes "conc_inv b s"
  shows "wthread s = W_Copy src n \<Longrightarrow> \<exists>d. cbuf_write_copy (ring s) src n = Inr d"
    and "rthread s = R_Copy dst n \<Longrightarrow> \<exists>d. cbuf_read_copy (ring s) dst n = Inr d"
  using assms cbuf_write_copy_ok [of "ring s" n src] cbuf_read_copy_ok [of "ring s" n dst]
  by (auto simp: conc_inv_def)

section \<open>A whole call as a run of steps\<close>

text \<open>From any state, the idle writer can carry out a complete write that fits, while the reader
  stays where it is.\<close>

lemma conc_write_call:
  assumes r: "conc_reachable b s" and idle: "wthread s = W_Idle" and wf: "cbuf_wf b"
    and src: "src \<noteq> []" "cbuf_fill (ring s) + length src \<le> capacity (ring s)"
  shows "\<exists>t. conc_reachable b t \<and> wthread t = W_Idle \<and> rthread t = rthread s \<and>
    given_out t = given_out s \<and> taken_in t = taken_in s @ src"
proof -
  define n where "n = (of_nat (length src) :: size_t)"
  have I: "conc_inv b s" and w: "cbuf_wf (ring s)"
    using conc_reachable_inv [OF r wf] by (simp_all add: conc_inv_def)
  have "length src < 2 ^ LENGTH(64)" using src(2) cbuf_wfD(6) [OF w] by simp
  then have n: "unat n = length src" by (simp add: n_def unat_of_nat take_bit_nat_eq_self)
  have lt: "cbuf_fill (ring s) < capacity (ring s)" using src by (cases src) auto
  then have nf: "\<not> cbuf_is_full (ring s)" using cbuf_is_full_iff [OF w] by simp
  define f where "f = cb_size (ring s) - cbuf_level_diff (ring s)"
  have f: "unat f = capacity (ring s) - cbuf_fill (ring s)"
    using lt unat_level_diff [OF w] by (simp add: f_def unat_minus_le word_le_nat_alt)
  have "writer_step s (s\<lparr>wthread := W_Check src n\<rparr>)" by (rule w_call) (simp_all add: idle n)
  with r have r1: "conc_reachable b (s\<lparr>wthread := W_Check src n\<rparr>)"
    using conc_next conc_step_def by blast
  have "writer_step (s\<lparr>wthread := W_Check src n\<rparr>) (s\<lparr>wthread := W_Level src n\<rparr>)"
    using w_not_full [of "s\<lparr>wthread := W_Check src n\<rparr>"] nf by simp
  with r1 have r2: "conc_reachable b (s\<lparr>wthread := W_Level src n\<rparr>)"
    using conc_next conc_step_def by blast
  have "writer_step (s\<lparr>wthread := W_Level src n\<rparr>) (s\<lparr>wthread := W_Test src n f\<rparr>)"
    using w_level [of "s\<lparr>wthread := W_Level src n\<rparr>"] by (simp add: f_def)
  with r2 have r3: "conc_reachable b (s\<lparr>wthread := W_Test src n f\<rparr>)"
    using conc_next conc_step_def by blast
  have "writer_step (s\<lparr>wthread := W_Test src n f\<rparr>) (s\<lparr>wthread := W_Copy src n\<rparr>)"
    using w_go [of "s\<lparr>wthread := W_Test src n f\<rparr>"] f n src(2) by (simp add: word_less_nat_alt)
  with r3 have r4: "conc_reachable b (s\<lparr>wthread := W_Copy src n\<rparr>)"
    using conc_next conc_step_def by blast
  obtain d where d: "cbuf_write_copy (ring s) src n = Inr d"
    using conc_copies_total(1) [OF conc_reachable_inv [OF r4 wf]] by auto
  define s5 where "s5 = s\<lparr>ring := (ring s)\<lparr>cb_data := d\<rparr>, wthread := W_Advance src n\<rparr>"
  have "writer_step (s\<lparr>wthread := W_Copy src n\<rparr>) s5"
    using w_copy [of "s\<lparr>wthread := W_Copy src n\<rparr>"] d by (simp add: s5_def)
  with r4 have r5: "conc_reachable b s5" using conc_next conc_step_def by blast
  have "writer_step s5 (s5\<lparr>ring := advance_wr (ring s5) n, wthread := W_Idle,
      taken_in := taken_in s5 @ take (unat n) src\<rparr>)"
    by (rule w_advance) (simp add: s5_def)
  with r5 have "conc_reachable b (s5\<lparr>ring := advance_wr (ring s5) n, wthread := W_Idle,
      taken_in := taken_in s5 @ take (unat n) src\<rparr>)"
    using conc_next conc_step_def by blast
  then show ?thesis
    by (intro exI conjI, assumption) (simp_all add: s5_def n)
qed

end
