(* ===== verification/Cbuf_Properties.thy ===== *)
theory Cbuf_Properties
  imports Cbuf_Concurrent
begin

text \<open>
  The properties of the circular buffer, each with an example at which its hypotheses hold.  The
  examples use a ring of four bytes whose contents wrap around its end.
\<close>

definition ring4 :: cbuf where
  "ring4 = \<lparr>level_changed = 0, wr_ptr = 6, rd_ptr = 3, cb_size = 4, cb_data = [10, 20, 0, 30],
     hint_max_read_size = 0, read_data_tmp_size = 0, read_data_tmp = None,
     hint_max_write_size = 0, write_data_tmp_size = 0, write_data_tmp = None\<rparr>"

lemma ring4_fill [simp]: "cbuf_fill ring4 = 3"
  by (simp add: cbuf_fill_def ring4_def)

lemma ring4_size [simp]: "cb_size ring4 = 4"
  by (simp add: ring4_def)

lemma ring4_wf [simp]: "cbuf_wf ring4"
  unfolding cbuf_wf_def by (auto simp: ring4_def intro: exI [of _ 2]) (simp add: cbuf_fill_def)

lemma ring4_tmp_wf [simp]: "cbuf_tmp_wf ring4"
  by (simp add: cbuf_tmp_wf_def tmp_ok_def ring4_def)

lemma ring4_contents [simp]: "contents ring4 = [30, 10, 20]"
  unfolding contents_def ring4_fill by (simp add: ring_slice_def ring4_def upt_rec)

text \<open>C5: Whatever calls of the basic and of the API mode are made on a circular buffer, in any
  order and with any sizes, no call faults, the invariant is kept, and the bytes delivered followed
  by the bytes still stored are the bytes stored at first followed by the bytes accepted.\<close>

theorem cbuf_calls_are_fifo:
  assumes "cbuf_wf b" and "cbuf_tmp_wf b" and "alloc_total al" and "\<forall>x\<in>set xs. cbuf_op_ok x"
  shows "\<exists>b' accepted delivered. cbuf_run al b xs = Inr (b', accepted, delivered) \<and>
    cbuf_wf b' \<and> length (contents b') \<le> capacity b \<and>
    delivered @ contents b' = contents b @ accepted"
proof -
  obtain b' i out where "cbuf_run al b xs = Inr (b', i, out)" "cbuf_wf b'" "capacity b' = capacity b"
    "out @ contents b' = contents b @ i"
    by (rule fifo_stepE [OF cbuf_run_fifo_step [OF assms]])
  then show ?thesis using cbuf_wfD(4) [of b'] by auto
qed

theorem cbuf_calls_are_fifo_witness:
  "\<exists>b' accepted delivered.
    cbuf_run good_alloc ring4 [Op_Write [1, 2] 1, Op_Peek_Discard 2 1, Op_Reserve_Commit 1 [7] 1]
      = Inr (b', accepted, delivered) \<and>
    cbuf_wf b' \<and> length (contents b') \<le> capacity ring4 \<and>
    delivered @ contents b' = contents ring4 @ accepted"
  by (rule cbuf_calls_are_fifo) simp_all

text \<open>The fill level is the number of stored bytes, the free level the number of bytes that
  still fit, a buffer is empty or full exactly when it stores nothing or its size; and the two
  levels add up to the size.\<close>

theorem cbuf_levels_exact:
  assumes "cbuf_wf b"
  shows "unat (cbuf_fill_level b) = length (contents b) \<and>
    unat (cbuf_free_level b) = capacity b - length (contents b) \<and>
    cbuf_fill_level b + cbuf_free_level b = cb_size b \<and>
    (cbuf_is_empty b \<longleftrightarrow> contents b = []) \<and>
    (cbuf_is_full b \<longleftrightarrow> length (contents b) = capacity b)"
proof (intro conjI)
  show "cbuf_fill_level b + cbuf_free_level b = cb_size b" by (simp add: cbuf_free_level_def)
  show "cbuf_is_empty b \<longleftrightarrow> contents b = []"
    using cbuf_is_empty_iff [OF assms] by (metis length_0_conv length_contents)
qed (use assms in \<open>simp_all add: unat_fill_level unat_free_level cbuf_is_full_iff\<close>)

theorem cbuf_levels_exact_witness:
  "unat (cbuf_fill_level ring4) = length (contents ring4) \<and>
    unat (cbuf_free_level ring4) = capacity ring4 - length (contents ring4) \<and>
    cbuf_fill_level ring4 + cbuf_free_level ring4 = cb_size ring4 \<and>
    (cbuf_is_empty ring4 \<longleftrightarrow> contents ring4 = []) \<and>
    (cbuf_is_full ring4 \<longleftrightarrow> length (contents ring4) = capacity ring4)"
  by (rule cbuf_levels_exact) simp

text \<open>A write of no more bytes than are free succeeds, appends exactly these bytes, in one or in
  two pieces, and announces the new level once; a larger write is refused with \<open>-EINVAL\<close> and
  changes nothing.\<close>

theorem cbuf_write_spec:
  assumes "cbuf_wf b" and "unat sz \<le> length src"
  shows "if unat sz \<le> capacity b - length (contents b)
    then \<exists>b'. cbuf_write b src sz = Inr (b', 0) \<and> cbuf_wf b' \<and> cb_size b' = cb_size b \<and>
      contents b' = contents b @ take (unat sz) src \<and> level_changed b' = level_changed b + 1
    else cbuf_write b src sz = Inr (b, - EINVAL)"
proof (cases "unat sz \<le> capacity b - length (contents b)")
  case True
  then show ?thesis
    using cq.put [OF assms(1) True assms(2)] cbuf_write_ok [OF assms(1) _ assms(2)] by auto
next
  case False
  then show ?thesis using cq.put_full [OF assms(1)] by simp
qed

theorem cbuf_write_spec_witness:
  "(\<exists>b'. cbuf_write ring4 [1, 2] 1 = Inr (b', 0) \<and> cbuf_wf b' \<and> cb_size b' = cb_size ring4 \<and>
      contents b' = [30, 10, 20, 1] \<and> level_changed b' = level_changed ring4 + 1) \<and>
    cbuf_write ring4 [1, 2] 2 = Inr (ring4, - EINVAL)"
  using cbuf_write_spec [of ring4 1 "[1, 2]"] cbuf_write_spec [of ring4 2 "[1, 2]"] by simp

text \<open>A read of no more bytes than are stored delivers the oldest bytes, leaves the rest of the
  caller's array alone, and removes the bytes from the buffer; a larger one is refused with
  \<open>-EINVAL\<close> and changes neither the buffer nor the array.\<close>

theorem cbuf_read_spec:
  assumes "cbuf_wf b" and "unat sz \<le> length dst"
  shows "if unat sz \<le> length (contents b)
    then \<exists>b'. cbuf_read b dst sz = Inr (b', take (unat sz) (contents b) @ drop (unat sz) dst, 0) \<and>
      cbuf_wf b' \<and> cb_size b' = cb_size b \<and> contents b' = drop (unat sz) (contents b)
    else cbuf_read b dst sz = Inr (b, dst, - EINVAL)"
proof (cases "unat sz \<le> length (contents b)")
  case True
  then show ?thesis
    using cq.get [OF assms(1) True assms(2)] cbuf_read_ok [OF assms(1) _ assms(2)] by auto
next
  case False
  then show ?thesis using cq.get_short [OF assms(1)] by simp
qed

theorem cbuf_read_spec_witness:
  "(\<exists>b'. cbuf_read ring4 [0, 0, 9] 2 = Inr (b', [30, 10, 9], 0) \<and>
      cbuf_wf b' \<and> cb_size b' = cb_size ring4 \<and> contents b' = [20]) \<and>
    cbuf_read ring4 [0, 0, 0, 0] 4 = Inr (ring4, [0, 0, 0, 0], - EINVAL)"
  using cbuf_read_spec [of ring4 2 "[0, 0, 9]"] cbuf_read_spec [of ring4 4 "[0, 0, 0, 0]"] by simp

text \<open>After reserving room for \<open>n\<close> bytes, storing \<open>bs\<close> through the pointer handed out and
  committing the first \<open>m\<close> of them, exactly these have been appended, whether the pointer led into
  the ring or to a temporary buffer; a reservation that does not fit is refused.\<close>

theorem cbuf_reserve_commit_spec:
  assumes "cbuf_wf b" and "cbuf_tmp_wf b" and "alloc_total al"
    and "unat m \<le> length bs" and "length bs \<le> unat n"
  shows "if unat n \<le> capacity b - length (contents b)
    then \<exists>b1 p b2 b3. cbuf_reserve al b n = Inr (b1, Some p, 0) \<and> contents b1 = contents b \<and>
      ptr_store b1 p bs = Inr b2 \<and> contents b2 = contents b \<and>
      cbuf_commit b2 p m = Inr (b3, 0) \<and> cbuf_wf b3 \<and> cbuf_tmp_wf b3 \<and>
      cb_size b3 = cb_size b \<and> contents b3 = contents b @ take (unat m) bs
    else cbuf_reserve al b n = Inr (b, None, - EINVAL)"
proof (cases "unat n \<le> capacity b - length (contents b)")
  case False
  then show ?thesis using cbuf_reserve_einval [OF assms(1)] by simp
next
  case True
  obtain b1 p b2 where b: "cbuf_reserve al b n = Inr (b1, Some p, 0)" "contents b1 = contents b"
    "ptr_store b1 p bs = Inr b2" "cbuf_wf b2" "cbuf_tmp_wf b2" "contents b2 = contents b" "cb_size b2 = cb_size b"
    "\<forall>m. unat m \<le> length bs \<longrightarrow> (\<exists>b3. cbuf_commit b2 p m = Inr (b3, 0) \<and> cbuf_wf b3 \<and>
       cbuf_tmp_wf b3 \<and> cb_size b3 = cb_size b \<and> contents b3 = contents b @ take (unat m) bs)"
    by (rule reserve_store_commit [OF assms(1-3) True assms(5)])
  then show ?thesis using True b(8) assms(4) by auto
qed

definition ring4_low :: cbuf where
  "ring4_low = ring4\<lparr>rd_ptr := 5\<rparr>"

text \<open>The example reserves three bytes over the end of the array, so through a temporary buffer.\<close>

lemma ring4_low_wf [simp]:
  "cbuf_wf ring4_low" "cbuf_tmp_wf ring4_low" "contents ring4_low = [20]" "cb_size ring4_low = 4"
proof -
  have f: "cbuf_fill ring4_low = 1" by (simp add: cbuf_fill_def ring4_low_def ring4_def)
  show "contents ring4_low = [20]"
    unfolding contents_def f by (simp add: ring_slice_def ring4_low_def ring4_def upt_rec)
  show "cbuf_wf ring4_low"
    unfolding cbuf_wf_def f by (auto simp: ring4_low_def ring4_def intro: exI [of _ 2])
qed (simp_all add: ring4_low_def ring4_def cbuf_tmp_wf_def tmp_ok_def)

theorem cbuf_reserve_commit_spec_witness:
  "(\<exists>b1 p b2 b3. cbuf_reserve good_alloc ring4_low 3 = Inr (b1, Some p, 0) \<and>
      contents b1 = [20] \<and> ptr_store b1 p [1, 2, 3] = Inr b2 \<and> contents b2 = [20] \<and>
      cbuf_commit b2 p 2 = Inr (b3, 0) \<and> cbuf_wf b3 \<and> cbuf_tmp_wf b3 \<and>
      cb_size b3 = 4 \<and> contents b3 = [20, 1, 2])"
  using cbuf_reserve_commit_spec [of ring4_low good_alloc 2 "[1, 2, 3]" 3] by simp

text \<open>Peeking at \<open>n > 0\<close> stored bytes hands out a pointer at which exactly the oldest \<open>n\<close> bytes
  can be read, in one piece even where the ring wraps around, and leaves the contents alone; discarding
  then removes the oldest bytes.  Peeking or discarding beyond the fill level is refused.\<close>

theorem cbuf_peek_discard_spec:
  assumes "cbuf_wf b" and "cbuf_tmp_wf b" and "alloc_total al" and "n \<noteq> 0" and "m \<le> n"
  shows "if unat n \<le> length (contents b)
    then \<exists>b1 p b2. cbuf_peek al b n = Inr (b1, Some p, 0) \<and> contents b1 = contents b \<and>
      ptr_load b1 p (unat n) = Inr (take (unat n) (contents b)) \<and>
      cbuf_discard b1 m = (b2, 0) \<and> cbuf_wf b2 \<and> contents b2 = drop (unat m) (contents b)
    else cbuf_peek al b n = Inr (b, None, - EINVAL) \<and> cbuf_discard b n = (b, - EINVAL)"
proof (cases "unat n \<le> cbuf_fill b")
  case False
  then show ?thesis using cbuf_peek_einval [OF assms(1)] cbuf_discard_einval [OF assms(1)] by simp
next
  case True
  have al: "alloc_ok al" "\<And>n. al n \<noteq> None" using assms(3) by (auto simp: alloc_total_def)
  from assms(1,2) al(1) True assms(4) show ?thesis
  proof (cases rule: cbuf_peek_cases)
    case (ok b1 p)
    have "unat m \<le> length (contents b1)"
      using True ok(4) assms(5) by (simp add: word_le_nat_alt)
    from cq.drop_front [OF ok(2) this] show ?thesis using True ok by auto
  next
    case (no_memory b' k)
    then show ?thesis using al(2) by blast
  qed
qed

theorem cbuf_peek_discard_spec_witness:
  "(\<exists>b1 p b2. cbuf_peek good_alloc ring4 3 = Inr (b1, Some p, 0) \<and> contents b1 = [30, 10, 20] \<and>
      ptr_load b1 p 3 = Inr [30, 10, 20] \<and> cbuf_discard b1 2 = (b2, 0) \<and> cbuf_wf b2 \<and>
      contents b2 = [20]) \<and>
    cbuf_peek good_alloc ring4 4 = Inr (ring4, None, - EINVAL) \<and>
    cbuf_discard ring4 4 = (ring4, - EINVAL)"
  using cbuf_peek_discard_spec [of ring4 good_alloc 3 2]
    cbuf_peek_discard_spec [of ring4 good_alloc 4 4] by simp

text \<open>Creating a buffer aborts exactly when the size is not a power of two; otherwise it fails
  with \<open>-ENOMEM\<close> when memory is short, and else returns an empty buffer of that size that satisfies
  the invariant.\<close>

theorem cbuf_init_spec:
  assumes "alloc_ok al" and "unat sz \<le> 2 ^ 29"
  shows "if \<nexists>k. sz = 2 ^ k \<and> k < 64 then cbuf_init struct_ok al sz = Inl Assert_Failed
    else if \<not> struct_ok \<or> al (unat sz) = None
      then cbuf_init struct_ok al sz = Inr (None, - ENOMEM)
    else \<exists>b. cbuf_init struct_ok al sz = Inr (Some b, 0) \<and> cbuf_wf b \<and> cbuf_tmp_wf b \<and>
      contents b = [] \<and> cb_size b = sz"
proof (cases "\<exists>k<64. sz = 2 ^ k")
  case False
  then have "\<not> (sz \<noteq> 0 \<and> sz AND (sz - 1) = 0)" using power_of_two_test by blast
  then have "cbuf_init struct_ok al sz = Inl Assert_Failed"
    by (simp only: cbuf_init_def c_assert_def if_False cbind_Inl)
  moreover have "\<nexists>k. sz = 2 ^ k \<and> k < 64" using False by blast
  ultimately show ?thesis by (simp only: if_True simp_thms)
next
  case True
  then obtain k where k: "k < 64" "sz = 2 ^ k" by blast
  then have u: "unat sz = 2 ^ k" by (simp add: unat_two_power)
  then have "(2::nat) ^ k \<le> 2 ^ 29" using assms(2) by simp
  then have k29: "k \<le> 29" by (rule power_le_imp_le_exp [rotated]) simp
  have t: "sz \<noteq> 0 \<and> sz AND (sz - 1) = 0" using power_of_two_test True by blast
  show ?thesis
  proof (cases "\<not> struct_ok \<or> al (unat sz) = None")
    case True
    then have "cbuf_init struct_ok al sz = Inr (None, - ENOMEM)"
      using t by (auto simp: cbuf_init_def calloc_def)
    then show ?thesis using True k by auto
  next
    case False
    then obtain b where b: "cbuf_init True al (2 ^ k) = Inr (Some b, 0)" "cbuf_wf b"
      "cbuf_tmp_wf b" "contents b = []" "capacity b = 2 ^ k"
      using cbuf_init_ok [OF k29 assms(1)] u by metis
    then have "cb_size b = sz" using k u by (simp only: word_unat_eq_iff)
    moreover have "cbuf_init struct_ok al sz = Inr (Some b, 0)" using b(1) k(2) False by simp
    ultimately show ?thesis using b k False by auto
  qed
qed

theorem cbuf_init_spec_witness:
  "if \<nexists>k. (4::size_t) = 2 ^ k \<and> k < 64 then cbuf_init True good_alloc 4 = Inl Assert_Failed
    else if \<not> True \<or> good_alloc (unat (4::size_t)) = None
      then cbuf_init True good_alloc 4 = Inr (None, - ENOMEM)
    else \<exists>b. cbuf_init True good_alloc 4 = Inr (Some b, 0) \<and> cbuf_wf b \<and> cbuf_tmp_wf b \<and>
      contents b = [] \<and> cb_size b = 4"
  by (rule cbuf_init_spec) simp_all

text \<open>The size computed for a temporary buffer is the smallest power of two above the request,
  cut off at the maximum; it holds the request whenever the maximum does.\<close>

theorem cbuf_calc_bufsize_spec:
  assumes "req \<noteq> 0" and "unat req \<le> 2 ^ 29"
  shows "\<exists>d n. cbuf_calc_bufsize req mx = Inr n \<and> 2 ^ d \<le> unat req \<and> unat req < 2 ^ Suc d \<and>
    unat n = min (2 ^ Suc d) (unat mx) \<and> (req \<le> mx \<longrightarrow> req \<le> n)"
proof -
  obtain d n where "cbuf_calc_bufsize req mx = Inr n" "2 ^ d \<le> unat req" "unat req < 2 ^ Suc d"
    "unat n = min (2 ^ Suc d) (unat mx)"
    using cbuf_calc_bufsize_ok [OF assms] by blast
  then show ?thesis by (intro exI [of _ d] exI [of _ n]) (auto simp: word_le_nat_alt)
qed

theorem cbuf_calc_bufsize_spec_witness:
  "\<exists>d n. cbuf_calc_bufsize 5 64 = Inr n \<and> 2 ^ d \<le> unat (5::size_t) \<and>
    unat (5::size_t) < 2 ^ Suc d \<and> unat n = min (2 ^ Suc d) (unat (64::size_t)) \<and>
    ((5::size_t) \<le> 64 \<longrightarrow> 5 \<le> n)"
  by (rule cbuf_calc_bufsize_spec) simp_all

text \<open>C6: One reading and one writing thread, interleaved in any way at the accesses to the shared
  positions, never corrupt the stream: the bytes handed out followed by those in the ring are always
  the bytes that were there followed by those written.  No copy of either thread ever leaves an
  array, and the ring keeps its invariant.\<close>

theorem cbuf_threads_keep_stream:
  assumes "cbuf_wf b" and "conc_reachable b s"
  shows "cbuf_wf (ring s) \<and> cb_size (ring s) = cb_size b \<and>
    given_out s @ contents (ring s) = contents b @ taken_in s \<and>
    (\<forall>src n. wthread s = W_Copy src n \<longrightarrow> (\<exists>d. cbuf_write_copy (ring s) src n = Inr d)) \<and>
    (\<forall>dst n. rthread s = R_Copy dst n \<longrightarrow> (\<exists>d. cbuf_read_copy (ring s) dst n = Inr d))"
proof -
  have I: "conc_inv b s" using conc_reachable_inv assms by blast
  then show ?thesis using conc_copies_total [OF I] by (simp add: conc_inv_def word_unat_eq_iff)
qed

theorem cbuf_threads_keep_stream_witness:
  "\<exists>s. conc_reachable ring4 s \<and> taken_in s = [7] \<and>
    given_out s @ contents (ring s) = [30, 10, 20, 7]"
proof -
  have "\<exists>s. conc_reachable ring4 s \<and> taken_in s = [7]"
    using conc_write_call [OF conc_start, of ring4 "[7]"] by (auto simp: conc_init_def)
  then obtain s where s: "conc_reachable ring4 s" "taken_in s = [7]" by blast
  then show ?thesis using cbuf_threads_keep_stream [OF ring4_wf s(1)] by auto
qed

text \<open>The fill level is computed without the mutex, in two accesses: a reader that found the
  buffer not full and is overtaken by the writer filling it computes the level zero, and its call is
  refused with \<open>-EINVAL\<close> although the buffer holds, and has held since the call began, the bytes
  asked for.\<close>

theorem cbuf_reader_spurious_einval:
  assumes "cbuf_wf b" and "cbuf_fill b < capacity b" and "n \<noteq> 0" and "unat n \<le> cbuf_fill b"
    and "unat n \<le> length dst"
  shows "\<exists>s t. conc_reachable b s \<and> given_out s = [] \<and> cbuf_fill (ring s) = capacity b \<and>
    rthread s = R_Test dst n 0 \<and> reader_step s t \<and> rthread t = R_Idle \<and> given_out t = []"
proof -
  let ?s1 = "(conc_init b)\<lparr>rthread := R_Check dst n\<rparr>"
  let ?s2 = "(conc_init b)\<lparr>rthread := R_Level dst n\<rparr>"
  let ?src = "replicate (capacity b - cbuf_fill b) 0"
  have "reader_step (conc_init b) ?s1"
    by (rule r_call) (use assms in \<open>simp_all add: conc_init_def\<close>)
  then have r1: "conc_reachable b ?s1"
    using conc_next [OF conc_start] by (simp add: conc_step_def)
  have "reader_step ?s1 ?s2"
    using r_not_full [of ?s1 dst n] assms(2) cbuf_is_full_iff [OF assms(1)]
    by (simp add: conc_init_def)
  then have r2: "conc_reachable b ?s2" using conc_next [OF r1] by (simp add: conc_step_def)
  obtain t where t: "conc_reachable b t" "rthread t = R_Level dst n" "given_out t = []"
    "taken_in t = ?src"
    using conc_write_call [OF r2 _ assms(1), of ?src] assms(2) by (auto simp: conc_init_def)
  have I: "conc_inv b t" using conc_reachable_inv [OF t(1) assms(1)] .
  then have w: "cbuf_wf (ring t)" "capacity (ring t) = capacity b" and
    c: "contents (ring t) = contents b @ ?src"
    using t by (auto simp: conc_inv_def)
  from arg_cong [OF c, of length] have full: "cbuf_fill (ring t) = capacity b"
    using assms(2) by simp
  let ?u = "t\<lparr>rthread := R_Test dst n 0\<rparr>"
  have "reader_step t ?u"
    using r_level [OF t(2)] level_diff_full [OF w(1)] full w(2) by simp
  then have u: "conc_reachable b ?u" using conc_next [OF t(1)] by (simp add: conc_step_def)
  have "reader_step ?u (?u\<lparr>rthread := R_Idle\<rparr>)"
    by (rule r_einval) (use assms(3) in \<open>simp_all add: word_neq_0_conv\<close>)
  with u t(3) full show ?thesis by fastforce
qed

theorem cbuf_reader_spurious_einval_witness:
  "\<exists>s t. conc_reachable ring4 s \<and> given_out s = [] \<and> cbuf_fill (ring s) = 4 \<and>
    rthread s = R_Test [0] 1 0 \<and> reader_step s t \<and> rthread t = R_Idle \<and> given_out t = []"
  using cbuf_reader_spurious_einval [of ring4 1 "[0]"] by simp

text \<open>Once the allocation of the temporary buffer of a reservation has failed, the next
  reservation of the same size succeeds with a null pointer: the size was recorded before the
  allocation was checked.\<close>

theorem cbuf_reserve_after_enomem:
  assumes "cbuf_wf b" and "cbuf_tmp_wf b" and "alloc_ok al"
    and "cbuf_reserve al b n = Inr (b', None, - ENOMEM)"
  shows "unat n \<le> capacity b - cbuf_fill b \<and> cbuf_reserve al' b' n = Inr (b', Some Null_Ptr, 0)"
proof -
  have room: "unat n \<le> capacity b - cbuf_fill b"
    using assms(4) cbuf_reserve_einval [OF assms(1), of n al] by (force simp: errno_defs)
  from assms(1,2,3) room show ?thesis
  proof (cases rule: cbuf_reserve_cases)
    case (ok b1 p)
    then show ?thesis using assms(4) by simp
  next
    case (no_memory b1 k)
    then show ?thesis using assms(4) room by simp
  qed
qed

theorem cbuf_reserve_after_enomem_witness:
  "\<exists>b'. cbuf_reserve (\<lambda>_. None) ring4_low 3 = Inr (b', None, - ENOMEM) \<and>
    unat (3::size_t) \<le> 4 - 1 \<and> cbuf_reserve good_alloc b' 3 = Inr (b', Some Null_Ptr, 0)"
proof -
  have "cbuf_reserve (\<lambda>_. None) ring4_low 3 = Inr
      (ring4_low\<lparr>write_data_tmp_size := 4, write_data_tmp := None\<rparr>, None, - ENOMEM)"
    by code_simp
  from cbuf_reserve_after_enomem [OF ring4_low_wf(1,2) _ this, of good_alloc] this
  show ?thesis by (auto simp: alloc_ok_def)
qed

end
