(* ===== verification/C_Strings.thy ===== *)
theory C_Strings
  imports Glip_Prelude
begin

text \<open>
  The number parsers of the C standard library the sources call.  A C string is the list of its
  characters before the terminating NUL; the end pointer a parser returns is the rest of the string.
\<close>

section \<open>Characters and digits\<close>

definition c_isspace :: "char \<Rightarrow> bool" where
  "c_isspace c = (let n = (of_char c :: nat) in n = 32 \<or> 9 \<le> n \<and> n \<le> 13)"

definition digit_of :: "nat \<Rightarrow> char \<Rightarrow> nat option" where
  "digit_of base c =
     (let n = (of_char c :: nat);
          d = (if 48 \<le> n \<and> n \<le> 57 then n - 48
               else if 97 \<le> n \<and> n \<le> 122 then n - 87
               else if 65 \<le> n \<and> n \<le> 90 then n - 55 else base)
      in if d < base then Some d else None)"

text \<open>The leading digits of a string and what follows them; their value, first digit first.\<close>

fun span_digits :: "nat \<Rightarrow> string \<Rightarrow> nat list \<times> string" where
  "span_digits base [] = ([], [])"
| "span_digits base (c # s) =
     (case digit_of base c of
        None \<Rightarrow> ([], c # s)
      | Some d \<Rightarrow> (let (ds, r) = span_digits base s in (d # ds, r)))"

definition digits_value :: "nat \<Rightarrow> nat list \<Rightarrow> nat" where
  "digits_value base ds = foldl (\<lambda>v d. v * base + d) 0 ds"

definition skip_sign :: "string \<Rightarrow> bool \<times> string" where
  "skip_sign s = (case s of c # r \<Rightarrow>
       (if c = CHR ''-'' then (True, r) else if c = CHR ''+'' then (False, r) else (False, s))
     | [] \<Rightarrow> (False, s))"

text \<open>The base a number is written in when the caller leaves it open, and the number without its
  prefix: \<open>0x\<close> counts only in front of a hexadecimal digit.\<close>

definition detect_base :: "string \<Rightarrow> nat \<times> string" where
  "detect_base s =
     (if s \<noteq> [] \<and> hd s = CHR ''0''
      then (if 3 \<le> length s \<and> (s ! 1 = CHR ''x'' \<or> s ! 1 = CHR ''X'') \<and> digit_of 16 (s ! 2) \<noteq> None
            then (16, drop 2 s) else (8, s))
      else (10, s))"

section \<open>\<open>strtoul\<close> and \<open>strtol\<close>\<close>

text \<open>
  \<open>strtoul (s, &end, 0)\<close>: the value, the rest of the string and whether \<open>errno\<close> is set to
  \<open>ERANGE\<close>.  Without digits the value is zero and the rest is the whole string.
\<close>

definition strtoul0 :: "string \<Rightarrow> u64 \<times> string \<times> bool" where
  "strtoul0 s =
     (let (neg, r) = skip_sign (dropWhile c_isspace s); (base, r') = detect_base r;
          (ds, rest) = span_digits base r'; v = digits_value base ds
      in if ds = [] then (0, s, False)
         else if 2 ^ 64 \<le> v then (- 1, rest, True)
         else (if neg then - of_nat v else of_nat v, rest, False))"

text \<open>\<open>strtoul (s, NULL, 10)\<close>: the value only.\<close>

definition strtoul10 :: "string \<Rightarrow> u64" where
  "strtoul10 s =
     (let (neg, r) = skip_sign (dropWhile c_isspace s); v = digits_value 10 (fst (span_digits 10 r))
      in if 2 ^ 64 \<le> v then - 1 else if neg then - of_nat v else of_nat v)"

text \<open>\<open>strtol (s, &end, base)\<close> for base 10 or 16: the value, clamped to the range of \<open>long\<close>,
  and the rest.\<close>

definition skip_prefix :: "nat \<Rightarrow> string \<Rightarrow> string" where
  "skip_prefix base s = (if base = 16 \<and> fst (detect_base s) = 16 then snd (detect_base s) else s)"

definition strtol :: "nat \<Rightarrow> string \<Rightarrow> int \<times> string" where
  "strtol base s =
     (let (neg, r) = skip_sign (dropWhile c_isspace s);
          (ds, rest) = span_digits base (skip_prefix base r); v = int (digits_value base ds)
      in if ds = [] then (0, s)
         else (max (- (2 ^ 63)) (min (2 ^ 63 - 1) (if neg then - v else v)), rest))"

section \<open>Decimal numerals\<close>

text \<open>The numeral \<open>printf\<close> prints for \<open>%u\<close>.\<close>

fun decimal :: "nat \<Rightarrow> string" where
  "decimal n = (if n < 10 then [char_of (48 + n)]
                else decimal (n div 10) @ [char_of (48 + n mod 10)])"

declare decimal.simps [simp del]

lemma char_zero: "char_of (48::nat) = CHR ''0''"
  using char_of_char [of "CHR ''0''", where ?'a = nat] by simp

lemma of_char_digit [simp]: "(n::nat) < 10 \<Longrightarrow> of_char (char_of (48 + n) :: char) = 48 + n"
  by (simp add: of_char_of)

lemma digit_of_digit [simp]: "(n::nat) < 10 \<Longrightarrow> digit_of 10 (char_of (48 + n)) = Some n"
  by (simp add: digit_of_def)

lemma span_digits_append:
  "snd (span_digits base s) = [] \<Longrightarrow>
     span_digits base (s @ t) = (fst (span_digits base s) @ fst (span_digits base t),
       snd (span_digits base t))"
  by (induction s) (auto simp: Let_def split: option.splits prod.splits)

text \<open>What the parsers read back from a numeral.\<close>

lemma span_digits_decimal:
  "\<exists>ds. span_digits 10 (decimal n) = (ds, []) \<and> digits_value 10 ds = n \<and> ds \<noteq> []"
proof (induction n rule: decimal.induct)
  case (1 n)
  show ?case
  proof (cases "n < 10")
    case True
    then show ?thesis by (subst decimal.simps) (simp add: digits_value_def)
  next
    case False
    then obtain ds where ds: "span_digits 10 (decimal (n div 10)) = (ds, [])"
      "digits_value 10 ds = n div 10" using 1 by blast
    have "span_digits 10 (decimal n) = (ds @ [n mod 10], [])"
      using False ds by (subst decimal.simps) (simp add: span_digits_append)
    moreover have "digits_value 10 (ds @ [n mod 10]) = n"
      using ds(2) by (simp add: digits_value_def)
    ultimately show ?thesis by blast
  qed
qed

text \<open>The first character of a numeral is a digit, and no zero unless the number is zero.\<close>

lemma decimal_head:
  "\<exists>(k::nat) r. decimal n = char_of (48 + k) # r \<and> k < 10 \<and> (k = 0 \<longrightarrow> n = 0) \<and> (n < 10 \<longrightarrow> r = [])"
proof (induction n rule: decimal.induct)
  case (1 n)
  show ?case
  proof (cases "n < 10")
    case True
    then show ?thesis by (subst decimal.simps) (auto intro!: exI [of _ n])
  next
    case False
    then obtain k :: nat and r where "decimal (n div 10) = char_of (48 + k) # r" "k < 10"
      "k = 0 \<longrightarrow> n div 10 = 0" using 1 by blast
    then show ?thesis using False
      by (subst decimal.simps) (simp, intro exI [of _ k], auto simp: div_eq_0_iff)
  qed
qed

lemma digit_char_props:
  assumes "(k::nat) < 10"
  shows "\<not> c_isspace (char_of (48 + k))" "char_of (48 + k) \<noteq> CHR ''-''"
    "char_of (48 + k) \<noteq> CHR ''+''" "char_of (48 + k) = CHR ''0'' \<longleftrightarrow> k = 0"
proof -
  have o: "of_char (char_of (48 + k) :: char) = 48 + k" using assms by simp
  show "\<not> c_isspace (char_of (48 + k))" using assms by (simp add: c_isspace_def)
  show "char_of (48 + k) \<noteq> CHR ''-''" "char_of (48 + k) \<noteq> CHR ''+''"
    using arg_cong [of "char_of (48 + k)" _ "of_char :: char \<Rightarrow> nat"] o by force+
  have "char_of (48 + k) = CHR ''0'' \<Longrightarrow> k = 0"
    using arg_cong [of "char_of (48 + k)" "CHR ''0''" "of_char :: char \<Rightarrow> nat"] unfolding o by simp
  then show "char_of (48 + k) = CHR ''0'' \<longleftrightarrow> k = 0" using char_zero by auto
qed

lemma skip_decimal:
  "skip_sign (dropWhile c_isspace (decimal n)) = (False, decimal n)"
  using decimal_head [of n] by (auto simp: skip_sign_def digit_char_props)

lemma detect_decimal: "n \<noteq> 0 \<Longrightarrow> detect_base (decimal n) = (10, decimal n)"
  using decimal_head [of n] by (auto simp: detect_base_def digit_char_props)

lemma decimal_zero: "decimal 0 = ''0''"
  by (subst decimal.simps) (simp add: char_zero)

lemma detect_zero: "detect_base (decimal 0) = (8, decimal 0)" "span_digits 8 (decimal 0) = ([0], [])"
  by (simp_all add: decimal_zero detect_base_def digit_of_def)

lemma strtoul0_decimal:
  assumes "n < 2 ^ 64"
  shows "strtoul0 (decimal n) = (of_nat n, [], False)"
proof (cases "n = 0")
  case True
  then show ?thesis
    by (simp only: strtoul0_def skip_decimal detect_zero Let_def prod.case) (simp add: digits_value_def)
next
  case False
  obtain ds where "span_digits 10 (decimal n) = (ds, [])" "digits_value 10 ds = n" "ds \<noteq> []"
    using span_digits_decimal by blast
  then show ?thesis using assms
    by (simp only: strtoul0_def skip_decimal detect_decimal [OF False] Let_def prod.case) simp
qed

lemma strtol_decimal:
  assumes "n < 2 ^ 63"
  shows "strtol 10 (decimal n) = (int n, [])"
proof -
  obtain ds where ds: "span_digits 10 (decimal n) = (ds, [])" "digits_value 10 ds = n" "ds \<noteq> []"
    using span_digits_decimal by blast
  have "int n < 2 ^ 63" using assms by (simp add: of_nat_less_iff [symmetric] del: of_nat_less_iff)
  then show ?thesis using ds
    by (simp only: strtol_def skip_decimal skip_prefix_def Let_def prod.case) simp
qed

end
