(* ===== verification/Util.thy ===== *)
theory Util
  imports C_Strings
begin

text \<open>
  The helper functions of \<^verbatim>\<open>glip/src/util.h\<close> and \<^verbatim>\<open>glip/src/util.c\<close>.  The system
  calls belong to the environment: their results are arguments, the calls made are returned.
\<close>

section \<open>Time arithmetic and minimum\<close>

text \<open>
  Division by repeated subtraction, as in the Linux kernel.  The loop does not end for a zero divisor;
  that it has not returned is the value \<open>None\<close>.  \<open>ret\<close> is 32 bits wide.
\<close>

partial_function (option) iter_div_loop :: "u64 \<Rightarrow> u32 \<Rightarrow> u32 \<Rightarrow> (u32 \<times> u64) option" where
  "iter_div_loop dividend divisor ret =
     (if ucast divisor \<le> dividend
      then iter_div_loop (dividend - ucast divisor) divisor (ret + 1)
      else Some (ret, dividend))"

definition iter_div_u64_rem :: "u64 \<Rightarrow> u32 \<Rightarrow> (u32 \<times> u64) option" where
  "iter_div_u64_rem dividend divisor = iter_div_loop dividend divisor 0"

record timespec =
  tv_sec :: u64
  tv_nsec :: u64

definition NSEC_PER_SEC :: u32 where "NSEC_PER_SEC = 1000000000"

definition timespec_add_ns :: "timespec \<Rightarrow> u64 \<Rightarrow> timespec option" where
  "timespec_add_ns a ns =
     map_option (\<lambda>(q, r). a\<lparr>tv_sec := tv_sec a + ucast q, tv_nsec := r\<rparr>)
       (iter_div_u64_rem (tv_nsec a + ns) NSEC_PER_SEC)"

text \<open>\<open>max\<close> and \<open>min\<close> compare values of type \<open>int\<close>.\<close>

definition int_max :: "u32 \<Rightarrow> u32 \<Rightarrow> u32" where
  "int_max a b = (if sint a > sint b then a else b)"

definition int_min :: "u32 \<Rightarrow> u32 \<Rightarrow> u32" where
  "int_min a b = (if sint a > sint b then b else a)"

section \<open>Connecting to a host\<close>

text \<open>
  \<open>getaddrinfo\<close> returns an error code and a list of addresses.  For each address the environment
  fixes what \<open>socket\<close> and, on the socket, \<open>connect\<close> return.
\<close>

record addr_candidate =
  sock_rv :: int
  conn_rv :: int

datatype sock_event = Sock_Open int | Sock_Close int | Free_Addrinfo


text \<open>\<open>snprintf (port_c, 8, "%7u", port)\<close>: padded to seven characters, cut off at seven.\<close>

definition port_string :: "u32 \<Rightarrow> string" where
  "port_string port =
     (let ds = decimal (unat port) in take 7 (replicate (7 - length ds) CHR 0x20 @ ds))"

text \<open>The loop over the addresses: what it does, and the connected socket.\<close>

fun connect_loop :: "addr_candidate list \<Rightarrow> sock_event list \<times> int option" where
  "connect_loop [] = ([], None)"
| "connect_loop (rp # rest) =
     (let sfd_tmp = sock_rv rp
      in if sfd_tmp = - 1 then connect_loop rest
         else if conn_rv rp = 0 then ([Sock_Open sfd_tmp], Some sfd_tmp)
         else (let (ev, r) = connect_loop rest
               in (Sock_Open sfd_tmp # Sock_Close sfd_tmp # ev, r)))"

text \<open>The address lookup is a function of the host name, which may be a null pointer, and the port string.\<close>

definition gl_util_connect_to_host ::
    "(string option \<Rightarrow> string \<Rightarrow> int \<times> addr_candidate list) \<Rightarrow> string option \<Rightarrow> u32
       \<Rightarrow> sock_event list \<times> int option \<times> int" where
  "gl_util_connect_to_host getaddrinfo hostname port =
     (if port > 9999999 then ([], None, - 1)
      else (let (s, result) = getaddrinfo hostname (port_string port)
            in if s \<noteq> 0 then ([], None, - 1)
               else (case connect_loop result of
                   (ev, None) \<Rightarrow> (ev, None, - 1)
                 | (ev, Some sfd) \<Rightarrow> (ev @ [Free_Addrinfo], Some sfd, 0))))"

section \<open>File descriptor flags\<close>

definition O_NONBLOCK :: u32 where "O_NONBLOCK = 0x800"

text \<open>\<open>getfl\<close> and \<open>setfl\<close> are the results of the two \<open>fcntl\<close> calls; the second component is
  the flag word of the second call, if it is made.\<close>

definition gl_util_fd_nonblock :: "u32 \<Rightarrow> u32 \<Rightarrow> int \<times> u32 option" where
  "gl_util_fd_nonblock getfl setfl =
     (if getfl = - 1 then (- 1, None)
      else (let flags = getfl OR O_NONBLOCK
            in if setfl = - 1 then (- 1, Some flags) else (0, Some flags)))"

section \<open>Child processes\<close>

text \<open>
  \<open>gl_util_popen\<close>: the three pipes (\<open>None\<close> for a failed \<open>pipe\<close> call) are pairs of a read and a
  write descriptor.  In the child the effects are listed up to \<open>execvp\<close>, which does not return
  when it succeeds.
\<close>

datatype proc_event = P_Dup2 int int | P_Close int | P_Execvp string "string list" | P_Exit int

record popen_result =
  po_rv :: int
  po_events :: "proc_event list"
  po_infd :: "int option"
  po_outfd :: "int option"

definition popen_fail :: popen_result where
  "popen_fail = \<lparr>po_rv = - 1, po_events = [], po_infd = None, po_outfd = None\<rparr>"

definition popen_child ::
    "(int \<times> int) \<Rightarrow> (int \<times> int) \<Rightarrow> (int \<times> int) \<Rightarrow> string \<Rightarrow> string list \<Rightarrow> bool \<Rightarrow> proc_event list" where
  "popen_child pin pout perr file argv exec_ok =
     [P_Dup2 (fst pin) 0, P_Dup2 (snd pout) 1, P_Dup2 (snd pout) 2,
      P_Close (fst pin), P_Close (snd pin), P_Close (fst pout), P_Close (snd pout),
      P_Close (fst perr), P_Close (snd perr), P_Execvp file argv] @
     (if exec_ok then [] else [P_Exit 1])"

definition gl_util_popen ::
    "(int \<times> int) option \<Rightarrow> (int \<times> int) option \<Rightarrow> (int \<times> int) option \<Rightarrow> int \<Rightarrow> bool \<Rightarrow> bool
       \<Rightarrow> popen_result" where
  "gl_util_popen pfd_stdin pfd_stdout pfd_stderr cpid want_in want_out =
     (case (pfd_stdin, pfd_stdout, pfd_stderr) of
        (Some pin, Some pout, Some perr) \<Rightarrow>
          (if cpid = - 1 then popen_fail
           else \<lparr>po_rv = cpid,
                 po_events = [P_Close (fst pin), P_Close (snd pout),
                              P_Close (fst perr), P_Close (snd perr)] @
                             (if want_in then [] else [P_Close (snd pin)]) @
                             (if want_out then [] else [P_Close (fst pout)]),
                 po_infd = (if want_in then Some (snd pin) else None),
                 po_outfd = (if want_out then Some (fst pout) else None)\<rparr>)
      | _ \<Rightarrow> popen_fail)"

text \<open>
  \<open>gl_util_pclose\<close>: \<open>status\<close> is not initialised, so its first value is an argument.  A call of
  \<open>waitpid\<close> that finds no change leaves it alone (\<open>None\<close>).
\<close>

datatype sig_event = Sig_Hup | Sig_Kill | Wait_Nohang | Wait_Block | Usleep_10ms

definition WIFEXITED :: "u32 \<Rightarrow> bool" where
  "WIFEXITED status = (status AND 0x7F = 0)"

definition waitpid :: "u32 \<Rightarrow> u32 option \<Rightarrow> u32" where
  "waitpid status w = (case w of None \<Rightarrow> status | Some s \<Rightarrow> s)"

function pclose_loop :: "nat \<Rightarrow> u32 \<Rightarrow> (nat \<Rightarrow> u32 option) \<Rightarrow> sig_event list \<times> u32 \<times> bool" where
  "pclose_loop i status waits =
     (if 10 \<le> i then ([], status, False)
      else (let status' = waitpid status (waits i)
            in if WIFEXITED status' then ([Wait_Nohang], status', True)
               else (let (ev, s, r) = pclose_loop (i + 1) status' waits
                     in (Wait_Nohang # Usleep_10ms # ev, s, r))))"
  by pat_completeness auto
termination by (relation "measure (\<lambda>(i, _, _). 10 - i)") auto

declare pclose_loop.simps [simp del]

definition gl_util_pclose :: "u32 \<Rightarrow> (nat \<Rightarrow> u32 option) \<Rightarrow> u32 option \<Rightarrow> sig_event list \<times> int" where
  "gl_util_pclose status waits last_wait =
     (let (ev, status', done) = pclose_loop 0 status waits
      in if done then (Sig_Hup # ev, 0)
         else (Sig_Hup # ev @ [Sig_Kill, Wait_Block],
               if WIFEXITED (waitpid status' last_wait) then 0 else - 1))"

end
