(* ===== verification/Util_Properties.thy ===== *)
theory Util_Properties
  imports Util "HOL-Library.Multiset"
begin

text \<open>What the helper functions guarantee: exact division and time arithmetic, the choice of the
  address and the closing of sockets in a connection attempt, the end of a child process.\<close>

section \<open>Division and time\<close>

lemma iter_div_loop_zero: "iter_div_loop d v r = Some y \<Longrightarrow> v \<noteq> 0"
  by (rule iter_div_loop.raw_induct [of "\<lambda>_ v _ _. v \<noteq> 0", rotated]) (auto split: if_splits)

lemma iter_div_loop_ok:
  assumes "v \<noteq> 0"
  shows "iter_div_loop d v r =
    Some (r + of_nat (unat d div unat v), of_nat (unat d mod unat v))"
proof (induction "unat d" arbitrary: d r rule: less_induct)
  case less
  have u: "unat (ucast v :: u64) = unat v"
    by (rule unat_ucast_up) simp
  have pos: "0 < unat v" using assms by (simp add: unat_gt_0)
  show ?case
  proof (cases "ucast v \<le> d")
    case True
    then have le: "unat v \<le> unat d" by (simp add: word_le_nat_alt u)
    have m: "unat (d - ucast v) = unat d - unat v" using True by (simp add: unat_minus_le u)
    then have "iter_div_loop (d - ucast v) v (r + 1) =
      Some (r + 1 + of_nat ((unat d - unat v) div unat v), of_nat ((unat d - unat v) mod unat v))"
      using less [of "d - ucast v" "r + 1"] le pos by simp
    moreover have "unat d div unat v = Suc ((unat d - unat v) div unat v)"
      "unat d mod unat v = (unat d - unat v) mod unat v"
      using le pos by (simp_all add: le_div_geq le_mod_geq)
    ultimately show ?thesis using True by (subst iter_div_loop.simps) (simp add: ac_simps)
  next
    case False
    then have "unat d < unat v" by (simp add: word_le_nat_alt u)
    then show ?thesis using False by (subst iter_div_loop.simps) simp
  qed
qed

lemma iter_div_u64_rem_ok:
  "v \<noteq> 0 \<Longrightarrow> iter_div_u64_rem d v = Some (of_nat (unat d div unat v), of_nat (unat d mod unat v))"
  by (simp add: iter_div_u64_rem_def iter_div_loop_ok)

text \<open>Division by repeated subtraction returns the quotient, cut to 32 bits, and the remainder of
  its arguments for every divisor but zero, where it never returns.\<close>

theorem iter_div_u64_rem_spec:
  "iter_div_u64_rem d v =
    (if v = 0 then None else Some (of_nat (unat d div unat v), of_nat (unat d mod unat v)))"
proof (cases "v = 0")
  case True
  then have "iter_div_loop d v 0 = None" using iter_div_loop_zero [of d v 0] by (cases "iter_div_loop d v 0") auto
  then show ?thesis using True by (simp add: iter_div_u64_rem_def)
qed (simp add: iter_div_u64_rem_ok)

lemma timespec_add_ns_ok:
  assumes "unat (tv_nsec a) + unat ns < 2 ^ 32 * 10 ^ 9" and "unat (tv_sec a) < 2 ^ 63"
  shows "\<exists>b. timespec_add_ns a ns = Some b \<and> unat (tv_nsec b) < 10 ^ 9 \<and>
    unat (tv_sec b) * 10 ^ 9 + unat (tv_nsec b) =
      unat (tv_sec a) * 10 ^ 9 + unat (tv_nsec a) + unat ns"
proof -
  define t where "t = unat (tv_nsec a) + unat ns"
  have t: "unat (tv_nsec a + ns) = t" using assms(1) by (simp add: t_def unat_add_small)
  have v: "NSEC_PER_SEC \<noteq> 0" "unat NSEC_PER_SEC = 10 ^ 9" by (simp_all add: NSEC_PER_SEC_def)
  have q: "t div 10 ^ 9 < 2 ^ 32" using assms(1) unfolding t_def by (subst less_mult_imp_div_less) auto
  have r: "t mod 10 ^ 9 < 10 ^ 9" by simp
  define b where "b = a\<lparr>tv_sec := tv_sec a + ucast (of_nat (t div 10 ^ 9) :: u32),
    tv_nsec := of_nat (t mod 10 ^ 9)\<rparr>"
  have 1: "timespec_add_ns a ns = Some b"
    unfolding timespec_add_ns_def iter_div_u64_rem_ok [OF v(1)] using v t by (simp add: b_def)
  have uq: "unat (ucast (of_nat (t div 10 ^ 9) :: u32) :: u64) = t div 10 ^ 9"
    using q by (simp add: unsigned_ucast_eq unat_of_nat take_bit_nat_eq_self)
  have 2: "unat (tv_nsec b) = t mod 10 ^ 9"
    using r by (simp add: b_def unat_of_nat take_bit_nat_eq_self)
  have 3: "unat (tv_sec b) = unat (tv_sec a) + t div 10 ^ 9"
    using uq q assms(2) by (simp add: b_def unat_add_small)
  have "unat (tv_sec b) * 10 ^ 9 + unat (tv_nsec b) = unat (tv_sec a) * 10 ^ 9 + t"
    unfolding 2 3 by (simp add: algebra_simps)
  then show ?thesis using 1 2 r by (simp add: t_def)
qed

text \<open>C13: Adding nanoseconds to a time stamp always returns, normalises the nanosecond part and keeps
  the total, as long as fewer than \<open>2 ^ 32\<close> seconds are carried over.\<close>

theorem timespec_add_ns_spec:
  assumes "unat (tv_nsec a) + unat ns < 2 ^ 32 * 10 ^ 9" and "unat (tv_sec a) < 2 ^ 63"
  shows "\<exists>b. timespec_add_ns a ns = Some b \<and> unat (tv_nsec b) < 10 ^ 9 \<and>
    unat (tv_sec b) * 10 ^ 9 + unat (tv_nsec b) =
      unat (tv_sec a) * 10 ^ 9 + unat (tv_nsec a) + unat ns"
  by (rule timespec_add_ns_ok [OF assms])

theorem timespec_add_ns_spec_witness:
  "\<exists>b. timespec_add_ns \<lparr>tv_sec = 5, tv_nsec = 999999999\<rparr> 2000000002 = Some b \<and>
    unat (tv_nsec b) < 10 ^ 9 \<and>
    unat (tv_sec b) * 10 ^ 9 + unat (tv_nsec b) = 8000000001"
  using timespec_add_ns_spec [of "\<lparr>tv_sec = 5, tv_nsec = 999999999\<rparr>" 2000000002] by simp

section \<open>Connections\<close>

definition usable :: "addr_candidate \<Rightarrow> bool" where
  "usable c \<longleftrightarrow> sock_rv c \<noteq> - 1 \<and> conn_rv c = 0"

definition opened :: "sock_event list \<Rightarrow> int multiset" where
  "opened ev = mset [fd. Sock_Open fd \<leftarrow> ev]"

definition closed :: "sock_event list \<Rightarrow> int multiset" where
  "closed ev = mset [fd. Sock_Close fd \<leftarrow> ev]"

lemma connect_loop_result:
  "snd (connect_loop cs) = (case filter usable cs of [] \<Rightarrow> None | c # _ \<Rightarrow> Some (sock_rv c))"
  by (induction cs) (auto simp: Let_def usable_def split: prod.splits)

lemma connect_loop_sockets:
  "opened (fst (connect_loop cs)) = closed (fst (connect_loop cs)) +
     (case snd (connect_loop cs) of None \<Rightarrow> {#} | Some fd \<Rightarrow> {#fd#})"
  by (induction cs) (auto simp: Let_def opened_def closed_def split: prod.splits option.splits)

lemma connect_loop_no_free: "Free_Addrinfo \<notin> set (fst (connect_loop cs))"
  by (induction cs) (auto simp: Let_def split: prod.splits)

text \<open>C14: A connection attempt uses the first address for which a socket can be made and connected,
  and fails when there is none.  On return every socket it opened is closed again but the one handed
  out; the address list is freed on success, and leaked when no address works.\<close>

theorem gl_util_connect_to_host_spec:
  assumes "port \<le> 9999999" and "getaddrinfo host (port_string port) = (0, cs)"
    and "gl_util_connect_to_host getaddrinfo host port = (ev, sfd, rv)"
  shows "(case filter usable cs of
      [] \<Rightarrow> rv = - 1 \<and> sfd = None \<and> opened ev = closed ev \<and> Free_Addrinfo \<notin> set ev
    | c # _ \<Rightarrow> rv = 0 \<and> sfd = Some (sock_rv c) \<and> opened ev = add_mset (sock_rv c) (closed ev) \<and>
        Free_Addrinfo \<in> set ev)"
proof -
  obtain ev' r where l: "connect_loop cs = (ev', r)" by fastforce
  have r: "r = (case filter usable cs of [] \<Rightarrow> None | c # _ \<Rightarrow> Some (sock_rv c))"
    using connect_loop_result [of cs] l by simp
  have s: "opened ev' = closed ev' + (case r of None \<Rightarrow> {#} | Some fd \<Rightarrow> {#fd#})"
    using connect_loop_sockets [of cs] l by simp
  have f: "Free_Addrinfo \<notin> set ev'" using connect_loop_no_free [of cs] l by simp
  have "\<not> port > 9999999" using assms(1) by simp
  then have c: "(ev, sfd, rv) = (case r of None \<Rightarrow> (ev', None, - 1)
      | Some sfd \<Rightarrow> (ev' @ [Free_Addrinfo], Some sfd, 0))"
    using assms(2,3) l by (simp add: gl_util_connect_to_host_def split: option.splits)
  show ?thesis using c r s f
    by (auto simp: opened_def closed_def split: list.splits option.splits)
qed

theorem gl_util_connect_to_host_spec_witness:
  "gl_util_connect_to_host (\<lambda>_ _. (0, [\<lparr>sock_rv = - 1, conn_rv = 0\<rparr>, \<lparr>sock_rv = 5, conn_rv = - 1\<rparr>,
      \<lparr>sock_rv = 6, conn_rv = 0\<rparr>])) (Some ''localhost'') 23000 =
    ([Sock_Open 5, Sock_Close 5, Sock_Open 6, Free_Addrinfo], Some 6, 0)"
  using gl_util_connect_to_host_spec [of 23000 "\<lambda>_ _. (0, [\<lparr>sock_rv = - 1, conn_rv = 0\<rparr>,
      \<lparr>sock_rv = 5, conn_rv = - 1\<rparr>, \<lparr>sock_rv = 6, conn_rv = 0\<rparr>])" "Some ''localhost''"]
  by (simp add: gl_util_connect_to_host_def Let_def)

section \<open>Ending a child process\<close>

lemma pclose_loop_silent:
  "\<forall>k \<ge> i. waits k = None \<Longrightarrow> \<not> WIFEXITED status \<Longrightarrow> i \<le> 10 \<Longrightarrow>
     snd (pclose_loop i status waits) = (status, False)"
proof (induction i status waits rule: pclose_loop.induct)
  case (1 i status waits)
  show ?case
  proof (cases "10 \<le> i")
    case False
    then have "snd (pclose_loop (i + 1) status waits) = (status, False)" using 1 by (simp add: waitpid_def)
    then show ?thesis using 1 False
      by (subst pclose_loop.simps) (auto simp: waitpid_def Let_def split: prod.splits)
  qed (subst pclose_loop.simps, simp)
qed

text \<open>When at most the first poll finds a change, ending a child succeeds exactly if that status
  says the child exited by itself.  A child terminated by the very signal sent to it is reported as a
  failure, after the second, needless signal; and when the first poll finds no change, the decision
  falls on the uninitialised status word.\<close>

theorem gl_util_pclose_spec:
  assumes "\<forall>k > 0. waits k = None"
  shows "if WIFEXITED (waitpid garbage (waits 0))
    then gl_util_pclose garbage waits None = ([Sig_Hup, Wait_Nohang], 0)
    else snd (gl_util_pclose garbage waits None) = - 1 \<and>
      Sig_Kill \<in> set (fst (gl_util_pclose garbage waits None))"
proof -
  define st where "st = waitpid garbage (waits 0)"
  have first: "pclose_loop 0 garbage waits = (if WIFEXITED st then ([Wait_Nohang], st, True)
    else (let (ev, s, r) = pclose_loop 1 st waits in (Wait_Nohang # Usleep_10ms # ev, s, r)))"
    by (subst pclose_loop.simps) (simp add: st_def)
  show ?thesis
  proof (cases "WIFEXITED st")
    case True
    then show ?thesis by (simp add: gl_util_pclose_def first flip: st_def)
  next
    case False
    then have "snd (pclose_loop 1 st waits) = (st, False)"
      using assms by (intro pclose_loop_silent) auto
    then obtain ev where "pclose_loop 1 st waits = (ev, st, False)" by (metis prod.collapse)
    then show ?thesis using False by (simp add: gl_util_pclose_def first waitpid_def [of st] flip: st_def)
  qed
qed

theorem gl_util_pclose_spec_witness:
  "(let w = (\<lambda>i::nat. if i = 0 then Some 1 else None :: u32 option)
    in snd (gl_util_pclose 0xFF w None) = - 1 \<and> Sig_Kill \<in> set (fst (gl_util_pclose 0xFF w None))) \<and>
    gl_util_pclose 0 (\<lambda>_. None) None = ([Sig_Hup, Wait_Nohang], 0)"
  using gl_util_pclose_spec [of "\<lambda>i. if i = 0 then Some 1 else None" "0xFF"]
    gl_util_pclose_spec [of "\<lambda>_. None" 0]
  by (simp add: WIFEXITED_def waitpid_def)

end
