(* ===== verification/Glip.thy ===== *)
theory Glip
  imports C_Strings
begin

text \<open>
  The public interface of the library, \<^verbatim>\<open>glip/src/glip.c\<close>, over any backend.  A backend is the
  record of its functions (\<^verbatim>\<open>struct glip_backend_if\<close>); \<open>'b\<close> is the type of its private state
  together with what it talks to.  The message output of the log functions is left out.
\<close>

section \<open>Data\<close>

definition GLIP_EUNKNOWNBACKEND :: int where "GLIP_EUNKNOWNBACKEND = 1"
definition GLIP_ENOINIT :: int where "GLIP_ENOINIT = 2"
definition GLIP_EFEATURE :: int where "GLIP_EFEATURE = 3"

declare GLIP_EUNKNOWNBACKEND_def [errno_defs] GLIP_ENOINIT_def [errno_defs]
  GLIP_EFEATURE_def [errno_defs]

definition LOG_ERR :: int where "LOG_ERR = 3"
definition LOG_INFO :: int where "LOG_INFO = 6"
definition LOG_DEBUG :: int where "LOG_DEBUG = 7"

text \<open>The value of an option is a pointer that may be null (\<open>None\<close>).\<close>

record glip_option =
  opt_name :: string
  opt_value :: "string option"

text \<open>
  A function that moves data gets the caller's array and returns its new contents, the value it
  stored in the caller's size variable (\<open>None\<close> if it stored none) and the return code.
\<close>

type_synonym 'b read_result = "('b \<times> u8 list \<times> size_t option \<times> int) exec"
type_synonym 'b write_result = "('b \<times> size_t option \<times> int) exec"

text \<open>The part of the context with the options; a backend reads them when it is opened.\<close>

record glip_opts =
  backend_options :: "glip_option list"
  num_backend_options :: u32

record 'b glip_backend_if =
  be_open :: "glip_opts \<Rightarrow> 'b \<Rightarrow> u32 \<Rightarrow> ('b \<times> int) exec"
  be_close :: "'b \<Rightarrow> ('b \<times> int) exec"
  be_logic_reset :: "'b \<Rightarrow> ('b \<times> int) exec"
  be_read :: "'b \<Rightarrow> u32 \<Rightarrow> size_t \<Rightarrow> u8 list \<Rightarrow> 'b read_result"
  be_read_b :: "'b \<Rightarrow> u32 \<Rightarrow> size_t \<Rightarrow> u8 list \<Rightarrow> u32 \<Rightarrow> 'b read_result"
  be_write :: "'b \<Rightarrow> u32 \<Rightarrow> size_t \<Rightarrow> u8 list \<Rightarrow> 'b write_result"
  be_write_b :: "'b \<Rightarrow> u32 \<Rightarrow> size_t \<Rightarrow> u8 list \<Rightarrow> u32 \<Rightarrow> 'b write_result"
  be_get_fifo_width :: "'b \<Rightarrow> u32"
  be_get_channel_count :: "'b \<Rightarrow> u32"

text \<open>\<open>log_fn\<close> and \<open>caller_ctx\<close> are pointers the library only keeps.\<close>

record 'b glip_ctx = glip_opts +
  log_fn :: nat
  ctx_log_priority :: int
  caller_ctx :: nat
  backend_ctx :: 'b
  backend_functions :: "'b glip_backend_if"
  connected :: bool

section \<open>Creation\<close>

text \<open>The priority named by the environment variable.  The number is an \<open>int\<close>: its low 32 bits.\<close>

definition log_priority :: "string \<Rightarrow> int" where
  "log_priority priority =
     (let (prio, endptr) = strtol 10 priority
      in if endptr = [] \<or> c_isspace (hd endptr) then sint (word_of_int prio :: u32)
         else if take 3 priority = ''err'' then LOG_ERR
         else if take 4 priority = ''info'' then LOG_INFO
         else if take 5 priority = ''debug'' then LOG_DEBUG
         else 0)"

text \<open>
  The table of the backends: the constructor is \<open>None\<close> where the backend is disabled at compile
  time.  A constructor fills in the private state and the function record and returns a code.
\<close>

type_synonym 'b backend_new = "('b \<times> 'b glip_backend_if) \<times> int"

definition glip_backends ::
    "'b backend_new option \<Rightarrow> 'b backend_new option \<Rightarrow> 'b backend_new option \<Rightarrow> 'b backend_new option
       \<Rightarrow> (string \<times> 'b backend_new option) list" where
  "glip_backends uart cypressfx2 tcp jtag =
     [(''uart'', uart), (''cypressfx2'', cypressfx2), (''tcp'', tcp), (''jtag'', jtag)]"

fun find_backend :: "(string \<times> 'a) list \<Rightarrow> string \<Rightarrow> 'a option" where
  "find_backend [] n = None"
| "find_backend ((m, new) # bs) n = (if m = n then Some new else find_backend bs n)"

text \<open>\<open>ctx_alloc\<close> is the outcome of the allocation of the context, \<open>env\<close> the value of
  \<^verbatim>\<open>GLIP_LOG\<close>; the standard log function has the address 1.\<close>

definition glip_new ::
    "(string \<times> 'b backend_new option) list \<Rightarrow> bool \<Rightarrow> string option \<Rightarrow> string \<Rightarrow> glip_option list
       \<Rightarrow> size_t \<Rightarrow> 'b glip_ctx option \<times> int" where
  "glip_new backends ctx_alloc env backend_name options num_options =
     (if \<not> ctx_alloc then (None, - ENOMEM)
      else (case find_backend backends backend_name of
          None \<Rightarrow> (None, - GLIP_EUNKNOWNBACKEND)
        | Some None \<Rightarrow> (None, - GLIP_EUNKNOWNBACKEND)
        | Some (Some new) \<Rightarrow>
            (let ((b, fns), rv) = new
             in (Some \<lparr>backend_options = options, num_backend_options = ucast num_options,
                       log_fn = 1,
                       ctx_log_priority = (case env of None \<Rightarrow> LOG_ERR | Some e \<Rightarrow> log_priority e),
                       caller_ctx = 0, backend_ctx = b, backend_functions = fns,
                       connected = False\<rparr>, 0))))"

definition glip_free :: "'b glip_ctx \<Rightarrow> 'b glip_ctx option \<times> int" where
  "glip_free ctx = (None, 0)"

definition glip_set_caller_ctx :: "'b glip_ctx \<Rightarrow> nat \<Rightarrow> 'b glip_ctx" where
  "glip_set_caller_ctx ctx p = ctx\<lparr>caller_ctx := p\<rparr>"

definition glip_get_caller_ctx :: "'b glip_ctx \<Rightarrow> nat" where
  "glip_get_caller_ctx ctx = caller_ctx ctx"

definition glip_get_fifo_width :: "'b glip_ctx \<Rightarrow> u32" where
  "glip_get_fifo_width ctx = be_get_fifo_width (backend_functions ctx) (backend_ctx ctx)"

definition glip_get_channel_count :: "'b glip_ctx \<Rightarrow> u32" where
  "glip_get_channel_count ctx = be_get_channel_count (backend_functions ctx) (backend_ctx ctx)"

text \<open>The result of \<open>calloc\<close> is not tested: without memory the first store is a fault.\<close>

definition glip_get_backends ::
    "(string \<times> 'b backend_new option) list \<Rightarrow> bool \<Rightarrow> (string list \<times> size_t \<times> int) exec" where
  "glip_get_backends backends names_alloc =
     (if names_alloc \<or> backends = []
      then Inr (map fst backends, of_nat (length backends), 0) else Inl Mem_Fault)"

definition glip_set_log_fn :: "'b glip_ctx \<Rightarrow> nat \<Rightarrow> 'b glip_ctx" where
  "glip_set_log_fn ctx f = ctx\<lparr>log_fn := f\<rparr>"

definition glip_get_log_priority :: "'b glip_ctx \<Rightarrow> int" where
  "glip_get_log_priority ctx = ctx_log_priority ctx"

definition glip_set_log_priority :: "'b glip_ctx \<Rightarrow> int \<Rightarrow> 'b glip_ctx" where
  "glip_set_log_priority ctx p = ctx\<lparr>ctx_log_priority := p\<rparr>"

section \<open>Connection\<close>

text \<open>A null context is \<open>None\<close>.\<close>

definition glip_open :: "'b glip_ctx option \<Rightarrow> u32 \<Rightarrow> ('b glip_ctx option \<times> int) exec" where
  "glip_open c num_channels =
     (case c of None \<Rightarrow> Inr (None, - GLIP_ENOINIT)
      | Some ctx \<Rightarrow>
          (let nchan = be_get_channel_count (backend_functions ctx) (backend_ctx ctx)
           in if nchan < num_channels then Inr (Some ctx, - GLIP_EFEATURE)
              else cbind (be_open (backend_functions ctx) (glip_opts.truncate ctx) (backend_ctx ctx)
                  num_channels)
                (\<lambda>(b, rv). if rv \<noteq> 0 then Inr (Some (ctx\<lparr>backend_ctx := b\<rparr>), - 1)
                           else Inr (Some (ctx\<lparr>backend_ctx := b, connected := True\<rparr>), 0))))"

definition glip_close :: "'b glip_ctx \<Rightarrow> ('b glip_ctx \<times> int) exec" where
  "glip_close ctx =
     cbind (be_close (backend_functions ctx) (backend_ctx ctx))
       (\<lambda>(b, rv). Inr (ctx\<lparr>connected := False, backend_ctx := b\<rparr>, rv))"

definition glip_is_connected :: "'b glip_ctx \<Rightarrow> bool" where
  "glip_is_connected ctx = connected ctx"

definition glip_logic_reset :: "'b glip_ctx \<Rightarrow> ('b glip_ctx \<times> int) exec" where
  "glip_logic_reset ctx =
     (if \<not> connected ctx then Inr (ctx, - 1)
      else cbind (be_logic_reset (backend_functions ctx) (backend_ctx ctx))
        (\<lambda>(b, rv). Inr (ctx\<lparr>backend_ctx := b\<rparr>, rv)))"

section \<open>Communication\<close>

definition glip_read ::
    "'b glip_ctx \<Rightarrow> u32 \<Rightarrow> size_t \<Rightarrow> u8 list \<Rightarrow> ('b glip_ctx \<times> u8 list \<times> size_t option \<times> int) exec"
  where
  "glip_read ctx channel sz data =
     (if \<not> connected ctx then Inr (ctx, data, None, - 1)
      else if sz = 0 then Inr (ctx, data, Some 0, 0)
      else cbind (be_read (backend_functions ctx) (backend_ctx ctx) channel sz data)
        (\<lambda>(b, d, n, rv). Inr (ctx\<lparr>backend_ctx := b\<rparr>, d, n, rv)))"

definition glip_read_b ::
    "'b glip_ctx \<Rightarrow> u32 \<Rightarrow> size_t \<Rightarrow> u8 list \<Rightarrow> u32
       \<Rightarrow> ('b glip_ctx \<times> u8 list \<times> size_t option \<times> int) exec" where
  "glip_read_b ctx channel sz data timeout =
     (if \<not> connected ctx then Inr (ctx, data, None, - 1)
      else if sz = 0 then Inr (ctx, data, Some 0, 0)
      else cbind (be_read_b (backend_functions ctx) (backend_ctx ctx) channel sz data timeout)
        (\<lambda>(b, d, n, rv). Inr (ctx\<lparr>backend_ctx := b\<rparr>, d, n, rv)))"

definition glip_write ::
    "'b glip_ctx \<Rightarrow> u32 \<Rightarrow> size_t \<Rightarrow> u8 list \<Rightarrow> ('b glip_ctx \<times> size_t option \<times> int) exec" where
  "glip_write ctx channel sz data =
     (if \<not> connected ctx then Inr (ctx, None, - 1)
      else if sz = 0 then Inr (ctx, Some 0, 0)
      else cbind (be_write (backend_functions ctx) (backend_ctx ctx) channel sz data)
        (\<lambda>(b, n, rv). Inr (ctx\<lparr>backend_ctx := b\<rparr>, n, rv)))"

definition glip_write_b ::
    "'b glip_ctx \<Rightarrow> u32 \<Rightarrow> size_t \<Rightarrow> u8 list \<Rightarrow> u32 \<Rightarrow> ('b glip_ctx \<times> size_t option \<times> int) exec"
  where
  "glip_write_b ctx channel sz data timeout =
     (if \<not> connected ctx then Inr (ctx, None, - 1)
      else if sz = 0 then Inr (ctx, Some 0, 0)
      else cbind (be_write_b (backend_functions ctx) (backend_ctx ctx) channel sz data timeout)
        (\<lambda>(b, n, rv). Inr (ctx\<lparr>backend_ctx := b\<rparr>, n, rv)))"

section \<open>Options\<close>

text \<open>
  The search runs over \<open>num_backend_options\<close> entries; past the end of the array it leaves it.
\<close>

fun find_option :: "glip_option list \<Rightarrow> nat \<Rightarrow> string \<Rightarrow> string option option exec" where
  "find_option opts 0 name = Inr None"
| "find_option [] (Suc n) name = Inl Mem_Fault"
| "find_option (p # opts) (Suc n) name =
     (if opt_name p = name then Inr (Some (opt_value p)) else find_option opts n name)"

text \<open>The stored value (if the call stores one) and the return code.  A value that is a null pointer
  is handed to \<open>strtoul\<close> by the numerical functions, and to the caller by the last one.\<close>

definition option_number :: "string \<Rightarrow> u64 option" where
  "option_number value =
     (let (val, endptr, erange) = strtoul0 value
      in if erange \<and> val = - 1 \<or> erange \<and> val = 0 then None
         else if endptr = value then Some 0 else Some val)"

definition glip_option_get_uint32 :: "'c glip_opts_scheme \<Rightarrow> string \<Rightarrow> (u32 option \<times> int) exec" where
  "glip_option_get_uint32 ctx option_name =
     cbind (find_option (backend_options ctx) (unat (num_backend_options ctx)) option_name)
       (\<lambda>found. case found of None \<Rightarrow> Inr (None, - 1)
          | Some None \<Rightarrow> Inl Mem_Fault
          | Some (Some value) \<Rightarrow> (case option_number value of None \<Rightarrow> Inr (None, - 1)
              | Some val \<Rightarrow> Inr (Some (ucast val), 0)))"

definition glip_option_get_uint16 :: "'c glip_opts_scheme \<Rightarrow> string \<Rightarrow> (u16 option \<times> int) exec" where
  "glip_option_get_uint16 ctx option_name =
     cbind (glip_option_get_uint32 ctx option_name)
       (\<lambda>(out, rv). Inr (case out of None \<Rightarrow> (None, rv)
          | Some tmp \<Rightarrow> (Some (ucast (if tmp > 0xFFFF then 0xFFFF else tmp)), 0)))"

definition glip_option_get_uint8 :: "'c glip_opts_scheme \<Rightarrow> string \<Rightarrow> (u8 option \<times> int) exec" where
  "glip_option_get_uint8 ctx option_name =
     cbind (glip_option_get_uint32 ctx option_name)
       (\<lambda>(out, rv). Inr (case out of None \<Rightarrow> (None, rv)
          | Some tmp \<Rightarrow> (Some (ucast (if tmp > 0xFF then 0xFF else tmp)), 0)))"

definition glip_option_get_char :: "'c glip_opts_scheme \<Rightarrow> string \<Rightarrow> (string option option \<times> int) exec" where
  "glip_option_get_char ctx option_name =
     cbind (find_option (backend_options ctx) (unat (num_backend_options ctx)) option_name)
       (\<lambda>found. Inr (case found of None \<Rightarrow> (None, - 1) | Some value \<Rightarrow> (Some value, 0)))"

end
