(* ===== verification/Glip_Properties.thy ===== *)
theory Glip_Properties
  imports Glip
begin

text \<open>
  What the public interface guarantees over every backend: the order of backend calls it lets
  through, the choice of the backend, the meaning of options and of the log priority.
\<close>

section \<open>Calls that reach a backend\<close>

text \<open>A backend that also writes down the calls it gets.\<close>

datatype be_event = Ev_Open u32 int | Ev_Close | Ev_Reset | Ev_Read u32 | Ev_Write u32

definition traced :: "'b glip_backend_if \<Rightarrow> ('b \<times> be_event list) glip_backend_if" where
  "traced be =
     \<lparr>be_open = \<lambda>opts (b, l) n. cbind (be_open be opts b n) (\<lambda>(b', rv). Inr ((b', l @ [Ev_Open n rv]), rv)),
      be_close = \<lambda>(b, l). cbind (be_close be b) (\<lambda>(b', rv). Inr ((b', l @ [Ev_Close]), rv)),
      be_logic_reset = \<lambda>(b, l). cbind (be_logic_reset be b)
        (\<lambda>(b', rv). Inr ((b', l @ [Ev_Reset]), rv)),
      be_read = \<lambda>(b, l) ch sz d. cbind (be_read be b ch sz d)
        (\<lambda>(b', d', n, rv). Inr ((b', l @ [Ev_Read ch]), d', n, rv)),
      be_read_b = \<lambda>(b, l) ch sz d t. cbind (be_read_b be b ch sz d t)
        (\<lambda>(b', d', n, rv). Inr ((b', l @ [Ev_Read ch]), d', n, rv)),
      be_write = \<lambda>(b, l) ch sz d. cbind (be_write be b ch sz d)
        (\<lambda>(b', n, rv). Inr ((b', l @ [Ev_Write ch]), n, rv)),
      be_write_b = \<lambda>(b, l) ch sz d t. cbind (be_write_b be b ch sz d t)
        (\<lambda>(b', n, rv). Inr ((b', l @ [Ev_Write ch]), n, rv)),
      be_get_fifo_width = \<lambda>(b, l). be_get_fifo_width be b,
      be_get_channel_count = \<lambda>(b, l). be_get_channel_count be b\<rparr>"

datatype api_call = Api_Open u32 | Api_Close | Api_Reset | Api_Read u32 size_t "u8 list"
  | Api_Read_B u32 size_t "u8 list" u32 | Api_Write u32 size_t "u8 list"
  | Api_Write_B u32 size_t "u8 list" u32

fun api_step :: "'b glip_ctx \<Rightarrow> api_call \<Rightarrow> 'b glip_ctx exec" where
  "api_step c (Api_Open n) =
     cbind (glip_open (Some c) n) (\<lambda>(c', rv). Inr (case c' of None \<Rightarrow> c | Some x \<Rightarrow> x))"
| "api_step c Api_Close = cbind (glip_close c) (\<lambda>(c', rv). Inr c')"
| "api_step c Api_Reset = cbind (glip_logic_reset c) (\<lambda>(c', rv). Inr c')"
| "api_step c (Api_Read ch n d) = cbind (glip_read c ch n d) (\<lambda>(c', _). Inr c')"
| "api_step c (Api_Read_B ch n d t) = cbind (glip_read_b c ch n d t) (\<lambda>(c', _). Inr c')"
| "api_step c (Api_Write ch n d) = cbind (glip_write c ch n d) (\<lambda>(c', _). Inr c')"
| "api_step c (Api_Write_B ch n d t) = cbind (glip_write_b c ch n d t) (\<lambda>(c', _). Inr c')"

fun api_run :: "'b glip_ctx \<Rightarrow> api_call list \<Rightarrow> 'b glip_ctx exec" where
  "api_run c [] = Inr c"
| "api_run c (a # as) = cbind (api_step c a) (\<lambda>c'. api_run c' as)"

text \<open>Whether a connection is open after a sequence of backend calls, and whether data and reset
  calls came only while one was.\<close>

fun link_step :: "bool \<Rightarrow> be_event \<Rightarrow> bool" where
  "link_step up (Ev_Open n rv) = (up \<or> rv = 0)"
| "link_step up Ev_Close = False"
| "link_step up e = up"

fun needs_link :: "be_event \<Rightarrow> bool" where
  "needs_link (Ev_Open n rv) = False"
| "needs_link Ev_Close = False"
| "needs_link e = True"

definition link_up :: "be_event list \<Rightarrow> bool" where
  "link_up l = foldl link_step False l"

definition link_legal :: "be_event list \<Rightarrow> bool" where
  "link_legal l \<longleftrightarrow> (\<forall>i < length l. needs_link (l ! i) \<longrightarrow> link_up (take i l))"

lemma link_up_snoc [simp]: "link_up (l @ [e]) = link_step (link_up l) e"
  by (simp add: link_up_def)

lemma link_legal_snoc [simp]:
  "link_legal (l @ [e]) \<longleftrightarrow> link_legal l \<and> (needs_link e \<longrightarrow> link_up l)"
  by (auto simp: link_legal_def nth_append less_Suc_eq)

definition link_inv :: "'b glip_backend_if \<Rightarrow> ('b \<times> be_event list) glip_ctx \<Rightarrow> bool" where
  "link_inv be c \<longleftrightarrow> backend_functions c = traced be \<and>
     link_legal (snd (backend_ctx c)) \<and> connected c = link_up (snd (backend_ctx c))"

lemma api_step_link:
  assumes "link_inv be c" and "api_step c a = Inr c'"
  shows "link_inv be c'"
  using assms
  by (cases a; cases "backend_ctx c")
    (auto simp: link_inv_def glip_open_def glip_close_def glip_logic_reset_def glip_read_def
      glip_read_b_def glip_write_def glip_write_b_def traced_def cbind_eq_Inr_iff
      split: if_splits)

lemma api_run_link: "link_inv be c \<Longrightarrow> api_run c as = Inr c' \<Longrightarrow> link_inv be c'"
  by (induction as arbitrary: c) (auto simp: cbind_eq_Inr_iff dest: api_step_link)

text \<open>C4: Whatever the caller does, the backend sees a read, a write or a reset only after an open
  that it answered with success and before the next close; \<open>glip_is_connected\<close> tells which.\<close>

theorem glip_calls_respect_connection:
  assumes "connected c = False" and "backend_functions c = traced be" and "backend_ctx c = (b, [])"
    and "api_run c calls = Inr c'"
  shows "link_legal (snd (backend_ctx c')) \<and>
    glip_is_connected c' = link_up (snd (backend_ctx c'))"
proof -
  have "link_inv be c" using assms by (simp add: link_inv_def link_legal_def link_up_def)
  from api_run_link [OF this assms(4)] show ?thesis
    by (simp add: link_inv_def glip_is_connected_def)
qed

text \<open>The example: a backend that echoes what is written.\<close>

definition echo_backend :: "u8 list glip_backend_if" where
  "echo_backend =
     \<lparr>be_open = \<lambda>_ b n. Inr ([], 0), be_close = \<lambda>b. Inr (b, 0), be_logic_reset = \<lambda>b. Inr ([], 0),
      be_read = \<lambda>b ch n d. Inr ([], b @ drop (length b) d, Some (of_nat (length b)), 0),
      be_read_b = \<lambda>b ch n d t. Inr ([], b @ drop (length b) d, Some (of_nat (length b)), 0),
      be_write = \<lambda>b ch n d. Inr (b @ take (unat n) d, Some n, 0),
      be_write_b = \<lambda>b ch n d t. Inr (b @ take (unat n) d, Some n, 0),
      be_get_fifo_width = \<lambda>_. 1, be_get_channel_count = \<lambda>_. 1\<rparr>"

definition echo_ctx :: "(u8 list \<times> be_event list) glip_ctx" where
  "echo_ctx = \<lparr>backend_options = [], num_backend_options = 0, log_fn = 1, ctx_log_priority = LOG_ERR, caller_ctx = 0, backend_ctx = ([], []),
     backend_functions = traced echo_backend, connected = False\<rparr>"

theorem glip_calls_respect_connection_witness:
  "\<exists>c'. api_run echo_ctx [Api_Read 0 1 [0], Api_Open 1, Api_Write 0 1 [7], Api_Close,
      Api_Write 0 1 [8]] = Inr c' \<and>
    snd (backend_ctx c') = [Ev_Open 1 0, Ev_Write 0, Ev_Close] \<and>
    link_legal (snd (backend_ctx c')) \<and>
    glip_is_connected c' = link_up (snd (backend_ctx c'))"
proof -
  obtain c' where c: "api_run echo_ctx [Api_Read 0 1 [0], Api_Open 1, Api_Write 0 1 [7], Api_Close,
      Api_Write 0 1 [8]] = Inr c'" "snd (backend_ctx c') = [Ev_Open 1 0, Ev_Write 0, Ev_Close]"
    by (simp add: echo_ctx_def echo_backend_def traced_def glip_open_def glip_close_def
        glip_read_def glip_write_def)
  show ?thesis
    using glip_calls_respect_connection [OF _ _ _ c(1), of echo_backend "[]"] c
    by (auto simp: echo_ctx_def)
qed

section \<open>Creation\<close>

text \<open>A context is created exactly for the name of a backend that is compiled in, whatever its
  constructor reports; it starts out disconnected and with the state the constructor made.\<close>

theorem glip_new_spec:
  "glip_new (glip_backends u f t j) ctx_alloc env name opts n =
    (if \<not> ctx_alloc then (None, - ENOMEM)
     else (case (if name = ''uart'' then u else if name = ''cypressfx2'' then f
                 else if name = ''tcp'' then t else if name = ''jtag'' then j else None) of
         None \<Rightarrow> (None, - GLIP_EUNKNOWNBACKEND)
       | Some new \<Rightarrow> (Some \<lparr>backend_options = opts, num_backend_options = ucast n, log_fn = 1,
           ctx_log_priority = (case env of None \<Rightarrow> 3 | Some e \<Rightarrow> log_priority e), caller_ctx = 0,
           backend_ctx = fst (fst new), backend_functions = snd (fst new), connected = False\<rparr>, 0)))"
  by (auto simp: glip_new_def glip_backends_def LOG_ERR_def Let_def split: option.splits prod.splits)

text \<open>The log priority is the number given, or 3, 6 and 7 for the words \<open>err\<close>, \<open>info\<close> and
  \<open>debug\<close> and everything that begins with them.\<close>

theorem log_priority_spec:
  "(n < 2 ^ 31 \<longrightarrow> log_priority (decimal n) = int n) \<and>
    log_priority (''err'' @ s) = 3 \<and> log_priority (''info'' @ s) = 6 \<and>
    log_priority (''debug'' @ s) = 7"
proof -
  have "n < 2 ^ 31 \<Longrightarrow> log_priority (decimal n) = int n"
    by (simp add: log_priority_def strtol_decimal sint_small [of "of_nat n :: u32"] unat_of_nat
        take_bit_nat_eq_self)
  moreover have "strtol 10 (c # s) = (0, c # s)"
    if "\<not> c_isspace c" "digit_of 10 c = None" "c \<noteq> CHR ''-''" "c \<noteq> CHR ''+''" for c s
    using that by (simp add: strtol_def skip_sign_def skip_prefix_def)
  ultimately show ?thesis
    by (auto simp: log_priority_def c_isspace_def digit_of_def LOG_ERR_def LOG_INFO_def LOG_DEBUG_def)
qed

theorem log_priority_spec_witness:
  "log_priority ''7'' = 7 \<and> log_priority ''info'' = 6"
proof -
  have "decimal 7 = ''7''"
    using char_of_char [of "CHR ''7''", where ?'a = nat] by (subst decimal.simps) simp
  then show ?thesis using log_priority_spec [of 7 "[]"] by simp
qed

section \<open>Options\<close>

lemma find_option_first:
  "name \<notin> opt_name ` set pre \<Longrightarrow> n \<ge> length pre + 1 \<Longrightarrow> opt_name p = name \<Longrightarrow>
     find_option (pre @ p # post) n name = Inr (Some (opt_value p))"
proof (induction pre arbitrary: n)
  case Nil
  then show ?case by (cases n) auto
next
  case (Cons a pre)
  then show ?case by (cases n) auto
qed

lemma clamp_word:
  "ucast (if (x::'a::len word) > m then m else x) = (of_nat (min (unat x) (unat m)) :: 'b::len word)"
  by (auto simp: min_def word_less_nat_alt word_le_nat_alt of_nat_unat)

text \<open>C12: A number written in decimal is read back from the first option of its name: modulo
  \<open>2 ^ 32\<close>, and clamped after that to 16 or 8 bits.\<close>

theorem glip_option_roundtrip:
  fixes c :: "'c glip_opts_scheme"
  assumes "backend_options c = pre @ \<lparr>opt_name = name, opt_value = Some (decimal n)\<rparr> # post"
    and "name \<notin> opt_name ` set pre"
    and "unat (num_backend_options c) = length (backend_options c)" and "n < 2 ^ 64"
  shows "glip_option_get_uint32 c name = Inr (Some (of_nat n), 0) \<and>
    glip_option_get_uint16 c name = Inr (Some (of_nat (min (n mod 2 ^ 32) 0xFFFF)), 0) \<and>
    glip_option_get_uint8 c name = Inr (Some (of_nat (min (n mod 2 ^ 32) 0xFF)), 0) \<and>
    glip_option_get_char c name = Inr (Some (Some (decimal n)), 0)"
proof -
  have f: "find_option (backend_options c) (unat (num_backend_options c)) name = Inr (Some (Some (decimal n)))"
    using assms(1-3) find_option_first [of name pre _ "\<lparr>opt_name = name, opt_value = Some (decimal n)\<rparr>" post]
    by simp
  have v: "option_number (decimal n) = Some (of_nat n)"
    using decimal_head [of n] by (auto simp: option_number_def strtoul0_decimal [OF assms(4)])
  have "unat (of_nat n :: u64) = n"
    using assms(4) by (simp add: unat_of_nat take_bit_nat_eq_self)
  then have "ucast (of_nat n :: u64) = (of_nat n :: u32)" using of_nat_unat by metis
  then have u: "glip_option_get_uint32 c name = Inr (Some (of_nat n), 0)"
    by (simp add: glip_option_get_uint32_def f v)
  have m: "unat (of_nat n :: u32) = n mod 2 ^ 32" by (simp add: unat_of_nat take_bit_eq_mod)
  have "glip_option_get_uint16 c name = Inr (Some (of_nat (min (n mod 2 ^ 32) (unat (0xFFFF :: u32)))), 0)"
    unfolding glip_option_get_uint16_def u cbind_Inr prod.case option.case clamp_word m ..
  moreover have
    "glip_option_get_uint8 c name = Inr (Some (of_nat (min (n mod 2 ^ 32) (unat (0xFF :: u32)))), 0)"
    unfolding glip_option_get_uint8_def u cbind_Inr prod.case option.case clamp_word m ..
  moreover have "unat (0xFFFF :: u32) = 0xFFFF" "unat (0xFF :: u32) = 0xFF" by simp_all
  moreover have "glip_option_get_char c name = Inr (Some (Some (decimal n)), 0)"
    unfolding glip_option_get_char_def f cbind_Inr option.case ..
  ultimately show ?thesis using u by (simp only: simp_thms)
qed

definition opt_ctx :: "unit glip_ctx" where
  "opt_ctx = \<lparr>backend_options = [\<lparr>opt_name = ''speed'', opt_value = Some (decimal 115200)\<rparr>],
     num_backend_options = 1, log_fn = 1, ctx_log_priority = 3, caller_ctx = 0, backend_ctx = (),
     backend_functions = \<lparr>be_open = \<lambda>_ b n. Inr (b, 0), be_close = \<lambda>b. Inr (b, 0),
       be_logic_reset = \<lambda>b. Inr (b, 0), be_read = \<lambda>b ch n d. Inr (b, d, Some 0, 0),
       be_read_b = \<lambda>b ch n d t. Inr (b, d, Some 0, 0), be_write = \<lambda>b ch n d. Inr (b, Some 0, 0),
       be_write_b = \<lambda>b ch n d t. Inr (b, Some 0, 0), be_get_fifo_width = \<lambda>_. 1,
       be_get_channel_count = \<lambda>_. 1\<rparr>, connected = False\<rparr>"

theorem glip_option_roundtrip_witness:
  "glip_option_get_uint32 opt_ctx ''speed'' = Inr (Some 115200, 0) \<and>
    glip_option_get_uint16 opt_ctx ''speed'' = Inr (Some 0xFFFF, 0)"
  using glip_option_roundtrip [of opt_ctx "[]" "''speed''" 115200 "[]"] by (simp add: opt_ctx_def)

end
