(* ===== verification/Uart_Line.thy ===== *)
theory Uart_Line
  imports Glip_Prelude
begin

text \<open>
  The serial line under the UART backend and the functions of
  \<^verbatim>\<open>backend_uart/sw/backend_uart.c\<close> that move bytes over it.  The kernel's side of the line is a
  script: what the coming \<open>read\<close> and \<open>write\<close> calls will find.
\<close>

section \<open>The line\<close>

text \<open>
  \<open>Rx bs\<close>: the bytes \<open>bs\<close> are there (none: the read times out and returns zero); a read that asks
  for fewer leaves the rest.  \<open>Tx k\<close>: the next write takes at most \<open>k\<close> bytes.  \<open>Rx_Again\<close>,
  \<open>Tx_Again\<close>: \<open>-1\<close> with \<open>EAGAIN\<close>; \<open>Rx_Fail\<close>, \<open>Tx_Fail\<close>: \<open>-1\<close> with another error.
  When its script has ended the line takes everything written, and a read has not returned.
\<close>

datatype rd_event = Rx "u8 list" | Rx_Again | Rx_Fail
datatype wr_event = Tx nat | Tx_Again | Tx_Fail

record timeval =
  tv_s :: int
  tv_us :: int

record line =
  rx :: "rd_event list"
  tx_script :: "wr_event list"
  tx :: "u8 list"
  clock :: "timeval list"

datatype 'a io = Io 'a | Io_Again | Io_Fail

definition tty_read :: "line \<Rightarrow> nat \<Rightarrow> (line \<times> u8 list io) exec" where
  "tty_read l n = (case rx l of
       [] \<Rightarrow> Inl Blocked
     | Rx bs # r \<Rightarrow> Inr (l\<lparr>rx := (if length bs \<le> n then r else Rx (drop n bs) # r)\<rparr>, Io (take n bs))
     | Rx_Again # r \<Rightarrow> Inr (l\<lparr>rx := r\<rparr>, Io_Again)
     | Rx_Fail # r \<Rightarrow> Inr (l\<lparr>rx := r\<rparr>, Io_Fail))"

definition tty_write :: "line \<Rightarrow> u8 list \<Rightarrow> line \<times> nat io" where
  "tty_write l bs = (case tx_script l of
       [] \<Rightarrow> (l\<lparr>tx := tx l @ bs\<rparr>, Io (length bs))
     | Tx k # r \<Rightarrow> (l\<lparr>tx_script := r, tx := tx l @ take k bs\<rparr>, Io (min k (length bs)))
     | Tx_Again # r \<Rightarrow> (l\<lparr>tx_script := r\<rparr>, Io_Again)
     | Tx_Fail # r \<Rightarrow> (l\<lparr>tx_script := r\<rparr>, Io_Fail))"

definition gettimeofday :: "line \<Rightarrow> (line \<times> timeval) exec" where
  "gettimeofday l = (case clock l of [] \<Rightarrow> Inl Blocked | t # ts \<Rightarrow> Inr (l\<lparr>clock := ts\<rparr>, t))"

text \<open>What is left of the script, for the termination of loops over reads.\<close>

definition rx_weight :: "line \<Rightarrow> nat" where
  "rx_weight l = sum_list (map (\<lambda>e. case e of Rx bs \<Rightarrow> Suc (length bs) | _ \<Rightarrow> 1) (rx l))"

lemma tty_read_weight:
  "tty_read l n = Inr (l', Io bs) \<Longrightarrow> bs \<noteq> [] \<Longrightarrow> rx_weight l' < rx_weight l"
  by (auto simp: tty_read_def rx_weight_def split: list.splits rd_event.splits if_splits)

lemma tty_read_again: "tty_read l n = Inr (l', Io_Again) \<Longrightarrow> rx_weight l' < rx_weight l"
  by (auto simp: tty_read_def rx_weight_def split: list.splits rd_event.splits if_splits)

section \<open>Timeouts\<close>

text \<open>The time passed since \<open>start\<close> in microseconds, the way the function computes it; the limit is
  an \<open>int\<close> product.\<close>

definition check_timeout :: "timeval \<Rightarrow> timeval \<Rightarrow> u64 \<Rightarrow> int exec" where
  "check_timeout start current ms =
     (let sec = tv_s current - tv_s start; usec = tv_us current - tv_us start;
          (sec', usec') = (if tv_us current < tv_us start then (sec + 1, usec + 1000000)
                           else (sec, usec));
          limit = sint (ucast ms :: u32) * 1000
      in if limit < - (2 ^ 31) \<or> 2 ^ 31 \<le> limit then Inl Int_Overflow
         else Inr (if sec' * 1000000 + usec' > limit then - ETIMEDOUT else 0))"

text \<open>The check behind each transfer: made only when there is a timeout.\<close>

definition loop_timeout :: "line \<Rightarrow> timeval option \<Rightarrow> u32 \<Rightarrow> (line \<times> int) exec" where
  "loop_timeout l start timeout = (case start of
       None \<Rightarrow> Inr (l, 0)
     | Some st \<Rightarrow> cbind (gettimeofday l)
         (\<lambda>(l', cur). cbind (check_timeout st cur (ucast timeout)) (\<lambda>rv. Inr (l', rv))))"

definition loop_start :: "line \<Rightarrow> u32 \<Rightarrow> (line \<times> timeval option) exec" where
  "loop_start l timeout =
     (if timeout > 0 then cbind (gettimeofday l) (\<lambda>(l', t). Inr (l', Some t)) else Inr (l, None))"

section \<open>Blocking transfers\<close>

text \<open>
  The loop of \<open>read_blocking\<close>: \<open>got\<close> are the bytes read so far (\<open>size_read\<close> of them, never more
  than \<open>n\<close>).  The result holds the bytes stored in the buffer and the return code.
\<close>

lemma tty_read_rx:
  "tty_read l n = Inr (l', r) \<Longrightarrow> length (case r of Io bs \<Rightarrow> bs | _ \<Rightarrow> []) < n \<Longrightarrow>
     length (rx l') < length (rx l)"
  by (auto simp: tty_read_def split: list.splits rd_event.splits if_splits)

lemma loop_timeout_rx: "loop_timeout l st timeout = Inr (l', rv) \<Longrightarrow> rx l' = rx l"
  by (auto simp: loop_timeout_def gettimeofday_def cbind_eq_Inr_iff split: option.splits list.splits)

lemma loop_timeout_tx:
  "loop_timeout l st timeout = Inr (l', rv) \<Longrightarrow> tx_script l' = tx_script l \<and> tx l' = tx l"
  by (auto simp: loop_timeout_def gettimeofday_def cbind_eq_Inr_iff split: option.splits list.splits)

function read_loop ::
    "line \<Rightarrow> timeval option \<Rightarrow> u8 list \<Rightarrow> nat \<Rightarrow> u32 \<Rightarrow> (line \<times> u8 list \<times> int) exec" where
  "read_loop l start got n timeout =
     cbind (tty_read l (n - length got)) (\<lambda>(l1, r).
       if r = Io_Fail then Inr (l1, got, - 1)
       else (let got1 = got @ (case r of Io bs \<Rightarrow> bs | _ \<Rightarrow> [])
             in cbind (loop_timeout l1 start timeout) (\<lambda>(l2, rv).
                  if rv \<noteq> 0 then Inr (l2, got1, - ETIMEDOUT)
                  else if length got1 < n then read_loop l2 start got1 n timeout
                  else Inr (l2, got1, 0))))"
  by pat_completeness auto
termination
proof (relation "measure (\<lambda>(l, _). length (rx l))")
  fix l start got n timeout p l1 r got1 q l2 rv
  assume a: "tty_read l (n - length got) = Inr p" "(l1, r) = p"
    "got1 = got @ (case r of Io bs \<Rightarrow> bs | _ \<Rightarrow> [])"
    "loop_timeout l1 start timeout = Inr q" "(l2, rv) = q" "length got1 < n"
  then have "length (rx l1) < length (rx l)" by (intro tty_read_rx [of l _ l1 r]) auto
  moreover have "rx l2 = rx l1" using a loop_timeout_rx by blast
  ultimately show "((l2, start, got1, n, timeout), (l, start, got, n, timeout))
      \<in> measure (\<lambda>(l, _). length (rx l))" by simp
qed simp

declare read_loop.simps [simp del]

definition read_blocking :: "line \<Rightarrow> nat \<Rightarrow> u32 \<Rightarrow> (line \<times> u8 list \<times> int) exec" where
  "read_blocking l n timeout =
     cbind (loop_start l timeout) (\<lambda>(l', start). read_loop l' start [] n timeout)"

text \<open>The loop of \<open>write_blocking\<close>: \<open>bs\<close> are the bytes left, \<open>n\<close> of them are written.\<close>

function write_loop ::
    "line \<Rightarrow> timeval option \<Rightarrow> u8 list \<Rightarrow> nat \<Rightarrow> u32 \<Rightarrow> (line \<times> nat \<times> int) exec" where
  "write_loop l start bs n timeout =
     (let (l1, r) = tty_write l bs
      in if r = Io_Fail then Inr (l1, n, - 1)
         else (let k = (case r of Io k \<Rightarrow> k | _ \<Rightarrow> 0)
               in cbind (loop_timeout l1 start timeout) (\<lambda>(l2, rv).
                    if rv \<noteq> 0 then Inr (l2, n + k, - ETIMEDOUT)
                    else if drop k bs \<noteq> [] then write_loop l2 start (drop k bs) (n + k) timeout
                    else Inr (l2, n + k, 0))))"
  by pat_completeness auto
termination
proof (relation "measure (\<lambda>(l, _). length (tx_script l))")
  fix l start bs n timeout p l1 r k q l2 rv
  assume a: "p = tty_write l bs" "(l1, r) = p" "k = (case r of Io k \<Rightarrow> k | _ \<Rightarrow> 0)"
    "loop_timeout l1 start timeout = Inr q" "(l2, rv) = q" "drop k bs \<noteq> []"
  then have "length (tx_script l1) < length (tx_script l)"
    by (auto simp: tty_write_def split: list.splits wr_event.splits)
  moreover have "tx_script l2 = tx_script l1" using a loop_timeout_tx by blast
  ultimately show "((l2, start, drop k bs, n + k, timeout), (l, start, bs, n, timeout))
      \<in> measure (\<lambda>(l, _). length (tx_script l))" by simp
qed simp

declare write_loop.simps [simp del]

definition write_blocking :: "line \<Rightarrow> u8 list \<Rightarrow> u32 \<Rightarrow> (line \<times> nat \<times> int) exec" where
  "write_blocking l bs timeout =
     cbind (loop_start l timeout) (\<lambda>(l', start). write_loop l' start bs 0 timeout)"

section \<open>Transfers without a timeout\<close>

text \<open>The bytes on their way to the host, and a script without failing reads.\<close>

definition pending :: "line \<Rightarrow> u8 list" where
  "pending l = concat (map (\<lambda>e. case e of Rx bs \<Rightarrow> bs | _ \<Rightarrow> []) (rx l))"

definition rx_clean :: "line \<Rightarrow> bool" where
  "rx_clean l \<longleftrightarrow> Rx_Fail \<notin> set (rx l)"

definition tx_clean :: "line \<Rightarrow> bool" where
  "tx_clean l \<longleftrightarrow> Tx_Fail \<notin> set (tx_script l)"

lemma tty_read_clean:
  assumes "rx_clean l" and "rx l \<noteq> []"
  obtains l' r bs where "tty_read l n = Inr (l', r)" "r \<noteq> Io_Fail"
    "bs = (case r of Io bs \<Rightarrow> bs | _ \<Rightarrow> [])" "length bs \<le> n" "pending l = bs @ pending l'"
    "rx_clean l'" "tx l' = tx l" "tx_script l' = tx_script l"
  using assms that
  by (cases "rx l"; cases "hd (rx l)") (auto simp: tty_read_def pending_def rx_clean_def)

lemma read_loop_ok:
  assumes "rx_clean l" and "length got < n" and "n - length got \<le> length (pending l)"
  shows "\<exists>l'. read_loop l None got n 0 = Inr (l', got @ take (n - length got) (pending l), 0) \<and>
    pending l' = drop (n - length got) (pending l) \<and> rx_clean l' \<and> tx l' = tx l \<and>
    tx_script l' = tx_script l"
  using assms
proof (induction l "None :: timeval option" got n "0 :: u32" rule: read_loop.induct)
  case (1 l got n)
  define k where "k = n - length got"
  have "rx l \<noteq> []" using 1(3,4) by (auto simp: pending_def)
  from tty_read_clean [OF 1(2) this, of k]
  obtain l1 r bs where r: "tty_read l k = Inr (l1, r)" "r \<noteq> Io_Fail"
    and bs: "bs = (case r of Io bs \<Rightarrow> bs | _ \<Rightarrow> [])" "length bs \<le> k" "pending l = bs @ pending l1"
    and l1: "rx_clean l1" "tx l1 = tx l" "tx_script l1 = tx_script l" by metis
  have step: "read_loop l None got n 0 = (if length (got @ bs) < n
      then read_loop l1 None (got @ bs) n 0 else Inr (l1, got @ bs, 0))"
    using r bs(1) by (subst read_loop.simps) (simp add: k_def loop_timeout_def Let_def)
  show ?case
  proof (cases "length (got @ bs) < n")
    case True
    have e: "n - length (got @ bs) = k - length bs" by (simp add: k_def)
    have "\<exists>l'. read_loop l1 None (got @ bs) n 0 =
        Inr (l', (got @ bs) @ take (n - length (got @ bs)) (pending l1), 0) \<and>
      pending l' = drop (n - length (got @ bs)) (pending l1) \<and> rx_clean l' \<and> tx l' = tx l1 \<and>
      tx_script l' = tx_script l1"
      using 1(4) True l1(1) r(2) bs(3) e
      by (intro 1(1) [OF r(1) [unfolded k_def] refl _ _ _ refl])
        (simp_all add: bs(1) loop_timeout_def k_def)
    then show ?thesis using True step bs e l1 by (simp flip: k_def)
  next
    case False
    then have "length bs = k" using bs(2) 1(3) by (simp add: k_def)
    then show ?thesis using False step bs l1 by (simp flip: k_def)
  qed
qed

lemma read_blocking_ok:
  assumes "rx_clean l" and "0 < n" and "n \<le> length (pending l)"
  obtains l' where "read_blocking l n 0 = Inr (l', take n (pending l), 0)"
    "pending l' = drop n (pending l)" "rx_clean l'" "tx l' = tx l" "tx_script l' = tx_script l"
  using read_loop_ok [of l "[]" n] assms by (auto simp: read_blocking_def loop_start_def)

lemma write_loop_ok:
  assumes "tx_clean l"
  shows "\<exists>l'. write_loop l None bs n 0 = Inr (l', n + length bs, 0) \<and> tx l' = tx l @ bs \<and>
    tx_clean l' \<and> rx l' = rx l"
  using assms
proof (induction l "None :: timeval option" bs n "0 :: u32" rule: write_loop.induct)
  case (1 l bs n)
  obtain l1 r where w: "tty_write l bs = (l1, r)" by fastforce
  define k where "k = (case r of Io k \<Rightarrow> k | _ \<Rightarrow> 0)"
  have l1: "r \<noteq> Io_Fail" "tx l1 = tx l @ take k bs" "k \<le> length bs" "tx_clean l1" "rx l1 = rx l"
    using w 1(2)
    by (auto simp: tty_write_def k_def tx_clean_def min_def split: list.splits wr_event.splits)
  have step: "write_loop l None bs n 0 = (if drop k bs \<noteq> [] then write_loop l1 None (drop k bs) (n + k) 0
      else Inr (l1, n + k, 0))"
    using w l1(1) by (subst write_loop.simps) (simp add: loop_timeout_def Let_def k_def)
  show ?case
  proof (cases "drop k bs = []")
    case True
    then show ?thesis using step l1 by simp
  next
    case False
    have "\<exists>l'. write_loop l1 None (drop k bs) (n + k) 0 = Inr (l', n + k + length (drop k bs), 0) \<and>
        tx l' = tx l1 @ drop k bs \<and> tx_clean l' \<and> rx l' = rx l1"
      using False l1 w by (intro 1(1) [OF refl, of l1 r]) (simp_all add: loop_timeout_def k_def)
    then show ?thesis using False step l1 by (auto simp: append.assoc [symmetric])
  qed
qed

lemma write_blocking_ok:
  assumes "tx_clean l"
  obtains l' where "write_blocking l bs 0 = Inr (l', length bs, 0)" "tx l' = tx l @ bs"
    "tx_clean l'" "rx l' = rx l"
  using write_loop_ok [OF assms, of bs 0] by (auto simp: write_blocking_def loop_start_def)

text \<open>A clean line stays one under both kinds of transfer.\<close>

lemma clean_cong:
  "rx l' = rx l \<Longrightarrow> rx_clean l' \<longleftrightarrow> rx_clean l" "rx l' = rx l \<Longrightarrow> pending l' = pending l"
  "tx_script l' = tx_script l \<Longrightarrow> tx_clean l' \<longleftrightarrow> tx_clean l"
  by (simp_all add: rx_clean_def tx_clean_def pending_def)

end
