(* ===== verification/Cbuf_Blocking.thy ===== *)
theory Cbuf_Blocking
  imports Cbuf_Fifo Util
begin

text \<open>
  The reading and writing calls of the backends that keep their data in circular buffers.  The UART
  and the JTAG backend have the same code here, each over its own pair of buffers; the definitions
  are this code over one buffer.
\<close>

section \<open>Waiting for the other thread\<close>

text \<open>
  What another thread does while a blocking call waits on a buffer.  \<open>we_bytes\<close> arrive in an input
  buffer, \<open>we_early\<close> bytes leave an output buffer before its level is looked at and \<open>we_late\<close>
  while the call waits; the wait then returns \<open>we_rv\<close>.
\<close>

record wait_event =
  we_bytes :: "u8 list"
  we_early :: size_t
  we_late :: size_t
  we_rv :: int

definition c_min :: "size_t \<Rightarrow> size_t \<Rightarrow> size_t" where
  "c_min a b = of_int32 (int_min (to_int a) (to_int b))"

lemma c_min_eq:
  assumes "unat a < 2 ^ 31" and "unat b < 2 ^ 31"
  shows "c_min a b = min a b"
proof -
  have "sint (to_int a) > sint (to_int b) \<longleftrightarrow> b < a"
    by (simp only: sint_to_int [OF assms(1)] sint_to_int [OF assms(2)] of_nat_less_iff word_less_nat_alt)
  then show ?thesis
    by (auto simp: c_min_def int_min_def of_int32_to_int [OF assms(1)] of_int32_to_int [OF assms(2)]
        min_def)
qed

text \<open>The time at which a blocking call gives up: the product is one of \<open>unsigned int\<close>.\<close>

definition wait_deadline :: "timespec \<Rightarrow> u32 \<Rightarrow> timespec option" where
  "wait_deadline now timeout = timespec_add_ns now (ucast (timeout * 1000 * 1000))"

text \<open>Waiting until the input buffer holds \<open>sz\<close> bytes.  Every turn uses up one wait.\<close>

fun wait_fill :: "cbuf \<Rightarrow> size_t \<Rightarrow> wait_event list \<Rightarrow> (cbuf \<times> wait_event list) exec" where
  "wait_fill b sz evs =
     (if \<not> cbuf_fill_level b < sz then Inr (b, evs)
      else (case evs of
          [] \<Rightarrow> Inl Blocked
        | e # r \<Rightarrow> cbind (cbuf_write b (we_bytes e) (of_nat (length (we_bytes e)))) (\<lambda>(b', _).
            if cbuf_timedwait_for_level_change 0 (we_rv e) \<noteq> 0 then Inr (b', r)
            else wait_fill b' sz r)))"

declare wait_fill.simps [simp del]

section \<open>The calls\<close>

text \<open>Non-blocking: as much as there is, as much as fits.  The result of \<open>cbuf_write\<close> is not
  looked at.\<close>

definition fifo_read ::
    "cbuf \<Rightarrow> size_t \<Rightarrow> u8 list \<Rightarrow> (cbuf \<times> u8 list \<times> size_t option \<times> int) exec" where
  "fifo_read b sz data =
     (let size_read_req = c_min (cbuf_fill_level b) sz
      in cbind (cbuf_read b data size_read_req) (\<lambda>(b', d, rv).
           if rv < 0 then Inr (b', d, None, - 1) else Inr (b', d, Some size_read_req, 0)))"

definition fifo_write :: "cbuf \<Rightarrow> size_t \<Rightarrow> u8 list \<Rightarrow> (cbuf \<times> size_t) exec" where
  "fifo_write b sz data =
     (let buf_size_free = (ucast (cbuf_free_level b) :: u32);
          size_written = (if sz > ucast buf_size_free then ucast buf_size_free else sz)
      in cbind (cbuf_write b data size_written) (\<lambda>(b', _). Inr (b', size_written)))"

text \<open>Blocking: wait, then read whatever there is.\<close>

definition fifo_read_b ::
    "cbuf \<Rightarrow> size_t \<Rightarrow> u8 list \<Rightarrow> wait_event list
       \<Rightarrow> (cbuf \<times> wait_event list \<times> u8 list \<times> size_t option \<times> int) exec" where
  "fifo_read_b b sz data evs =
     cbind (wait_fill b sz evs) (\<lambda>(b1, evs').
     cbind (fifo_read b1 sz data) (\<lambda>(b2, d, n, rv).
       let size_read = (case n of None \<Rightarrow> 0 | Some k \<Rightarrow> k)
       in Inr (b2, evs', d, Some size_read, if rv = 0 \<and> sz \<noteq> size_read then - ETIMEDOUT else rv)))"

text \<open>Whether a wait of the blocking write was ended by its timeout is not looked at.\<close>

fun write_b_loop ::
    "cbuf \<Rightarrow> size_t \<Rightarrow> u8 list \<Rightarrow> size_t \<Rightarrow> wait_event list \<Rightarrow> (cbuf \<times> wait_event list \<times> size_t) exec"
  where
  "write_b_loop b sz data size_done evs =
     cbind (fifo_write b (sz - size_done) (drop (unat size_done) data)) (\<lambda>(b1, n).
       let size_done' = size_done + n
       in if size_done' = sz then Inr (b1, evs, size_done')
          else (case evs of
              [] \<Rightarrow> Inl Blocked
            | e # r \<Rightarrow>
                (let (b2, _) = cbuf_discard b1 (we_early e);
                     (b3, _) = (if cbuf_free_level b2 = 0 then cbuf_discard b2 (we_late e) else (b2, 0))
                 in write_b_loop b3 sz data size_done' r)))"

declare write_b_loop.simps [simp del]

definition fifo_write_b ::
    "cbuf \<Rightarrow> size_t \<Rightarrow> u8 list \<Rightarrow> wait_event list
       \<Rightarrow> (cbuf \<times> wait_event list \<times> size_t \<times> int) exec" where
  "fifo_write_b b sz data evs =
     cbind (write_b_loop b sz data 0 evs) (\<lambda>(b', evs', size_written).
       Inr (b', evs', size_written, if sz \<noteq> size_written then - ETIMEDOUT else 0))"

section \<open>Non-blocking calls\<close>

lemma fifo_read_ok:
  assumes w: "cbuf_wf b" and "unat n < 2 ^ 31" and "unat n \<le> length dst"
    and k: "k = min (unat n) (length (contents b))"
  shows "\<exists>b'. fifo_read b n dst = Inr (b', take k (contents b) @ drop k dst, Some (of_nat k), 0) \<and>
    cbuf_wf b' \<and> capacity b' = capacity b \<and> contents b' = drop k (contents b)"
proof -
  note S = fifo_small [OF w]
  define m where "m = c_min (cbuf_fill_level b) n"
  have m: "unat m = k"
    using S(3) assms(2) k cq.level [OF w] by (simp add: m_def c_min_eq unat_min min.commute)
  have "k < 2 ^ 31" using k assms(2) by (simp add: min.strict_coboundedI1)
  then have mk: "m = of_nat k" using m by (simp add: word_unat_eq_iff)
  obtain b' where "cbuf_read b dst m = Inr (b', take k (contents b) @ drop k dst, 0)"
    "cbuf_wf b'" "capacity b' = capacity b" "contents b' = drop k (contents b)"
    using cq.get_some [OF w assms(3), of m] m k by auto
  moreover from this(1) have "fifo_read b n dst =
      Inr (b', take k (contents b) @ drop k dst, Some m, 0)"
    by (simp add: fifo_read_def flip: m_def)
  ultimately show ?thesis unfolding mk by blast
qed

lemma free_level_32:
  assumes w: "cbuf_wf b"
  shows "unat (ucast (ucast (cbuf_free_level b) :: u32) :: size_t) = capacity b - length (contents b)"
proof -
  have "unat (ucast (cbuf_free_level b) :: u32) = capacity b - length (contents b)"
    using fifo_small [OF w] cq.room [OF w] unat_to_int [of "cbuf_free_level b"] by (simp add: to_int_def)
  then show ?thesis by (subst unat_ucast_up) simp_all
qed

lemma fifo_write_ok:
  assumes w: "cbuf_wf b" and "unat n \<le> length src"
    and k: "k = min (unat n) (capacity b - length (contents b))"
  shows "\<exists>b'. fifo_write b n src = Inr (b', of_nat k) \<and> cbuf_wf b' \<and> capacity b' = capacity b \<and>
    contents b' = contents b @ take k src \<and>
    capacity b' - length (contents b') = capacity b - length (contents b) - k"
proof -
  note S = fifo_small [OF w]
  define f where "f = (ucast (ucast (cbuf_free_level b) :: u32) :: size_t)"
  have f: "unat f = capacity b - length (contents b)" unfolding f_def by (rule free_level_32 [OF w])
  define m where "m = (if n > f then f else n)"
  have m: "unat m = k" using f k by (auto simp: m_def word_less_nat_alt)
  have "k < 2 ^ 31" using k S(2) by (simp add: min.strict_coboundedI2)
  then have mk: "m = of_nat k" using m by (simp add: word_unat_eq_iff)
  obtain b' where "cbuf_write b src m = Inr (b', 0)" "cbuf_wf b'" "capacity b' = capacity b"
    "contents b' = contents b @ take k src"
    using cq.put_some [OF w assms(2), of m] m k by auto
  moreover from this(1) have "fifo_write b n src = Inr (b', m)"
    unfolding m_def f_def by (simp add: fifo_write_def Let_def)
  moreover have "capacity b' - length (contents b') = capacity b - length (contents b) - k"
  proof -
    have "length (contents b') = length (contents b) + k" using calculation(4) k assms(2) by simp
    then show ?thesis using calculation(3) by linarith
  qed
  ultimately show ?thesis unfolding mk by blast
qed

text \<open>A request for more than fits is one for what fits; one for more than the caller's array holds
  reads past its end.\<close>

lemma fifo_write_fits:
  assumes w: "cbuf_wf b" and k: "k = min (unat n) (capacity b - length (contents b))"
  shows "fifo_write b n src = fifo_write b (of_nat k) src"
proof -
  note S = fifo_small [OF w]
  define f where "f = (ucast (ucast (cbuf_free_level b) :: u32) :: size_t)"
  have f: "unat f = capacity b - length (contents b)" unfolding f_def by (rule free_level_32 [OF w])
  have "k < 2 ^ 31" using k S(2) by (simp add: min.strict_coboundedI2)
  then have u: "unat (of_nat k :: size_t) = k" by simp
  have "(if n > f then f else n) = (if of_nat k > f then f else of_nat k)"
    using f k u by (auto simp: word_less_nat_alt word_unat_eq_iff)
  then show ?thesis unfolding f_def by (simp add: fifo_write_def Let_def)
qed

lemma cbuf_write_outside:
  assumes "cbuf_wf b" and "unat n \<le> capacity b - length (contents b)" and "length src < unat n"
  shows "cbuf_write b src n = Inl Mem_Fault"
proof -
  have n: "\<not> n > cbuf_free_level b" using assms(2) cq.room [OF assms(1)] by (simp add: word_less_nat_alt)
  define off where "off = wr_ptr b AND (cb_size b - 1)"
  define e where "e = cb_size b - off"
  have f: "memcpy d p src q m = Inl Mem_Fault" if "length src < q + m" for d p q m
    using that by (simp add: memcpy_def)
  have "cbuf_write_copy b src n = Inl Mem_Fault"
  proof (cases "off + n \<le> cb_size b")
    case True
    then show ?thesis using f assms(3) by (simp add: cbuf_write_copy_def flip: off_def)
  next
    case False
    have "length src < unat e + unat (n - e)" using assms(3) unat_plus_if_size [of e "n - e"] by (simp split: if_splits)
    then have "memcpy d 0 src (unat e) (unat (n - e)) = Inl Mem_Fault" for d by (rule f)
    moreover have "memcpy (cb_data b) (unat off) src 0 (unat e) = Inl Mem_Fault \<or>
        (\<exists>d. memcpy (cb_data b) (unat off) src 0 (unat e) = Inr d)" by (simp add: memcpy_def)
    ultimately show ?thesis using False
      by (auto simp: cbuf_write_copy_def Let_def simp flip: off_def e_def)
  qed
  then show ?thesis using n by (simp add: cbuf_write_def)
qed

lemma fifo_write_outside:
  assumes "cbuf_wf b" and "unat n \<le> capacity b - length (contents b)" and "length src < unat n"
  shows "fifo_write b n src = Inl Mem_Fault"
proof -
  define f where "f = (ucast (ucast (cbuf_free_level b) :: u32) :: size_t)"
  have f: "unat f = capacity b - length (contents b)" unfolding f_def by (rule free_level_32 [OF assms(1)])
  then have "(if n > f then f else n) = n" using assms(2) by (simp add: word_less_nat_alt)
  then show ?thesis using cbuf_write_outside [OF assms] unfolding f_def by (simp add: fifo_write_def Let_def)
qed

section \<open>Blocking reads\<close>

text \<open>How many waits a blocking read makes: until enough bytes are there, or one of them fails.\<close>

fun waits_taken :: "nat \<Rightarrow> nat \<Rightarrow> wait_event list \<Rightarrow> nat option" where
  "waits_taken lvl sz evs =
     (if sz \<le> lvl then Some 0
      else (case evs of [] \<Rightarrow> None
        | e # r \<Rightarrow> if we_rv e \<noteq> 0 then Some 1
                  else map_option Suc (waits_taken (lvl + length (we_bytes e)) sz r)))"

declare waits_taken.simps [simp del]

definition arrived :: "wait_event list \<Rightarrow> u8 list" where
  "arrived evs = concat (map we_bytes evs)"

lemma wait_fill_ok:
  assumes "cbuf_wf b" and "waits_taken (length (contents b)) (unat sz) evs = Some k"
    and "length (contents b) + length (arrived (take k evs)) \<le> capacity b"
  shows "\<exists>b'. wait_fill b sz evs = Inr (b', drop k evs) \<and> cbuf_wf b' \<and> capacity b' = capacity b \<and>
    contents b' = contents b @ arrived (take k evs)"
  using assms
proof (induction evs arbitrary: b k)
  case Nil
  then show ?case
    by (subst wait_fill.simps)
      (auto simp: waits_taken.simps [of _ _ "[]"] word_less_nat_alt cq.level arrived_def split: if_splits)
next
  case (Cons e evs)
  note L = cq.level [OF Cons.prems(1)]
  show ?case
  proof (cases "unat sz \<le> length (contents b)")
    case True
    then show ?thesis using Cons.prems L
      by (subst wait_fill.simps) (simp add: waits_taken.simps word_less_nat_alt arrived_def)
  next
    case False
    let ?n = "of_nat (length (we_bytes e)) :: size_t"
    obtain j where k: "k = Suc j" and
      j: "if we_rv e \<noteq> 0 then j = 0
          else waits_taken (length (contents b) + length (we_bytes e)) (unat sz) evs = Some j"
      using Cons.prems(2) False by (subst (asm) waits_taken.simps) (auto split: if_splits)
    have fit: "length (contents b) + length (we_bytes e) + length (arrived (take j evs)) \<le> capacity b"
      using Cons.prems(3) k by (simp add: arrived_def)
      obtain b1 where b1: "cbuf_write b (we_bytes e) ?n = Inr (b1, 0)" "cbuf_wf b1"
      "capacity b1 = capacity b" "contents b1 = contents b @ we_bytes e"
      using cbuf_put_block [OF Cons.prems(1), of "we_bytes e"] fit by auto
    have step: "wait_fill b sz (e # evs) =
        (if we_rv e \<noteq> 0 then Inr (b1, evs) else wait_fill b1 sz evs)"
      using False L b1(1)
      by (subst wait_fill.simps) (simp add: word_less_nat_alt cbuf_timedwait_for_level_change_def)
    show ?thesis
    proof (cases "we_rv e = 0")
      case True
      then have "\<exists>b'. wait_fill b1 sz evs = Inr (b', drop j evs) \<and> cbuf_wf b' \<and>
          capacity b' = capacity b1 \<and> contents b' = contents b1 @ arrived (take j evs)"
        using Cons.IH [OF b1(2), of j] j fit b1(3,4) by simp
      then show ?thesis using True step k b1 by (auto simp: arrived_def)
    next
      case rv: False
      then show ?thesis using step k j b1 by (simp add: arrived_def)
    qed
  qed
qed

lemma wait_fill_blocked:
  assumes "cbuf_wf b" and "waits_taken (length (contents b)) (unat sz) evs = None"
    and "length (contents b) + length (arrived evs) \<le> capacity b"
  shows "wait_fill b sz evs = Inl Blocked"
  using assms
proof (induction evs arbitrary: b)
  case Nil
  then show ?case
    by (subst wait_fill.simps)
      (auto simp: waits_taken.simps [of _ _ "[]"] word_less_nat_alt cq.level split: if_splits)
next
  case (Cons e evs)
  note L = cq.level [OF Cons.prems(1)]
  let ?n = "of_nat (length (we_bytes e)) :: size_t"
  have w: "\<not> unat sz \<le> length (contents b)" "we_rv e = 0"
    "waits_taken (length (contents b) + length (we_bytes e)) (unat sz) evs = None"
    using Cons.prems(2) by (subst (asm) waits_taken.simps; auto split: if_splits)+
  have fit: "length (contents b) + length (we_bytes e) + length (arrived evs) \<le> capacity b"
    using Cons.prems(3) by (simp add: arrived_def)
  obtain b1 where b1: "cbuf_write b (we_bytes e) ?n = Inr (b1, 0)" "cbuf_wf b1"
    "capacity b1 = capacity b" "contents b1 = contents b @ we_bytes e"
    using cbuf_put_block [OF Cons.prems(1), of "we_bytes e"] fit by auto
  have "wait_fill b1 sz evs = Inl Blocked" using Cons.IH [OF b1(2)] w(3) fit b1(3,4) by simp
  then show ?case using w L b1(1)
    by (subst wait_fill.simps) (simp add: word_less_nat_alt cbuf_timedwait_for_level_change_def)
qed

text \<open>What a blocking read delivers, and when.\<close>

lemma fifo_read_b_ok:
  assumes "cbuf_wf b" and "unat sz < 2 ^ 31" and "unat sz \<le> length dst"
    and "waits_taken (length (contents b)) (unat sz) evs = Some k"
    and "buf = contents b @ arrived (take k evs)" and "length buf \<le> capacity b"
    and "n = min (unat sz) (length buf)"
  shows "\<exists>b'. fifo_read_b b sz dst evs = Inr (b', drop k evs, take n buf @ drop n dst, Some (of_nat n),
      if n = unat sz then 0 else - ETIMEDOUT) \<and> cbuf_wf b' \<and> contents b' = drop n buf \<and>
    capacity b' = capacity b"
proof -
  obtain b1 where b1: "wait_fill b sz evs = Inr (b1, drop k evs)" "cbuf_wf b1"
    "capacity b1 = capacity b" "contents b1 = buf"
    using wait_fill_ok [OF assms(1,4)] assms(5,6) by auto
  have n1: "n = min (unat sz) (length (contents b1))" using assms(7) b1(4) by simp
  obtain b2 where b2: "fifo_read b1 sz dst = Inr (b2, take n buf @ drop n dst, Some (of_nat n), 0)"
    "cbuf_wf b2" "contents b2 = drop n buf" "capacity b2 = capacity b"
    using fifo_read_ok [OF b1(2) assms(2,3) n1] b1(3,4) by auto
  have "n < 2 ^ 31" using assms(2,7) by (simp add: min.strict_coboundedI1)
  then have "sz = of_nat n \<longleftrightarrow> n = unat sz" by (simp add: word_unat_eq_iff) auto
  then show ?thesis using b1(1) b2 by (simp add: fifo_read_b_def)
qed

lemma fifo_read_b_blocked:
  assumes "cbuf_wf b" and "waits_taken (length (contents b)) (unat sz) evs = None"
    and "length (contents b) + length (arrived evs) \<le> capacity b"
  shows "fifo_read_b b sz dst evs = Inl Blocked"
  using wait_fill_blocked [OF assms] by (simp add: fifo_read_b_def)

section \<open>Blocking writes\<close>

lemma split_take:
  "k \<le> s - d \<Longrightarrow> take k (drop d xs) @ drop (d + k) (take s xs) = drop d (take s xs)"
  using append_take_drop_id [of k "drop d (take s xs)"]
  by (simp add: drop_take min.absorb1 add.commute)

text \<open>One turn of the loop: \<open>next_turn\<close> is what the other thread does before the next one.\<close>

definition next_turn :: "cbuf \<Rightarrow> wait_event \<Rightarrow> cbuf" where
  "next_turn b e =
     (let b1 = fst (cbuf_discard b (we_early e))
      in if cbuf_free_level b1 = 0 then fst (cbuf_discard b1 (we_late e)) else b1)"

lemma next_turn_ok:
  assumes "cbuf_wf b"
  obtains j where "cbuf_wf (next_turn b e)" "contents (next_turn b e) = drop j (contents b)"
proof -
  obtain b1 rv1 j1 where b1: "cbuf_discard b (we_early e) = (b1, rv1)" "cbuf_wf b1"
    "contents b1 = drop j1 (contents b)" by (rule discard_some [OF assms])
  show thesis
  proof (cases "cbuf_free_level b1 = 0")
    case True
    obtain b2 rv2 j2 where "cbuf_discard b1 (we_late e) = (b2, rv2)" "cbuf_wf b2"
      "contents b2 = drop j2 (contents b1)" by (rule discard_some [OF b1(2)])
    then show thesis using that [of "j2 + j1"] True b1 by (simp add: next_turn_def)
  next
    case False
    then show thesis using that [of j1] b1 by (simp add: next_turn_def)
  qed
qed

lemma write_b_turn:
  assumes "cbuf_wf b" and "unat done \<le> unat sz" and "unat sz \<le> length data" and "unat sz < 2 ^ 31"
  obtains b' k where "cbuf_wf b'" "k \<le> unat sz - unat done"
    "contents b' = contents b @ take k (drop (unat done) data)"
    "unat (done + of_nat k) = unat done + k"
    "write_b_loop b sz data done evs =
      (if unat done + k = unat sz then Inr (b', evs, sz)
       else (case evs of [] \<Rightarrow> Inl Blocked
         | e # r \<Rightarrow> write_b_loop (next_turn b' e) sz data (done + of_nat k) r))"
proof -
  define k where "k = min (unat sz - unat done) (capacity b - length (contents b))"
  have d: "unat (sz - done) = unat sz - unat done"
    using assms(2) by (simp add: unat_minus_le word_le_nat_alt)
  obtain b' where b: "fifo_write b (sz - done) (drop (unat done) data) = Inr (b', of_nat k)"
    "cbuf_wf b'" "contents b' = contents b @ take k (drop (unat done) data)"
    using fifo_write_ok [OF assms(1), of "sz - done" "drop (unat done) data" k]
      diff_le_mono [OF assms(3), of "unat done"] d unfolding k_def length_drop by metis
  have kle: "k \<le> unat sz - unat done" by (simp add: k_def)
  then have k: "k < 2 ^ 31" "unat done + k < 2 ^ 31" using assms(2,4) by linarith+
  then have a: "unat (done + of_nat k) = unat done + k" by (simp add: unat_add_small)
  then have e: "done + of_nat k = sz \<longleftrightarrow> unat done + k = unat sz"
    by (metis word_unat_eq_iff)
  have "write_b_loop b sz data done evs =
      (if unat done + k = unat sz then Inr (b', evs, sz)
       else (case evs of [] \<Rightarrow> Inl Blocked
         | e # r \<Rightarrow> write_b_loop (next_turn b' e) sz data (done + of_nat k) r))"
    by (subst write_b_loop.simps)
      (cases evs, simp_all add: b(1) e case_prod_unfold Let_def next_turn_def)
  then show thesis by (rule that [OF b(2) kle b(3) a])
qed

text \<open>What the thread takes out of the buffer during the loop, and what stays: nothing is lost.\<close>

lemma write_b_loop_ok:
  assumes "cbuf_wf b" and "unat done \<le> unat sz" and "unat sz \<le> length data" and "unat sz < 2 ^ 31"
    and "write_b_loop b sz data done evs = Inr (b', evs', n)"
  shows "n = sz \<and> cbuf_wf b' \<and>
    (\<exists>taken. taken @ contents b' = contents b @ drop (unat done) (take (unat sz) data))"
  using assms
proof (induction evs arbitrary: b "done")
  case Nil
  obtain b1 k where b1: "cbuf_wf b1" "k \<le> unat sz - unat done"
    "contents b1 = contents b @ take k (drop (unat done) data)"
    "write_b_loop b sz data done [] =
      (if unat done + k = unat sz then Inr (b1, [], sz)
       else (case [] of [] \<Rightarrow> Inl Blocked
         | e # r \<Rightarrow> write_b_loop (next_turn b1 e) sz data (done + of_nat k) r))"
    by (rule write_b_turn [OF Nil.prems(1-4)])
  have "unat done + k = unat sz" "b' = b1" "n = sz"
    using Nil.prems(5) b1(4) by (simp_all split: if_splits)
  then show ?case using b1 split_take [OF b1(2), of data]
    by (intro conjI exI [of _ "[]"]) simp_all
next
  case (Cons e r)
  obtain b1 k where b1: "cbuf_wf b1" "k \<le> unat sz - unat done"
    "contents b1 = contents b @ take k (drop (unat done) data)"
    "unat (done + of_nat k) = unat done + k"
    "write_b_loop b sz data done (e # r) =
      (if unat done + k = unat sz then Inr (b1, e # r, sz)
       else (case e # r of [] \<Rightarrow> Inl Blocked
         | e # r \<Rightarrow> write_b_loop (next_turn b1 e) sz data (done + of_nat k) r))"
    by (rule write_b_turn [OF Cons.prems(1-4)])
  note split = split_take [OF b1(2), of data]
  show ?case
  proof (cases "unat done + k = unat sz")
    case True
    then have "b' = b1" "n = sz" using b1(5) Cons.prems(5) by simp_all
    then show ?thesis using True b1 split by (intro conjI exI [of _ "[]"]) simp_all
  next
    case False
    then have l: "write_b_loop (next_turn b1 e) sz data (done + of_nat k) r = Inr (b', evs', n)"
      using b1(5) Cons.prems(5) by simp
    obtain j where j: "cbuf_wf (next_turn b1 e)" "contents (next_turn b1 e) = drop j (contents b1)"
      by (rule next_turn_ok [OF b1(1)])
    have "unat done + k \<le> unat sz" using Cons.prems(2) b1(2) by linarith
    then obtain taken where t: "n = sz" "cbuf_wf b'"
      "taken @ contents b' = drop j (contents b1) @ drop (unat done + k) (take (unat sz) data)"
      using Cons.IH [OF j(1) _ Cons.prems(3,4) l] b1(4) j(2) by auto
    have "take j (contents b1) @ taken @ contents b' =
        contents b1 @ drop (unat done + k) (take (unat sz) data)" using t(3) by simp
    also have "\<dots> = contents b @ drop (unat done) (take (unat sz) data)"
      using b1(3) split by simp
    finally show ?thesis using t(1,2) by (metis append.assoc)
  qed
qed

lemma fifo_write_b_ok:
  assumes "cbuf_wf b" and "unat sz \<le> length data" and "unat sz < 2 ^ 31"
    and "fifo_write_b b sz data evs = Inr (b', evs', n, rv)"
  shows "rv = 0 \<and> n = sz \<and> cbuf_wf b' \<and>
    (\<exists>taken. taken @ contents b' = contents b @ take (unat sz) data)"
proof -
  obtain k where "write_b_loop b sz data 0 evs = Inr (b', evs', k)" "n = k"
    "rv = (if sz \<noteq> k then - ETIMEDOUT else 0)"
    using assms(4) by (auto simp: fifo_write_b_def cbind_eq_Inr_iff)
  then show ?thesis using write_b_loop_ok [OF assms(1) _ assms(2,3), of 0 evs b' evs' k] by simp
qed

end
