(* ===== verification/Uart.thy ===== *)
theory Uart
  imports Uart_Line Cbuf_Blocking Glip
begin

text \<open>
  The UART backend, \<^verbatim>\<open>backend_uart/sw/backend_uart.c\<close>: the in-band protocol of data and credit
  words, the communication thread and the functions of the backend interface.
\<close>

section \<open>State\<close>

definition UART_MAX_TRANCHE :: u16 where "UART_MAX_TRANCHE = 0x3fff"
definition TMP_BUFFER_SIZE :: size_t where "TMP_BUFFER_SIZE = 256"

record termios =
  c_iflag :: u32
  c_oflag :: u32
  c_cflag :: u32
  c_lflag :: u32
  c_vmin :: u8
  c_vtime :: u8
  c_ispeed :: int
  c_ospeed :: int

text \<open>
  The fields of the backend context, and behind them the world it works in: the line, the outcomes of
  \<open>open\<close>, \<open>tcgetattr\<close> and \<open>tcsetattr\<close> calls (success when a list has ended), the
  attributes of the device, the contents of an uninitialised array, and the waits.
\<close>

record uart =
  device :: "string option"
  fd :: int
  speed :: u32
  buffer_size :: size_t
  input_buffer :: cbuf
  output_buffer :: cbuf
  debt :: size_t
  credit :: size_t
  reset_request :: int
  term_request :: int
  uline :: line
  open_rv :: "string \<Rightarrow> int"
  tcget_rvs :: "int list"
  tcset_rvs :: "int list"
  tty_attr :: termios
  stack_junk :: "u8 \<times> u8"
  thread_running :: bool
  in_waits :: "wait_event list"
  out_waits :: "wait_event list"

section \<open>Control words\<close>

definition reset_logic :: "line \<Rightarrow> u8 \<Rightarrow> (line \<times> int) exec" where
  "reset_logic l state =
     cbind (write_blocking l [0xfe, push_bit 1 (state AND 1) OR 0x81] 0)
       (\<lambda>(l', _, rv). Inr (l', rv))"

definition reset_com :: "line \<Rightarrow> u8 \<Rightarrow> (line \<times> int) exec" where
  "reset_com l state =
     cbind (write_blocking l [0xfe, push_bit 1 (state AND 1) OR 0x85] 0)
       (\<lambda>(l', _, rv). Inr (l', rv))"

definition tranche_of :: "u8 \<Rightarrow> u8 \<Rightarrow> size_t" where
  "tranche_of first second = push_bit 8 (drop_bit 1 (ucast first) AND 0x7f) OR ucast second"

definition update_debt :: "uart \<Rightarrow> u8 \<Rightarrow> u8 \<Rightarrow> uart" where
  "update_debt u first second = u\<lparr>debt := debt u + tranche_of first second\<rparr>"

definition credit_msg :: "u16 \<Rightarrow> u8 list" where
  "credit_msg tranche =
     [0xfe, ucast (0x1 OR push_bit 1 (drop_bit 8 tranche)), ucast (tranche AND 0xff)]"

definition send_credit :: "uart \<Rightarrow> u16 \<Rightarrow> (uart \<times> int) exec" where
  "send_credit u tranche =
     cbind (write_blocking (uline u) (credit_msg tranche) 0)
       (\<lambda>(l, _, rv). Inr (u\<lparr>uline := l\<rparr>, if rv \<noteq> 0 then - 1 else 0))"

section \<open>Receiving\<close>

text \<open>A data word goes to the input buffer and uses up one credit.\<close>

definition receive_data :: "uart \<Rightarrow> u8 \<Rightarrow> uart exec" where
  "receive_data u d =
     cbind (c_assert (credit u > 0)) (\<lambda>_.
     cbind (cbuf_write (input_buffer u) [d] 1) (\<lambda>(b, rv).
     cbind (c_assert (rv = 0)) (\<lambda>_.
       Inr (u\<lparr>input_buffer := b, credit := credit u - 1\<rparr>))))"

text \<open>One more byte from the line, as \<open>parse_buffer\<close> reads it when its chunk has ended.\<close>

definition read_byte :: "uart \<Rightarrow> (uart \<times> u8) exec" where
  "read_byte u =
     cbind (read_blocking (uline u) 1 0) (\<lambda>(l, got, rv).
     cbind (c_assert (rv = 0)) (\<lambda>_. Inr (u\<lparr>uline := l\<rparr>, hd got)))"

text \<open>
  The loop over the positions \<open>i\<close> of the chunk; the array is reused for the bytes read at its end.
\<close>

function parse_loop :: "uart \<Rightarrow> u8 list \<Rightarrow> nat \<Rightarrow> nat \<Rightarrow> uart exec" where
  "parse_loop u buffer sz i =
     (if \<not> i < sz then Inr u
      else if buffer ! i = 0xfe then
        (if i + 1 < sz then
           (if buffer ! (i + 1) = 0xfe
            then cbind (receive_data u (buffer ! i)) (\<lambda>u'. parse_loop u' buffer sz (i + 1 + 1))
            else if i + 2 < sz
            then parse_loop (update_debt u (buffer ! (i + 1)) (buffer ! (i + 2))) buffer sz (i + 1 + 1 + 1)
            else cbind (read_byte u) (\<lambda>(u', c).
                   let buffer' = buffer[0 := c]
                   in parse_loop (update_debt u' (buffer' ! (i + 1)) (buffer' ! 0)) buffer' sz (i + 1 + 1)))
         else cbind (read_byte u) (\<lambda>(u', c).
                let buffer' = buffer[0 := c]
                in if buffer' ! 0 = 0xfe
                   then cbind (receive_data u' (buffer' ! 0)) (\<lambda>u''. parse_loop u'' buffer' sz (i + 1))
                   else cbind (read_byte u') (\<lambda>(u'', c').
                          let buffer'' = buffer'[1 := c']
                          in parse_loop (update_debt u'' (buffer'' ! 0) (buffer'' ! 1)) buffer'' sz (i + 1))))
      else cbind (receive_data u (buffer ! i)) (\<lambda>u'. parse_loop u' buffer sz (i + 1)))"
  by pat_completeness auto
termination by (relation "measure (\<lambda>(_, _, sz, i). sz - i)") auto

declare parse_loop.simps [simp del]

definition parse_buffer :: "uart \<Rightarrow> u8 list \<Rightarrow> nat \<Rightarrow> uart exec" where
  "parse_buffer u buffer sz =
     (if length buffer < sz \<or> length buffer < 2 then Inl Mem_Fault else parse_loop u buffer sz 0)"

section \<open>The communication thread\<close>

text \<open>The parts of one round of the loop in \<open>thread_func\<close>.  \<open>thread_array\<close> is the array of the
  thread after a read: what was read, then bytes nobody looks at.\<close>

definition thread_array :: "u8 list \<Rightarrow> u8 list" where
  "thread_array got = got @ replicate (unat TMP_BUFFER_SIZE - length got) 0"

definition thread_reset :: "uart \<Rightarrow> uart exec" where
  "thread_reset u =
     (if reset_request u = 1 then
        cbind (reset_logic (uline u) 1) (\<lambda>(l, rv).
        cbind (c_assert (rv = 0)) (\<lambda>_.
        cbind (reset_logic l 0) (\<lambda>(l', rv').
        cbind (c_assert (rv' = 0)) (\<lambda>_. Inr (u\<lparr>uline := l', reset_request := 0\<rparr>)))))
      else Inr u)"

definition thread_read :: "uart \<Rightarrow> uart exec" where
  "thread_read u =
     (let avail = cbuf_free_level (input_buffer u)
      in if avail = 0 then
           cbind (tty_read (uline u) 1) (\<lambda>(l, r).
             let u1 = u\<lparr>uline := l\<rparr>
             in (case r of Io [b] \<Rightarrow>
                   cbind (c_assert (b = 0xfe)) (\<lambda>_.
                   cbind (read_blocking l 2 0) (\<lambda>(l2, got, rv).
                   cbind (c_assert (rv = 0)) (\<lambda>_.
                   cbind (c_assert (length got = 2)) (\<lambda>_.
                     Inr (update_debt (u1\<lparr>uline := l2\<rparr>) (got ! 0) (got ! 1))))))
                 | _ \<Rightarrow> Inr u1))
         else
           cbind (tty_read (uline u) (unat (c_min avail TMP_BUFFER_SIZE))) (\<lambda>(l, r).
             let u1 = u\<lparr>uline := l\<rparr>
             in (case r of Io got \<Rightarrow>
                   (if got \<noteq> [] then parse_buffer u1 (thread_array got) (length got) else Inr u1)
                 | _ \<Rightarrow> Inr u1)))"

text \<open>Each data word is sent on its own, and twice if it is the marker.\<close>

fun send_words :: "line \<Rightarrow> u8 list \<Rightarrow> line exec" where
  "send_words l [] = Inr l"
| "send_words l (d # ds) =
     cbind (write_blocking l [d] 0) (\<lambda>(l1, n, rv).
     cbind (c_assert (rv = 0)) (\<lambda>_.
     cbind (c_assert (n = 1)) (\<lambda>_.
     cbind (if d = 0xfe then
              cbind (write_blocking l1 [d] 0) (\<lambda>(l2, n', rv').
              cbind (c_assert (rv' = 0)) (\<lambda>_.
              cbind (c_assert (n' = 1)) (\<lambda>_. Inr l2)))
            else Inr l1)
       (\<lambda>l2. send_words l2 ds))))"

definition thread_write :: "uart \<Rightarrow> uart exec" where
  "thread_write u =
     (if debt u > 0 then
        (let sz = c_min (debt u) TMP_BUFFER_SIZE; avail = cbuf_fill_level (output_buffer u)
         in if avail > 0 then
              (let sz' = c_min avail sz
               in cbind (cbuf_read (output_buffer u) (thread_array []) sz') (\<lambda>(b, buffer, rv).
                  cbind (c_assert (rv \<noteq> - EINVAL)) (\<lambda>_.
                  cbind (send_words (uline u) (take (unat sz') buffer)) (\<lambda>l.
                    Inr (u\<lparr>output_buffer := b, uline := l, debt := debt u - sz'\<rparr>)))))
            else Inr u)
      else Inr u)"

definition thread_credit :: "uart \<Rightarrow> uart exec" where
  "thread_credit u =
     (if credit u < buffer_size u - ucast UART_MAX_TRANCHE then
        cbind (send_credit (u\<lparr>credit := credit u + ucast UART_MAX_TRANCHE\<rparr>) UART_MAX_TRANCHE)
          (\<lambda>(u', _). Inr u')
      else Inr u)"

text \<open>One round, and whether the thread goes on; \<open>thread_func\<close> for at most \<open>n\<close> rounds.\<close>

definition thread_round :: "uart \<Rightarrow> (uart \<times> bool) exec" where
  "thread_round u =
     cbind (thread_reset u) (\<lambda>u1.
       if term_request u1 \<noteq> 0 then Inr (u1, False)
       else cbind (thread_read u1) (\<lambda>u2. cbind (thread_write u2) (\<lambda>u3.
            cbind (thread_credit u3) (\<lambda>u4. Inr (u4, True)))))"

fun thread_func :: "nat \<Rightarrow> uart \<Rightarrow> (uart \<times> bool) exec" where
  "thread_func 0 u = Inr (u, True)"
| "thread_func (Suc n) u =
     cbind (thread_round u) (\<lambda>(u', go). if go then thread_func n u' else Inr (u', False))"

end
