(* ===== verification/Uart_Api.thy ===== *)
theory Uart_Api
  imports Uart
begin

text \<open>
  The backend interface of the UART backend: the constructor, opening with the detection of the baud
  rate, the reset of the protocol, reading and writing, and the function table.
\<close>

section \<open>Baud rates\<close>

text \<open>The values of the termios constants on Linux.\<close>

definition speed_table :: "(int \<times> int) list" where
  "speed_table =
     [(50, 0x1), (75, 0x2), (110, 0x3), (134, 0x4), (150, 0x5), (200, 0x6), (300, 0x7), (600, 0x8),
      (1200, 0x9), (1800, 0xA), (2400, 0xB), (4800, 0xC), (9600, 0xD), (19200, 0xE), (38400, 0xF),
      (57600, 0x1001), (115200, 0x1002), (230400, 0x1003), (460800, 0x1004), (500000, 0x1005),
      (576000, 0x1006), (921600, 0x1007), (1000000, 0x1008), (1152000, 0x1009), (1500000, 0x100A),
      (2000000, 0x100B), (2500000, 0x100C), (3000000, 0x100D), (3500000, 0x100E), (4000000, 0x100F)]"

definition speed_lookup :: "int \<Rightarrow> int" where
  "speed_lookup s = (case map_of speed_table s of None \<Rightarrow> - 1 | Some b \<Rightarrow> b)"

definition autodetect_candidates :: "u32 list" where
  "autodetect_candidates =
     [4000000, 3000000, 2000000, 1000000, 500000, 230400, 115200, 57600, 38400, 19200, 9600]"

section \<open>Terminal attributes\<close>

text \<open>8N1, hardware flow control, half a second read timeout, no processing of characters.\<close>

definition raw_termios :: "int \<Rightarrow> termios \<Rightarrow> termios" where
  "raw_termios baud t =
     (let cf = (c_cflag t AND NOT 0x30) OR 0x30; cf = cf AND NOT (0x100 OR 0x200);
          cf = cf AND NOT 0x40; cf = cf OR (0x800 OR 0x80); cf = cf OR 0x80000000
      in t\<lparr>c_ospeed := baud, c_ispeed := baud, c_cflag := cf, c_vmin := 0, c_vtime := 5,
           c_lflag := c_lflag t AND NOT (0x2 OR 0x8 OR 0x10 OR 0x1), c_iflag := 0, c_oflag := 0\<rparr>)"

definition tcgetattr :: "uart \<Rightarrow> uart \<times> int" where
  "tcgetattr u = (case tcget_rvs u of [] \<Rightarrow> (u, 0) | rv # r \<Rightarrow> (u\<lparr>tcget_rvs := r\<rparr>, rv))"

definition tcsetattr :: "uart \<Rightarrow> termios \<Rightarrow> uart \<times> int" where
  "tcsetattr u t = (case tcset_rvs u of [] \<Rightarrow> (u\<lparr>tty_attr := t\<rparr>, 0)
     | rv # r \<Rightarrow> (u\<lparr>tcset_rvs := r, tty_attr := (if rv = 0 then t else tty_attr u)\<rparr>, rv))"

section \<open>Draining and resetting the line\<close>

text \<open>Reads of at most \<open>n\<close> bytes until one finds nothing.\<close>

function drain :: "line \<Rightarrow> nat \<Rightarrow> line exec" where
  "drain l n = cbind (tty_read l n) (\<lambda>(l', r).
     case r of Io bs \<Rightarrow> (if bs \<noteq> [] then drain l' n else Inr l') | _ \<Rightarrow> Inr l')"
  by pat_completeness auto
termination
  by (relation "measure (\<lambda>(l, _). rx_weight l)") (auto dest: tty_read_weight)

declare drain.simps [simp del]

text \<open>
  \<open>reset\<close>: put the communication logic and the own state back to the start, give the first credit
  and take the first debt.  A stray byte in front of the credit message is skipped.
\<close>

definition reset_debt :: "line \<Rightarrow> (line \<times> u8 list) exec" where
  "reset_debt l =
     cbind (read_blocking l 3 0) (\<lambda>(l1, d, rv).
     cbind (c_assert (rv = 0)) (\<lambda>_.
     cbind (if d ! 0 \<noteq> 0xfe then
              cbind (read_blocking l1 1 0) (\<lambda>(l2, e, rv').
              cbind (c_assert (rv' = 0)) (\<lambda>_. Inr (l2, [d ! 1, d ! 2, e ! 0])))
            else Inr (l1, d))
       (\<lambda>(l3, d'). cbind (c_assert (d' ! 0 = 0xfe)) (\<lambda>_. Inr (l3, d')))))"

definition reset :: "uart \<Rightarrow> (uart \<times> int) exec" where
  "reset u =
     cbind (reset_com (uline u) 1) (\<lambda>(l1, rv).
       if rv \<noteq> 0 then Inr (u\<lparr>uline := l1\<rparr>, - 1)
       else cbind (drain l1 16) (\<lambda>l2.
            cbind (reset_com l2 0) (\<lambda>(l3, rv').
              if rv' \<noteq> 0 then Inr (u\<lparr>uline := l3\<rparr>, - 1)
              else (let (ib, rvi) = cbuf_discard (input_buffer u) (cbuf_fill_level (input_buffer u));
                        (ob, rvo) = cbuf_discard (output_buffer u) (cbuf_fill_level (output_buffer u))
                    in cbind (c_assert (rvi = 0)) (\<lambda>_. cbind (c_assert (rvo = 0)) (\<lambda>_.
                       cbind (send_credit (u\<lparr>uline := l3, input_buffer := ib, output_buffer := ob,
                           credit := ucast UART_MAX_TRANCHE, debt := 0\<rparr>) UART_MAX_TRANCHE) (\<lambda>(u1, _).
                       cbind (reset_debt (uline u1)) (\<lambda>(l4, d).
                         Inr (update_debt (u1\<lparr>uline := l4\<rparr>) (d ! 1) (d ! 2), 0)))))))))"

section \<open>Opening\<close>

text \<open>
  One attempt at the present speed: reset, drain, release, and look for the marker of the first
  credit message in the two bytes that follow.  Where the read fails, bytes that were not read have
  the value the array happens to hold.
\<close>

definition ramp_up :: "uart \<Rightarrow> (uart \<times> bool) exec" where
  "ramp_up u =
     cbind (reset_com (uline u) 1) (\<lambda>(l1, _).
     cbind (drain l1 128) (\<lambda>l2.
     cbind (reset_com l2 0) (\<lambda>(l3, _).
     cbind (read_blocking l3 2 1000) (\<lambda>(l4, got, rv).
       let d0 = (if 0 < length got then got ! 0 else fst (stack_junk u));
           d1 = (if 1 < length got then got ! 1 else snd (stack_junk u))
       in Inr (u\<lparr>uline := l4\<rparr>,
               if rv = - ETIMEDOUT then False else \<not> (d0 \<noteq> 0xfe \<and> d1 \<noteq> 0xfe))))))"

text \<open>The autodetection runs through its candidates; a return code ends \<open>gb_uart_open\<close>.\<close>

fun autodetect :: "uart \<Rightarrow> u32 list \<Rightarrow> (uart \<times> int) exec" where
  "autodetect u [] = Inr (u, - 1)"
| "autodetect u (s # ss) =
     (let (u1, rv) = tcgetattr u
      in if rv \<noteq> 0 then Inr (u1, - 1)
         else (let baud = speed_lookup (sint s);
                   (u2, rv') = tcsetattr (u1\<lparr>speed := s\<rparr>)
                     ((tty_attr u1)\<lparr>c_ospeed := baud, c_ispeed := baud\<rparr>)
               in if rv' \<noteq> 0 then Inr (u2, - 1)
                  else cbind (ramp_up u2) (\<lambda>(u3, success).
                         if success then Inr (u3, 0) else autodetect u3 ss)))"

definition open_options :: "glip_opts \<Rightarrow> uart \<Rightarrow> uart exec" where
  "open_options opts u =
     cbind (glip_option_get_char opts ''device'') (\<lambda>(dev, rv).
     cbind (glip_option_get_uint32 opts ''speed'') (\<lambda>(sp, rv').
       Inr (u\<lparr>device := (case dev of Some d \<Rightarrow> d | None \<Rightarrow> Some ''/dev/ttyUSB0''),
              speed := (case sp of Some s \<Rightarrow> s | None \<Rightarrow> 115200)\<rparr>)))"

definition gb_uart_open :: "glip_opts \<Rightarrow> uart \<Rightarrow> u32 \<Rightarrow> (uart \<times> int) exec" where
  "gb_uart_open opts u num_channels =
     (let u0 = u\<lparr>term_request := 0, reset_request := 0\<rparr>
      in if num_channels \<noteq> 1 then Inr (u0, - 1)
         else cbind (open_options opts u0) (\<lambda>u1.
           let u2 = u1\<lparr>fd := (case device u1 of None \<Rightarrow> - 1 | Some d \<Rightarrow> open_rv u1 d)\<rparr>; baud = speed_lookup (sint (speed u2))
           in if fd u2 < 0 then Inr (u2, - 1)
              else if baud = - 1 then Inr (u2, - 1)
              else (let (u3, rv) = tcgetattr u2
                    in if rv \<noteq> 0 then Inr (u3, - 1)
                       else (let (u4, rv') = tcsetattr u3 (raw_termios baud (tty_attr u3))
                             in if rv' \<noteq> 0 then Inr (u4, - 1)
                                else cbind (ramp_up u4) (\<lambda>(u5, success).
                                  cbind (if success then Inr (u5, 0)
                                         else autodetect u5 autodetect_candidates) (\<lambda>(u6, rv'').
                                    if rv'' \<noteq> 0 then Inr (u6, rv'')
                                    else cbind (reset u6) (\<lambda>(u7, _).
                                      Inr (u7\<lparr>thread_running := True\<rparr>, 0))))))))"

text \<open>
  \<open>alloc\<close> is the outcome of the allocation of the context, the pairs those of the two buffers;
  \<open>w\<close> holds the world the backend is put into.  The code has entered the context and its functions before it
  sets up the buffers; when that fails they stay, without a buffer, and \<open>None\<close> stands for a context that cannot be used:
  \<open>glip_new\<close> does not look at the result.
\<close>

definition gb_uart_new ::
    "uart \<Rightarrow> bool \<Rightarrow> bool \<times> allocator \<Rightarrow> bool \<times> allocator \<Rightarrow> (uart option \<times> int) exec" where
  "gb_uart_new w alloc mem_in mem_out =
     (if \<not> alloc then Inr (None, - 1)
      else cbind (cbuf_init (fst mem_in) (snd mem_in) 32768) (\<lambda>(bi, rv).
        case bi of None \<Rightarrow> Inr (None, - 1) | Some ib \<Rightarrow>
        cbind (cbuf_init (fst mem_out) (snd mem_out) 32768) (\<lambda>(bo, rv').
        case bo of None \<Rightarrow> Inr (None, - 1) | Some ob \<Rightarrow>
          Inr (Some (w\<lparr>device := None, fd := 0, speed := 0, buffer_size := 32768, input_buffer := ib,
              output_buffer := ob, debt := 0, credit := 0, reset_request := 0, term_request := 0,
              thread_running := False\<rparr>), 0))))"

definition gb_uart_close :: "uart \<Rightarrow> (uart \<times> int) exec" where
  "gb_uart_close u = Inr (u\<lparr>term_request := 1, thread_running := False, fd := - 1\<rparr>, 0)"

text \<open>The caller waits, without sleeping, until the thread has carried the request out.\<close>

definition gb_uart_logic_reset :: "uart \<Rightarrow> (uart \<times> int) exec" where
  "gb_uart_logic_reset u =
     cbind (c_assert (reset_request u = 0)) (\<lambda>_.
       if \<not> thread_running u then Inl Blocked
       else cbind (thread_reset (u\<lparr>reset_request := 1\<rparr>)) (\<lambda>u'. Inr (u', 0)))"

section \<open>Reading and writing\<close>

definition gb_uart_read ::
    "uart \<Rightarrow> u32 \<Rightarrow> size_t \<Rightarrow> u8 list \<Rightarrow> (uart \<times> u8 list \<times> size_t option \<times> int) exec" where
  "gb_uart_read u channel sz data =
     (if channel > 0 then Inr (u, data, None, - 1)
      else cbind (fifo_read (input_buffer u) sz data) (\<lambda>(b, d, n, rv).
             Inr (u\<lparr>input_buffer := b\<rparr>, d, n, rv)))"

definition gb_uart_read_b ::
    "uart \<Rightarrow> u32 \<Rightarrow> size_t \<Rightarrow> u8 list \<Rightarrow> u32 \<Rightarrow> (uart \<times> u8 list \<times> size_t option \<times> int) exec" where
  "gb_uart_read_b u channel sz data timeout =
     (if channel > 0 then Inr (u, data, None, - 1)
      else if sz > buffer_size u then Inr (u, data, None, - 1)
      else cbind (fifo_read_b (input_buffer u) sz data (in_waits u)) (\<lambda>(b, evs, d, n, rv).
             Inr (u\<lparr>input_buffer := b, in_waits := evs\<rparr>, d, n, rv)))"

definition gb_uart_write ::
    "uart \<Rightarrow> u32 \<Rightarrow> size_t \<Rightarrow> u8 list \<Rightarrow> (uart \<times> size_t option \<times> int) exec" where
  "gb_uart_write u channel sz data =
     (if channel > 0 then Inr (u, None, - 1)
      else cbind (fifo_write (output_buffer u) sz data) (\<lambda>(b, n).
             Inr (u\<lparr>output_buffer := b\<rparr>, Some n, 0)))"

definition gb_uart_write_b ::
    "uart \<Rightarrow> u32 \<Rightarrow> size_t \<Rightarrow> u8 list \<Rightarrow> u32 \<Rightarrow> (uart \<times> size_t option \<times> int) exec" where
  "gb_uart_write_b u channel sz data timeout =
     (if channel > 0 then Inr (u, None, - 1)
      else cbind (fifo_write_b (output_buffer u) sz data (out_waits u)) (\<lambda>(b, evs, n, rv).
             Inr (u\<lparr>output_buffer := b, out_waits := evs\<rparr>, Some n, rv)))"


definition gb_uart_get_channel_count :: "uart \<Rightarrow> u32" where
  "gb_uart_get_channel_count u = 1"

definition gb_uart_get_fifo_width :: "uart \<Rightarrow> u32" where
  "gb_uart_get_fifo_width u = 1"

definition uart_backend :: "uart glip_backend_if" where
  "uart_backend =
     \<lparr>be_open = gb_uart_open, be_close = gb_uart_close, be_logic_reset = gb_uart_logic_reset,
      be_read = gb_uart_read, be_read_b = gb_uart_read_b, be_write = gb_uart_write,
      be_write_b = gb_uart_write_b, be_get_fifo_width = gb_uart_get_fifo_width,
      be_get_channel_count = gb_uart_get_channel_count\<rparr>"

end
