(* ===== verification/Uart_Protocol.thy ===== *)
theory Uart_Protocol
  imports Uart_Api
begin

text \<open>
  The protocol on the line as messages, and the proof that \<open>parse_buffer\<close> decodes it however the
  bytes are cut into chunks, and that the sending side of the thread encodes it.
\<close>

section \<open>Messages\<close>

text \<open>A data word, doubled on the line if it is the marker, or a credit message of two bytes behind
  the marker; the first of them is not the marker.\<close>

datatype msg = Data u8 | Credit u8 u8

fun encode_msg :: "msg \<Rightarrow> u8 list" where
  "encode_msg (Data d) = (if d = 0xfe then [d, d] else [d])"
| "encode_msg (Credit a b) = [0xfe, a, b]"

fun valid_msg :: "msg \<Rightarrow> bool" where
  "valid_msg (Data d) = True"
| "valid_msg (Credit a b) = (a \<noteq> 0xfe)"

definition encode :: "msg list \<Rightarrow> u8 list" where
  "encode ms = concat (map encode_msg ms)"

definition datas :: "msg list \<Rightarrow> u8 list" where
  "datas ms = concat (map (\<lambda>m. case m of Data d \<Rightarrow> [d] | _ \<Rightarrow> []) ms)"

definition granted :: "msg list \<Rightarrow> size_t" where
  "granted ms = sum_list (map (\<lambda>m. case m of Credit a b \<Rightarrow> tranche_of a b | _ \<Rightarrow> 0) ms)"

lemma encode_simps [simp]: "encode [] = []" "encode (m # ms) = encode_msg m @ encode ms"
  by (simp_all add: encode_def)

lemma datas_simps [simp]: "datas [] = []" "datas (Data d # ms) = d # datas ms"
    "datas (Credit a b # ms) = datas ms"
  by (simp_all add: datas_def)

lemma granted_simps [simp]: "granted [] = 0" "granted (Data d # ms) = granted ms"
    "granted (Credit a b # ms) = tranche_of a b + granted ms"
  by (simp_all add: granted_def)

lemma encode_append: "encode (ms @ ns) = encode ms @ encode ns"
  by (simp add: encode_def)

lemma length_encode_msg [simp]: "0 < length (encode_msg m)"
  by (cases m) simp_all

text \<open>How many messages the first \<open>n\<close> bytes touch.\<close>

fun cover :: "nat \<Rightarrow> msg list \<Rightarrow> nat" where
  "cover n [] = 0"
| "cover n (m # ms) = (if n = 0 then 0 else Suc (cover (n - length (encode_msg m)) ms))"

lemma cover_zero [simp]: "cover 0 ms = 0"
  by (cases ms) simp_all

section \<open>Effects of receiving\<close>

text \<open>The state \<open>u'\<close> after the messages \<open>ms\<close> have been received in state \<open>u\<close>.\<close>

definition unchanged :: "uart \<Rightarrow> uart \<Rightarrow> bool" where
  "unchanged u u' \<longleftrightarrow>
     u' = u\<lparr>uline := uline u', input_buffer := input_buffer u', credit := credit u', debt := debt u'\<rparr>"

lemma unchanged_trans: "unchanged u u1 \<Longrightarrow> unchanged u1 u2 \<Longrightarrow> unchanged u u2"
  by (cases u; cases u1; cases u2) (simp add: unchanged_def)

definition received :: "uart \<Rightarrow> msg list \<Rightarrow> uart \<Rightarrow> bool" where
  "received u ms u' \<longleftrightarrow>
     unchanged u u' \<and>
     cbuf_wf (input_buffer u') \<and> cb_size (input_buffer u') = cb_size (input_buffer u) \<and>
     contents (input_buffer u') = contents (input_buffer u) @ datas ms \<and>
     unat (credit u') + length (datas ms) = unat (credit u) \<and> debt u' = debt u + granted ms \<and>
     rx_clean (uline u') \<and> tx (uline u') = tx (uline u) \<and> tx_script (uline u') = tx_script (uline u)"

definition ready :: "uart \<Rightarrow> nat \<Rightarrow> bool" where
  "ready u n \<longleftrightarrow> cbuf_wf (input_buffer u) \<and> rx_clean (uline u) \<and> n \<le> unat (credit u) \<and>
     length (contents (input_buffer u)) + n \<le> capacity (input_buffer u)"

lemma received_refl: "ready u n \<Longrightarrow> received u [] u"
  by (simp add: received_def ready_def unchanged_def)

lemma received_Cons:
  "received u [m] u1 \<Longrightarrow> received u1 ms u2 \<Longrightarrow> received u (m # ms) u2"
  by (cases m) (auto simp: received_def intro: unchanged_trans)

lemma received_silent:
  "received u [] u1 \<Longrightarrow> received u1 ms u2 \<Longrightarrow> received u ms u2"
  by (auto simp: received_def intro: unchanged_trans)

lemma received_ready:
  assumes "received u ms u'" and "ready u (length (datas ms) + n)"
  shows "ready u' n"
proof -
  have "length (contents (input_buffer u')) = length (contents (input_buffer u)) + length (datas ms)"
    using assms(1) unfolding received_def by (metis length_append)
  then show ?thesis using assms by (auto simp: received_def ready_def)
qed

lemma receive_data_ok:
  assumes "ready u (Suc n)"
  shows "\<exists>u'. receive_data u d = Inr u' \<and> received u [Data d] u' \<and> uline u' = uline u"
proof -
  have r: "cbuf_wf (input_buffer u)" "0 < unat (credit u)" "rx_clean (uline u)"
    "unat (1 :: size_t) \<le> capacity (input_buffer u) - length (contents (input_buffer u))"
    using assms by (auto simp: ready_def)
  obtain b where b: "cbuf_write (input_buffer u) [d] 1 = Inr (b, 0)" "cbuf_wf b"
    "capacity b = capacity (input_buffer u)" "contents b = contents (input_buffer u) @ [d]"
    using cq.put [OF r(1) r(4), of "[d]"] by auto
  have c: "credit u > 0" "unat (credit u - 1) + 1 = unat (credit u)"
    using r(2) by (auto simp: word_less_nat_alt unat_minus_one unat_eq_0 [symmetric])
  then show ?thesis
    using b r(3) by (auto simp: receive_data_def received_def unchanged_def word_unat_eq_iff)
qed

lemma update_debt_received: "ready u n \<Longrightarrow> received u [Credit a b] (update_debt u a b)"
  by (simp add: received_def ready_def unchanged_def update_debt_def)

lemma read_byte_ok:
  assumes "ready u n" and "pending (uline u) = x # xs"
  shows "\<exists>u'. read_byte u = Inr (u', x) \<and> received u [] u' \<and> pending (uline u') = xs"
proof -
  have rc: "rx_clean (uline u)" using assms(1) by (simp add: ready_def)
  obtain l' where "read_blocking (uline u) 1 0 = Inr (l', take 1 (pending (uline u)), 0)"
    "pending l' = drop 1 (pending (uline u))" "rx_clean l'" "tx l' = tx (uline u)"
    "tx_script l' = tx_script (uline u)"
    using read_blocking_ok [OF rc, of 1] assms(2) by auto
  then show ?thesis using assms by (auto simp: read_byte_def received_def unchanged_def ready_def)
qed

section \<open>Decoding\<close>

text \<open>What is left of the chunk at position \<open>i\<close>.\<close>

lemma chunk_Cons:
  assumes "drop i (take sz buffer) = x # xs" and "sz \<le> length buffer"
  shows "i < sz" "buffer ! i = x" "drop (Suc i) (take sz buffer) = xs"
proof -
  have "i < length (take sz buffer)" using assms(1) by (metis drop_all list.distinct(1) not_less)
  then show i: "i < sz" using assms(2) by simp
  have "take sz buffer ! i = x" using assms by (metis nth_via_drop)
  then show "buffer ! i = x" using i by simp
  show "drop (Suc i) (take sz buffer) = xs" using assms(1) by (metis drop_Suc list.sel(3) tl_drop)
qed

lemma chunk_Nil: "drop i (take sz buffer) = [] \<Longrightarrow> sz \<le> length buffer \<Longrightarrow> sz \<le> i"
  by simp

lemma parse_loop_end: "sz \<le> i \<Longrightarrow> parse_loop u buffer sz i = Inr u"
  by (subst parse_loop.simps) simp

text \<open>The goal of the induction, for a position \<open>i\<close> with messages \<open>ms\<close> ahead.\<close>

definition decodes :: "uart \<Rightarrow> u8 list \<Rightarrow> nat \<Rightarrow> nat \<Rightarrow> msg list \<Rightarrow> bool" where
  "decodes u buffer sz i ms \<longleftrightarrow> (let k = cover (sz - i) ms in
     \<exists>u'. parse_loop u buffer sz i = Inr u' \<and> received u (take k ms) u' \<and>
       pending (uline u') = encode (drop k ms))"

lemma decodes_step:
  assumes "parse_loop u buffer sz i = parse_loop u1 buffer' sz j" and "received u [m] u1"
    and "decodes u1 buffer' sz j ms" and "i < sz" and "sz - j = sz - i - length (encode_msg m)"
  shows "decodes u buffer sz i (m # ms)"
  using assms received_Cons [OF assms(2)] by (auto simp: decodes_def Let_def)

lemma decodes_end:
  assumes "sz \<le> i" and "pending (uline u) = encode ms" and "ready u n"
  shows "decodes u buffer sz i ms"
  using assms received_refl [OF assms(3)] by (simp add: decodes_def parse_loop_end)

text \<open>One message: the equations of the loop for each way it can lie in the chunk.\<close>

lemma reused_array:
  "2 \<le> length buffer \<Longrightarrow> buffer[0 := a] ! 0 = a"
  "2 \<le> length buffer \<Longrightarrow> buffer[0 := a, Suc 0 := b] ! Suc 0 = b"
  "2 \<le> length buffer \<Longrightarrow> buffer[0 := a, Suc 0 := b] ! 0 = a"
  "buffer[0 := a] ! Suc i = buffer ! Suc i"
  by (cases buffer, simp_all)+

lemma parse_loop_data:
  "i < sz \<Longrightarrow> buffer ! i \<noteq> 0xfe \<Longrightarrow> receive_data u (buffer ! i) = Inr u1 \<Longrightarrow>
     parse_loop u buffer sz i = parse_loop u1 buffer sz (Suc i)"
  by (subst parse_loop.simps) simp

lemma parse_loop_marker:
  "Suc i < sz \<Longrightarrow> buffer ! i = 0xfe \<Longrightarrow> buffer ! Suc i = 0xfe \<Longrightarrow>
     receive_data u 0xfe = Inr u1 \<Longrightarrow>
     parse_loop u buffer sz i = parse_loop u1 buffer sz (Suc (Suc i))"
  by (subst parse_loop.simps) simp

lemma parse_loop_marker_end:
  "Suc i = sz \<Longrightarrow> buffer ! i = 0xfe \<Longrightarrow> 2 \<le> length buffer \<Longrightarrow> read_byte u = Inr (u0, 0xfe) \<Longrightarrow>
     receive_data u0 0xfe = Inr u1 \<Longrightarrow>
     parse_loop u buffer sz i = parse_loop u1 (buffer[0 := 0xfe]) sz (Suc i)"
  by (subst parse_loop.simps) (simp add: Let_def reused_array)

lemma parse_loop_credit:
  "Suc (Suc i) < sz \<Longrightarrow> buffer ! i = 0xfe \<Longrightarrow> buffer ! Suc i = a \<Longrightarrow> a \<noteq> 0xfe \<Longrightarrow>
     buffer ! Suc (Suc i) = b \<Longrightarrow>
     parse_loop u buffer sz i = parse_loop (update_debt u a b) buffer sz (Suc (Suc (Suc i)))"
  by (subst parse_loop.simps) simp

lemma parse_loop_credit_end1:
  "Suc (Suc i) = sz \<Longrightarrow> buffer ! i = 0xfe \<Longrightarrow> buffer ! Suc i = a \<Longrightarrow> a \<noteq> 0xfe \<Longrightarrow> 2 \<le> length buffer \<Longrightarrow>
     read_byte u = Inr (u0, b) \<Longrightarrow>
     parse_loop u buffer sz i = parse_loop (update_debt u0 a b) (buffer[0 := b]) sz (Suc (Suc i))"
  by (subst parse_loop.simps) (auto simp: Let_def reused_array)

lemma parse_loop_credit_end2:
  "Suc i = sz \<Longrightarrow> buffer ! i = 0xfe \<Longrightarrow> a \<noteq> 0xfe \<Longrightarrow> 2 \<le> length buffer \<Longrightarrow>
     read_byte u = Inr (u0, a) \<Longrightarrow> read_byte u0 = Inr (u1, b) \<Longrightarrow>
     parse_loop u buffer sz i =
       parse_loop (update_debt u1 a b) (buffer[0 := a, 1 := b]) sz (Suc i)"
  by (subst parse_loop.simps) (auto simp: Let_def reused_array)

lemma decodes_data:
  assumes IH: "\<And>u i buffer. sz \<le> length buffer \<Longrightarrow> 2 \<le> length buffer \<Longrightarrow>
      drop i (take sz buffer) @ pending (uline u) = encode ms \<Longrightarrow>
      ready u (length (datas (take (cover (sz - i) ms) ms))) \<Longrightarrow> decodes u buffer sz i ms"
    and buf: "sz \<le> length buffer" "2 \<le> length buffer" "i < sz"
    and s: "drop i (take sz buffer) @ pending (uline u) = encode (Data d # ms)"
    and r: "ready u (length (datas (take (cover (sz - i) (Data d # ms)) (Data d # ms))))"
  shows "decodes u buffer sz i (Data d # ms)"
proof -
  obtain x c where c: "drop i (take sz buffer) = x # c" using buf by (cases "drop i (take sz buffer)") auto
  note c1 = chunk_Cons [OF c buf(1)]
  have x: "x = d" using s c by (auto split: if_splits)
  show ?thesis
  proof (cases "d = 0xfe")
    case False
    let ?n = "length (datas (take (cover (sz - Suc i) ms) ms))"
    have r': "ready u (Suc ?n)" using r buf(3) False by simp
    obtain u1 where u1: "receive_data u d = Inr u1" "received u [Data d] u1" "uline u1 = uline u"
      using receive_data_ok [OF r'] by blast
    have "ready u1 ?n" using received_ready [OF u1(2)] r' by simp
    with buf(1,2) have "decodes u1 buffer sz (Suc i) ms"
      by (intro IH) (use c1 c s False u1(3) x in simp_all)
    then show ?thesis using decodes_step [OF _ u1(2)] parse_loop_data c1 u1(1) False x by simp
  next
    case d: True
    show ?thesis
    proof (cases c)
      case (Cons y c')
      note c2 = chunk_Cons [OF c1(3) [unfolded Cons] buf(1)]
      let ?n = "length (datas (take (cover (sz - Suc (Suc i)) ms) ms))"
      have r': "ready u (Suc ?n)" using r buf(3) d by simp
      obtain u1 where u1: "receive_data u d = Inr u1" "received u [Data d] u1" "uline u1 = uline u"
        using receive_data_ok [OF r'] by blast
      have "ready u1 ?n" using received_ready [OF u1(2)] r' by simp
      with buf(1,2) have "decodes u1 buffer sz (Suc (Suc i)) ms"
        by (intro IH) (use c2 c s d u1(3) Cons in simp_all)
      then show ?thesis
        using decodes_step [OF parse_loop_marker u1(2)] c1(1,2) c2(1,2) u1(1) d x s c Cons by simp
    next
      case Nil
      have i: "Suc i = sz" using chunk_Nil [OF c1(3) [unfolded Nil] buf(1)] c1(1) by linarith
      have p: "pending (uline u) = 0xfe # encode ms" using s c Nil d by simp
      obtain u0 where u0: "read_byte u = Inr (u0, 0xfe)" "received u [] u0"
        "pending (uline u0) = encode ms" using read_byte_ok [OF r p] by blast
      have r0: "ready u0 (Suc 0)"
        using received_ready [OF u0(2), of 1] r buf(3) d i by simp
      obtain u1 where u1: "receive_data u0 d = Inr u1" "received u0 [Data d] u1"
        "uline u1 = uline u0" using receive_data_ok [OF r0] by blast
      have r1: "ready u1 0" using received_ready [OF u1(2)] r0 by simp
      have "decodes u1 (buffer[0 := 0xfe]) sz (Suc i) ms"
        using decodes_end [OF _ _ r1, of sz "Suc i" ms] i u1(3) u0(3) by simp
      then show ?thesis
        using decodes_step [OF parse_loop_marker_end received_silent [OF u0(2) u1(2)]]
          i c1(1,2) x buf(2) u0(1) u1(1) d by simp
    qed
  qed
qed

lemma decodes_credit:
  assumes IH: "\<And>u i buffer. sz \<le> length buffer \<Longrightarrow> 2 \<le> length buffer \<Longrightarrow>
      drop i (take sz buffer) @ pending (uline u) = encode ms \<Longrightarrow>
      ready u (length (datas (take (cover (sz - i) ms) ms))) \<Longrightarrow> decodes u buffer sz i ms"
    and buf: "sz \<le> length buffer" "2 \<le> length buffer" "i < sz" and a: "a \<noteq> 0xfe"
    and s: "drop i (take sz buffer) @ pending (uline u) = encode (Credit a b # ms)"
    and r: "ready u (length (datas (take (cover (sz - i) (Credit a b # ms)) (Credit a b # ms))))"
  shows "decodes u buffer sz i (Credit a b # ms)"
proof -
  obtain x c where c: "drop i (take sz buffer) = x # c" using buf by (cases "drop i (take sz buffer)") auto
  note c1 = chunk_Cons [OF c buf(1)]
  have x: "x = 0xfe" and s1: "c @ pending (uline u) = a # b # encode ms" using s c by simp_all
  let ?n = "length (datas (take (cover (sz - Suc (Suc (Suc i))) ms) ms))"
  have r': "ready u ?n" using r buf(3) by (simp add: numeral_3_eq_3)
  consider (in0) "c = []" | (in1) "c = [a]" | (in2) c' where "c = a # b # c'"
    using s1 by (cases c; cases "tl c") auto
  then show ?thesis
  proof cases
    case in0
    have i: "Suc i = sz" using chunk_Nil [OF c1(3) [unfolded in0] buf(1)] c1(1) by linarith
    obtain u0 where u0: "read_byte u = Inr (u0, a)" "received u [] u0"
      "pending (uline u0) = b # encode ms" using read_byte_ok [OF r'] s1 in0 by force
    have r0: "ready u0 0" using received_ready [OF u0(2), of 0] r' by (simp add: ready_def)
    obtain u1 where u1: "read_byte u0 = Inr (u1, b)" "received u0 [] u1"
      "pending (uline u1) = encode ms" using read_byte_ok [OF r0 u0(3)] by blast
    have r1: "ready u1 0" using received_ready [OF u1(2), of 0] r0 by simp
    have r2: "ready (update_debt u1 a b) 0" using r1 by (simp add: ready_def update_debt_def)
    have "received u [Credit a b] (update_debt u1 a b)"
      by (intro received_silent [OF u0(2)] received_silent [OF u1(2)] update_debt_received [OF r1])
    moreover have "decodes (update_debt u1 a b) (buffer[0 := a, 1 := b]) sz (Suc i) ms"
      by (rule decodes_end [OF _ _ r2]) (use i u1(3) in \<open>simp_all add: update_debt_def\<close>)
    moreover have "parse_loop u buffer sz i =
        parse_loop (update_debt u1 a b) (buffer[0 := a, 1 := b]) sz (Suc i)"
      by (rule parse_loop_credit_end2 [OF i _ a buf(2) u0(1) u1(1)]) (use c1(2) x in simp)
    ultimately show ?thesis using decodes_step i by simp
  next
    case in1
    note c2 = chunk_Cons [OF c1(3) [unfolded in1] buf(1)]
    have i: "Suc (Suc i) = sz" using chunk_Nil [OF c2(3) buf(1)] c2(1) by linarith
    obtain u0 where u0: "read_byte u = Inr (u0, b)" "received u [] u0"
      "pending (uline u0) = encode ms" using read_byte_ok [OF r'] s1 in1 by force
    have r0: "ready u0 0" using received_ready [OF u0(2), of 0] r' by (simp add: ready_def)
    have r1: "ready (update_debt u0 a b) 0" using r0 by (simp add: ready_def update_debt_def)
    have "received u [Credit a b] (update_debt u0 a b)"
      by (intro received_silent [OF u0(2)] update_debt_received [OF r0])
    moreover have "decodes (update_debt u0 a b) (buffer[0 := b]) sz (Suc (Suc i)) ms"
      by (rule decodes_end [OF _ _ r1]) (use i u0(3) in \<open>simp_all add: update_debt_def\<close>)
    moreover have "parse_loop u buffer sz i =
        parse_loop (update_debt u0 a b) (buffer[0 := b]) sz (Suc (Suc i))"
      by (rule parse_loop_credit_end1 [OF i _ _ a buf(2) u0(1)]) (use c1(2) c2(2) x in simp_all)
    ultimately show ?thesis using decodes_step i c1(1) by simp
  next
    case in2
    note c2 = chunk_Cons [OF c1(3) [unfolded in2] buf(1)]
    note c3 = chunk_Cons [OF c2(3) buf(1)]
    have r1: "ready (update_debt u a b) ?n" using r' by (simp add: ready_def update_debt_def)
    with buf(1,2) have "decodes (update_debt u a b) buffer sz (Suc (Suc (Suc i))) ms"
      by (intro IH) (use c3(3) s1 in2 in \<open>simp_all add: update_debt_def\<close>)
    moreover have "parse_loop u buffer sz i =
        parse_loop (update_debt u a b) buffer sz (Suc (Suc (Suc i)))"
      by (rule parse_loop_credit [OF c3(1) _ c2(2) a c3(2)]) (use c1(2) x in simp)
    ultimately show ?thesis
      using decodes_step [OF _ update_debt_received [OF r']] c1(1) by simp
  qed
qed

lemma parse_loop_decodes:
  assumes "\<forall>m \<in> set ms. valid_msg m" and "sz \<le> length buffer" and "2 \<le> length buffer"
    and "drop i (take sz buffer) @ pending (uline u) = encode ms"
    and "ready u (length (datas (take (cover (sz - i) ms) ms)))"
  shows "decodes u buffer sz i ms"
  using assms
proof (induction ms arbitrary: u i buffer)
  case Nil
  then show ?case by (intro decodes_end [where n = 0]) simp_all
next
  case (Cons m ms)
  show ?case
  proof (cases "i < sz")
    case False
    then show ?thesis using Cons(3-6)
      by (intro decodes_end [where n = "length (datas (take (cover (sz - i) (m # ms)) (m # ms)))"]) simp_all
  next
    case i: True
    show ?thesis
    proof (cases m)
      case (Data d)
      have "decodes u buffer sz i (Data d # ms)"
        by (rule decodes_data [OF Cons(1)]) (use Cons(2-6) i Data in simp_all)
      then show ?thesis by (simp only: Data)
    next
      case (Credit a b)
      have "decodes u buffer sz i (Credit a b # ms)"
        by (rule decodes_credit [OF Cons(1)]) (use Cons(2-6) i Credit in simp_all)
      then show ?thesis by (simp only: Credit)
    qed
  qed
qed

lemma parse_buffer_decodes:
  assumes "\<forall>m \<in> set ms. valid_msg m" and "sz \<le> length buffer" and "2 \<le> length buffer"
    and "take sz buffer @ pending (uline u) = encode ms"
    and "ready u (length (datas (take (cover sz ms) ms)))"
  obtains u' where "parse_buffer u buffer sz = Inr u'" "received u (take (cover sz ms) ms) u'"
    "pending (uline u') = encode (drop (cover sz ms) ms)"
  using parse_loop_decodes [of ms sz buffer 0 u] assms
  by (auto simp: decodes_def parse_buffer_def Let_def)

section \<open>The receiving part of a round\<close>

lemma take_thread_array: "take (length got) (thread_array got) = got"
  by (simp add: thread_array_def)

text \<open>With room in the input buffer, a round takes in the messages touched by the chunk it reads.\<close>

lemma thread_read_decodes:
  assumes "\<forall>m \<in> set ms. valid_msg m" and "pending (uline u) = encode ms"
    and "tty_read (uline u) (unat (c_min (cbuf_free_level (input_buffer u)) 256)) = Inr (l, Io got)"
    and "got \<noteq> []" and "rx_clean (uline u)"
    and "ready u (length (datas (take (cover (length got) ms) ms)))"
    and "length (contents (input_buffer u)) < capacity (input_buffer u)"
  obtains u' where "thread_read u = Inr u'" "received u (take (cover (length got) ms) ms) u'"
    "pending (uline u') = encode (drop (cover (length got) ms) ms)"
proof -
  let ?u1 = "u\<lparr>uline := l\<rparr>"
  have wf: "cbuf_wf (input_buffer u)" using assms(6) by (simp add: ready_def)
  have nz: "cbuf_free_level (input_buffer u) \<noteq> 0"
    using cq.room [OF wf] assms(7) by auto
  have l: "pending (uline u) = got @ pending l" "rx_clean l" "tx l = tx (uline u)"
    "tx_script l = tx_script (uline u)"
    using assms(3,5) by (auto simp: tty_read_def pending_def rx_clean_def
        split: list.splits rd_event.splits if_splits)
  have r1: "ready ?u1 (length (datas (take (cover (length got) ms) ms)))"
    using assms(6) l(2) by (simp add: ready_def)
  have len: "length got \<le> length (thread_array got)" "2 \<le> length (thread_array got)"
    by (simp_all add: thread_array_def TMP_BUFFER_SIZE_def)
  obtain u' where u': "parse_buffer ?u1 (thread_array got) (length got) = Inr u'"
    "received ?u1 (take (cover (length got) ms) ms) u'"
    "pending (uline u') = encode (drop (cover (length got) ms) ms)"
    using parse_buffer_decodes [OF assms(1) len _ r1] assms(2) l(1) take_thread_array by auto
  have "received u (take (cover (length got) ms) ms) u'"
    using u'(2) l by (cases u; cases u') (simp add: received_def unchanged_def)
  moreover have "thread_read u = Inr u'"
    using nz assms(3,4) u'(1) by (simp add: thread_read_def TMP_BUFFER_SIZE_def)
  ultimately show thesis using that u'(3) by blast
qed

section \<open>The sending part of a round\<close>

lemma send_words_ok:
  "tx_clean l \<Longrightarrow> \<exists>l'. send_words l ds = Inr l' \<and> tx l' = tx l @ encode (map Data ds) \<and>
     tx_clean l' \<and> rx l' = rx l"
proof (induction ds arbitrary: l)
  case (Cons d ds)
  obtain l1 where l1: "write_blocking l [d] 0 = Inr (l1, 1, 0)" "tx l1 = tx l @ [d]"
    "tx_clean l1" "rx l1 = rx l"
    using write_blocking_ok [OF Cons.prems, of "[d]"] by (metis One_nat_def list.size(3,4) add_0)
  obtain l2 where l2: "write_blocking l1 [d] 0 = Inr (l2, 1, 0)" "tx l2 = tx l1 @ [d]"
    "tx_clean l2" "rx l2 = rx l1"
    using write_blocking_ok [OF l1(3), of "[d]"] by (metis One_nat_def list.size(3,4) add_0)
  show ?case
  proof (cases "d = 0xfe")
    case True
    then show ?thesis using Cons.IH [OF l2(3)] l1 l2 by auto
  next
    case False
    then show ?thesis using Cons.IH [OF l1(3)] l1 by auto
  qed
qed simp

lemma thread_write_ok:
  assumes "cbuf_wf (output_buffer u)" and "tx_clean (uline u)" and "unat (debt u) < 2 ^ 31"
    and "n = min (unat (debt u)) (min (length (contents (output_buffer u))) 256)"
  obtains u' where "thread_write u = Inr u'" "cbuf_wf (output_buffer u')"
    "contents (output_buffer u') = drop n (contents (output_buffer u))"
    "tx (uline u') = tx (uline u) @ encode (map Data (take n (contents (output_buffer u))))"
    "unat (debt u') = unat (debt u) - n" "tx_clean (uline u')" "rx (uline u') = rx (uline u)"
    "credit u' = credit u" "input_buffer u' = input_buffer u" "buffer_size u' = buffer_size u"
    "capacity (output_buffer u') = capacity (output_buffer u)"
proof -
  let ?b = "output_buffer u"
  have lv: "unat (cbuf_fill_level ?b) = length (contents ?b)" using cq.level [OF assms(1)] .
  have small: "unat (cbuf_fill_level ?b) < 2 ^ 31"
    using lv cq.bounded [OF assms(1)] cq.cap_small [OF assms(1)] by simp
  show thesis
  proof (cases "n = 0")
    case True
    then have "thread_write u = Inr u"
      using assms(4) lv by (auto simp: thread_write_def Let_def min_def unat_eq_0 split: if_splits)
    then show thesis using that [of u] assms True by simp
  next
    case False
    then have d: "debt u > 0" "cbuf_fill_level ?b > 0"
      using assms(4) lv by (auto simp: word_less_nat_alt)
    define m where "m = c_min (cbuf_fill_level ?b) (c_min (debt u) TMP_BUFFER_SIZE)"
    have "m = min (cbuf_fill_level ?b) (min (debt u) 256)"
      using assms(3) small by (simp add: m_def c_min_eq TMP_BUFFER_SIZE_def min_def)
    then have m: "unat m = n" using assms(4) lv by (auto simp: min_def word_le_nat_alt)
    have len: "unat m \<le> length (contents ?b)" "unat m \<le> length (thread_array [])"
      using m assms(4) by (simp_all add: thread_array_def TMP_BUFFER_SIZE_def)
    obtain b where b: "cbuf_read ?b (thread_array []) m =
        Inr (b, take n (contents ?b) @ drop n (thread_array []), 0)"
      "cbuf_wf b" "capacity b = capacity ?b" "contents b = drop n (contents ?b)"
      using cq.get [OF assms(1) len] m by auto
    obtain l where l: "send_words (uline u) (take n (contents ?b)) = Inr l"
      "tx l = tx (uline u) @ encode (map Data (take n (contents ?b)))" "tx_clean l"
      "rx l = rx (uline u)" using send_words_ok [OF assms(2)] by blast
    have "unat (debt u - m) = unat (debt u) - n"
      using m assms(4) by (subst unat_minus_le) (simp_all add: word_le_nat_alt)
    moreover have "thread_write u = Inr (u\<lparr>output_buffer := b, uline := l, debt := debt u - m\<rparr>)"
      using d b(1) l(1) m len(1)
      by (simp add: thread_write_def Let_def errno_defs flip: m_def)
    ultimately show thesis
      using that [of "u\<lparr>output_buffer := b, uline := l, debt := debt u - m\<rparr>"] b l by simp
  qed
qed

end
