(* ===== verification/Backend_Contract.thy ===== *)
theory Backend_Contract
  imports Glip
begin

text \<open>
  The contract of the non-blocking transfers of a backend with two byte queues, and what the public
  interface makes of it.  Every backend that keeps its data in circular buffers interprets the
  locale with its own functions.
\<close>

text \<open>\<open>inq\<close> are the bytes ready to be read, \<open>outq\<close> those scheduled to be sent, \<open>room\<close> what the
  sending side can still take.\<close>

locale fifo_backend =
  fixes fns :: "'b glip_backend_if"
    and inv :: "'b \<Rightarrow> bool"
    and inq :: "'b \<Rightarrow> u8 list"
    and outq :: "'b \<Rightarrow> u8 list"
    and room :: "'b \<Rightarrow> nat"
  assumes inq_small: "inv s \<Longrightarrow> length (inq s) < 2 ^ 31"
    and room_small: "inv s \<Longrightarrow> room s < 2 ^ 31"
    and read_some: "inv s \<Longrightarrow> unat n < 2 ^ 31 \<Longrightarrow> unat n \<le> length dst \<Longrightarrow>
      k = min (unat n) (length (inq s)) \<Longrightarrow>
      \<exists>s'. be_read fns s 0 n dst = Inr (s', take k (inq s) @ drop k dst, Some (of_nat k), 0) \<and>
        inv s' \<and> inq s' = drop k (inq s) \<and> outq s' = outq s \<and> room s' = room s"
    and write_some: "inv s \<Longrightarrow> unat n < 2 ^ 31 \<Longrightarrow> unat n \<le> length src \<Longrightarrow> k = min (unat n) (room s) \<Longrightarrow>
      \<exists>s'. be_write fns s 0 n src = Inr (s', Some (of_nat k), 0) \<and>
        inv s' \<and> outq s' = outq s @ take k src \<and> inq s' = inq s \<and> room s' = room s - k"
    and bad_channel: "ch \<noteq> 0 \<Longrightarrow> be_read fns s ch n dst = Inr (s, dst, None, - 1)"
      "ch \<noteq> 0 \<Longrightarrow> be_write fns s ch n src = Inr (s, None, - 1)"
begin

lemma glip_read_ok:
  assumes "connected c" and "backend_functions c = fns" and "inv (backend_ctx c)"
    and "unat n < 2 ^ 31" and "unat n \<le> length dst"
    and "k = min (unat n) (length (inq (backend_ctx c)))"
  shows "\<exists>s'. glip_read c 0 n dst = Inr (c\<lparr>backend_ctx := s'\<rparr>,
      take k (inq (backend_ctx c)) @ drop k dst, Some (of_nat k), 0) \<and> inv s' \<and>
    inq s' = drop k (inq (backend_ctx c)) \<and> outq s' = outq (backend_ctx c) \<and>
    room s' = room (backend_ctx c)"
proof (cases "n = 0")
  case True
  then show ?thesis using assms by (intro exI [of _ "backend_ctx c"]) (simp add: glip_read_def)
next
  case False
  then show ?thesis using assms read_some [OF assms(3-6)] by (auto simp: glip_read_def)
qed

lemma glip_write_ok:
  assumes "connected c" and "backend_functions c = fns" and "inv (backend_ctx c)"
    and "unat n < 2 ^ 31" and "unat n \<le> length src"
    and "k = min (unat n) (room (backend_ctx c))"
  shows "\<exists>s'. glip_write c 0 n src = Inr (c\<lparr>backend_ctx := s'\<rparr>, Some (of_nat k), 0) \<and> inv s' \<and>
    outq s' = outq (backend_ctx c) @ take k src \<and> inq s' = inq (backend_ctx c) \<and>
    room s' = room (backend_ctx c) - k"
proof (cases "n = 0")
  case True
  then show ?thesis using assms by (intro exI [of _ "backend_ctx c"]) (simp add: glip_write_def)
next
  case False
  then show ?thesis using assms write_some [OF assms(3-6)] by (auto simp: glip_write_def)
qed

end

text \<open>What happens to requests that do not fit the caller's array: only as much is looked at as there is
  room for, and when that is more than the array holds the call reads past its end.\<close>

locale copying_backend = fifo_backend +
  assumes write_fits: "inv s \<Longrightarrow> k = min (unat n) (room s) \<Longrightarrow> be_write fns s 0 n src = be_write fns s 0 (of_nat k) src"
    and write_outside: "inv s \<Longrightarrow> unat n \<le> room s \<Longrightarrow> length src < unat n \<Longrightarrow>
      be_write fns s 0 n src = Inl Mem_Fault"
begin

lemma glip_write_any:
  assumes "connected c" and "backend_functions c = fns" and "inv (backend_ctx c)"
    and "k = min (unat n) (room (backend_ctx c))"
  shows "if k \<le> length src
    then \<exists>s'. glip_write c 0 n src = Inr (c\<lparr>backend_ctx := s'\<rparr>, Some (of_nat k), 0) \<and> inv s' \<and>
      outq s' = outq (backend_ctx c) @ take k src \<and> inq s' = inq (backend_ctx c) \<and>
      room s' = room (backend_ctx c) - k
    else glip_write c 0 n src = Inl Mem_Fault"
proof (cases "n = 0")
  case True
  then show ?thesis using assms by (simp add: glip_write_def) (intro exI [of _ "backend_ctx c"], simp)
next
  case False
  let ?s = "backend_ctx c"
  have "k < 2 ^ 31" using assms(4) room_small [OF assms(3)] by (simp add: min.strict_coboundedI2)
  then have k: "unat (of_nat k :: size_t) = k" "k \<le> room ?s" using assms(4) by simp_all
  have e: "be_write fns ?s 0 n src = be_write fns ?s 0 (of_nat k) src" by (rule write_fits [OF assms(3,4)])
  show ?thesis
  proof (cases "k \<le> length src")
    case True
    have "unat (of_nat k :: size_t) < 2 ^ 31" "unat (of_nat k :: size_t) \<le> length src"
      "k = min (unat (of_nat k :: size_t)) (room ?s)" using k True \<open>k < 2 ^ 31\<close> by simp_all
    from write_some [OF assms(3) this] show ?thesis
      using True False e assms(1,2) by (auto simp: glip_write_def)
  next
    case False
    then have "be_write fns ?s 0 n src = Inl Mem_Fault" unfolding e using k by (intro write_outside [OF assms(3)]) simp_all
    then show ?thesis using False \<open>n \<noteq> 0\<close> assms(1,2) by (simp add: glip_write_def)
  qed
qed

end

text \<open>A blocking write that takes everything, whatever is taken out of the buffer meanwhile.\<close>

locale taking_backend = fifo_backend +
  assumes write_b_all: "inv s \<Longrightarrow> unat n \<le> length src \<Longrightarrow> unat n < 2 ^ 31 \<Longrightarrow>
    be_write_b fns s 0 n src timeout = Inr (s', n', rv) \<Longrightarrow>
    rv = 0 \<and> n' = Some n \<and> inv s' \<and> (\<exists>t. t @ outq s' = outq s @ take (unat n) src)"
begin

lemma glip_write_b_all:
  assumes "connected c" and "backend_functions c = fns" and "inv (backend_ctx c)"
    and "unat n \<le> length src" and "unat n < 2 ^ 31" and "glip_write_b c 0 n src timeout = Inr (c', n', rv)"
  shows "rv = 0 \<and> n' = Some n \<and> c' = c\<lparr>backend_ctx := backend_ctx c'\<rparr> \<and> inv (backend_ctx c') \<and>
    (\<exists>t. t @ outq (backend_ctx c') = outq (backend_ctx c) @ take (unat n) src)"
proof (cases "n = 0")
  case True
  then show ?thesis using assms by (auto simp: glip_write_b_def)
next
  case False
  then obtain s where "be_write_b fns (backend_ctx c) 0 n src timeout = Inr (s, n', rv)"
    "c' = c\<lparr>backend_ctx := s\<rparr>"
    using assms(1,2,6) by (auto simp: glip_write_b_def cbind_eq_Inr_iff)
  then show ?thesis using write_b_all [OF assms(3-5)] by auto
qed

end

text \<open>A caller that reads in pieces, each into an array of its own, and collects what it gets.\<close>

fun read_pieces :: "'b glip_ctx \<Rightarrow> size_t list \<Rightarrow> ('b glip_ctx \<times> u8 list) exec" where
  "read_pieces c [] = Inr (c, [])"
| "read_pieces c (n # ns) =
     cbind (glip_read c 0 n (replicate (unat n) 0)) (\<lambda>(c', d, k, rv).
     cbind (c_assert (rv = 0)) (\<lambda>_.
     cbind (read_pieces c' ns) (\<lambda>(c'', ds).
       Inr (c'', take (case k of None \<Rightarrow> 0 | Some k \<Rightarrow> unat k) d @ ds))))"

text \<open>A caller that writes piece by piece, again from the first byte that was not taken; it gives up
  when nothing is taken.\<close>

fun write_pieces :: "'b glip_ctx \<Rightarrow> size_t list \<Rightarrow> u8 list \<Rightarrow> ('b glip_ctx \<times> u8 list) exec" where
  "write_pieces c [] src = Inr (c, src)"
| "write_pieces c (n # ns) src =
     (let m = (if unat n \<le> length src then n else of_nat (length src))
      in cbind (glip_write c 0 m src) (\<lambda>(c', k, rv).
         cbind (c_assert (rv = 0)) (\<lambda>_.
           write_pieces c' ns (drop (case k of None \<Rightarrow> 0 | Some k \<Rightarrow> unat k) src))))"

context fifo_backend
begin

lemma read_pieces_ok:
  assumes "connected c" and "backend_functions c = fns" and "inv (backend_ctx c)"
    and "\<forall>n \<in> set ns. unat n < 2 ^ 31"
  shows "\<exists>c' ds. read_pieces c ns = Inr (c', ds) \<and> ds @ inq (backend_ctx c') = inq (backend_ctx c) \<and>
    length ds = min (sum_list (map unat ns)) (length (inq (backend_ctx c))) \<and>
    inv (backend_ctx c') \<and> outq (backend_ctx c') = outq (backend_ctx c)"
  using assms
proof (induction ns arbitrary: c)
  case Nil
  then show ?case by simp
next
  case (Cons n ns)
  let ?q = "inq (backend_ctx c)"
  define k where "k = min (unat n) (length ?q)"
  have "k < 2 ^ 31" using Cons.prems(4) by (simp add: k_def min.strict_coboundedI1)
  then have k: "unat (of_nat k :: size_t) = k" "k \<le> length ?q" by (simp_all add: k_def)
  obtain s' where s: "glip_read c 0 n (replicate (unat n) 0) = Inr (c\<lparr>backend_ctx := s'\<rparr>,
      take k ?q @ drop k (replicate (unat n) 0), Some (of_nat k), 0)" "inv s'" "inq s' = drop k ?q"
    "outq s' = outq (backend_ctx c)"
    using glip_read_ok [OF Cons.prems(1-3) _ _ k_def, of "replicate (unat n) 0"] Cons.prems(4)
    by auto
  obtain c' ds where r: "read_pieces (c\<lparr>backend_ctx := s'\<rparr>) ns = Inr (c', ds)"
    "ds @ inq (backend_ctx c') = drop k ?q"
    "length ds = min (sum_list (map unat ns)) (length ?q - k)" "inv (backend_ctx c')"
    "outq (backend_ctx c') = outq (backend_ctx c)"
    using Cons.IH [of "c\<lparr>backend_ctx := s'\<rparr>"] Cons.prems s by auto
  have "take k ?q @ ds @ inq (backend_ctx c') = ?q" using r(2) by simp
  moreover have "length (take k ?q @ ds) = min (sum_list (map unat (n # ns))) (length ?q)"
    using r(3) k(2) by (auto simp: k_def)
  ultimately show ?case using s(1) r k by simp
qed

lemma write_pieces_ok:
  assumes "connected c" and "backend_functions c = fns" and "inv (backend_ctx c)"
    and "\<forall>n \<in> set ns. unat n < 2 ^ 31"
    and "m = min (sum_list (map unat ns)) (min (length src) (room (backend_ctx c)))"
  shows "\<exists>c'. write_pieces c ns src = Inr (c', drop m src) \<and> inv (backend_ctx c') \<and>
    outq (backend_ctx c') = outq (backend_ctx c) @ take m src \<and>
    inq (backend_ctx c') = inq (backend_ctx c)"
  using assms
proof (induction ns arbitrary: c src m)
  case Nil
  then show ?case by simp
next
  case (Cons n ns)
  define l where "l = (if unat n \<le> length src then n else of_nat (length src))"
  have l: "unat l = min (unat n) (length src)" "unat l < 2 ^ 31"
    using Cons.prems(4) by (auto simp: l_def)
  define k where "k = min (unat l) (room (backend_ctx c))"
  have "k < 2 ^ 31" using l by (simp add: k_def)
  then have k: "unat (of_nat k :: size_t) = k" by simp
  have ll: "unat l \<le> length src" using l(1) by simp
  obtain s' where s: "glip_write c 0 l src = Inr (c\<lparr>backend_ctx := s'\<rparr>, Some (of_nat k), 0)"
    "inv s'" "outq s' = outq (backend_ctx c) @ take k src" "inq s' = inq (backend_ctx c)"
    "room s' = room (backend_ctx c) - k"
    using glip_write_ok [OF Cons.prems(1-3) l(2) ll k_def] by auto
  define m' where "m' = min (sum_list (map unat ns)) (min (length (drop k src)) (room s'))"
  obtain c' where r: "write_pieces (c\<lparr>backend_ctx := s'\<rparr>) ns (drop k src) = Inr (c', drop m' (drop k src))"
    "inv (backend_ctx c')" "outq (backend_ctx c') = outq s' @ take m' (drop k src)"
    "inq (backend_ctx c') = inq s'"
    using Cons.IH [of "c\<lparr>backend_ctx := s'\<rparr>" m' "drop k src"] Cons.prems s by (auto simp: m'_def)
  have m: "m = k + m'" using Cons.prems(5) l(1) s(5) by (auto simp: m'_def k_def min_def)
  then have "take m src = take k src @ take m' (drop k src)" "drop m' (drop k src) = drop m src"
    by (simp_all add: take_add add.commute)
  then show ?case using s r k by (simp add: l_def [symmetric])
qed

end

end
