(* ===== verification/Uart_Backend.thy ===== *)
theory Uart_Backend
  imports Uart_Protocol Backend_Contract
begin

text \<open>
  The UART backend as a pair of byte queues: it interprets the contract of the backends, and its
  blocking calls deliver and take whole requests whatever happens while they wait.
\<close>

section \<open>The contract\<close>

definition uart_inv :: "uart \<Rightarrow> bool" where
  "uart_inv u \<longleftrightarrow> cbuf_wf (input_buffer u) \<and> cbuf_wf (output_buffer u)"

abbreviation uart_in :: "uart \<Rightarrow> u8 list" where
  "uart_in u \<equiv> contents (input_buffer u)"

abbreviation uart_out :: "uart \<Rightarrow> u8 list" where
  "uart_out u \<equiv> contents (output_buffer u)"

abbreviation uart_room :: "uart \<Rightarrow> nat" where
  "uart_room u \<equiv> capacity (output_buffer u) - length (contents (output_buffer u))"

interpretation ub: fifo_backend uart_backend uart_inv uart_in uart_out uart_room
proof
  fix s :: uart and n :: size_t and dst :: "u8 list" and k :: nat
  assume "uart_inv s" "unat n < 2 ^ 31" "unat n \<le> length dst" "k = min (unat n) (length (uart_in s))"
  then show "\<exists>s'. be_read uart_backend s 0 n dst =
      Inr (s', take k (uart_in s) @ drop k dst, Some (of_nat k), 0) \<and> uart_inv s' \<and>
      uart_in s' = drop k (uart_in s) \<and> uart_out s' = uart_out s \<and> uart_room s' = uart_room s"
    using fifo_read_ok [of "input_buffer s" n dst k]
    by (auto simp: uart_backend_def uart_inv_def gb_uart_read_def)
next
  fix s :: uart and n :: size_t and src :: "u8 list" and k :: nat
  assume "uart_inv s" "unat n < 2 ^ 31" "unat n \<le> length src" "k = min (unat n) (uart_room s)"
  then show "\<exists>s'. be_write uart_backend s 0 n src = Inr (s', Some (of_nat k), 0) \<and> uart_inv s' \<and>
      uart_out s' = uart_out s @ take k src \<and> uart_in s' = uart_in s \<and>
      uart_room s' = uart_room s - k"
    using fifo_write_ok [of "output_buffer s" n src k]
    by (auto simp: uart_backend_def uart_inv_def gb_uart_write_def)
next
  fix s :: uart and ch :: u32 and n dst src
  assume "ch \<noteq> 0"
  then have "ch > 0" by (simp add: word_neq_0_conv)
  then show "be_read uart_backend s ch n dst = Inr (s, dst, None, - 1)"
    "be_write uart_backend s ch n src = Inr (s, None, - 1)"
    by (simp_all add: uart_backend_def gb_uart_read_def gb_uart_write_def)
qed (simp_all only: uart_inv_def fifo_small)

interpretation ub: copying_backend uart_backend uart_inv uart_in uart_out uart_room
proof
  fix s :: uart and n :: size_t and src :: "u8 list" and k :: nat
  assume "uart_inv s" "k = min (unat n) (uart_room s)"
  then show "be_write uart_backend s 0 n src = be_write uart_backend s 0 (of_nat k) src"
    using fifo_write_fits [of "output_buffer s" k n src]
    by (simp add: uart_backend_def uart_inv_def gb_uart_write_def)
next
  fix s :: uart and n :: size_t and src :: "u8 list"
  assume "uart_inv s" "unat n \<le> uart_room s" "length src < unat n"
  then show "be_write uart_backend s 0 n src = Inl Mem_Fault"
    using fifo_write_outside [of "output_buffer s" n src]
    by (simp add: uart_backend_def uart_inv_def gb_uart_write_def)
qed

interpretation ub: taking_backend uart_backend uart_inv uart_in uart_out uart_room
proof
  fix s s' :: uart and n :: size_t and src timeout n' rv
  assume i: "uart_inv s" and n: "unat n \<le> length src" "unat n < 2 ^ 31"
    and w: "be_write_b uart_backend s 0 n src timeout = Inr (s', n', rv)"
  obtain b evs k where k: "fifo_write_b (output_buffer s) n src (out_waits s) = Inr (b, evs, k, rv)"
    "n' = Some k" "s' = s\<lparr>output_buffer := b, out_waits := evs\<rparr>"
    using w by (auto simp: uart_backend_def gb_uart_write_b_def cbind_eq_Inr_iff)
  have "cbuf_wf (output_buffer s)" using i by (simp add: uart_inv_def)
  from fifo_write_b_ok [OF this n k(1)]
  show "rv = 0 \<and> n' = Some n \<and> uart_inv s' \<and> (\<exists>t. t @ uart_out s' = uart_out s @ take (unat n) src)"
    using k(2,3) i by (simp add: uart_inv_def)
qed

end
