(* ===== verification/Examples.thy ===== *)
theory Examples
  imports Cbuf_Fifo Uart_Line
begin

text \<open>Small states the examples of the properties share: buffers of eight bytes and a line with some
  events on it.\<close>

definition small_buf :: "u8 list \<Rightarrow> cbuf" where
  "small_buf bs =
     \<lparr>level_changed = 0, wr_ptr = of_nat (length bs), rd_ptr = 0, cb_size = 8,
      cb_data = bs @ replicate (8 - length bs) 0, hint_max_read_size = 0, read_data_tmp_size = 0,
      read_data_tmp = None, hint_max_write_size = 0, write_data_tmp_size = 0, write_data_tmp = None\<rparr>"

lemma small_buf_wf:
  assumes "length bs \<le> 8"
  shows "cbuf_wf (small_buf bs)" "contents (small_buf bs) = bs" "capacity (small_buf bs) = 8"
proof -
  have n: "unat (of_nat (length bs) :: size_t) = length bs" using assms by simp
  have f: "cbuf_fill (small_buf bs) = length bs"
    using assms n by (simp add: cbuf_fill_def small_buf_def)
  show "cbuf_wf (small_buf bs)"
    unfolding cbuf_wf_def f using assms n by (auto simp: small_buf_def intro: exI [of _ 3])
  show "capacity (small_buf bs) = 8" by (simp add: small_buf_def)
  show "contents (small_buf bs) = bs"
    unfolding contents_def f using assms
    by (intro nth_equalityI) (simp_all add: ring_slice_def small_buf_def nth_append)
qed

definition line_of :: "rd_event list \<Rightarrow> line" where
  "line_of evs = \<lparr>rx = evs, tx_script = [], tx = [], clock = []\<rparr>"

end
