(* ===== verification/Uart_Properties.thy ===== *)
theory Uart_Properties
  imports Uart_Backend Util_Properties Examples
begin

text \<open>The properties of the UART backend, with examples.\<close>

section \<open>Example states\<close>

definition uart0 :: "line \<Rightarrow> u8 list \<Rightarrow> u8 list \<Rightarrow> uart" where
  "uart0 l inp outp =
     \<lparr>device = None, fd = 3, speed = 115200, buffer_size = 8, input_buffer = small_buf inp,
      output_buffer = small_buf outp, debt = 4, credit = 5, reset_request = 0, term_request = 0,
      uline = l, open_rv = (\<lambda>_. 3), tcget_rvs = [], tcset_rvs = [],
      tty_attr = \<lparr>c_iflag = 0, c_oflag = 0, c_cflag = 0, c_lflag = 0, c_vmin = 0, c_vtime = 0,
        c_ispeed = 0, c_ospeed = 0\<rparr>,
      stack_junk = (0, 0), thread_running = True, in_waits = [], out_waits = []\<rparr>"

lemma uart0_inv [simp]:
  "length inp \<le> 8 \<Longrightarrow> length outp \<le> 8 \<Longrightarrow> uart_inv (uart0 l inp outp)"
  by (simp add: uart_inv_def uart0_def small_buf_wf)

section \<open>Receiving\<close>

text \<open>C1: However the bytes of a message sequence are cut into chunks, a round of the thread that
  reads a chunk takes in exactly the messages the chunk touches, fetching the rest of the last one
  from the line: their data words are appended to the input buffer in order, each using up one
  credit, their credits are added to the debt, and the line is left at the next message.\<close>

theorem uart_receive_spec:
  assumes "\<forall>m \<in> set ms. valid_msg m" and "pending (uline u) = encode ms" and "rx_clean (uline u)"
    and "tty_read (uline u) (unat (c_min (cbuf_free_level (input_buffer u)) 256)) = Inr (l, Io got)"
    and "got \<noteq> []" and "k = cover (length got) ms" and "cbuf_wf (input_buffer u)"
    and "length (datas (take k ms)) \<le> unat (credit u)"
    and "length (uart_in u) + length (datas (take k ms)) \<le> capacity (input_buffer u)"
    and "length (uart_in u) < capacity (input_buffer u)"
  shows "\<exists>u'. thread_read u = Inr u' \<and> uart_in u' = uart_in u @ datas (take k ms) \<and>
    cbuf_wf (input_buffer u') \<and> output_buffer u' = output_buffer u \<and>
    unat (credit u') = unat (credit u) - length (datas (take k ms)) \<and>
    debt u' = debt u + granted (take k ms) \<and> pending (uline u') = encode (drop k ms)"
proof -
  have "ready u (length (datas (take (cover (length got) ms) ms)))"
    using assms(3,6-9) by (simp add: ready_def)
  then obtain u' where u': "thread_read u = Inr u'" "received u (take k ms) u'"
    "pending (uline u') = encode (drop k ms)"
    using thread_read_decodes [OF assms(1,2,4,5,3) _ assms(10)] assms(6) by metis
  have "output_buffer u' = output_buffer u"
    using u'(2) by (cases u; cases u') (simp add: received_def unchanged_def)
  then show ?thesis using u' by (auto simp: received_def)
qed

theorem uart_receive_spec_witness:
  "\<exists>u'. thread_read (uart0 (line_of [Rx [5, 0xfe], Rx [0xfe, 0xfe, 3], Rx [2, 9]]) [1] []) = Inr u' \<and>
    uart_in u' = [1, 5, 0xfe] \<and> unat (credit u') = 3 \<and> pending (uline u') = [0xfe, 3, 2, 9]"
proof -
  let ?u = "uart0 (line_of [Rx [5, 0xfe], Rx [0xfe, 0xfe, 3], Rx [2, 9]]) [1] []"
  let ?ms = "[Data 5, Data 0xfe, Credit 3 2, Data 9]"
  have w: "cbuf_wf (input_buffer ?u)" "uart_in ?u = [1]" "capacity (input_buffer ?u) = 8"
    by (simp_all add: uart0_def small_buf_wf)
  have k: "(2::nat) = cover 2 ?ms" by simp
  have t: "tty_read (uline ?u) (unat (c_min (cbuf_free_level (input_buffer ?u)) 256)) =
      Inr (line_of [Rx [0xfe, 0xfe, 3], Rx [2, 9]], Io [5, 0xfe])"
  proof -
    have "unat (cbuf_free_level (input_buffer ?u)) = 7" using cq.room [OF w(1)] w(2,3) by simp
    then have "unat (c_min (cbuf_free_level (input_buffer ?u)) 256) = 7"
      by (simp add: c_min_eq unat_min)
    then show ?thesis by (simp add: tty_read_def uart0_def line_of_def)
  qed
  have "\<exists>u'. thread_read ?u = Inr u' \<and> uart_in u' = uart_in ?u @ datas (take 2 ?ms) \<and>
    cbuf_wf (input_buffer u') \<and> output_buffer u' = output_buffer ?u \<and>
    unat (credit u') = unat (credit ?u) - length (datas (take 2 ?ms)) \<and>
    debt u' = debt ?u + granted (take 2 ?ms) \<and> pending (uline u') = encode (drop 2 ?ms)"
    by (rule uart_receive_spec [OF _ _ _ t _ _ w(1)])
      (use w k in \<open>simp_all add: uart0_def line_of_def pending_def rx_clean_def\<close>)
  then show ?thesis using w by (auto simp: uart0_def)
qed

section \<open>Sending\<close>

text \<open>C2: A round sends the oldest bytes of the output buffer, in order and with every marker doubled:
  as many as the debt, the fill level and the temporary array of 256 bytes allow, never more than the
  debt; the debt shrinks by what was sent.\<close>

theorem uart_send_spec:
  assumes "cbuf_wf (output_buffer u)" and "tx_clean (uline u)" and "unat (debt u) < 2 ^ 31"
    and "n = min (unat (debt u)) (min (length (uart_out u)) 256)"
  shows "\<exists>u'. thread_write u = Inr u' \<and> uart_out u' = drop n (uart_out u) \<and>
    tx (uline u') = tx (uline u) @ encode (map Data (take n (uart_out u))) \<and>
    unat (debt u') + n = unat (debt u) \<and> cbuf_wf (output_buffer u') \<and>
    input_buffer u' = input_buffer u \<and> credit u' = credit u"
proof -
  have "n \<le> unat (debt u)" using assms(4) by simp
  then show ?thesis using thread_write_ok [OF assms] by (metis le_add_diff_inverse2)
qed

theorem uart_send_spec_witness:
  "\<exists>u'. thread_write (uart0 (line_of []) [] [1, 0xfe, 3, 4, 5]) = Inr u' \<and> uart_out u' = [5] \<and>
    tx (uline u') = [1, 0xfe, 0xfe, 3, 4] \<and> unat (debt u') = 0"
proof -
  let ?u = "uart0 (line_of []) [] [1, 0xfe, 3, 4, 5]"
  have w: "cbuf_wf (output_buffer ?u)" "uart_out ?u = [1, 0xfe, 3, 4, 5]" "unat (debt ?u) = 4"
    "tx_clean (uline ?u)" "tx (uline ?u) = []"
    by (simp_all add: uart0_def small_buf_wf tx_clean_def line_of_def)
  then have n: "4 = min (unat (debt ?u)) (min (length (uart_out ?u)) 256)" by simp
  show ?thesis using uart_send_spec [OF w(1,4) _ n] w(2,3,5) by auto
qed

section \<open>Credit messages\<close>

text \<open>Every tranche of at most 15 bits survives the trip through a credit message; the byte behind
  the marker is never the marker itself, and for the tranches the backend sends it cannot be taken
  for a reset message.\<close>

theorem uart_credit_roundtrip:
  assumes "t \<le> 0x7fff"
  shows "\<exists>a b. credit_msg t = [0xfe, a, b] \<and> a \<noteq> 0xfe \<and> tranche_of a b = ucast t \<and>
    (t \<le> UART_MAX_TRANCHE \<longrightarrow> a \<notin> {0x81, 0x83, 0x85, 0x87})"
proof -
  define a where "a = (ucast (0x1 OR push_bit 1 (drop_bit 8 t)) :: u8)"
  define b where "b = (ucast (t AND 0xff) :: u8)"
  have a: "bit a n \<longleftrightarrow> n < 8 \<and> (n = 0 \<or> bit t (n + 7))" for n
  proof -
    have "bit (push_bit 1 (drop_bit 8 t)) n \<longleftrightarrow> 1 \<le> n \<and> n < 16 \<and> bit t (8 + (n - 1))"
      by (simp only: bit_push_bit_iff bit_drop_bit_eq comp_apply possible_bit_word) simp
    moreover have "bit (1 :: u16) n \<longleftrightarrow> n = 0" by (simp add: bit_1_iff)
    moreover have "bit a n \<longleftrightarrow> n < 8 \<and> (bit (1 :: u16) n \<or> bit (push_bit 1 (drop_bit 8 t)) n)"
      by (simp only: a_def bit_unsigned_iff bit_or_iff possible_bit_word) simp
    ultimately show ?thesis by (cases n) (auto simp: add.commute)
  qed
  have b: "bit b n \<longleftrightarrow> n < 8 \<and> bit t n" for n
  proof -
    have "(0xff :: u16) = mask 8" by (simp add: mask_eq_exp_minus_1)
    then show ?thesis
      by (simp only: b_def bit_unsigned_iff bit_and_iff bit_mask_iff possible_bit_word) auto
  qed
  have t15: "n < 15" if "bit t n" for n
    using that small_word_bit [of t 15 n] assms by (simp add: word_le_nat_alt)
  have "tranche_of a b = ucast t"
  proof (rule bit_word_eqI)
    fix n assume "n < LENGTH(64)"
    have m: "(0x7f :: size_t) = mask 7" by (simp add: mask_eq_exp_minus_1)
    have "bit (tranche_of a b) n \<longleftrightarrow>
        (8 \<le> n \<and> n < 64 \<and> n - 8 < 7 \<and> bit a (1 + (n - 8))) \<or> (n < 64 \<and> bit b n)"
      by (simp only: tranche_of_def m bit_or_iff bit_push_bit_iff bit_and_iff bit_mask_iff
          bit_drop_bit_eq comp_apply bit_unsigned_iff possible_bit_word) auto
    moreover have "bit (ucast t :: size_t) n \<longleftrightarrow> bit t n"
      using \<open>n < LENGTH(64)\<close> by (simp only: bit_unsigned_iff possible_bit_word) simp
    ultimately show "bit (tranche_of a b) n \<longleftrightarrow> bit (ucast t :: size_t) n"
      using t15 [of n] \<open>n < LENGTH(64)\<close> a [of "1 + (n - 8)"] b [of n] by auto
  qed
  moreover have "a \<noteq> 0xfe" using a [of 0] by auto
  moreover have "a \<notin> {0x81, 0x83, 0x85, 0x87}" if "t \<le> UART_MAX_TRANCHE"
  proof -
    have "\<not> bit t 14"
      using small_word_bit [of t 14 14] that by (auto simp: word_le_nat_alt UART_MAX_TRANCHE_def)
    then have "\<not> bit a 7" using a [of 7] by simp
    then show ?thesis by auto
  qed
  ultimately show ?thesis unfolding credit_msg_def a_def [symmetric] b_def [symmetric] by blast
qed

theorem uart_credit_roundtrip_witness:
  "\<exists>a b. credit_msg 0x3fff = [0xfe, a, b] \<and> a \<noteq> 0xfe \<and> tranche_of a b = 0x3fff \<and>
    a \<notin> {0x81, 0x83, 0x85, 0x87}"
  using uart_credit_roundtrip [of "0x3fff"] by (simp add: UART_MAX_TRANCHE_def)

section \<open>Timeouts\<close>

text \<open>The timeout check adds a second where it should take one off: as soon as the microseconds of
  the clock have passed through zero since the start, it takes two seconds more for elapsed than
  have passed, and so gives up early.\<close>

theorem check_timeout_spec:
  assumes "unat ms < 2147483"
    and "elapsed = (tv_s cur - tv_s start) * 1000000 + (tv_us cur - tv_us start)"
  shows "check_timeout start cur ms =
    Inr (if elapsed + (if tv_us cur < tv_us start then 2000000 else 0) > int (unat ms) * 1000
         then - ETIMEDOUT else 0)"
proof -
  have "unat (ucast ms :: u32) = unat ms"
    using assms(1) unat_to_int [of ms] by (simp add: to_int_def)
  then have s: "sint (ucast ms :: u32) = int (unat ms)"
    using sint_small [of "ucast ms :: u32"] assms(1) by simp
  have "int (unat ms) < int 2147483" using assms(1) by (simp only: of_nat_less_iff)
  then show ?thesis
    unfolding check_timeout_def s Let_def assms(2) by (auto simp: uint_nat simp del: of_nat_unat simp: algebra_simps)
qed

theorem check_timeout_spec_witness:
  "check_timeout \<lparr>tv_s = 7, tv_us = 999999\<rparr> \<lparr>tv_s = 8, tv_us = 1\<rparr> 1000 = Inr (- ETIMEDOUT)"
  using check_timeout_spec [of 1000 2 "\<lparr>tv_s = 8, tv_us = 1\<rparr>" "\<lparr>tv_s = 7, tv_us = 999999\<rparr>"] by simp

text \<open>The deadline of a blocking call is the present time plus the timeout only up to 4294
  milliseconds; the product of a longer timeout wraps around, and the deadline comes too early.\<close>

theorem wait_deadline_spec:
  assumes "unat (tv_nsec now) < 10 ^ 9" and "unat (tv_sec now) < 2 ^ 62"
  shows "\<exists>d. wait_deadline now timeout = Some d \<and> unat (tv_nsec d) < 10 ^ 9 \<and>
    unat (tv_sec d) * 10 ^ 9 + unat (tv_nsec d) =
      unat (tv_sec now) * 10 ^ 9 + unat (tv_nsec now) + (unat timeout * 1000000) mod 2 ^ 32 \<and>
    ((unat timeout * 1000000) mod 2 ^ 32 = unat timeout * 1000000 \<longleftrightarrow> timeout \<le> 4294)"
proof -
  have w: "unat (ucast (timeout * 1000 * 1000) :: u64) = (unat timeout * 1000000) mod 2 ^ 32"
    by (subst unat_ucast_up) (simp_all add: unat_word_ariths mod_mult_left_eq mult.assoc)
  have "unat (tv_nsec now) + unat (ucast (timeout * 1000 * 1000) :: u64) < 2 ^ 32 * 10 ^ 9"
  proof -
    have "(unat timeout * 1000000) mod 2 ^ 32 < 2 ^ 32" by simp
    then show ?thesis using assms(1) w by simp
  qed
  then obtain d where d: "timespec_add_ns now (ucast (timeout * 1000 * 1000)) = Some d"
    "unat (tv_nsec d) < 10 ^ 9" "unat (tv_sec d) * 10 ^ 9 + unat (tv_nsec d) =
      unat (tv_sec now) * 10 ^ 9 + unat (tv_nsec now) + (unat timeout * 1000000) mod 2 ^ 32"
    using timespec_add_ns_ok [of now "ucast (timeout * 1000 * 1000)"] assms(2) w by auto
  have "(unat timeout * 1000000) mod 2 ^ 32 = unat timeout * 1000000 \<longleftrightarrow> unat timeout \<le> 4294"
  proof
    assume "(unat timeout * 1000000) mod 2 ^ 32 = unat timeout * 1000000"
    then have "unat timeout * 1000000 < 2 ^ 32" by (metis mod_less_divisor zero_less_numeral zero_less_power)
    then show "unat timeout \<le> 4294" by simp
  qed simp
  then show ?thesis using d by (simp add: wait_deadline_def word_le_nat_alt)
qed

theorem wait_deadline_spec_witness:
  "\<exists>d. wait_deadline \<lparr>tv_sec = 100, tv_nsec = 0\<rparr> 5000 = Some d \<and>
    unat (tv_sec d) * 10 ^ 9 + unat (tv_nsec d) = 100705032704"
  using wait_deadline_spec [of "\<lparr>tv_sec = 100, tv_nsec = 0\<rparr>" 5000] by auto

section \<open>Reading and writing\<close>

text \<open>C7: Through the public interface a connected UART is a pair of byte streams: whatever the sizes
  of the pieces, reads hand out the received bytes in order without gap, and writes append the
  bytes taken, in order, to what is scheduled for sending, as far as there is room.\<close>

theorem uart_api_streams:
  assumes "connected c" and "backend_functions c = uart_backend" and "uart_inv (backend_ctx c)"
    and "\<forall>n \<in> set ns. unat n < 2 ^ 31"
  shows "(\<exists>c' ds. read_pieces c ns = Inr (c', ds) \<and>
      ds @ uart_in (backend_ctx c') = uart_in (backend_ctx c) \<and>
      length ds = min (sum_list (map unat ns)) (length (uart_in (backend_ctx c)))) \<and>
    (\<exists>c' m. write_pieces c ns src = Inr (c', drop m src) \<and>
      uart_out (backend_ctx c') = uart_out (backend_ctx c) @ take m src \<and>
      m = min (sum_list (map unat ns)) (min (length src) (uart_room (backend_ctx c))))"
  using ub.read_pieces_ok [OF assms] ub.write_pieces_ok [OF assms refl, of src] by blast

definition uart_ctx :: "uart \<Rightarrow> uart glip_ctx" where
  "uart_ctx u = \<lparr>backend_options = [], num_backend_options = 0, log_fn = 1, ctx_log_priority = 3,
     caller_ctx = 0, backend_ctx = u, backend_functions = uart_backend, connected = True\<rparr>"

lemma uart_ctx_simps [simp]:
  "connected (uart_ctx u)" "backend_functions (uart_ctx u) = uart_backend"
  "backend_ctx (uart_ctx u) = u"
  by (simp_all add: uart_ctx_def)

lemma uart0_simps [simp]:
  "input_buffer (uart0 l i j) = small_buf i" "output_buffer (uart0 l i j) = small_buf j"
  "uline (uart0 l i j) = l"
  by (simp_all add: uart0_def)

theorem uart_api_streams_witness:
  "(\<exists>c' ds. read_pieces (uart_ctx (uart0 (line_of []) [1, 2, 3] [7])) [2, 5] = Inr (c', ds) \<and>
      ds @ uart_in (backend_ctx c') = [1, 2, 3] \<and> length ds = 3) \<and>
    (\<exists>c'. write_pieces (uart_ctx (uart0 (line_of []) [1, 2, 3] [7])) [2, 5] [8, 9, 10] = Inr (c', []) \<and>
      uart_out (backend_ctx c') = [7, 8, 9, 10])"
proof -
  let ?c = "uart_ctx (uart0 (line_of []) [1, 2, 3] [7])"
  have "(\<exists>c' ds. read_pieces ?c [2, 5] = Inr (c', ds) \<and>
      ds @ uart_in (backend_ctx c') = uart_in (backend_ctx ?c) \<and>
      length ds = min (sum_list (map unat [2, 5 :: size_t])) (length (uart_in (backend_ctx ?c)))) \<and>
    (\<exists>c' m. write_pieces ?c [2, 5] [8, 9, 10] = Inr (c', drop m [8, 9, 10]) \<and>
      uart_out (backend_ctx c') = uart_out (backend_ctx ?c) @ take m [8, 9, 10] \<and>
      m = min (sum_list (map unat [2, 5 :: size_t])) (min (length [8, 9, 10 :: u8]) (uart_room (backend_ctx ?c))))"
    by (rule uart_api_streams) simp_all
  then show ?thesis by (simp del: read_pieces.simps write_pieces.simps add: small_buf_wf) auto
qed




text \<open>C9: A blocking write that returns has had every byte taken, in order, whatever the thread took
  out of the buffer meanwhile; it returns zero and never \<open>-ETIMEDOUT\<close>, whatever the timeout.\<close>

theorem gb_uart_write_b_spec:
  assumes "uart_inv u" and "unat sz \<le> length data" and "unat sz < 2 ^ 31"
    and "gb_uart_write_b u 0 sz data timeout = Inr (u', n, rv)"
  shows "rv = 0 \<and> n = Some sz \<and> uart_inv u' \<and> uart_in u' = uart_in u \<and>
    (\<exists>taken. taken @ uart_out u' = uart_out u @ take (unat sz) data)"
proof -
  obtain b evs k where k: "fifo_write_b (output_buffer u) sz data (out_waits u) = Inr (b, evs, k, rv)"
    "n = Some k" "u' = u\<lparr>output_buffer := b, out_waits := evs\<rparr>"
    using assms(4) by (auto simp: gb_uart_write_b_def cbind_eq_Inr_iff)
  have "cbuf_wf (output_buffer u)" using assms(1) by (simp add: uart_inv_def)
  from fifo_write_b_ok [OF this assms(2,3) k(1)] show ?thesis
    using k(2,3) assms(1) by (simp add: uart_inv_def)
qed

definition uart_draining :: uart where
  "uart_draining = (uart0 (line_of []) [] [1, 2, 3, 4, 5, 6])\<lparr>out_waits :=
     [\<lparr>we_bytes = [], we_early = 0, we_late = 5, we_rv = 0\<rparr>]\<rparr>"

theorem gb_uart_write_b_spec_witness:
  "\<exists>u' n rv. gb_uart_write_b uart_draining 0 4 [7, 8, 9, 10] 5 = Inr (u', n, rv) \<and> rv = 0 \<and> n = Some 4 \<and>
    (\<exists>taken. taken @ uart_out u' = [1, 2, 3, 4, 5, 6, 7, 8, 9, 10])"
proof -
  have i: "uart_inv uart_draining" "uart_out uart_draining = [1, 2, 3, 4, 5, 6]"
    by (simp_all add: uart_draining_def uart_inv_def small_buf_wf)
  have "case gb_uart_write_b uart_draining 0 4 [7, 8, 9, 10] 5 of Inl _ \<Rightarrow> False | Inr _ \<Rightarrow> True"
    by code_simp
  then obtain u' n rv where w: "gb_uart_write_b uart_draining 0 4 [7, 8, 9, 10] 5 = Inr (u', n, rv)"
    by (cases "gb_uart_write_b uart_draining 0 4 [7, 8, 9, 10] 5") auto
  from gb_uart_write_b_spec [OF i(1) _ _ w] i(2) w show ?thesis by auto
qed

section \<open>Flow control\<close>












section \<open>Reset\<close>

lemma drain_ok:
  "rx l = map Rx cs @ Rx [] # evs \<Longrightarrow> \<forall>c \<in> set cs. c \<noteq> [] \<Longrightarrow> 0 < n \<Longrightarrow>
     drain l n = Inr (l\<lparr>rx := evs\<rparr>)"
proof (induction l n arbitrary: cs rule: drain.induct)
  case (1 l n)
  show ?case
  proof (cases cs)
    case Nil
    then show ?thesis using 1 by (subst drain.simps) (simp add: tty_read_def)
  next
    case (Cons c cs')
    define ds where "ds = (if length c \<le> n then cs' else drop n c # cs')"
    let ?l = "l\<lparr>rx := map Rx ds @ Rx [] # evs\<rparr>"
    have t: "tty_read l n = Inr (?l, Io (take n c))"
      using 1(2) Cons by (simp add: tty_read_def ds_def)
    have ne: "take n c \<noteq> []" using 1(3,4) Cons by simp
    have "drain ?l n = Inr (?l\<lparr>rx := evs\<rparr>)"
      using 1(1) [OF t refl refl ne, of ds] 1(3,4) Cons by (auto simp: ds_def)
    then show ?thesis using t ne by (subst drain.simps) simp
  qed
qed

lemma reset_debt_ok:
  assumes "rx_clean l" and "pending l = stray @ [0xfe, a, b] @ rest" and "length stray \<le> 1"
    and "0xfe \<notin> set stray"
  obtains l' where "reset_debt l = Inr (l', [0xfe, a, b])" "pending l' = rest" "tx l' = tx l"
    "tx_script l' = tx_script l"
proof (cases stray)
  case Nil
  have n: "0 < (3::nat)" "3 \<le> length (pending l)" using assms(2) by simp_all
  from read_blocking_ok [OF assms(1) n]
  obtain l1 where "read_blocking l 3 0 = Inr (l1, take 3 (pending l), 0)"
    "pending l1 = drop 3 (pending l)" "tx l1 = tx l" "tx_script l1 = tx_script l" by metis
  then show thesis using assms(2) Nil that [of l1] by (simp add: reset_debt_def)
next
  case (Cons x xs)
  then have x: "stray = [x]" "x \<noteq> 0xfe" using assms(3,4) by auto
  have n: "0 < (3::nat)" "3 \<le> length (pending l)" using assms(2) by simp_all
  from read_blocking_ok [OF assms(1) n]
  obtain l1 where l1: "read_blocking l 3 0 = Inr (l1, [x, 0xfe, a], 0)"
    "pending l1 = b # rest" "rx_clean l1" "tx l1 = tx l" "tx_script l1 = tx_script l"
    using assms(2) x(1) by auto
  have n1: "0 < (1::nat)" "1 \<le> length (pending l1)" using l1(2) by simp_all
  from read_blocking_ok [OF l1(3) n1]
  obtain l2 where "read_blocking l1 1 0 = Inr (l2, [b], 0)" "pending l2 = rest" "tx l2 = tx l"
    "tx_script l2 = tx_script l" using l1 by auto
  then show thesis using l1(1) x(2) that [of l2] by (simp add: reset_debt_def)
qed

text \<open>C10: A protocol reset, when the line delivers bytes to drain, falls silent and then delivers the
  credit message of the logic, perhaps behind one stray byte, leaves both buffers empty, the host
  with the first tranche as its credit and the logic's tranche as its debt; it sends the two reset
  messages and the first credit message and nothing else.\<close>

theorem uart_reset_spec:
  assumes "uart_inv u" and "tx_clean (uline u)"
    and "rx (uline u) = map Rx cs @ Rx [] # evs" and "\<forall>c \<in> set cs. c \<noteq> []"
    and "rx_clean (line_of evs)" and "pending (line_of evs) = stray @ [0xfe, a, b] @ rest"
    and "length stray \<le> 1" and "0xfe \<notin> set stray"
  shows "\<exists>u'. reset u = Inr (u', 0) \<and> uart_inv u' \<and> uart_in u' = [] \<and> uart_out u' = [] \<and>
    credit u' = 0x3fff \<and> debt u' = tranche_of a b \<and> pending (uline u') = rest \<and>
    tx (uline u') = tx (uline u) @ [0xfe, 0x87, 0xfe, 0x85, 0xfe, 0x7f, 0xff]"
proof -
  obtain l1 where l1: "write_blocking (uline u) [0xfe, 0x87] 0 = Inr (l1, length [0xfe, 0x87 :: u8], 0)"
    "tx l1 = tx (uline u) @ [0xfe, 0x87]" "tx_clean l1" "rx l1 = rx (uline u)"
    by (rule write_blocking_ok [OF assms(2)])
  define l2 where "l2 = l1\<lparr>rx := evs\<rparr>"
  have d: "drain l1 16 = Inr l2"
    unfolding l2_def by (rule drain_ok [OF _ assms(4)]) (simp_all add: l1(4) assms(3))
  have l2: "tx_clean l2" "tx l2 = tx l1" "rx l2 = evs"
    using l1(3) by (simp_all add: l2_def tx_clean_def)
  obtain l3 where l3: "write_blocking l2 [0xfe, 0x85] 0 = Inr (l3, length [0xfe, 0x85 :: u8], 0)"
    "tx l3 = tx l2 @ [0xfe, 0x85]" "tx_clean l3" "rx l3 = rx l2"
    by (rule write_blocking_ok [OF l2(1)])
  have m: "credit_msg 0x3fff = [0xfe, 0x7f, 0xff]"
    by (simp add: credit_msg_def)
  obtain l4 where l4: "write_blocking l3 [0xfe, 0x7f, 0xff] 0 =
      Inr (l4, length [0xfe, 0x7f, 0xff :: u8], 0)"
    "tx l4 = tx l3 @ [0xfe, 0x7f, 0xff]" "tx_clean l4" "rx l4 = rx l3"
    by (rule write_blocking_ok [OF l3(3)])
  have c4: "rx_clean l4" "pending l4 = stray @ [0xfe, a, b] @ rest"
    using assms(5,6) clean_cong(1,2) [of l4 "line_of evs"] l4(4) l3(4) l2(3) by (simp_all add: line_of_def)
  obtain l5 where l5: "reset_debt l4 = Inr (l5, [0xfe, a, b])" "pending l5 = rest" "tx l5 = tx l4"
    by (rule reset_debt_ok [OF c4 assms(7,8)])
  have w: "cbuf_wf (input_buffer u)" "cbuf_wf (output_buffer u)"
    using assms(1) by (simp_all add: uart_inv_def)
  obtain ib where ib: "cbuf_discard (input_buffer u) (cbuf_fill_level (input_buffer u)) = (ib, 0)"
    "cbuf_wf ib" "contents ib = []" using cq.drop_all [OF w(1)] by blast
  obtain ob where ob: "cbuf_discard (output_buffer u) (cbuf_fill_level (output_buffer u)) = (ob, 0)"
    "cbuf_wf ob" "contents ob = []" using cq.drop_all [OF w(2)] by blast
  have r1: "reset_com (uline u) 1 = Inr (l1, 0)" "reset_com l2 0 = Inr (l3, 0)"
    using l1(1) l3(1) by (simp_all add: reset_com_def)
  let ?u = "u\<lparr>uline := l5, input_buffer := ib, output_buffer := ob, credit := 0x3fff,
    debt := tranche_of a b\<rparr>"
  have "reset u = Inr (?u, 0)"
    using r1 d ib(1) ob(1) l4(1) l5(1)
    by (simp add: reset_def send_credit_def m UART_MAX_TRANCHE_def update_debt_def)
  then show ?thesis using ib ob l5(2,3) l4(2) l3(2) l2(2) l1(2) by (simp add: uart_inv_def)
qed

theorem uart_reset_spec_witness:
  "\<exists>u'. reset (uart0 (line_of [Rx [1, 2, 3], Rx [], Rx [9, 0xfe], Rx [0x81, 5]]) [1, 2] [3]) = Inr (u', 0) \<and>
    uart_in u' = [] \<and> debt u' = tranche_of 0x81 5"
proof -
  let ?u = "uart0 (line_of [Rx [1, 2, 3], Rx [], Rx [9, 0xfe], Rx [0x81, 5]]) [1, 2] [3]"
  have "\<exists>u'. reset ?u = Inr (u', 0) \<and> uart_inv u' \<and> uart_in u' = [] \<and> uart_out u' = [] \<and>
    credit u' = 0x3fff \<and> debt u' = tranche_of 0x81 5 \<and> pending (uline u') = [] \<and>
    tx (uline u') = tx (uline ?u) @ [0xfe, 0x87, 0xfe, 0x85, 0xfe, 0x7f, 0xff]"
    by (rule uart_reset_spec [where cs = "[[1, 2, 3]]" and evs = "[Rx [9, 0xfe], Rx [0x81, 5]]" and
          stray = "[9]"]) (simp_all add: line_of_def tx_clean_def rx_clean_def pending_def)
  then show ?thesis by blast
qed

end
