(* ===== verification/Jtag_Text.thy ===== *)
theory Jtag_Text
  imports Uart_Line C_Strings
begin

text \<open>
  The text protocol between the JTAG backend and OpenOCD, \<^verbatim>\<open>backend_jtag/sw/backend_jtag.c\<close>:
  a scan command with its data in hexadecimal fields goes out over a socket, a list of hexadecimal
  fields comes back.  The socket is a \<open>line\<close> (theory \<open>Uart_Line\<close>); a read of nothing means that
  the peer has closed it.
\<close>

section \<open>Commands\<close>

definition ascii :: "string \<Rightarrow> u8 list" where
  "ascii s = map (\<lambda>c. of_nat (of_char c)) s"

text \<open>The command buffer: its size and the text in it, \<open>pos\<close> characters.\<close>

record cmdbuf =
  cmd_size :: nat
  cmd_text :: "u8 list"

definition cmdbuf_new :: "nat \<Rightarrow> cmdbuf" where
  "cmdbuf_new n = \<lparr>cmd_size = n, cmd_text = []\<rparr>"

definition cmdbuf_append :: "cmdbuf \<Rightarrow> u8 list \<Rightarrow> cmdbuf exec" where
  "cmdbuf_append b data =
     cbind (c_assert (length (cmd_text b) + length data \<le> cmd_size b))
       (\<lambda>_. Inr (b\<lparr>cmd_text := cmd_text b @ data\<rparr>))"

fun cmdbuf_appends :: "cmdbuf \<Rightarrow> u8 list list \<Rightarrow> cmdbuf exec" where
  "cmdbuf_appends b [] = Inr b"
| "cmdbuf_appends b (d # ds) = cbind (cmdbuf_append b d) (\<lambda>b'. cmdbuf_appends b' ds)"

definition hex_digit :: "nat \<Rightarrow> u8" where
  "hex_digit n = (if n < 10 then of_nat (48 + n) else of_nat (87 + n))"

definition hex_byte :: "u8 \<Rightarrow> u8 list" where
  "hex_byte b = [hex_digit (unat b div 16), hex_digit (unat b mod 16)]"

text \<open>The pieces of one field: its width in bits, its bytes from the last to the first, a blank.\<close>

definition field_pieces :: "u8 list \<Rightarrow> u8 list list" where
  "field_pieces f = [ascii (decimal (length f * 8)) @ ascii '' 0x''] @ map hex_byte (rev f) @ [ascii '' '']"

text \<open>Fields hold at most four bytes.\<close>

function drscan_fields :: "cmdbuf \<Rightarrow> u8 list \<Rightarrow> cmdbuf exec" where
  "drscan_fields b req =
     (if req = [] then Inr b
      else cbind (cmdbuf_appends b (field_pieces (take 4 req))) (\<lambda>b'. drscan_fields b' (drop 4 req)))"
  by pat_completeness auto
termination by (relation "measure (\<lambda>(_, req). length req)") auto

declare drscan_fields.simps [simp del]

definition OOCD_CMDSTART :: "u8 list" where "OOCD_CMDSTART = ascii ''drscan or1k.fifo ''"
definition OOCD_CMDEND :: "u8 list" where "OOCD_CMDEND = [0x1a]"
definition OOCD_CMD_MAXLEN :: nat where "OOCD_CMD_MAXLEN = 1 * 1024 * 1024"
definition OOCD_MAX_LINESIZE :: nat where "OOCD_MAX_LINESIZE = 4096 * 1024"

section \<open>Writing to the socket\<close>

text \<open>
  The loop of \<open>write_b\<close>: \<open>nbyte_written\<close> is a \<open>size_t\<close> to which the result of \<open>write\<close> is
  added, also when it is \<open>-1\<close> with \<open>EAGAIN\<close>.
\<close>

function write_b_from :: "line \<Rightarrow> u8 list \<Rightarrow> size_t \<Rightarrow> line \<times> int" where
  "write_b_from l buf nbyte_written =
     (let (l', r) = tty_write l (drop (unat nbyte_written) buf)
      in if r = Io_Fail then (l', - 1)
         else (let nbyte_written' = nbyte_written + (case r of Io k \<Rightarrow> of_nat k | _ \<Rightarrow> - 1)
               in if nbyte_written' < of_nat (length buf) then write_b_from l' buf nbyte_written'
                  else (l', sint nbyte_written')))"
  by pat_completeness auto
termination
proof (relation "measure (\<lambda>(l, _, _). length (tx_script l))")
  fix l buf and w :: size_t and p l' r w'
  assume a: "p = tty_write l (drop (unat w) buf)" "(l', r) = p"
    "w' = w + (case r of Io k \<Rightarrow> of_nat k | _ \<Rightarrow> - 1)" "w' < of_nat (length buf)"
  have "tx_script l \<noteq> []"
  proof
    assume s: "tx_script l = []"
    have w': "w' = w + of_nat (length buf - unat w)" using a(1-3) s by (simp add: tty_write_def)
    have lb: "unat (of_nat (length buf) :: size_t) \<le> length buf" by (simp add: unat_of_nat take_bit_nat_less_eq_self)
    show False
    proof (cases "unat w \<le> length buf")
      case True
      then have "w' = of_nat (unat w + (length buf - unat w))" using w' by simp
      then show False using a(4) True by simp
    next
      case False
      then have "w' = w" using w' by simp
      then show False using a(4) lb False by (simp add: word_less_nat_alt)
    qed
  qed
  then have "length (tx_script l') < length (tx_script l)"
    using a(1,2) by (auto simp: tty_write_def split: list.splits wr_event.splits)
  then show "((l', buf, w'), l, buf, w) \<in> measure (\<lambda>(l, _, _). length (tx_script l))" by simp
qed simp

declare write_b_from.simps [simp del]

definition write_b :: "line \<Rightarrow> u8 list \<Rightarrow> line \<times> int" where
  "write_b l buf = write_b_from l buf 0"

text \<open>The result of \<open>write_b\<close> is not looked at.\<close>

definition jtag_drscan_write :: "line \<Rightarrow> u8 list \<Rightarrow> (line \<times> int) exec" where
  "jtag_drscan_write l req =
     cbind (cmdbuf_append (cmdbuf_new OOCD_CMD_MAXLEN) OOCD_CMDSTART) (\<lambda>b0.
     cbind (drscan_fields b0 req) (\<lambda>b1.
     cbind (cmdbuf_append b1 OOCD_CMDEND) (\<lambda>b2.
       if length (cmd_text b2) > OOCD_MAX_LINESIZE then Inr (l, - EOVERFLOW)
       else Inr (fst (write_b l (cmd_text b2)), 0))))"

section \<open>Hexadecimal numbers\<close>

text \<open>\<open>strtol\<close> of two characters; the result is cut to a byte.\<close>

definition hexstring_to_byte :: "u8 \<Rightarrow> u8 \<Rightarrow> u8" where
  "hexstring_to_byte a b =
     of_int (fst (strtol 16 (takeWhile (\<lambda>c. c \<noteq> char_of (0::nat)) [char_of (unat a), char_of (unat b)])))"

fun hex_pairs :: "u8 list \<Rightarrow> u8 list" where
  "hex_pairs (a # b # cs) = hexstring_to_byte a b # hex_pairs cs"
| "hex_pairs _ = []"

text \<open>The pairs are taken from the end of the \<open>in_size\<close> characters from position \<open>start\<close> of the
  buffer; the loop runs over an \<open>int\<close> and does nothing when the size is not positive.\<close>

definition hexstring_to_binarray_le :: "u8 list \<Rightarrow> nat \<Rightarrow> int \<Rightarrow> u8 list exec" where
  "hexstring_to_binarray_le buf start in_size =
     cbind (c_assert (even in_size)) (\<lambda>_.
       if 0 < in_size \<and> length buf < start + nat in_size then Inl Mem_Fault
       else Inr (rev (hex_pairs (take (nat in_size) (drop start buf)))))"

section \<open>Reading the response\<close>

definition grow_buf :: "size_t \<Rightarrow> size_t" where
  "grow_buf current_size =
     (if current_size < 32 * 1024 then current_size * 2 else current_size + 32 * 1024)"

text \<open>
  The local variables of \<open>jtag_drscan_read\<close>: the character buffer and how far it is filled, the
  bounds of the present field, the response array and how far it is filled.  The positions are
  \<open>unsigned int\<close>.  Memory for the buffer is always there, and its bytes are zero at first.
\<close>

record drscan =
  dbuf :: "u8 list"
  buf_pos :: u32
  field_start :: u32
  field_end :: u32
  resp :: "u8 list"
  resp_pos :: u32

text \<open>The end of a field: its characters are converted and put behind what is already there.  The
  number of characters is an \<open>int\<close>, halved towards zero.\<close>

definition take_field :: "drscan \<Rightarrow> u32 \<Rightarrow> drscan exec" where
  "take_field d p =
     (let field_size_chars = sint (p - field_start d);
          resp_pos' = resp_pos d + of_int (sgn field_size_chars * (\<bar>field_size_chars\<bar> div 2))
      in cbind (c_assert (unat resp_pos' \<le> length (resp d))) (\<lambda>_.
         cbind (hexstring_to_binarray_le (dbuf d) (unat (field_start d)) field_size_chars) (\<lambda>bs.
         cbind (memcpy (resp d) (unat (resp_pos d)) bs 0 (length bs)) (\<lambda>r.
           Inr (d\<lparr>field_end := p, resp := r, resp_pos := resp_pos', field_start := p + 1\<rparr>)))))"

text \<open>The characters \<open>i\<close> to \<open>n\<close> of what was just read; the result also says whether the response
  has ended.\<close>

function extract_fields :: "drscan \<Rightarrow> nat \<Rightarrow> nat \<Rightarrow> (drscan \<times> bool) exec" where
  "extract_fields d n i =
     (if \<not> i < n then Inr (d, False)
      else (let p = buf_pos d + of_nat i
            in if length (dbuf d) \<le> unat p then Inl Mem_Fault
               else (let c = dbuf d ! unat p
                     in cbind (if c = 0x20 \<or> c = 0x1a then take_field d p else Inr d) (\<lambda>d'.
                          if c = 0x1a then Inr (d', True) else extract_fields d' n (i + 1)))))"
  by pat_completeness auto
termination by (relation "measure (\<lambda>(_, n, i). n - i)") auto

declare extract_fields.simps [simp del]

text \<open>Completed fields leave the buffer: everything moves down to the start.\<close>

definition remove_fields :: "drscan \<Rightarrow> int \<Rightarrow> drscan exec" where
  "remove_fields d n =
     (let fe = unat (field_end d); rest = length (dbuf d) - fe
      in if length (dbuf d) < fe then Inl Mem_Fault
         else Inr (d\<lparr>dbuf := drop fe (dbuf d) @ drop rest (dbuf d),
                     buf_pos := of_int (int (unat (buf_pos d)) + n) - field_end d,
                     field_start := field_start d - field_end d\<rparr>))"

definition grow_dbuf :: "drscan \<Rightarrow> drscan" where
  "grow_dbuf d =
     (if length (dbuf d) \<le> unat (buf_pos d)
      then d\<lparr>dbuf := dbuf d @ replicate (unat (grow_buf (of_nat (length (dbuf d)))) - length (dbuf d)) 0\<rparr>
      else d)"

text \<open>One turn: read, put into the buffer, extract, remove.  The result of the socket call decides
  whether the loop goes on (\<open>None\<close>) or ends with a return code.\<close>

function drscan_loop :: "line \<Rightarrow> drscan \<Rightarrow> (line \<times> drscan \<times> int) exec" where
  "drscan_loop l d =
     (let d0 = grow_dbuf d; pos = unat (buf_pos d0)
      in if length (dbuf d0) < pos then Inl Mem_Fault
         else cbind (tty_read l (length (dbuf d0) - pos)) (\<lambda>(l', r).
           case r of
             Io_Fail \<Rightarrow> Inr (l', d0, - 1)
           | Io_Again \<Rightarrow> cbind (remove_fields d0 (- 1)) (\<lambda>d1. drscan_loop l' d1)
           | Io bs \<Rightarrow>
               (if bs = [] then Inr (l', d0, - 1)
                else cbind (memcpy (dbuf d0) pos bs 0 (length bs)) (\<lambda>b.
                     cbind (extract_fields (d0\<lparr>dbuf := b\<rparr>) (length bs) 0) (\<lambda>(d1, finished).
                       if finished then Inr (l', d1, 0)
                       else cbind (remove_fields d1 (int (length bs))) (\<lambda>d2. drscan_loop l' d2))))))"
  by pat_completeness auto
termination
  by (relation "measure (\<lambda>(l, _). rx_weight l)") (auto dest: tty_read_weight tty_read_again)

declare drscan_loop.simps [simp del]

text \<open>The array \<open>resp\<close> of the caller keeps what it held where nothing is received.\<close>

definition jtag_drscan_read :: "line \<Rightarrow> u8 list \<Rightarrow> (line \<times> u8 list \<times> int) exec" where
  "jtag_drscan_read l resp0 =
     cbind (drscan_loop l \<lparr>dbuf = replicate 2048 0, buf_pos = 0, field_start = 0, field_end = 0,
         resp = resp0, resp_pos = 0\<rparr>)
       (\<lambda>(l', d, rv). Inr (l', resp d, rv))"

text \<open>The mutex only keeps two scans apart.\<close>

definition jtag_drscan :: "line \<Rightarrow> u8 list \<Rightarrow> u8 list \<Rightarrow> (line \<times> u8 list \<times> int) exec" where
  "jtag_drscan l req resp0 =
     cbind (jtag_drscan_write l req) (\<lambda>(l1, rv).
       if rv \<noteq> 0 then Inr (l1, resp0, rv) else jtag_drscan_read l1 resp0)"

end
