(* ===== verification/Jtag_Protocol.thy ===== *)
theory Jtag_Protocol
  imports Jtag_Text
begin

text \<open>
  Facts on the text protocol of the JTAG backend: hexadecimal numbers survive the trip, a response is
  taken in character by character whatever it is cut into, and a command is read back field by field.
\<close>

section \<open>Hexadecimal digits\<close>

lemma unat_hex_digit:
  assumes "n < 16"
  shows "unat (hex_digit n) = (if n < 10 then 48 + n else 87 + n)"
proof -
  have "unat (of_nat (48 + n) :: u8) = 48 + n" "unat (of_nat (87 + n) :: u8) = 87 + n"
    using assms by (auto intro!: unat_of_nat_small simp del: of_nat_add)
  then show ?thesis by (simp only: hex_digit_def if_distrib [of unat])
qed

abbreviation hex_char :: "nat \<Rightarrow> char" where
  "hex_char n \<equiv> char_of (unat (hex_digit n))"

lemma of_hex_char: "n < 16 \<Longrightarrow> of_char (hex_char n) = (if n < 10 then 48 + n else 87 + n)"
  using unsigned_less [of "hex_digit n"] by (simp add: of_char_of unat_hex_digit)

lemma digit_of_hex:
  assumes "n < 16"
  shows "digit_of 16 (hex_char n) = Some n"
proof -
  have "of_char (hex_char n) = (if n < 10 then 48 + n else 87 + n)" by (rule of_hex_char [OF assms])
  then show ?thesis unfolding digit_of_def Let_def using assms by (cases "n < 10") simp_all
qed

text \<open>What a digit is not: a blank, a sign, the end of a string.\<close>

lemma hex_char_ge: "n < 16 \<Longrightarrow> (48::nat) \<le> of_char (hex_char n)"
  by (simp only: of_hex_char) simp

lemma hex_not_space: "n < 16 \<Longrightarrow> \<not> c_isspace (hex_char n)"
  using hex_char_ge [of n] unfolding c_isspace_def Let_def by linarith

lemma hex_char_neq:
  assumes "n < 16" and "of_char c < (48::nat)"
  shows "hex_char n \<noteq> c"
  using hex_char_ge [OF assms(1)] assms(2) by (metis not_le)

lemma hex_not_special:
  assumes "n < 16"
  shows "hex_char n \<noteq> CHR ''-''" "hex_char n \<noteq> CHR ''+''" "hex_char n \<noteq> char_of (0::nat)"
  by (rule hex_char_neq [OF assms]; simp add: of_char_of)+

lemma span_hex:
  "\<forall>n \<in> set ns. n < 16 \<Longrightarrow> span_digits 16 (map hex_char ns) = (ns, [])"
  by (induction ns) (simp_all add: digit_of_hex)

lemma skip_prefix_short: "length s < 3 \<Longrightarrow> skip_prefix b s = s"
  by (simp add: skip_prefix_def detect_base_def)

lemma hexstring_hex_byte:
  assumes "h < 16" and "l < 16"
  shows "hexstring_to_byte (hex_digit h) (hex_digit l) = of_nat (16 * h + l)"
proof -
  have d: "dropWhile c_isspace [hex_char h, hex_char l] = [hex_char h, hex_char l]"
    using hex_not_space [OF assms(1)] by simp
  have s: "skip_sign [hex_char h, hex_char l] = (False, [hex_char h, hex_char l])"
    using hex_not_special [OF assms(1)] by (simp add: skip_sign_def)
  have p: "skip_prefix 16 [hex_char h, hex_char l] = [hex_char h, hex_char l]"
    by (rule skip_prefix_short) simp
  have g: "span_digits 16 [hex_char h, hex_char l] = ([h, l], [])"
    using span_hex [of "[h, l]"] assms by simp
  have v: "digits_value 16 [h, l] = 16 * h + l" by (simp add: digits_value_def)
  have m: "max (- (2 ^ 63)) (min (2 ^ 63 - 1) (int (16 * h + l))) = int (16 * h + l)"
    using assms by simp
  have "strtol 16 [hex_char h, hex_char l] = (int (16 * h + l), [])"
    unfolding strtol_def d s Let_def prod.case p g v using m by simp
  moreover have "takeWhile (\<lambda>c. c \<noteq> char_of (0::nat)) [hex_char h, hex_char l] = [hex_char h, hex_char l]"
    using hex_not_special(3) [OF assms(1)] hex_not_special(3) [OF assms(2)]
    by (simp only: takeWhile.simps if_True not_False_eq_True simp_thms)
  ultimately show ?thesis by (simp only: hexstring_to_byte_def fst_conv of_int_of_nat_eq)
qed

lemma hex_pairs_hex: "hex_pairs (concat (map hex_byte bs)) = bs"
proof (induction bs)
  case (Cons b bs)
  have "unat b < 256" using unsigned_less [of b, where ?'a = nat] by simp
  then have "hexstring_to_byte (hex_digit (unat b div 16)) (hex_digit (unat b mod 16)) =
      of_nat (16 * (unat b div 16) + unat b mod 16)"
    by (intro hexstring_hex_byte) auto
  then show ?case using Cons by (simp add: hex_byte_def)
qed simp

lemma hex_byte_length [simp]: "length (hex_byte b) = 2"
  by (simp add: hex_byte_def)

lemma hex_bytes_length [simp]: "length (concat (map hex_byte bs)) = 2 * length bs"
  by (induction bs) simp_all

text \<open>No hexadecimal digit ends a field.\<close>

lemma hex_no_delimiter:
  assumes "c \<in> set (concat (map hex_byte bs))"
  shows "c \<noteq> 0x20" "c \<noteq> 0x1a"
proof -
  obtain n where n: "n < 16" "c = hex_digit n"
  proof -
    obtain b where "b \<in> set bs" "c \<in> set (hex_byte b)" using assms by auto
    then have "c = hex_digit (unat b div 16) \<or> c = hex_digit (unat b mod 16)" by (simp add: hex_byte_def)
    moreover have "unat b div 16 < 16" using unsigned_less [of b, where ?'a = nat] by simp
    moreover have "unat b mod 16 < 16" by simp
    ultimately show thesis using that by blast
  qed
  then have "48 \<le> unat c" by (simp add: unat_hex_digit)
  then show "c \<noteq> 0x20" "c \<noteq> 0x1a" by auto
qed

section \<open>Responses\<close>

text \<open>
  What a response means, taken in one character at a time: \<open>P\<close> are the characters of the present
  field, \<open>out\<close> the bytes of the fields before it, \<open>m\<close> the number of bytes there is room for.  The
  truth value says whether the response has ended.
\<close>

abbreviation delimiter :: "u8 \<Rightarrow> bool" where
  "delimiter c \<equiv> c = 0x20 \<or> c = 0x1a"

fun absorb :: "nat \<Rightarrow> u8 list \<Rightarrow> u8 list \<Rightarrow> u8 list \<Rightarrow> (u8 list \<times> u8 list \<times> bool) option" where
  "absorb m P out [] = Some (P, out, False)"
| "absorb m P out (c # cs) =
     (if delimiter c
      then (if odd (length P) \<or> m < length out + length P div 2 then None
            else if c = 0x1a then Some ([], out @ rev (hex_pairs P), True)
            else absorb m [] (out @ rev (hex_pairs P)) cs)
      else absorb m (P @ [c]) out cs)"

lemma hex_pairs_length [simp]: "length (hex_pairs P) = length P div 2"
  by (induction P rule: hex_pairs.induct) simp_all

lemma absorb_append:
  "absorb m P out (a @ b) = (case absorb m P out a of None \<Rightarrow> None
     | Some (P', out', fin) \<Rightarrow> if fin then Some (P', out', True) else absorb m P' out' b)"
  by (induction a arbitrary: P out) simp_all

lemma absorb_end: "absorb m P out cs = Some (P', out', True) \<Longrightarrow> 0x1a \<in> set cs"
  by (induction cs arbitrary: P out) (auto split: if_splits)

text \<open>The variables of the loop when the character at position \<open>e\<close> of the buffer is the next one.\<close>

definition reading :: "u8 list \<Rightarrow> drscan \<Rightarrow> u8 list \<Rightarrow> u8 list \<Rightarrow> nat \<Rightarrow> bool" where
  "reading r0 d P out e \<longleftrightarrow> unat (field_start d) + length P = e \<and>
     take (length P) (drop (unat (field_start d)) (dbuf d)) = P \<and> e \<le> length (dbuf d) \<and>
     resp_pos d = of_nat (length out) \<and> resp d = out @ drop (length out) r0 \<and>
     length out \<le> length r0 \<and> length r0 < 2 ^ 30 \<and> length (dbuf d) < 2 ^ 30"

lemma unat_small32: "n < 2 ^ 30 \<Longrightarrow> unat (of_nat n :: u32) = n"
  by (rule unat_of_nat_small) simp

lemma take_field_ok:
  assumes "reading r0 d P out (unat p)" and "even (length P)"
    and "length out + length P div 2 \<le> length r0" and "unat p < length (dbuf d)"
    and "out' = out @ rev (hex_pairs P)"
  shows "\<exists>d'. take_field d p = Inr d' \<and> reading r0 d' [] out' (unat p + 1) \<and> field_end d' = p \<and>
    field_start d' = p + 1 \<and> dbuf d' = dbuf d \<and> buf_pos d' = buf_pos d"
proof -
  have r: "unat (field_start d) + length P = unat p"
    "take (length P) (drop (unat (field_start d)) (dbuf d)) = P"
    "resp_pos d = of_nat (length out)" "resp d = out @ drop (length out) r0"
    "length out \<le> length r0" "length r0 < 2 ^ 30" "length (dbuf d) < 2 ^ 30"
    using assms(1) by (simp_all add: reading_def)
  have n: "unat (p - field_start d) = length P"
    using r(1) by (subst unat_minus_le) (simp_all add: word_le_nat_alt)
  then have s: "sint (p - field_start d) = int (length P)"
    using assms(4) r(1,7) by (subst sint_small) simp_all
  have half: "sgn (int (length P)) * (\<bar>int (length P)\<bar> div 2) = int (length P div 2)"
    by (cases "P = []") (simp_all add: zdiv_int)
  have rp: "resp_pos d + of_int (int (length P div 2)) = of_nat (length out')"
    using assms(5) r(3) by simp
  have u: "unat (of_nat (length out') :: u32) = length out'" "unat (of_nat (length out) :: u32) = length out"
    using assms(3,5) r(5,6) by (auto intro!: unat_small32 simp del: of_nat_add)
  have m: "memcpy (resp d) (length out) (rev (hex_pairs P)) 0 (length P div 2) =
      Inr (out' @ drop (length out') r0)"
    using assms(3,5) r(4,5) by (simp add: memcpy_ok add.commute)
  have h: "hexstring_to_binarray_le (dbuf d) (unat (field_start d)) (int (length P)) = Inr (rev (hex_pairs P))"
    using assms(2) r(1,2) assms(4) by (simp add: hexstring_to_binarray_le_def)
  have p1: "unat (p + 1) = unat p + 1"
    using assms(4) r(7) by (subst unat_add_small) simp_all
  have lr: "length out' \<le> length r0" using assms(3,5) by simp
  have "take_field d p = Inr (d\<lparr>field_end := p, resp := out' @ drop (length out') r0,
      resp_pos := of_nat (length out'), field_start := p + 1\<rparr>)"
    unfolding take_field_def s half rp Let_def u
    using h m lr r(3,4,5) u by simp
  then show ?thesis
    using lr r(6,7) p1 assms(4) by (simp add: reading_def)
qed

text \<open>One chunk of characters.\<close>

lemma reading_char:
  assumes "reading r0 d P out e" and "e < length (dbuf d)"
  shows "reading r0 d (P @ [dbuf d ! e]) out (e + 1)"
proof -
  have "take (length P + 1) (drop (unat (field_start d)) (dbuf d)) = P @ [dbuf d ! e]"
  proof -
    have "take (Suc (length P)) (drop (unat (field_start d)) (dbuf d)) =
        take (length P) (drop (unat (field_start d)) (dbuf d)) @ [drop (unat (field_start d)) (dbuf d) ! length P]"
      using assms by (intro take_Suc_conv_app_nth) (auto simp: reading_def)
    then show ?thesis using assms by (simp add: reading_def)
  qed
  then show ?thesis using assms by (auto simp: reading_def)
qed

lemma extract_ok:
  assumes "take n (drop (unat (buf_pos d)) (dbuf d)) = W" and "length W = n" and "i \<le> n"
    and "cs = drop i W" and "reading r0 d P out (unat (buf_pos d) + i)"
    and "absorb (length r0) P out cs = Some (P', out', fin)"
  shows "\<exists>d'. extract_fields d n i = Inr (d', fin) \<and> resp d' = out' @ drop (length out') r0 \<and>
    (\<not> fin \<longrightarrow> reading r0 d' P' out' (unat (buf_pos d) + n) \<and> dbuf d' = dbuf d \<and> buf_pos d' = buf_pos d \<and>
      (if \<exists>c \<in> set cs. delimiter c
       then unat (field_start d') = unat (field_end d') + 1 \<and> unat (buf_pos d) \<le> unat (field_end d')
       else field_end d' = field_end d \<and> field_start d' = field_start d))"
  using assms
proof (induction cs arbitrary: i d P out)
  case Nil
  then have "i = n" by simp
  then show ?case using Nil.prems
    by (subst extract_fields.simps) (auto simp: reading_def)
next
  case (Cons c cs)
  have "i < n" using Cons.prems(2-4) by (metis drop_all list.distinct(1) not_le)
  then have "c # cs = W ! i # drop (Suc i) W"
    using Cons.prems(2,4) by (simp add: Cons_nth_drop_Suc)
  then have i: "i < n" "c = W ! i" "cs = drop (i + 1) W" using \<open>i < n\<close> by simp_all
  let ?e = "unat (buf_pos d) + i"
  have l: "unat (buf_pos d) + n \<le> length (dbuf d)" "length (dbuf d) < 2 ^ 30"
    using Cons.prems(1,2,5) by (auto simp: reading_def)
  have c: "dbuf d ! ?e = c" using Cons.prems(1) i(1,2) l(1) by auto
  have e: "unat (buf_pos d + of_nat i) = ?e"
    using l i(1) by (subst unat_add_small) (simp_all add: unat_small32)
  have el: "?e < length (dbuf d)" using l(1) i(1) by simp
  show ?case
  proof (cases "delimiter c")
    case False
    have r: "reading r0 d (P @ [c]) out (unat (buf_pos d) + (i + 1))"
      using reading_char [OF Cons.prems(5) el] c by (simp add: add.assoc)
    have a: "absorb (length r0) (P @ [c]) out cs = Some (P', out', fin)" using Cons.prems(6) False by simp
    have "extract_fields d n i = extract_fields d n (i + 1)"
      using False i(1) c e el by (subst extract_fields.simps) simp
    moreover have "(\<exists>c' \<in> set (c # cs). delimiter c') = (\<exists>c' \<in> set cs. delimiter c')" using False by auto
    ultimately show ?thesis
      using Cons.IH [OF Cons.prems(1,2) _ i(3) r a] i(1) by (simp only: Suc_leI add.commute [of i 1] Suc_eq_plus1_left)
  next
    case True
    have ok: "even (length P)" "length out + length P div 2 \<le> length r0"
      and a: "if c = 0x1a then P' = [] \<and> out' = out @ rev (hex_pairs P) \<and> fin
              else absorb (length r0) [] (out @ rev (hex_pairs P)) cs = Some (P', out', fin)"
      using Cons.prems(6) True by (auto split: if_splits)
    obtain d1 where t: "take_field d (buf_pos d + of_nat i) = Inr d1"
      "reading r0 d1 [] (out @ rev (hex_pairs P)) (?e + 1)" "field_end d1 = buf_pos d + of_nat i"
      "field_start d1 = buf_pos d + of_nat i + 1" "dbuf d1 = dbuf d" "buf_pos d1 = buf_pos d"
      using take_field_ok [OF _ ok, of d "buf_pos d + of_nat i" "out @ rev (hex_pairs P)"]
        Cons.prems(5) e el by auto
    show ?thesis
    proof (cases "c = 0x1a")
      case end_: True
      have "extract_fields d n i = Inr (d1, True)"
        using end_ i(1) c e el t(1) by (subst extract_fields.simps) simp
      then show ?thesis using a end_ t(2) by (simp add: reading_def)
    next
      case False
      have step: "extract_fields d n i = extract_fields d1 n (i + 1)"
        using False True i(1) c e el t(1) by (subst extract_fields.simps) simp
      have r: "reading r0 d1 [] (out @ rev (hex_pairs P)) (unat (buf_pos d1) + (i + 1))"
        using t(2,6) by (simp add: add.assoc)
      obtain d' where d': "extract_fields d1 n (i + 1) = Inr (d', fin)"
        "resp d' = out' @ drop (length out') r0"
        "\<not> fin \<longrightarrow> reading r0 d' P' out' (unat (buf_pos d1) + n) \<and> dbuf d' = dbuf d1 \<and>
          buf_pos d' = buf_pos d1 \<and> (if \<exists>c \<in> set cs. delimiter c
            then unat (field_start d') = unat (field_end d') + 1 \<and> unat (buf_pos d1) \<le> unat (field_end d')
            else field_end d' = field_end d1 \<and> field_start d' = field_start d1)"
        using Cons.IH [of d1 "i + 1" "[]" "out @ rev (hex_pairs P)"] Cons.prems(1,2) i t(5,6) r a False
        by auto
      have f1: "unat (field_start d1) = unat (field_end d1) + 1" "unat (buf_pos d) \<le> unat (field_end d1)"
        using t(3,4) e l i(1) by (simp_all add: unat_add_small)
      show ?thesis using step d' t(5,6) True f1 by (auto split: if_splits)
    qed
  qed
qed

text \<open>Removing the completed fields leaves the blank behind the last one and the present field.\<close>

lemma remove_ok:
  assumes "reading r0 d P out (unat (buf_pos d) + n)"
    and "unat (field_start d) = unat (field_end d) + 1"
  shows "\<exists>d'. remove_fields d (int n) = Inr d' \<and> reading r0 d' P out (unat (buf_pos d')) \<and>
    length (dbuf d') = length (dbuf d) \<and> unat (buf_pos d') = length P + 1 \<and> field_start d' = 1 \<and>
    field_end d' = field_end d"
proof -
  define fe where "fe = unat (field_end d)"
  have r: "fe + 1 + length P = unat (buf_pos d) + n" "take (length P) (drop (fe + 1) (dbuf d)) = P"
    "unat (buf_pos d) + n \<le> length (dbuf d)" "length (dbuf d) < 2 ^ 30"
    using assms by (simp_all add: reading_def fe_def)
  have fs: "field_start d = field_end d + 1"
    using assms(2) r by (simp add: word_unat_eq_iff unat_add_small fe_def)
  have "of_int (int (unat (buf_pos d)) + int n) - field_end d = (of_nat (fe + 1 + length P) :: u32) - of_nat fe"
    unfolding of_nat_add [symmetric] r(1) [symmetric] by (simp add: fe_def)
  then have bp: "of_int (int (unat (buf_pos d)) + int n) - field_end d = (of_nat (length P + 1) :: u32)"
    by simp
  have "unat (of_nat (length P + 1) :: u32) = length P + 1" using r by (intro unat_small32) simp
  then show ?thesis
    using assms(1) r unfolding remove_fields_def Let_def fe_def [symmetric] bp fs
    by (simp add: reading_def)
qed

lemma tty_read_all:
  "rx l = Rx c # r \<Longrightarrow> length c \<le> n \<Longrightarrow> tty_read l n = Inr (l\<lparr>rx := r\<rparr>, Io c)"
  by (simp add: tty_read_def)

text \<open>One turn of the loop.\<close>

lemma drscan_turn:
  assumes "rx l = Rx c # r" and "c \<noteq> []" and "unat (buf_pos d) + length c \<le> length (dbuf d)"
    and "reading r0 d P out (unat (buf_pos d))" and "absorb (length r0) P out c = Some (P', out', fin)"
  obtains d' where "drscan_loop l d = (if fin then Inr (l\<lparr>rx := r\<rparr>, d', 0)
      else cbind (remove_fields d' (int (length c))) (\<lambda>d2. drscan_loop (l\<lparr>rx := r\<rparr>) d2))"
    "fin \<longrightarrow> resp d' = out' @ drop (length out') r0"
    "\<not> fin \<longrightarrow> reading r0 d' P' out' (unat (buf_pos d') + length c) \<and>
      length (dbuf d') = length (dbuf d) \<and> buf_pos d' = buf_pos d \<and>
      (if \<exists>c \<in> set c. delimiter c
       then unat (field_start d') = unat (field_end d') + 1 \<and> unat (buf_pos d) \<le> unat (field_end d')
       else field_end d' = field_end d \<and> field_start d' = field_start d)"
proof -
  let ?pos = "unat (buf_pos d)"
  define b where "b = take ?pos (dbuf d) @ c @ drop (?pos + length c) (dbuf d)"
  have m: "memcpy (dbuf d) ?pos c 0 (length c) = Inr b"
    using assms(3) by (simp add: memcpy_ok b_def)
  have len: "length b = length (dbuf d)" and W: "take (length c) (drop ?pos b) = c"
    using assms(3) by (simp_all add: b_def)
  have g: "grow_dbuf d = d" using assms(2,3) by (simp add: grow_dbuf_def not_le)
    (metis le_add1 le_antisym length_0_conv le_trans add_diff_cancel_left' diff_is_0_eq)
  define e where "e = d\<lparr>dbuf := b\<rparr>"
  have e: "dbuf e = b" "buf_pos e = buf_pos d" "field_end e = field_end d" "field_start e = field_start d"
    "resp e = resp d" "resp_pos e = resp_pos d"
    by (simp_all add: e_def)
  have R: "reading r0 e P out (unat (buf_pos e) + 0)"
    using assms(3,4) by (auto simp: reading_def b_def drop_take e)
  have W': "take (length c) (drop (unat (buf_pos e)) (dbuf e)) = c" using W by (simp add: e)
  obtain d' where d': "extract_fields e (length c) 0 = Inr (d', fin)"
    "resp d' = out' @ drop (length out') r0"
    "\<not> fin \<longrightarrow> reading r0 d' P' out' (?pos + length c) \<and> dbuf d' = b \<and> buf_pos d' = buf_pos d \<and>
      (if \<exists>c \<in> set c. delimiter c
       then unat (field_start d') = unat (field_end d') + 1 \<and> ?pos \<le> unat (field_end d')
       else field_end d' = field_end d \<and> field_start d' = field_start d)"
    using extract_ok [OF W' refl le0 drop_0 [symmetric] R assms(5), unfolded e] by blast
  have t: "tty_read l (length (dbuf d) - ?pos) = Inr (l\<lparr>rx := r\<rparr>, Io c)"
    using assms(1,3) by (intro tty_read_all) simp_all
  have "drscan_loop l d = (if fin then Inr (l\<lparr>rx := r\<rparr>, d', 0)
      else cbind (remove_fields d' (int (length c))) (\<lambda>d2. drscan_loop (l\<lparr>rx := r\<rparr>) d2))"
    using assms(2,3) d'(1) t m by (subst drscan_loop.simps) (simp add: g Let_def e_def)
  then show thesis using d'(2,3) len by (intro that [of d']) simp_all
qed

lemma not_in_butlast: "x \<notin> set (butlast (a @ b)) \<Longrightarrow> x \<notin> set (butlast b)"
  by (auto simp: butlast_append split: if_splits)

text \<open>
  What the reads may return.  \<open>open_len k c\<close> is the number of characters of the field that is open after
  \<open>c\<close> when \<open>k\<close> were open before it.  With a buffer of \<open>m\<close> bytes of which \<open>b\<close> are held, and \<open>h\<close> characters of
  the open field, \<open>fits m b h chunks\<close> says that no read returns more than \<open>read\<close> is asked for (the room in
  the buffer, grown when it is full) and that each returns the end of a field.
\<close>

fun open_len :: "nat \<Rightarrow> u8 list \<Rightarrow> nat" where
  "open_len k [] = k"
| "open_len k (c # cs) = open_len (if delimiter c then 0 else k + 1) cs"

fun fits :: "nat \<Rightarrow> nat \<Rightarrow> nat \<Rightarrow> u8 list list \<Rightarrow> bool" where
  "fits m b h [] \<longleftrightarrow> True"
| "fits m b h (c # cs) \<longleftrightarrow>
     (let m' = (if m \<le> b then unat (grow_buf (of_nat m)) else m); h' = open_len h c
      in m' < 2 ^ 30 \<and> b + length c \<le> m' \<and> (\<exists>x \<in> set c. delimiter x) \<and> fits m' (h' + 1) h' cs)"

lemma absorb_open_len: "absorb m P out c = Some (P', out', False) \<Longrightarrow> length P' = open_len (length P) c"
  by (induction c arbitrary: P out) (auto split: if_splits)

lemma open_len_le: "open_len k c \<le> k + length c"
proof (induction c arbitrary: k)
  case (Cons x c)
  show ?case using Cons [of 0] Cons [of "k + 1"] by auto
qed simp

lemma open_len_less: "\<exists>x \<in> set c. delimiter x \<Longrightarrow> open_len k c < length c"
proof (induction c arbitrary: k)
  case (Cons x c)
  show ?case
  proof (cases "\<exists>x \<in> set c. delimiter x")
    case True
    then show ?thesis using Cons.IH less_Suc_eq by simp
  next
    case False
    then show ?thesis using Cons.prems open_len_le [of 0 c] by auto
  qed
qed simp

text \<open>Reads of up to 1024 bytes always fit.\<close>

lemma fits_small:
  "\<forall>c \<in> set cs. length c \<le> 1024 \<and> (\<exists>x \<in> set c. delimiter x) \<Longrightarrow> b \<le> 1024 \<Longrightarrow> fits 2048 b h cs"
proof (induction cs arbitrary: b h)
  case (Cons c cs)
  have "open_len h c + 1 \<le> 1024" using Cons.prems(1) open_len_less [of c h] by auto
  then show ?case using Cons by (simp add: Let_def)
qed simp

lemma fits_nonempty: "fits m b h cs \<Longrightarrow> c \<in> set cs \<Longrightarrow> c \<noteq> []"
  by (induction cs arbitrary: m b h) (auto simp: Let_def)

lemma drscan_loop_grow: "unat (buf_pos d) < length (dbuf (grow_dbuf d)) \<Longrightarrow> drscan_loop l d = drscan_loop l (grow_dbuf d)"
  using drscan_loop.simps [of l d] drscan_loop.simps [of l "grow_dbuf d"]
  by (simp add: grow_dbuf_def split: if_splits)

text \<open>A response whose reads each return the end of a field is received as it is meant.\<close>

lemma drscan_loop_ok:
  assumes "rx l = map Rx chunks @ rest" and "fits (length (dbuf d)) (unat (buf_pos d)) (length P) chunks"
    and "0x1a \<notin> set (butlast (concat chunks))"
    and "reading r0 d P out (unat (buf_pos d))"
    and "absorb (length r0) P out (concat chunks) = Some (P', out', True)"
  shows "\<exists>d'. drscan_loop l d = Inr (l\<lparr>rx := rest\<rparr>, d', 0) \<and> resp d' = out' @ drop (length out') r0"
  using assms
proof (induction chunks arbitrary: l d P out)
  case Nil
  then show ?case by simp
next
  case (Cons c cs)
  define e where "e = grow_dbuf d"
  have m: "length (dbuf d) < 2 ^ 30" "unat (buf_pos d) \<le> length (dbuf d)"
    using Cons.prems(4) by (simp_all add: reading_def)
  have le: "length (dbuf e) = (if length (dbuf d) \<le> unat (buf_pos d)
      then unat (grow_buf (of_nat (length (dbuf d)))) else length (dbuf d))"
  proof (cases "length (dbuf d) \<le> unat (buf_pos d)")
    case True
    have "unat (of_nat (length (dbuf d)) :: size_t) = length (dbuf d)" using m(1) by (intro unat_of_nat_small) simp
    then have "length (dbuf d) \<le> unat (grow_buf (of_nat (length (dbuf d))))"
      using m(1) by (simp add: grow_buf_def word_less_nat_alt unat_word_ariths)
    then show ?thesis using True by (simp add: e_def grow_dbuf_def)
  qed (simp add: e_def grow_dbuf_def)
  have F: "length (dbuf e) < 2 ^ 30" "unat (buf_pos d) + length c \<le> length (dbuf e)" "\<exists>x \<in> set c. delimiter x"
    "fits (length (dbuf e)) (open_len (length P) c + 1) (open_len (length P) c) cs"
    using Cons.prems(2) unfolding fits.simps Let_def le [symmetric] by blast+
  have c: "c \<noteq> []" using F(3) by auto
  have eq: "buf_pos e = buf_pos d" by (simp add: e_def grow_dbuf_def)
  have R0: "reading r0 e P out (unat (buf_pos e))"
    using Cons.prems(4) F(1) unfolding eq by (auto simp: e_def grow_dbuf_def reading_def)
  have loop: "drscan_loop l d = drscan_loop l e"
    unfolding e_def using F(2) c by (intro drscan_loop_grow) (simp add: e_def neq_Nil_conv, auto)
  obtain P1 out1 fin where a: "absorb (length r0) P out c = Some (P1, out1, fin)"
    "fin \<longrightarrow> P1 = P1 \<and> out1 = out'" "\<not> fin \<longrightarrow> absorb (length r0) P1 out1 (concat cs) = Some (P', out', True)"
    using Cons.prems(5) by (auto simp: absorb_append split: option.splits if_splits)
  obtain d1 where d1: "drscan_loop l e = (if fin then Inr (l\<lparr>rx := map Rx cs @ rest\<rparr>, d1, 0)
      else cbind (remove_fields d1 (int (length c))) (\<lambda>d2. drscan_loop (l\<lparr>rx := map Rx cs @ rest\<rparr>) d2))"
    "fin \<longrightarrow> resp d1 = out1 @ drop (length out1) r0"
    "\<not> fin \<longrightarrow> reading r0 d1 P1 out1 (unat (buf_pos d1) + length c) \<and>
      length (dbuf d1) = length (dbuf e) \<and> unat (field_start d1) = unat (field_end d1) + 1"
    using drscan_turn [OF _ c _ R0 a(1), of l "map Rx cs @ rest"] Cons.prems(1) F(2,3) eq by auto
  show ?case
  proof (cases fin)
    case True
    have "cs = []"
    proof (rule ccontr)
      assume "cs \<noteq> []"
      then have "concat cs \<noteq> []" using fits_nonempty [OF F(4)] by (cases cs) auto
      moreover have "0x1a \<in> set c" using a(1) True by (auto intro: absorb_end)
      ultimately show False using Cons.prems(3) by (auto simp: butlast_append split: if_splits)
    qed
    then show ?thesis using True d1(1,2) a(2) loop by simp
  next
    case False
    have R: "reading r0 d1 P1 out1 (unat (buf_pos d1) + length c)" "unat (field_start d1) = unat (field_end d1) + 1"
      using d1(3) False by auto
    obtain d2 where d2: "remove_fields d1 (int (length c)) = Inr d2" "reading r0 d2 P1 out1 (unat (buf_pos d2))"
      "length (dbuf d2) = length (dbuf d1)" "unat (buf_pos d2) = length P1 + 1"
      using remove_ok [OF R] by auto
    have "length P1 = open_len (length P) c" using a(1) False absorb_open_len by simp
    moreover have "0x1a \<notin> set (butlast (concat cs))"
      using Cons.prems(3) not_in_butlast [of _ c "concat cs"] by simp
    ultimately have "\<exists>d'. drscan_loop (l\<lparr>rx := map Rx cs @ rest\<rparr>) d2 =
        Inr (l\<lparr>rx := map Rx cs @ rest, rx := rest\<rparr>, d', 0) \<and> resp d' = out' @ drop (length out') r0"
      using F(4) d1(3) d2 a(3) False by (intro Cons.IH) auto
    then show ?thesis using d1(1) d2(1) False loop by simp
  qed
qed

section \<open>Responses cut inside a field\<close>

text \<open>
  When a chunk holds no end of a field, the position of the last one is still in \<open>field_end\<close> and
  the buffer moves down by it once more.
\<close>

lemma absorb_field: "\<forall>c \<in> set u. \<not> delimiter c \<Longrightarrow> absorb m P out u = Some (P @ u, out, False)"
  by (induction u arbitrary: P) auto

lemma extract_skip:
  assumes "\<forall>k \<in> {i..<j}. unat (buf_pos d + of_nat k) < length (dbuf d) \<and>
      \<not> delimiter (dbuf d ! unat (buf_pos d + of_nat k))"
    and "i \<le> j" and "j \<le> n"
  shows "extract_fields d n i = extract_fields d n j"
  using assms
proof (induction "j - i" arbitrary: i)
  case 0
  then show ?case by simp
next
  case (Suc m)
  then have i: "i < j" by simp
  have "extract_fields d n i = extract_fields d n (i + 1)"
    using Suc.prems i by (subst extract_fields.simps) (simp add: Let_def not_le [symmetric])
  also have "\<dots> = extract_fields d n j" using Suc i by (intro Suc.hyps(1)) auto
  finally show ?case .
qed

text \<open>The end of a field whose start has been moved below the start of the buffer.\<close>

lemma take_field_fault:
  assumes "unat (field_start d) = 2 ^ 32 + 1 - fe" and "2 \<le> fe" and "fe < 2 ^ 20"
    and "unat p + fe = n + 1" and "0 < n" and "n < 2 ^ 20" and "even n"
    and "resp_pos d = of_nat k" and "k + n div 2 \<le> length (resp d)" and "length (resp d) < 2 ^ 30"
    and "length (dbuf d) < 2 ^ 30"
  shows "take_field d p = Inl Mem_Fault"
proof -
  have "(of_nat (n + 2 ^ 32 + 1 - fe) :: u32) = of_nat n + of_nat (2 ^ 32 + 1 - fe)"
  proof -
    have "n + 2 ^ 32 + 1 - fe = n + (2 ^ 32 + 1 - fe)" using assms(3) by simp
    then show ?thesis by (simp only: of_nat_add)
  qed
  moreover have "(of_nat (2 ^ 32 + 1 - fe) :: u32) = field_start d" "(of_nat (unat p) :: u32) = p"
  proof -
    have "(of_nat (2 ^ 32 + 1 - fe) :: u32) = of_nat (unat (field_start d))" by (simp only: assms(1))
    then show "(of_nat (2 ^ 32 + 1 - fe) :: u32) = field_start d" by simp
  qed simp
  moreover have "(of_nat (n + 2 ^ 32 + 1 - fe) :: u32) = of_nat (unat p)"
  proof -
    have "n + 2 ^ 32 + 1 - fe = unat p + 2 ^ 32" using assms(3,4) by simp
    then show ?thesis by simp
  qed
  ultimately have "p - field_start d = of_nat n" by (simp add: algebra_simps)
  moreover have "unat (of_nat n :: u32) = n" using assms(6) by (intro unat_small32) simp
  ultimately have s: "sint (p - field_start d) = int n"
    using assms(6) by (subst sint_small) simp_all
  have half: "sgn (int n) * (\<bar>int n\<bar> div 2) = int (n div 2)" using assms(5) by (simp add: zdiv_int)
  have rp: "resp_pos d + of_int (int (n div 2)) = (of_nat (k + n div 2) :: u32)" using assms(8) by simp
  have u: "unat (of_nat (k + n div 2) :: u32) = k + n div 2" using assms(9,10) by (intro unat_small32) simp
  show ?thesis unfolding take_field_def s half rp Let_def u
    using assms(1,3,5,7,9,11) by (simp add: hexstring_to_binarray_le_def)
qed

lemma drscan_loop_stale:
  assumes "rx l = Rx c1 # Rx c2 # Rx (u @ x # v) # r"
    and "length c1 + length c2 + length (u @ x # v) \<le> 1024"
    and "absorb (length r0) [] [] c1 = Some (P1, out1, False)" and "length P1 + 2 < length c1"
    and "c2 \<noteq> []" and "\<forall>c \<in> set c2. \<not> delimiter c" and "\<forall>c \<in> set u. \<not> delimiter c" and "delimiter x"
    and "absorb (length r0) (P1 @ c2) out1 (u @ x # v) \<noteq> None"
    and "\<exists>c \<in> set c1. delimiter c" and "length r0 < 2 ^ 30"
    and d: "d = \<lparr>dbuf = replicate 2048 0, buf_pos = 0, field_start = 0, field_end = 0, resp = r0, resp_pos = 0\<rparr>"
  shows "drscan_loop l d = Inl Mem_Fault"
proof -
  define c3 where "c3 = u @ x # v"
  define l1 l2 where "l1 = l\<lparr>rx := Rx c2 # Rx c3 # r\<rparr>" and "l2 = l\<lparr>rx := Rx c3 # r\<rparr>"
  have ll: "l1\<lparr>rx := Rx c3 # r\<rparr> = l2" "rx l1 = Rx c2 # Rx c3 # r" "rx l2 = Rx c3 # r"
    by (simp_all add: l1_def l2_def)
  have R0: "reading r0 d [] [] (unat (buf_pos d))" using assms(11) by (simp add: reading_def d)
  have c1: "c1 \<noteq> []" using assms(10) by auto
  obtain d1 where d1: "drscan_loop l d = cbind (remove_fields d1 (int (length c1))) (\<lambda>d2. drscan_loop l1 d2)"
    "reading r0 d1 P1 out1 (unat (buf_pos d1) + length c1)" "length (dbuf d1) = 2048" "buf_pos d1 = 0"
    "unat (field_start d1) = unat (field_end d1) + 1"
  proof -
    have z: "length (dbuf d) = 2048" "buf_pos d = 0" by (simp_all add: d)
    have "unat (buf_pos d) + length c1 \<le> length (dbuf d)" using assms(2) by (simp add: z)
    from drscan_turn [OF assms(1) c1 this R0 assms(3)] show thesis
      using that assms(10) unfolding l1_def c3_def z by (simp only: simp_thms if_True if_False) metis
  qed
  obtain d2 where d2: "remove_fields d1 (int (length c1)) = Inr d2" "reading r0 d2 P1 out1 (unat (buf_pos d2))"
    "length (dbuf d2) = 2048" "unat (buf_pos d2) = length P1 + 1" "field_start d2 = 1"
    "field_end d2 = field_end d1"
    using remove_ok [OF d1(2,5)] d1(3) by auto
  define fe where "fe = unat (field_end d1)"
  have fe: "fe + 1 + length P1 = length c1" "2 \<le> fe" "fe < 1024"
    using d1(2,4,5) assms(2,4) by (simp_all add: reading_def fe_def)
  have a2: "absorb (length r0) P1 out1 c2 = Some (P1 @ c2, out1, False)"
    using assms(6) by (rule absorb_field)
  obtain d3 where d3: "drscan_loop l1 d2 = cbind (remove_fields d3 (int (length c2))) (\<lambda>d4. drscan_loop l2 d4)"
    "reading r0 d3 (P1 @ c2) out1 (unat (buf_pos d3) + length c2)" "length (dbuf d3) = 2048"
    "buf_pos d3 = buf_pos d2" "field_end d3 = field_end d1" "field_start d3 = 1"
  proof -
    have nd: "\<not> (\<exists>c \<in> set c2. delimiter c)" using assms(6) by blast
    have "unat (buf_pos d2) + length c2 \<le> length (dbuf d2)"
      using d2(3,4) assms(2) fe(1) by simp
    from drscan_turn [OF ll(2) assms(5) this d2(2) a2] show thesis
      using that d2(3,5,6) nd ll(1) by (simp split: if_splits) metis
  qed
  let ?bp = "length P1 + 1 + length c2"
  define d4 where "d4 = d3\<lparr>dbuf := drop fe (dbuf d3) @ drop (2048 - fe) (dbuf d3),
      buf_pos := of_nat ?bp - of_nat fe, field_start := 1 - of_nat fe\<rparr>"
  have fw: "field_end d3 = of_nat fe" using d3(5) by (simp add: fe_def)
  have "of_int (int (unat (buf_pos d3)) + int (length c2)) - field_end d3 = (of_nat ?bp - of_nat fe :: u32)"
    using d2(4) d3(4) fw by simp
  then have "remove_fields d3 (int (length c2)) = Inr d4"
    using d3(3,5,6) fe(3) fw by (simp add: remove_fields_def d4_def Let_def fe_def [symmetric])
  then have loop: "drscan_loop l d = drscan_loop l2 d4" using d1(1) d2(1) d3(1) by simp
  have len4: "length (dbuf d4) = 2048" using d3(3) fe(3) by (simp add: d4_def)
  show ?thesis
  proof (cases "fe \<le> ?bp")
    case False
    have "unat (of_nat ?bp - of_nat fe :: u32) = 2 ^ 32 + ?bp - fe"
      using False fe(3) assms(2) by (simp add: unat_sub_if' unat_small32 del: of_nat_add of_nat_Suc)
    then have "2 ^ 31 < unat (buf_pos d4)" using fe(3) by (simp add: d4_def)
    then have "drscan_loop l2 d4 = Inl Mem_Fault"
      by (subst drscan_loop.simps) (simp add: grow_dbuf_def grow_buf_def len4)
    then show ?thesis using loop by simp
  next
    case True
    have bp: "?bp < 2 ^ 30" using assms(2) fe(1) by simp
    have sm: "unat (of_nat ?bp :: u32) = ?bp" "unat (of_nat fe :: u32) = fe"
      using bp fe(3) by (intro unat_small32; simp)+
    have x4: "unat (buf_pos d4) = ?bp - fe"
      using True sm by (simp add: d4_def unat_sub_if' del: of_nat_add of_nat_Suc)
    define b where "b = take (?bp - fe) (dbuf d4) @ c3 @ drop (?bp - fe + length c3) (dbuf d4)"
    define e where "e = d4\<lparr>dbuf := b\<rparr>"
    have sum: "?bp - fe + length c3 \<le> 1024" "length u < length c3" using assms(2) fe(1) by (simp_all add: c3_def)
    have m: "memcpy (dbuf d4) (unat (buf_pos d4)) c3 0 (length c3) = Inr b"
      unfolding x4 b_def using sum(1) by (simp add: memcpy_ok len4)
    have lb: "length b = 2048" using sum(1) len4 by (simp add: b_def)
    have nth: "b ! (?bp - fe + k) = c3 ! k" if "k < length c3" for k
      using that sum(1) len4 by (simp add: b_def nth_append)
    have pos: "unat (buf_pos e + of_nat k) = ?bp - fe + k" if "k < length c3" for k
    proof -
      have "unat (of_nat k :: u32) = k" using that sum(1) by (intro unat_small32) simp
      then show ?thesis using that sum(1) x4 by (subst unat_add_small) (simp_all add: e_def)
    qed
    have "extract_fields e (length c3) 0 = extract_fields e (length c3) (length u)"
      using sum pos nth assms(7) lb
      by (intro extract_skip) (auto simp: e_def c3_def nth_append)
    also have "\<dots> = Inl Mem_Fault"
    proof -
      have ab: "even (length (P1 @ c2 @ u)) \<and> length out1 + length (P1 @ c2 @ u) div 2 \<le> length r0"
        using assms(8,9) absorb_field [OF assms(7)] by (auto simp: absorb_append split: if_splits)
      have r3: "resp_pos d3 = of_nat (length out1)" "length (resp d3) = length r0"
        using d3(2) by (auto simp: reading_def)
      have "unat (1 - of_nat fe :: u32) = 2 ^ 32 + 1 - fe"
        using fe(2,3) sm(2) by (simp add: unat_sub_if')
      then have "take_field e (buf_pos e + of_nat (length u)) = Inl Mem_Fault"
        using fe(2,3) ab r3 pos [OF sum(2)] True sum(1) lb assms(5,11) \<open>length u < length c3\<close>
        by (intro take_field_fault [where fe = fe and n = "length (P1 @ c2 @ u)" and k = "length out1"])
          (auto simp: e_def d4_def)
      moreover have "dbuf e ! (?bp - fe + length u) = x" "length (dbuf e) = 2048"
        using nth [OF sum(2)] lb by (simp_all add: e_def c3_def)
      ultimately show ?thesis
        using pos [OF sum(2)] sum assms(8) by (subst extract_fields.simps) (auto simp: Let_def)
    qed
    finally have ex: "extract_fields e (length c3) 0 = Inl Mem_Fault" .
    have g: "grow_dbuf d4 = d4" using sum(1) x4 len4 by (simp add: grow_dbuf_def)
    have t: "tty_read l2 (length (dbuf d4) - unat (buf_pos d4)) = Inr (l2\<lparr>rx := r\<rparr>, Io c3)"
      using sum(1) x4 len4 by (intro tty_read_all [OF ll(3)]) simp
    have "drscan_loop l2 d4 = Inl Mem_Fault"
      using t m ex sum x4 len4 unfolding e_def
      by (subst drscan_loop.simps) (auto simp: g Let_def c3_def)
    then show ?thesis using loop by simp
  qed
qed

end
