(* ===== verification/Jtag_Command.thy ===== *)
theory Jtag_Command
  imports Jtag_Protocol
begin

text \<open>
  The commands the JTAG backend sends, read the way OpenOCD reads them: as pairs of a width and a
  value, each a numeral of the C library.
\<close>

section \<open>Reading a command\<close>

text \<open>The parts in front of blanks; the numbers they stand for, two by two.\<close>

fun tokens :: "u8 list \<Rightarrow> u8 list \<Rightarrow> u8 list list" where
  "tokens w [] = []"
| "tokens w (c # cs) = (if c = 0x20 then w # tokens [] cs else tokens (w @ [c]) cs)"

fun pairs :: "'a list \<Rightarrow> ('a \<times> 'a) list" where
  "pairs (a # b # r) = (a, b) # pairs r"
| "pairs _ = []"

definition number :: "u8 list \<Rightarrow> nat" where
  "number t = unat (fst (strtoul0 (map (\<lambda>c. char_of (unat c)) t)))"

definition oocd_fields :: "u8 list \<Rightarrow> (nat \<times> nat) list" where
  "oocd_fields body = pairs (map number (tokens [] body))"

text \<open>What they should be: the request in words of four bytes.\<close>

function words4 :: "'a list \<Rightarrow> 'a list list" where
  "words4 xs = (if xs = [] then [] else take 4 xs # words4 (drop 4 xs))"
  by pat_completeness auto
termination by (relation "measure length") auto

declare words4.simps [simp del]

fun le_nat :: "u8 list \<Rightarrow> nat" where
  "le_nat [] = 0"
| "le_nat (b # bs) = unat b + 256 * le_nat bs"

section \<open>The text of a command\<close>

definition field_text :: "u8 list \<Rightarrow> u8 list" where
  "field_text f = concat (field_pieces f)"

definition body_text :: "u8 list \<Rightarrow> u8 list" where
  "body_text req = concat (map field_text (words4 req))"

definition append_result :: "cmdbuf \<Rightarrow> u8 list \<Rightarrow> cmdbuf exec" where
  "append_result b t =
     (if length (cmd_text b) + length t \<le> cmd_size b then Inr (b\<lparr>cmd_text := cmd_text b @ t\<rparr>)
      else Inl Assert_Failed)"

lemma cmdbuf_append_eq: "cmdbuf_append b d = append_result b d"
  by (simp add: cmdbuf_append_def append_result_def c_assert_def)

lemma append_result_append:
  "cbind (append_result b s) (\<lambda>b'. append_result b' t) = append_result b (s @ t)"
  by (auto simp: append_result_def)

lemma cmdbuf_appends_eq:
  "length (cmd_text b) \<le> cmd_size b \<Longrightarrow> cmdbuf_appends b ds = append_result b (concat ds)"
proof (induction ds arbitrary: b)
  case Nil
  then show ?case by (simp add: append_result_def)
next
  case (Cons d ds)
  then show ?case
    by (cases "length (cmd_text b) + length d \<le> cmd_size b")
      (simp_all add: cmdbuf_append_eq append_result_def)
qed

lemma drscan_fields_eq:
  "length (cmd_text b) \<le> cmd_size b \<Longrightarrow> drscan_fields b req = append_result b (body_text req)"
proof (induction b req rule: drscan_fields.induct)
  case (1 b req)
  show ?case
  proof (cases "req = []")
    case True
    then show ?thesis using 1(2)
      by (subst drscan_fields.simps) (simp add: append_result_def body_text_def words4.simps)
  next
    case False
    let ?f = "field_text (take 4 req)"
    have t: "body_text req = ?f @ body_text (drop 4 req)"
      using False by (subst body_text_def) (simp add: words4.simps [of req] body_text_def)
    have a: "cmdbuf_appends b (field_pieces (take 4 req)) = append_result b ?f"
      using 1(2) by (simp add: cmdbuf_appends_eq field_text_def)
    show ?thesis
    proof (cases "length (cmd_text b) + length ?f \<le> cmd_size b")
      case fits: True
      have "drscan_fields (b\<lparr>cmd_text := cmd_text b @ ?f\<rparr>) (drop 4 req) =
          append_result (b\<lparr>cmd_text := cmd_text b @ ?f\<rparr>) (body_text (drop 4 req))"
        using fits False a by (intro 1(1)) (simp_all add: append_result_def)
      then show ?thesis using False a fits t
        by (subst drscan_fields.simps) (simp add: append_result_def)
    next
      case no: False
      then show ?thesis using False a t
        by (subst drscan_fields.simps) (simp add: append_result_def)
    qed
  qed
qed

definition command_text :: "u8 list \<Rightarrow> u8 list" where
  "command_text req = OOCD_CMDSTART @ body_text req @ OOCD_CMDEND"

lemma jtag_drscan_write_eq:
  "jtag_drscan_write l req =
     (if length (command_text req) \<le> OOCD_CMD_MAXLEN then Inr (fst (write_b l (command_text req)), 0)
      else Inl Assert_Failed)"
proof -
  have s: "length OOCD_CMDSTART \<le> OOCD_CMD_MAXLEN" "OOCD_CMD_MAXLEN \<le> OOCD_MAX_LINESIZE"
    by (simp_all add: OOCD_CMDSTART_def OOCD_CMD_MAXLEN_def OOCD_MAX_LINESIZE_def ascii_def)
  show ?thesis
  proof (cases "length (OOCD_CMDSTART @ body_text req) \<le> OOCD_CMD_MAXLEN")
    case True
    then show ?thesis using s
      by (simp add: jtag_drscan_write_def cmdbuf_append_eq append_result_def cmdbuf_new_def
          drscan_fields_eq command_text_def)
  next
    case False
    then show ?thesis using s
      by (simp add: jtag_drscan_write_def cmdbuf_append_eq append_result_def cmdbuf_new_def
          drscan_fields_eq command_text_def)
  qed
qed

section \<open>Its length\<close>

lemma decimal_length: "n < 100 \<Longrightarrow> length (decimal n) \<le> 2"
  by (subst decimal.simps) (simp add: decimal.simps [of "n div 10"] div_less_iff_less_mult)

lemma field_text_eq:
  "field_text f = ascii (decimal (length f * 8)) @ 0x20 # ([0x30, 0x78] @ concat (map hex_byte (rev f))) @ [0x20]"
  by (simp add: field_text_def field_pieces_def ascii_def)

lemma body_text_length: "length (body_text req) \<le> 14 * ((length req + 3) div 4)"
proof (induction req rule: words4.induct)
  case (1 xs)
  show ?case
  proof (cases "xs = []")
    case True
    then show ?thesis by (simp add: body_text_def words4.simps)
  next
    case False
    have "length (field_text (take 4 xs)) \<le> 14"
    proof -
      have k: "length (take 4 xs) \<le> 4" by simp
      then have "length (decimal (length (take 4 xs) * 8)) \<le> 2" by (intro decimal_length) linarith
      with k show ?thesis
        by (simp only: field_text_eq ascii_def length_append length_map list.size hex_bytes_length length_rev)
    qed
    then have "length (body_text xs) \<le> 14 + 14 * ((length (drop 4 xs) + 3) div 4)"
      using 1 False by (simp add: body_text_def words4.simps [of xs])
    moreover have "1 + (length (drop 4 xs) + 3) div 4 \<le> (length xs + 3) div 4"
    proof -
      have "1 + (n - 4 + 3) div 4 \<le> (n + 3) div 4" if "0 < n" for n :: nat using that by presburger
      then show ?thesis using False by simp
    qed
    ultimately show ?thesis by linarith
  qed
qed

section \<open>Its meaning\<close>

lemma tokens_word: "0x20 \<notin> set t \<Longrightarrow> tokens w (t @ 0x20 # r) = (w @ t) # tokens [] r"
  by (induction t arbitrary: w) auto

lemma number_decimal:
  assumes "n < 2 ^ 64"
  shows "number (ascii (decimal n)) = n" "0x20 \<notin> set (ascii (decimal n))"
proof -
  have c: "char_of (unat (of_nat (of_char c) :: u8)) = c" for c
    by (simp add: unat_of_nat_small)
  then have "map (\<lambda>c. char_of (unat c)) (ascii (decimal n)) = decimal n"
    by (simp add: ascii_def comp_def)
  then show "number (ascii (decimal n)) = n"
    using assms by (simp add: number_def strtoul0_decimal unat_of_nat_small)
  have d: "\<forall>c \<in> set (decimal n). (48::nat) \<le> of_char c"
  proof (induction n rule: decimal.induct)
    case (1 n)
    then show ?case by (subst decimal.simps) (auto simp: of_char_of)
  qed
  show "0x20 \<notin> set (ascii (decimal n))"
  proof
    assume "0x20 \<in> set (ascii (decimal n))"
    then obtain c where "c \<in> set (decimal n)" "(of_nat (of_char c) :: u8) = 0x20"
      by (auto simp: ascii_def dest: sym)
    moreover from this have "unat (of_nat (of_char c) :: u8) = 32" by simp
    then have "(of_char c :: nat) = 32" by (subst (asm) unat_of_nat_small) simp_all
    ultimately show False using d by fastforce
  qed
qed

definition nibbles :: "u8 list \<Rightarrow> nat list" where
  "nibbles f = concat (map (\<lambda>b. [unat b div 16, unat b mod 16]) f)"

lemma nibbles_small: "\<forall>n \<in> set (nibbles f). n < 16"
proof -
  have "unat b div 16 < 16" for b :: u8
    using unsigned_less [of b, where ?'a = nat] by simp
  then show ?thesis by (auto simp: nibbles_def)
qed

lemma hex_bytes_nibbles: "concat (map hex_byte f) = map hex_digit (nibbles f)"
  by (induction f) (simp_all add: hex_byte_def nibbles_def)

lemma nibbles_value: "digits_value 16 (nibbles (rev f)) = le_nat f"
proof (induction f)
  case (Cons b f)
  have "digits_value 16 (nibbles (rev (b # f))) =
      (digits_value 16 (nibbles (rev f)) * 16 + unat b div 16) * 16 + unat b mod 16"
    by (simp add: nibbles_def digits_value_def)
  then show ?case using Cons by simp
qed (simp add: nibbles_def digits_value_def)

lemma le_nat_less: "le_nat f < 256 ^ length f"
proof (induction f)
  case (Cons b f)
  have "unat b < 256" using unsigned_less [of b, where ?'a = nat] by simp
  then show ?case using Cons by simp
qed simp

lemma number_hex:
  assumes "f \<noteq> []" and "length f \<le> 8"
  shows "number ([0x30, 0x78] @ concat (map hex_byte (rev f))) = le_nat f"
proof -
  define hs where "hs = map hex_char (nibbles (rev f))"
  have m: "map (\<lambda>c. char_of (unat c)) ([0x30, 0x78] @ concat (map hex_byte (rev f))) = CHR ''0'' # CHR ''x'' # hs"
  proof -
    have "char_of (48::nat) = CHR ''0''" "char_of (120::nat) = CHR ''x''"
      using char_zero char_of_char [of "CHR ''x''", where ?'a = nat] by simp_all
    then show ?thesis by (simp only: hex_bytes_nibbles hs_def) simp
  qed
  have n: "nibbles (rev f) \<noteq> []" using assms(1) by (cases "rev f") (simp_all add: nibbles_def)
  then obtain k ks where k: "nibbles (rev f) = k # ks" by (cases "nibbles (rev f)") auto
  then have "k < 16" using nibbles_small [of "rev f"] by simp
  then have d: "detect_base (CHR ''0'' # CHR ''x'' # hs) = (16, hs)"
    using k by (simp add: detect_base_def hs_def digit_of_hex)
  have s: "skip_sign (dropWhile c_isspace (CHR ''0'' # CHR ''x'' # hs)) = (False, CHR ''0'' # CHR ''x'' # hs)"
    by (simp add: skip_sign_def c_isspace_def)
  have g: "span_digits 16 hs = (nibbles (rev f), [])"
    unfolding hs_def by (rule span_hex [OF nibbles_small])
  have "(256::nat) ^ length f \<le> 256 ^ 8" using assms(2) by (intro power_increasing) simp_all
  then have l: "le_nat f < 2 ^ 64" using le_nat_less [of f] by simp
  have "fst (strtoul0 (CHR ''0'' # CHR ''x'' # hs)) = of_nat (le_nat f)"
    unfolding strtoul0_def s prod.case Let_def d g nibbles_value using n l by simp
  then show ?thesis unfolding number_def m using l by (simp add: unat_of_nat_small)
qed

lemma oocd_fields_body: "oocd_fields (body_text req) = map (\<lambda>f. (8 * length f, le_nat f)) (words4 req)"
proof (induction req rule: words4.induct)
  case (1 xs)
  show ?case
  proof (cases "xs = []")
    case True
    then show ?thesis by (simp add: body_text_def words4.simps oocd_fields_def)
  next
    case False
    define f where "f = take 4 xs"
    have f: "f \<noteq> []" "length f \<le> 8" using False by (simp_all add: f_def)
    have nd: "0x20 \<notin> set ([0x30, 0x78] @ concat (map hex_byte (rev f)))"
      using hex_no_delimiter(1) [of _ "rev f"] by auto
    have "body_text xs = field_text f @ body_text (drop 4 xs)"
      using False by (simp add: body_text_def words4.simps [of xs] f_def)
    then have "tokens [] (body_text xs) =
        ascii (decimal (length f * 8)) # ([0x30, 0x78] @ concat (map hex_byte (rev f))) # tokens [] (body_text (drop 4 xs))"
      unfolding field_text_eq using number_decimal(2) [of "length f * 8"] f(2) tokens_word nd by simp
    then show ?thesis
      using 1 False number_decimal(1) [of "length f * 8"] number_hex [OF f] f(2)
      by (simp add: oocd_fields_def words4.simps [of xs] mult.commute flip: f_def)
  qed
qed

end
