(* ===== verification/Jtag_Transfer.thy ===== *)
theory Jtag_Transfer
  imports Jtag_Text Cbuf_Blocking
begin

text \<open>
  The transfers of the JTAG backend, \<^verbatim>\<open>backend_jtag/sw/backend_jtag.c\<close>: data words of the
  target's width, the request with its header, the evaluation of the response and the communication
  thread that repeats both.
\<close>

section \<open>State\<close>

definition JTAG_BUFFER_SIZE :: size_t where "JTAG_BUFFER_SIZE = 64 * 1024"
definition MAX_PAYLOAD_WORDS :: u32 where "MAX_PAYLOAD_WORDS = 15000"

text \<open>What happens around OpenOCD, and one turn of the wait for its start: the monotonic clock, the
  result of \<open>pselect\<close> and the characters that can be read then.\<close>

datatype oocd_event = Oo_Exec "string list" | Oo_Wait int int | Oo_Close int | Oo_Pclose int

record oocd_turn =
  ot_sec :: int
  ot_nsec :: int
  ot_nfds :: int
  ot_out :: "u8 list"

text \<open>
  The fields of the backend context, and behind them the world it works in: the socket, whether it
  is open, what each coming connection attempt finds (it fails when the list has ended), the
  results of the calls that start OpenOCD, the turns of waiting for it, the events so far, the
  allocator behind the circular buffers, an uninitialised array, and the waits of blocking calls.
\<close>

record jtag =
  jwrite_buf :: cbuf
  jread_buf :: cbuf
  sockadrr :: int
  oocd_pid :: int
  target_word_width :: u32
  target_buffer_size :: u32
  jthread :: bool
  jsock :: line
  sock_open :: bool
  lookups :: "(string option \<Rightarrow> string \<Rightarrow> int \<times> addr_candidate list) list"
  pkgdatadir :: string
  oocd_popen :: "popen_result"
  oocd_getfl :: u32
  oocd_setfl :: u32
  oocd_start :: "int \<times> int"
  oocd_turns :: "oocd_turn list"
  oocd_events :: "oocd_event list"
  jalloc :: allocator
  resp_junk :: "u8 list"
  jin_waits :: "wait_event list"
  jout_waits :: "wait_event list"

section \<open>Words of the target\<close>

definition to_words :: "u32 \<Rightarrow> size_t \<Rightarrow> u32 exec" where
  "to_words ww bytes = (if ww = 0 then Inl Div_Zero else Inr (ucast (bytes div ucast ww)))"

definition to_bytes :: "u32 \<Rightarrow> u32 \<Rightarrow> size_t" where
  "to_bytes ww words = ucast (words * ww)"

text \<open>
  Words of up to four bytes are stored least significant byte first.  In longer words only the last
  byte of the value is stored, at the fourth position from the end.
\<close>

definition word_bytes :: "u32 \<Rightarrow> u32 \<Rightarrow> u8 list exec" where
  "word_bytes ww value =
     (if ww = 0 then Inl Mem_Fault
      else if ww \<le> 4 then Inr (map (\<lambda>i. ucast (drop_bit (8 * i) value)) [0..<unat ww])
      else Inr ((replicate (unat ww) 0)[unat ww - 4 := ucast value]))"

definition copy_to_word :: "u32 \<Rightarrow> u32 \<Rightarrow> u8 list \<Rightarrow> nat \<Rightarrow> u8 list exec" where
  "copy_to_word ww value dest off =
     cbind (word_bytes ww value) (\<lambda>bs. memcpy dest off bs 0 (length bs))"

fun le_word :: "u8 list \<Rightarrow> u32" where
  "le_word [] = 0"
| "le_word (b # bs) = push_bit 8 (le_word bs) OR ucast b"

definition copy_from_word :: "u32 \<Rightarrow> u8 list \<Rightarrow> nat \<Rightarrow> u32 exec" where
  "copy_from_word ww from off =
     (let cp = unat (c_min (ucast ww) 4); start = off + (unat ww - cp)
      in if length from < start + cp then Inl Mem_Fault
         else Inr (le_word (take cp (drop start from))))"

section \<open>Requests\<close>

text \<open>How many words are offered and asked for, and how many a transfer carries.\<close>

definition calc_payload_len :: "jtag \<Rightarrow> u32 \<Rightarrow> (u32 \<times> u32 \<times> u32) exec" where
  "calc_payload_len j wanted_words =
     cbind (to_words (target_word_width j) (cbuf_fill_level (jwrite_buf j))) (\<lambda>avail_wr.
     cbind (to_words (target_word_width j) (cbuf_free_level (jread_buf j))) (\<lambda>avail_rd.
       let payload_len = int_min wanted_words (int_max avail_wr avail_rd)
       in Inr (int_min avail_wr payload_len, int_min avail_rd payload_len, payload_len)))"

text \<open>
  The request: two header words, the data, zeros up to the length of the longer direction and two
  words more.  The result is the new contents of the array and the number of bytes to be sent.
\<close>

definition build_jtag_req :: "jtag \<Rightarrow> u32 \<Rightarrow> u32 \<Rightarrow> u8 list \<Rightarrow> (jtag \<times> u8 list \<times> int) exec" where
  "build_jtag_req j wr_words rd_words req =
     (let ww = target_word_width j; wr_bytes = to_bytes ww wr_words;
          transfer_len_words = int_max wr_words rd_words + 4;
          transfer_len_bytes = to_bytes ww transfer_len_words
      in if transfer_len_bytes > of_nat (length req) then Inr (j, req, - ENOMEM)
         else cbind (copy_to_word ww wr_words
                (replicate (unat transfer_len_bytes) 0 @ drop (unat transfer_len_bytes) req) 0) (\<lambda>r1.
              cbind (copy_to_word ww rd_words r1 (unat ww)) (\<lambda>r2.
              cbind (cbuf_peek (jalloc j) (jwrite_buf j) wr_bytes) (\<lambda>(b, p, rv).
                let j' = j\<lparr>jwrite_buf := b\<rparr>
                in if rv < 0 then Inr (j', r2, - 1)
                   else cbind (ptr_load b (case p of None \<Rightarrow> Null_Ptr | Some p \<Rightarrow> p) (unat wr_bytes)) (\<lambda>bs.
                        cbind (memcpy r2 (unat ww * 2) bs 0 (unat wr_bytes)) (\<lambda>r3.
                          Inr (j', r3, sint (ucast transfer_len_bytes :: u32))))))))"

section \<open>Responses\<close>

text \<open>The last two words say what the target took and what it gave.  The results of the calls of the
  circular buffers are not looked at.\<close>

definition parse_jtag_resp :: "jtag \<Rightarrow> u8 list \<Rightarrow> nat \<Rightarrow> (jtag \<times> u32 \<times> u32) exec" where
  "parse_jtag_resp j response resp_size =
     (let ww = target_word_width j
      in if resp_size < unat ww * 2 then Inl Mem_Fault
         else cbind (copy_from_word ww response (resp_size - unat ww * 2)) (\<lambda>acked_words.
              cbind (copy_from_word ww response (resp_size - unat ww)) (\<lambda>read_words.
                let (wb, _) = cbuf_discard (jwrite_buf j) (to_bytes ww acked_words)
                in cbind (cbuf_write (jread_buf j) (drop (unat ww * 2) response) (to_bytes ww read_words))
                     (\<lambda>(rb, _). Inr (j\<lparr>jwrite_buf := wb, jread_buf := rb\<rparr>, acked_words, read_words)))))"

text \<open>One scan over the socket of the backend: nothing goes over a closed one.\<close>

definition backend_drscan :: "jtag \<Rightarrow> u8 list \<Rightarrow> u8 list \<Rightarrow> (jtag \<times> u8 list \<times> int) exec" where
  "backend_drscan j req resp0 =
     (if \<not> sock_open j then Inr (j, resp0, - 1)
      else cbind (jtag_drscan (jsock j) req resp0) (\<lambda>(l, r, rv). Inr (j\<lparr>jsock := l\<rparr>, r, rv)))"

definition le16 :: "u8 list \<Rightarrow> nat \<Rightarrow> u16" where
  "le16 bs i = push_bit 8 (ucast (bs ! (2 * i + 1))) OR ucast (bs ! (2 * i))"

definition discover_targetconf :: "jtag \<Rightarrow> (jtag \<times> int) exec" where
  "discover_targetconf j =
     cbind (backend_drscan j [0xFF, 0xFF, 0, 0, 0, 0] (resp_junk j)) (\<lambda>(j1, r, rv).
       if rv \<noteq> 0 then Inr (j1, rv)
       else cbind (c_assert (le16 r 1 \<noteq> 0)) (\<lambda>_.
            cbind (c_assert (le16 r 1 mod 8 = 0)) (\<lambda>_.
              if le16 r 2 \<ge> 31 then Inl Int_Overflow
              else Inr (j1\<lparr>target_word_width := ucast (le16 r 1) div 8,
                           target_buffer_size := push_bit (unat (le16 r 2)) 1\<rparr>, 0))))"

section \<open>The communication thread\<close>

text \<open>The local variables of \<open>poll_thread\<close> that live through the rounds.\<close>

record poll =
  buf_tx :: "u8 list"
  buf_rx :: "u8 list"
  wanted_words :: u32
  min_wanted_words :: u32

text \<open>
  The number of words wanted in the next round.  The comparisons and products are ones of
  \<open>double\<close> in the source; for the numbers of 32 bits that occur they give the exact results below.
  A product beyond 32 bits and a shift beyond \<open>int\<close> are undefined.
\<close>

definition scale_wanted :: "u32 \<Rightarrow> u32 \<Rightarrow> u32 \<Rightarrow> u32 \<Rightarrow> u32 \<Rightarrow> u32 exec" where
  "scale_wanted wanted acked wr rd_got rd =
     (if 9 * unat wr < 10 * unat acked \<or> 9 * unat rd \<le> 10 * unat rd_got
      then (if 2 ^ 32 \<le> unat wanted * 3 div 2 then Inl Int_Overflow
            else Inr (of_nat (unat wanted * 3 div 2)))
      else if 2 * unat acked \<le> unat wr \<and> 2 * unat rd_got \<le> unat rd
      then Inr (of_nat (unat wanted * 3 div 10))
      else Inr wanted)"

definition clamp_wanted :: "u32 \<Rightarrow> u32 \<Rightarrow> u32 \<Rightarrow> u32 exec" where
  "clamp_wanted ww min_wanted wanted =
     (if 31 \<le> unat (ww * 8) then Inl Int_Overflow
      else (let w1 = int_min wanted (push_bit (unat (ww * 8)) 1 - 2);
                w2 = int_max min_wanted w1
            in Inr (int_min w2 MAX_PAYLOAD_WORDS)))"

text \<open>The request is built again in larger arrays until it fits; \<open>n\<close> bounds the number of attempts.\<close>

definition grow_array :: "u8 list \<Rightarrow> u8 list" where
  "grow_array a = a @ replicate (unat (grow_buf (of_nat (length a))) - length a) 0"

fun build_loop :: "nat \<Rightarrow> jtag \<Rightarrow> u32 \<Rightarrow> u32 \<Rightarrow> poll \<Rightarrow> (jtag \<times> poll \<times> int) exec" where
  "build_loop 0 j wr rd p = Inl Blocked"
| "build_loop (Suc n) j wr rd p =
     cbind (build_jtag_req j wr rd (buf_tx p)) (\<lambda>(j', tx', rv).
       if rv = - ENOMEM
       then build_loop n j' wr rd (p\<lparr>buf_tx := grow_array tx', buf_rx := grow_array (buf_rx p)\<rparr>)
       else Inr (j', p\<lparr>buf_tx := tx'\<rparr>, rv))"

definition BUILD_ATTEMPTS :: nat where "BUILD_ATTEMPTS = 64"

text \<open>One round; the truth value says whether the thread goes on.\<close>

definition poll_round :: "jtag \<Rightarrow> poll \<Rightarrow> (jtag \<times> poll \<times> bool) exec" where
  "poll_round j p =
     cbind (calc_payload_len j (wanted_words p)) (\<lambda>(wr_words, rd_words, _).
     cbind (build_loop BUILD_ATTEMPTS j wr_words rd_words p) (\<lambda>(j1, p1, transfer_size).
       if transfer_size < 0 then Inr (j1, p1, False)
       else (let n = nat transfer_size
             in cbind (backend_drscan j1 (take n (buf_tx p1)) (take n (buf_rx p1))) (\<lambda>(j2, r, rv).
                  let p2 = p1\<lparr>buf_rx := r @ drop n (buf_rx p1)\<rparr>
                  in if rv \<noteq> 0 then Inr (j2, p2, False)
                     else cbind (parse_jtag_resp j2 (buf_rx p2) n) (\<lambda>(j3, acked_words, read_words).
                          cbind (scale_wanted (wanted_words p2) acked_words wr_words read_words rd_words) (\<lambda>w1.
                          cbind (clamp_wanted (target_word_width j3) (min_wanted_words p2) w1) (\<lambda>w2.
                            Inr (j3, p2\<lparr>wanted_words := w2\<rparr>, True))))))))"

fun poll_rounds :: "nat \<Rightarrow> jtag \<Rightarrow> poll \<Rightarrow> (jtag \<times> poll \<times> bool) exec" where
  "poll_rounds 0 j p = Inr (j, p, True)"
| "poll_rounds (Suc n) j p =
     cbind (poll_round j p) (\<lambda>(j', p', go). if go then poll_rounds n j' p' else Inr (j', p', False))"

text \<open>The thread for at most \<open>n\<close> rounds.  The result of the discovery is not looked at; the arrays
  hold zeros at first.\<close>

definition poll_start :: "jtag \<Rightarrow> poll" where
  "poll_start j =
     (let sz = (unat MAX_PAYLOAD_WORDS + 4) * 2
      in \<lparr>buf_tx = replicate sz 0, buf_rx = replicate sz 0, wanted_words = target_buffer_size j,
          min_wanted_words = target_buffer_size j\<rparr>)"

definition poll_thread :: "nat \<Rightarrow> jtag \<Rightarrow> (jtag \<times> bool) exec" where
  "poll_thread n j =
     cbind (discover_targetconf j) (\<lambda>(j1, _).
     cbind (poll_rounds n j1 (poll_start j1)) (\<lambda>(j2, _, go). Inr (j2, go)))"

end
