(* ===== verification/Jtag.thy ===== *)
theory Jtag
  imports Jtag_Transfer Glip
begin

text \<open>
  The backend interface of the JTAG backend, \<^verbatim>\<open>backend_jtag/sw/backend_jtag.c\<close>, and the OpenOCD
  process it starts and stops.
\<close>

section \<open>OpenOCD\<close>

definition OPENOCD_STARTUP_TIMEOUT :: int where "OPENOCD_STARTUP_TIMEOUT = 10000"

definition search_string :: "u8 list" where "search_string = ascii ''tap/device found''"

text \<open>
  The characters of one turn, looked at one by one: \<open>f\<close> of the search string have been found.  A
  character of value \<open>-1\<close> ends the turn.  The result is the new \<open>f\<close> and whether all was found.
\<close>

fun scan_output :: "nat \<Rightarrow> u8 list \<Rightarrow> nat \<times> bool" where
  "scan_output f [] = (f, False)"
| "scan_output f (c # cs) =
     (if c = 0xFF then (f, False)
      else if c = search_string ! f
      then (if f + 1 = length search_string then (f + 1, True) else scan_output (f + 1) cs)
      else scan_output 0 cs)"

text \<open>Both differences are ones of \<open>int\<close>; the nanoseconds are meant to be the rest of the seconds.\<close>

definition time_spent :: "int \<times> int \<Rightarrow> oocd_turn \<Rightarrow> int" where
  "time_spent start t =
     sint (word_of_int (ot_sec t * 1000 + ot_nsec t div 1000 div 1000 -
                        (fst start * 1000 + snd start div 1000 div 1000)) :: u32)"

definition max_wait :: "int \<Rightarrow> int \<times> int" where
  "max_wait tspent =
     (let sec = (OPENOCD_STARTUP_TIMEOUT - tspent) div 1000
      in (sec, (OPENOCD_STARTUP_TIMEOUT - tspent - sec * 1000) * 1000))"

fun oocd_wait :: "int \<times> int \<Rightarrow> nat \<Rightarrow> oocd_turn list \<Rightarrow> (oocd_event list \<times> oocd_turn list \<times> bool) exec" where
  "oocd_wait start f [] = Inl Blocked"
| "oocd_wait start f (t # ts) =
     (let tspent = time_spent start t; (sec, nsec) = max_wait tspent
      in if tspent \<ge> OPENOCD_STARTUP_TIMEOUT then Inr ([], ts, False)
         else if ot_nfds t \<le> 0 then Inr ([Oo_Wait sec nsec], ts, False)
         else (let (f', found) = scan_output f (ot_out t)
               in if found then Inr ([Oo_Wait sec nsec], ts, True)
                  else cbind (oocd_wait start f' ts) (\<lambda>(ev, ts', r). Inr (Oo_Wait sec nsec # ev, ts', r))))"

definition backend_write_b :: "jtag \<Rightarrow> u8 list \<Rightarrow> jtag \<times> int" where
  "backend_write_b j bs =
     (if \<not> sock_open j then (j, - 1)
      else (let (l, rv) = write_b (jsock j) bs in (j\<lparr>jsock := l\<rparr>, rv)))"

definition log_event :: "oocd_event list \<Rightarrow> jtag \<Rightarrow> jtag" where
  "log_event ev j = j\<lparr>oocd_events := oocd_events j @ ev\<rparr>"

definition close_openocd :: "jtag \<Rightarrow> jtag \<times> int" where
  "close_openocd j =
     (if oocd_pid j \<noteq> 0 then
        (let j1 = (if sockadrr j \<noteq> 0 then fst (backend_write_b j (ascii ''exit'' @ [0x1a, 0])) else j)
         in (log_event [Oo_Pclose (oocd_pid j)] j1, 0))
      else (j, 0))"

text \<open>The arguments, as an array of pointers, and what the new process sees of it: those before the first null
  pointer.\<close>

definition oocd_args :: "jtag \<Rightarrow> string option \<Rightarrow> string option \<Rightarrow> string option list" where
  "oocd_args j conf_interface conf_target =
     [Some ''openocd'', Some ''-s'', Some (pkgdatadir j @ ''/backend_jtag/openocd''), Some ''-f'', conf_interface,
      Some ''-f'', conf_target, None]"

definition exec_args :: "string option list \<Rightarrow> string list" where
  "exec_args args = map the (takeWhile (\<lambda>a. a \<noteq> None) args)"

definition start_openocd :: "glip_opts \<Rightarrow> jtag \<Rightarrow> (jtag \<times> int) exec" where
  "start_openocd opts j =
     cbind (glip_option_get_char opts ''oocd_conf_interface'') (\<lambda>(ci, _).
     case ci of None \<Rightarrow> Inr (j, - 1) | Some conf_interface \<Rightarrow>
     cbind (glip_option_get_char opts ''oocd_conf_target'') (\<lambda>(ct, _).
     let args = oocd_args j conf_interface (case ct of None \<Rightarrow> Some ''glip.cfg'' | Some t \<Rightarrow> t);
         po = oocd_popen j; outfd = (case po_outfd po of None \<Rightarrow> 0 | Some fd \<Rightarrow> fd)
     in cbind (c_assert (length (the (args ! 2)) < 1024)) (\<lambda>_.
        if po_rv po < 0 then Inr (j, - 1)
        else (let j1 = log_event [Oo_Exec (exec_args args)] (j\<lparr>oocd_pid := po_rv po\<rparr>)
              in if fst (gl_util_fd_nonblock (oocd_getfl j) (oocd_setfl j)) \<noteq> 0 then Inr (j1, - 1)
                 else cbind (oocd_wait (oocd_start j1) 0 (oocd_turns j1)) (\<lambda>(ev, ts, found).
                   let j2 = log_event (ev @ [Oo_Close outfd]) (j1\<lparr>oocd_turns := ts\<rparr>)
                   in if found then Inr (j2, 0) else Inr (fst (close_openocd j2), - 1))))))"

section \<open>Opening and closing\<close>

text \<open>One attempt to connect; the descriptor is stored only when it succeeds.\<close>

definition connect_oocd :: "jtag \<Rightarrow> string option \<Rightarrow> u32 \<Rightarrow> jtag \<times> int" where
  "connect_oocd j hostname portno =
     (case lookups j of
        [] \<Rightarrow> (j, - 1)
      | f # fs \<Rightarrow> (case gl_util_connect_to_host f hostname portno of
            (_, Some sfd, rv) \<Rightarrow> (j\<lparr>lookups := fs, sockadrr := sfd, sock_open := True\<rparr>, rv)
          | (_, None, rv) \<Rightarrow> (j\<lparr>lookups := fs\<rparr>, rv)))"

fun connect_retry :: "nat \<Rightarrow> jtag \<Rightarrow> string option \<Rightarrow> u32 \<Rightarrow> jtag \<times> int" where
  "connect_retry 0 j hostname portno = (j, - 1)"
| "connect_retry (Suc n) j hostname portno =
     (let (j', rv) = connect_oocd j hostname portno
      in if rv = 0 then (j', 0) else connect_retry n j' hostname portno)"

definition gb_jtag_open :: "glip_opts \<Rightarrow> jtag \<Rightarrow> u32 \<Rightarrow> (jtag \<times> int) exec" where
  "gb_jtag_open opts j num_channels =
     cbind (glip_option_get_uint8 opts ''coding'') (\<lambda>_.
       if num_channels \<noteq> 1 then Inr (j, - 1)
       else cbind (glip_option_get_char opts ''hostname'') (\<lambda>(h, _).
            cbind (glip_option_get_uint32 opts ''port'') (\<lambda>(pn, _).
              let hostname = (case h of None \<Rightarrow> Some ''localhost'' | Some h \<Rightarrow> h);
                  portno = (case pn of None \<Rightarrow> 6666 | Some n \<Rightarrow> n);
                  (j1, rv) = connect_oocd j hostname portno
              in if rv = 0 then Inr (j1\<lparr>jthread := True\<rparr>, 0)
                 else if hostname = None then Inl Mem_Fault
                 else if hostname \<noteq> Some ''localhost'' then Inr (j1, - 1)
                 else cbind (start_openocd opts j1) (\<lambda>(j2, rv').
                   if rv' \<noteq> 0 then Inr (j2, - 1)
                   else (let (j3, rv'') = connect_retry 10 j2 hostname portno
                         in if rv'' \<noteq> 0 then Inr (j3, - 1)
                            else Inr (j3\<lparr>jthread := True\<rparr>, 0))))))"

text \<open>The socket is closed first; its number stays in the context.\<close>

definition gb_jtag_close :: "jtag \<Rightarrow> (jtag \<times> int) exec" where
  "gb_jtag_close j =
     Inr (fst (close_openocd (j\<lparr>jthread := False, sock_open := False\<rparr>)), 0)"

text \<open>As in the UART backend, \<open>None\<close> also stands for a context that is entered but was left without a buffer.\<close>

definition gb_jtag_new ::
    "jtag \<Rightarrow> bool \<Rightarrow> bool \<times> allocator \<Rightarrow> bool \<times> allocator \<Rightarrow> (jtag option \<times> int) exec" where
  "gb_jtag_new w alloc mem_wr mem_rd =
     (if \<not> alloc then Inr (None, - 1)
      else cbind (cbuf_init (fst mem_wr) (snd mem_wr) JTAG_BUFFER_SIZE) (\<lambda>(bw, rv).
        case bw of None \<Rightarrow> Inr (None, - 1) | Some wb \<Rightarrow>
        cbind (cbuf_init (fst mem_rd) (snd mem_rd) JTAG_BUFFER_SIZE) (\<lambda>(br, rv').
        case br of None \<Rightarrow> Inr (None, - 1) | Some rb \<Rightarrow>
          Inr (Some (w\<lparr>jwrite_buf := wb, jread_buf := rb, sockadrr := 0, oocd_pid := 0,
              target_word_width := 0, target_buffer_size := 0, jthread := False,
              sock_open := False\<rparr>), 0))))"

definition gb_jtag_logic_reset :: "jtag \<Rightarrow> (jtag \<times> int) exec" where
  "gb_jtag_logic_reset j =
     cbind (backend_drscan j [0xFF, 0xFF, 1, 0, 0, 0] (resp_junk j)) (\<lambda>(j', _, rv). Inr (j', rv))"

section \<open>Reading and writing\<close>

definition gb_jtag_read ::
    "jtag \<Rightarrow> u32 \<Rightarrow> size_t \<Rightarrow> u8 list \<Rightarrow> (jtag \<times> u8 list \<times> size_t option \<times> int) exec" where
  "gb_jtag_read j channel sz data =
     (if channel \<noteq> 0 then Inr (j, data, None, - 1)
      else cbind (fifo_read (jread_buf j) sz data) (\<lambda>(b, d, n, rv).
             Inr (j\<lparr>jread_buf := b\<rparr>, d, n, rv)))"

text \<open>The channel is looked at only when the wait is over; the size read is zero then.\<close>

definition gb_jtag_read_b ::
    "jtag \<Rightarrow> u32 \<Rightarrow> size_t \<Rightarrow> u8 list \<Rightarrow> u32 \<Rightarrow> (jtag \<times> u8 list \<times> size_t option \<times> int) exec" where
  "gb_jtag_read_b j channel sz data timeout =
     (if sz > JTAG_BUFFER_SIZE then Inr (j, data, None, - 1)
      else if channel \<noteq> 0 then
        cbind (wait_fill (jread_buf j) sz (jin_waits j)) (\<lambda>(b, evs).
          Inr (j\<lparr>jread_buf := b, jin_waits := evs\<rparr>, data, Some 0, - 1))
      else cbind (fifo_read_b (jread_buf j) sz data (jin_waits j)) (\<lambda>(b, evs, d, n, rv).
             Inr (j\<lparr>jread_buf := b, jin_waits := evs\<rparr>, d, n, rv)))"

definition gb_jtag_write ::
    "jtag \<Rightarrow> u32 \<Rightarrow> size_t \<Rightarrow> u8 list \<Rightarrow> (jtag \<times> size_t option \<times> int) exec" where
  "gb_jtag_write j channel sz data =
     (if channel \<noteq> 0 then Inr (j, None, - 1)
      else cbind (fifo_write (jwrite_buf j) sz data) (\<lambda>(b, n).
             Inr (j\<lparr>jwrite_buf := b\<rparr>, Some n, 0)))"

definition gb_jtag_write_b ::
    "jtag \<Rightarrow> u32 \<Rightarrow> size_t \<Rightarrow> u8 list \<Rightarrow> u32 \<Rightarrow> (jtag \<times> size_t option \<times> int) exec" where
  "gb_jtag_write_b j channel sz data timeout =
     (if channel \<noteq> 0 then Inr (j, None, - 1)
      else cbind (fifo_write_b (jwrite_buf j) sz data (jout_waits j)) (\<lambda>(b, evs, n, rv).
             Inr (j\<lparr>jwrite_buf := b, jout_waits := evs\<rparr>, Some n, rv)))"

definition gb_jtag_get_channel_count :: "jtag \<Rightarrow> u32" where
  "gb_jtag_get_channel_count j = 1"

definition gb_jtag_get_fifo_width :: "jtag \<Rightarrow> u32" where
  "gb_jtag_get_fifo_width j = target_word_width j"

definition jtag_backend :: "jtag glip_backend_if" where
  "jtag_backend =
     \<lparr>be_open = gb_jtag_open, be_close = gb_jtag_close, be_logic_reset = gb_jtag_logic_reset,
      be_read = gb_jtag_read, be_read_b = gb_jtag_read_b, be_write = gb_jtag_write,
      be_write_b = gb_jtag_write_b, be_get_fifo_width = gb_jtag_get_fifo_width,
      be_get_channel_count = gb_jtag_get_channel_count\<rparr>"

end
