(* ===== verification/Jtag_Backend.thy ===== *)
theory Jtag_Backend
  imports Jtag Backend_Contract
begin

text \<open>The JTAG backend as a pair of byte queues: it interprets the contract of the backends.\<close>

definition jtag_inv :: "jtag \<Rightarrow> bool" where
  "jtag_inv j \<longleftrightarrow> cbuf_wf (jread_buf j) \<and> cbuf_wf (jwrite_buf j)"

abbreviation jtag_in :: "jtag \<Rightarrow> u8 list" where
  "jtag_in j \<equiv> contents (jread_buf j)"

abbreviation jtag_out :: "jtag \<Rightarrow> u8 list" where
  "jtag_out j \<equiv> contents (jwrite_buf j)"

abbreviation jtag_room :: "jtag \<Rightarrow> nat" where
  "jtag_room j \<equiv> capacity (jwrite_buf j) - length (contents (jwrite_buf j))"

interpretation jb: fifo_backend jtag_backend jtag_inv jtag_in jtag_out jtag_room
proof
  fix s :: jtag and n :: size_t and dst :: "u8 list" and k :: nat
  assume "jtag_inv s" "unat n < 2 ^ 31" "unat n \<le> length dst" "k = min (unat n) (length (jtag_in s))"
  then show "\<exists>s'. be_read jtag_backend s 0 n dst =
      Inr (s', take k (jtag_in s) @ drop k dst, Some (of_nat k), 0) \<and> jtag_inv s' \<and>
      jtag_in s' = drop k (jtag_in s) \<and> jtag_out s' = jtag_out s \<and> jtag_room s' = jtag_room s"
    using fifo_read_ok [of "jread_buf s" n dst k]
    by (auto simp: jtag_backend_def jtag_inv_def gb_jtag_read_def)
next
  fix s :: jtag and n :: size_t and src :: "u8 list" and k :: nat
  assume "jtag_inv s" "unat n < 2 ^ 31" "unat n \<le> length src" "k = min (unat n) (jtag_room s)"
  then show "\<exists>s'. be_write jtag_backend s 0 n src = Inr (s', Some (of_nat k), 0) \<and> jtag_inv s' \<and>
      jtag_out s' = jtag_out s @ take k src \<and> jtag_in s' = jtag_in s \<and>
      jtag_room s' = jtag_room s - k"
    using fifo_write_ok [of "jwrite_buf s" n src k]
    by (auto simp: jtag_backend_def jtag_inv_def gb_jtag_write_def)
next
  fix s :: jtag and ch :: u32 and n dst src
  assume "ch \<noteq> 0"
  then show "be_read jtag_backend s ch n dst = Inr (s, dst, None, - 1)"
    "be_write jtag_backend s ch n src = Inr (s, None, - 1)"
    by (simp_all add: jtag_backend_def gb_jtag_read_def gb_jtag_write_def)
qed (simp_all only: jtag_inv_def fifo_small)

interpretation jb: copying_backend jtag_backend jtag_inv jtag_in jtag_out jtag_room
proof
  fix s :: jtag and n :: size_t and src :: "u8 list" and k :: nat
  assume "jtag_inv s" "k = min (unat n) (jtag_room s)"
  then show "be_write jtag_backend s 0 n src = be_write jtag_backend s 0 (of_nat k) src"
    using fifo_write_fits [of "jwrite_buf s" k n src]
    by (simp add: jtag_backend_def jtag_inv_def gb_jtag_write_def)
next
  fix s :: jtag and n :: size_t and src :: "u8 list"
  assume "jtag_inv s" "unat n \<le> jtag_room s" "length src < unat n"
  then show "be_write jtag_backend s 0 n src = Inl Mem_Fault"
    using fifo_write_outside [of "jwrite_buf s" n src]
    by (simp add: jtag_backend_def jtag_inv_def gb_jtag_write_def)
qed

end
