(* ===== verification/Jtag_Round.thy ===== *)
theory Jtag_Round
  imports Jtag_Command Jtag_Backend
begin

text \<open>
  A round of the JTAG backend's thread against the two byte queues: what goes out in the request,
  what the response takes from the one and adds to the other.
\<close>

section \<open>Words of the target\<close>

lemma unat_to_bytes:
  "unat w * unat ww < 2 ^ 32 \<Longrightarrow> unat (to_bytes ww w) = unat w * unat ww"
  by (simp add: to_bytes_def unat_ucast_up unat_word_ariths)

lemma to_words_ok:
  assumes "0 < unat ww" and "unat bytes < 2 ^ 31"
  shows "\<exists>w. to_words ww bytes = Inr w \<and> unat w = unat bytes div unat ww"
proof -
  have "unat (bytes div ucast ww) = unat bytes div unat ww"
    by (simp add: unat_div unat_ucast_up)
  moreover have "unat bytes div unat ww \<le> unat bytes" by simp
  then have "unat bytes div unat ww < 2 ^ 31" using assms(2) by (rule le_less_trans)
  ultimately have "unat (ucast (bytes div ucast ww) :: u32) = unat bytes div unat ww"
    by (simp add: unsigned_ucast_eq take_bit_nat_eq_self)
  moreover have "ww \<noteq> 0" using assms(1) by auto
  ultimately show ?thesis by (simp add: to_words_def)
qed

lemma le_word_nat: "le_word bs = of_nat (le_nat bs)"
proof (induction bs)
  case (Cons b bs)
  have "push_bit 8 (le_word bs) OR ucast b = push_bit 8 (le_word bs) + (ucast b :: u32)"
    by (rule disjunctive_add [symmetric]) (auto simp: bit_simps dest: bit_imp_le_length)
  also have "\<dots> = of_nat (le_nat bs) * 2 ^ 8 + of_nat (unat b)"
    by (simp add: push_bit_eq_mult Cons)
  finally show ?case by (simp add: algebra_simps)
qed simp

lemma word_bytes_ok:
  assumes "0 < unat ww" and "unat ww \<le> 4"
  shows "\<exists>bs. word_bytes ww v = Inr bs \<and> length bs = unat ww \<and> le_nat bs = unat v mod 256 ^ unat ww"
proof -
  have le: "le_nat (map (\<lambda>i. ucast (drop_bit (8 * i) v)) [0..<n]) = unat v mod 256 ^ n" for n
  proof -
    have "le_nat (map (\<lambda>i. ucast (drop_bit (8 * (k + i)) v)) [0..<n]) = unat v div 256 ^ k mod 256 ^ n" for k
    proof (induction n arbitrary: k)
      case (Suc n)
      have "[0..<Suc n] = 0 # map Suc [0..<n]" by (simp add: map_Suc_upt upt_conv_Cons)
      moreover have "unat (ucast (drop_bit (8 * k) v) :: u8) = unat v div 256 ^ k mod 256"
      proof -
        have "unat (drop_bit (8 * k) v) = drop_bit (8 * k) (unat v)"
          using unsigned_less [of v, where ?'a = nat] by (simp add: unsigned_drop_bit_eq take_bit_nat_eq_self)
        also have "\<dots> = unat v div 256 ^ k" by (simp add: drop_bit_eq_div power_mult)
        finally show ?thesis by (simp add: unsigned_ucast_eq take_bit_eq_mod)
      qed
      ultimately have "le_nat (map (\<lambda>i. ucast (drop_bit (8 * (k + i)) v)) [0..<Suc n]) =
          unat v div 256 ^ k mod 256 + 256 * (unat v div 256 ^ Suc k mod 256 ^ n)"
        using Suc.IH [of "Suc k"] by (simp add: comp_def algebra_simps)
      also have "unat v div 256 ^ Suc k = unat v div 256 ^ k div 256"
        by (simp add: div_mult2_eq [symmetric] mult.commute)
      also have "unat v div 256 ^ k mod 256 + 256 * (unat v div 256 ^ k div 256 mod 256 ^ n) =
          unat v div 256 ^ k mod 256 ^ Suc n"
        by (simp add: mod_mult2_eq)
      finally show ?case .
    qed simp
    from this [of 0] show ?thesis by simp
  qed
  have "ww \<noteq> 0" "ww \<le> 4" using assms by (auto simp: word_le_nat_alt)
  then show ?thesis using le by (simp add: word_bytes_def)
qed

lemma copy_from_word_ok:
  assumes "unat ww \<le> 4" and "off + unat ww \<le> length from"
  shows "copy_from_word ww from off = Inr (of_nat (le_nat (take (unat ww) (drop off from))))"
proof -
  have u: "unat (ucast ww :: size_t) = unat ww" by (simp add: unat_ucast_up)
  then have "unat (c_min (ucast ww) 4) = unat ww"
    using assms(1) by (subst c_min_eq) (simp_all add: unat_min)
  then show ?thesis using assms by (simp add: copy_from_word_def le_word_nat)
qed

lemma copy_from_word_nat:
  assumes "0 < unat ww" and "unat ww \<le> 4" and "off + unat ww \<le> length from"
  shows "\<exists>w. copy_from_word ww from off = Inr w \<and> unat w = le_nat (take (unat ww) (drop off from))"
proof -
  let ?f = "take (unat ww) (drop off from)"
  have "le_nat ?f < 256 ^ length ?f" by (rule le_nat_less)
  also have "(256::nat) ^ length ?f \<le> 256 ^ 4" using assms(2) by (intro power_increasing) simp_all
  finally have "unat (of_nat (le_nat ?f) :: u32) = le_nat ?f" by (intro unat_of_nat_small) simp
  then show ?thesis using copy_from_word_ok [OF assms(2,3)] by simp
qed

section \<open>The length of a transfer\<close>

lemma unat_int_min_max:
  assumes "unat a < 2 ^ 31" and "unat b < 2 ^ 31"
  shows "unat (int_min a b) = min (unat a) (unat b)" "unat (int_max a b) = max (unat a) (unat b)"
proof -
  have "sint a = int (unat a)" "sint b = int (unat b)"
    using assms sint_small [of a] sint_small [of b] by simp_all
  then have "sint a > sint b \<longleftrightarrow> unat b < unat a" by (simp only: of_nat_less_iff)
  then show "unat (int_min a b) = min (unat a) (unat b)" "unat (int_max a b) = max (unat a) (unat b)"
    by (auto simp: int_min_def int_max_def)
qed

abbreviation jtag_in_room :: "jtag \<Rightarrow> nat" where
  "jtag_in_room j \<equiv> capacity (jread_buf j) - length (jtag_in j)"

lemma calc_payload_len_ok:
  assumes "jtag_inv j" and ww: "ww = unat (target_word_width j)" "0 < ww" and "unat wanted < 2 ^ 31"
  obtains wr rd pl where "calc_payload_len j wanted = Inr (wr, rd, pl)"
    "unat pl = min (unat wanted) (max (length (jtag_out j) div ww) (jtag_in_room j div ww))"
    "unat wr = min (length (jtag_out j) div ww) (unat wanted)"
    "unat rd = min (jtag_in_room j div ww) (unat wanted)"
proof -
  have w: "cbuf_wf (jread_buf j)" "cbuf_wf (jwrite_buf j)" using assms(1) by (simp_all add: jtag_inv_def)
  have l: "unat (cbuf_fill_level (jwrite_buf j)) = length (jtag_out j)"
    "unat (cbuf_free_level (jread_buf j)) = jtag_in_room j"
    using cq.level [OF w(2)] cq.room [OF w(1)] by simp_all
  have lb: "length (jtag_out j) < 2 ^ 31" "jtag_in_room j < 2 ^ 31"
    using fifo_small [OF w(1)] fifo_small [OF w(2)] by simp_all
  obtain aw where aw: "to_words (target_word_width j) (cbuf_fill_level (jwrite_buf j)) = Inr aw"
    "unat aw = length (jtag_out j) div ww"
    using to_words_ok [of "target_word_width j" "cbuf_fill_level (jwrite_buf j)"] ww l lb by auto
  obtain ar where ar: "to_words (target_word_width j) (cbuf_free_level (jread_buf j)) = Inr ar"
    "unat ar = jtag_in_room j div ww"
    using to_words_ok [of "target_word_width j" "cbuf_free_level (jread_buf j)"] ww l lb by auto
  have b: "unat aw < 2 ^ 31" "unat ar < 2 ^ 31"
    unfolding aw(2) ar(2) using lb div_le_dividend le_less_trans by blast+
  define pl where "pl = int_min wanted (int_max aw ar)"
  have pl: "unat pl = min (unat wanted) (max (unat aw) (unat ar))"
    using b assms(4) by (simp add: pl_def unat_int_min_max)
  then have "unat pl < 2 ^ 31" using assms(4) by simp
  then have "unat (int_min aw pl) = min (unat aw) (unat wanted)" "unat (int_min ar pl) = min (unat ar) (unat wanted)"
    using b pl by (auto simp: unat_int_min_max)
  then show thesis using that [of "int_min aw pl" "int_min ar pl" pl] aw ar pl
    by (simp add: calc_payload_len_def pl_def Let_def)
qed

section \<open>Building the request\<close>

lemma grow_array_length:
  assumes "length a < 2 ^ 30"
  shows "length (grow_array a) = (if length a < 32768 then 2 * length a else length a + 32768)"
proof -
  have l: "unat (of_nat (length a) :: size_t) = length a" using assms by simp
  have "unat (grow_buf (of_nat (length a))) = (if length a < 32768 then 2 * length a else length a + 32768)"
    using assms l by (simp add: grow_buf_def word_less_nat_alt unat_word_ariths)
  then show ?thesis by (simp add: grow_array_def)
qed

text \<open>What the round needs of the state.\<close>

definition round_inv :: "jtag \<Rightarrow> bool" where
  "round_inv j \<longleftrightarrow> jtag_inv j \<and> cbuf_tmp_wf (jwrite_buf j) \<and> alloc_total (jalloc j) \<and>
     capacity (jread_buf j) \<le> 65536 \<and> capacity (jwrite_buf j) \<le> 65536 \<and>
     0 < unat (target_word_width j) \<and> unat (target_word_width j) \<le> 4"

definition exchange_bytes :: "jtag \<Rightarrow> u32 \<Rightarrow> u32 \<Rightarrow> nat" where
  "exchange_bytes j wr rd = (max (unat wr) (unat rd) + 4) * unat (target_word_width j)"

text \<open>The contents of a request.\<close>

definition request_ok :: "jtag \<Rightarrow> u32 \<Rightarrow> u32 \<Rightarrow> u8 list \<Rightarrow> bool" where
  "request_ok j wr rd req \<longleftrightarrow> (let ww = unat (target_word_width j) in
     le_nat (take ww req) = unat wr mod 256 ^ ww \<and> le_nat (take ww (drop ww req)) = unat rd mod 256 ^ ww \<and>
     take (unat wr * ww) (drop (2 * ww) req) = take (unat wr * ww) (jtag_out j))"

lemma build_jtag_req_ok:
  assumes "round_inv j" and ww: "ww = unat (target_word_width j)" and "unat wr * ww \<le> length (jtag_out j)"
    and n: "n = exchange_bytes j wr rd" "n < 2 ^ 30" and "n \<le> length req" and "length req < 2 ^ 30"
  shows "\<exists>b req'. build_jtag_req j wr rd req = Inr (j\<lparr>jwrite_buf := b\<rparr>, req', int n) \<and>
    length req' = length req \<and> request_ok j wr rd req' \<and> cbuf_wf b \<and> cbuf_tmp_wf b \<and>
    contents b = jtag_out j \<and> capacity b = capacity (jwrite_buf j)"
proof -
  have J: "cbuf_wf (jwrite_buf j)" "cbuf_tmp_wf (jwrite_buf j)" "alloc_ok (jalloc j)"
    "\<And>k. jalloc j k \<noteq> None" "0 < ww" "ww \<le> 4"
    using assms(1) ww by (auto simp: round_inv_def jtag_inv_def alloc_total_def)
  have m: "(max (unat wr) (unat rd) + 4) * ww = n" using n(1) ww by (simp add: exchange_bytes_def)
  then have "(max (unat wr) (unat rd) + 4) * 1 \<le> n" using J(5) by (metis One_nat_def Suc_leI mult_le_mono2)
  then have "max (unat wr) (unat rd) + 4 \<le> n" by (simp only: mult_1_right)
  then have b: "max (unat wr) (unat rd) + 4 < 2 ^ 30" using n(2) by (rule le_less_trans)
  have tw: "unat (int_max wr rd + 4) = max (unat wr) (unat rd) + 4"
    using b by (subst unat_add_small) (simp_all add: unat_int_min_max)
  have tb: "unat (to_bytes (target_word_width j) (int_max wr rd + 4)) = n"
    using n(2) m tw ww by (subst unat_to_bytes) (simp_all add: max_def)
  have "(unat wr + 2) * ww \<le> n" unfolding m [symmetric] by (rule mult_le_mono1) simp
  then have wle: "2 * ww + unat wr * ww \<le> n" by (simp add: algebra_simps)
  have wb: "unat (to_bytes (target_word_width j) wr) = unat wr * ww"
    using n(2) wle ww by (subst unat_to_bytes) simp_all
  define z where "z = replicate n (0 :: u8) @ drop n req"
  have lz: "length z = length req" using assms(6) by (simp add: z_def)
  obtain h1 where h1: "word_bytes (target_word_width j) wr = Inr h1" "length h1 = ww" "le_nat h1 = unat wr mod 256 ^ ww"
    using word_bytes_ok [of "target_word_width j" wr] J(5,6) ww by auto
  obtain h2 where h2: "word_bytes (target_word_width j) rd = Inr h2" "length h2 = ww" "le_nat h2 = unat rd mod 256 ^ ww"
    using word_bytes_ok [of "target_word_width j" rd] J(5,6) ww by auto
  define r1 where "r1 = h1 @ drop ww z"
  define r2 where "r2 = h1 @ h2 @ drop (2 * ww) z"
  have w2: "2 * ww \<le> length req" using wle assms(6) by simp
  have c1: "copy_to_word (target_word_width j) wr z 0 = Inr r1"
    using h1 w2 lz by (simp add: copy_to_word_def memcpy_ok r1_def)
  have c2: "copy_to_word (target_word_width j) rd r1 ww = Inr r2"
    using h1(2) h2 w2 lz by (simp add: copy_to_word_def memcpy_ok r1_def r2_def mult_2)
  have lr2: "length r2 = length req" using h1(2) h2(2) w2 lz by (simp add: r2_def)
  obtain b p where P: "cbuf_peek (jalloc j) (jwrite_buf j) (to_bytes (target_word_width j) wr) = Inr (b, p, 0)"
    "cbuf_wf b" "cbuf_tmp_wf b" "contents b = jtag_out j" "capacity b = capacity (jwrite_buf j)"
    "ptr_load b (case p of None \<Rightarrow> Null_Ptr | Some p \<Rightarrow> p) (unat wr * ww) = Inr (take (unat wr * ww) (jtag_out j))"
  proof (cases "to_bytes (target_word_width j) wr = 0")
    case True
    then have "unat wr * ww = 0" using wb by simp
    then show thesis using that [of "jwrite_buf j" None] True J by (simp add: cbuf_peek_zero ptr_load_def)
  next
    case False
    have "unat (to_bytes (target_word_width j) wr) \<le> cbuf_fill (jwrite_buf j)"
      using assms(3) wb by simp
    from J(1-3) this False show thesis
    proof (cases rule: cbuf_peek_cases)
      case (ok b' p)
      then show thesis using that [of b' "Some p"] wb by simp
    next
      case (no_memory b' k)
      then show thesis using J(4) by simp
    qed
  qed
  define r3 where "r3 = h1 @ h2 @ take (unat wr * ww) (jtag_out j) @ drop (2 * ww + unat wr * ww) z"
  have c3: "memcpy r2 (ww * 2) (take (unat wr * ww) (jtag_out j)) 0 (unat wr * ww) = Inr r3"
    using h1(2) h2(2) lr2 wle assms(3,6) lz
    by (subst memcpy_ok) (simp_all add: r2_def r3_def mult_2 mult_2_right add.commute add.left_commute)
  have fits: "\<not> to_bytes (target_word_width j) (int_max wr rd + 4) > of_nat (length req)"
    using tb assms(6,7) by (simp add: word_less_nat_alt)
  have sz: "sint (ucast (to_bytes (target_word_width j) (int_max wr rd + 4)) :: u32) = int n"
    using sint_to_int [of "to_bytes (target_word_width j) (int_max wr rd + 4)"] tb n(2) by (simp add: to_int_def)
  have "build_jtag_req j wr rd req = Inr (j\<lparr>jwrite_buf := b\<rparr>, r3, int n)"
    using fits c1 c2 P(1,6) c3 sz unfolding build_jtag_req_def Let_def tb wb z_def [symmetric] ww [symmetric]
    by simp
  moreover have "request_ok j wr rd r3"
    using h1 h2 assms(3) by (simp add: request_ok_def Let_def r3_def flip: ww)
  moreover have "length r3 = length req"
    using h1(2) h2(2) lz wle assms(3,6) by (simp add: r3_def)
  ultimately show ?thesis using P by blast
qed

lemma build_jtag_req_short:
  assumes "round_inv j" and n: "n = exchange_bytes j wr rd" "n < 2 ^ 30" and "length req < n"
  shows "build_jtag_req j wr rd req = Inr (j, req, - ENOMEM)"
proof -
  have ww: "0 < unat (target_word_width j)" using assms(1) by (simp add: round_inv_def)
  have m: "(max (unat wr) (unat rd) + 4) * unat (target_word_width j) = n"
    using n(1) by (simp add: exchange_bytes_def)
  then have "(max (unat wr) (unat rd) + 4) * 1 \<le> n" using ww by (metis One_nat_def Suc_leI mult_le_mono2)
  then have "max (unat wr) (unat rd) + 4 \<le> n" by (simp only: mult_1_right)
  then have b: "max (unat wr) (unat rd) + 4 < 2 ^ 30" using n(2) by (rule le_less_trans)
  have "unat (int_max wr rd + 4) = max (unat wr) (unat rd) + 4"
    using b by (subst unat_add_small) (simp_all add: unat_int_min_max)
  then have "unat (to_bytes (target_word_width j) (int_max wr rd + 4)) = n"
    using n(2) m by (subst unat_to_bytes) simp_all
  then have "to_bytes (target_word_width j) (int_max wr rd + 4) > of_nat (length req)"
    using assms(4) n(2) by (simp add: word_less_nat_alt)
  then show ?thesis by (simp add: build_jtag_req_def Let_def)
qed

text \<open>The arrays grow until the request fits.\<close>

lemma build_loop_ok:
  assumes "round_inv j" and "unat wr * unat (target_word_width j) \<le> length (jtag_out j)"
    and "n = exchange_bytes j wr rd" and "n \<le> length (buf_tx p) + 16384 * k" and "n \<le> 2 ^ 20"
    and "16384 \<le> length (buf_tx p)" and "length (buf_tx p) \<le> 2 ^ 21" and "length (buf_rx p) = length (buf_tx p)"
  shows "\<exists>b p'. build_loop (Suc k) j wr rd p = Inr (j\<lparr>jwrite_buf := b\<rparr>, p', int n) \<and>
    request_ok j wr rd (buf_tx p') \<and> n \<le> length (buf_tx p') \<and> length (buf_rx p') = length (buf_tx p') \<and>
    length (buf_tx p) \<le> length (buf_tx p') \<and> length (buf_tx p') \<le> 2 ^ 21 \<and>
    wanted_words p' = wanted_words p \<and> min_wanted_words p' = min_wanted_words p \<and>
    cbuf_wf b \<and> cbuf_tmp_wf b \<and> contents b = jtag_out j \<and> capacity b = capacity (jwrite_buf j)"
  using assms(3-)
proof (induction k arbitrary: p)
  case 0
  obtain b req' where "build_jtag_req j wr rd (buf_tx p) = Inr (j\<lparr>jwrite_buf := b\<rparr>, req', int n)"
    "length req' = length (buf_tx p)" "request_ok j wr rd req'" "cbuf_wf b" "cbuf_tmp_wf b"
    "contents b = jtag_out j" "capacity b = capacity (jwrite_buf j)"
    using build_jtag_req_ok [OF assms(1) refl assms(2), of n rd "buf_tx p"] 0 by auto
  then show ?case using 0 by (simp add: ENOMEM_def) blast
next
  case (Suc k)
  show ?case
  proof (cases "n \<le> length (buf_tx p)")
    case True
    obtain b req' where "build_jtag_req j wr rd (buf_tx p) = Inr (j\<lparr>jwrite_buf := b\<rparr>, req', int n)"
      "length req' = length (buf_tx p)" "request_ok j wr rd req'" "cbuf_wf b" "cbuf_tmp_wf b"
      "contents b = jtag_out j" "capacity b = capacity (jwrite_buf j)"
      using build_jtag_req_ok [OF assms(1) refl assms(2), of n rd "buf_tx p"] Suc.prems True by auto
    then show ?thesis using Suc.prems True by (simp add: ENOMEM_def) blast
  next
    case False
    have "build_jtag_req j wr rd (buf_tx p) = Inr (j, buf_tx p, - ENOMEM)"
      using build_jtag_req_short [OF assms(1)] Suc.prems False by simp
    moreover define q where "q = p\<lparr>buf_tx := grow_array (buf_tx p), buf_rx := grow_array (buf_rx p)\<rparr>"
    ultimately have step: "build_loop (Suc (Suc k)) j wr rd p = build_loop (Suc k) j wr rd q" by simp
    have g: "length (buf_tx q) = (if length (buf_tx p) < 32768 then 2 * length (buf_tx p) else length (buf_tx p) + 32768)"
      "length (buf_rx q) = length (buf_tx q)" "wanted_words q = wanted_words p" "min_wanted_words q = min_wanted_words p"
      using Suc.prems by (simp_all add: q_def grow_array_length)
    then have len: "length (buf_tx p) + 16384 \<le> length (buf_tx q)" "length (buf_tx q) \<le> 2 ^ 21"
      using Suc.prems False by auto
    show ?thesis
      using Suc.IH [of q] Suc.prems(1,2,3) len g(2-) unfolding step by (auto intro: le_trans)
  qed
qed

section \<open>The scan\<close>

lemma write_b_all:
  assumes "tx_script l = []" and "length bs < 2 ^ 31"
  shows "fst (write_b l bs) = l\<lparr>tx := tx l @ bs\<rparr>"
  using assms by (subst write_b_def, subst write_b_from.simps) (simp add: tty_write_def)

text \<open>
  A socket that takes everything and returns, whatever the request is, a response with the bytes \<open>r\<close>: cut
  into reads of which none is longer than the room in the buffer and each holds the end of a field.
\<close>

definition answers :: "line \<Rightarrow> nat \<Rightarrow> u8 list \<Rightarrow> rd_event list \<Rightarrow> bool" where
  "answers l n r rest \<longleftrightarrow> tx_script l = [] \<and> length r = n \<and> (\<exists>chunks. rx l = map Rx chunks @ rest \<and>
     fits 2048 0 0 chunks \<and> 0x1a \<notin> set (butlast (concat chunks)) \<and>
     absorb n [] [] (concat chunks) = Some ([], r, True))"

lemma absorb_end_field:
  "absorb m P out cs = Some (P', out', True) \<Longrightarrow> P' = []"
  by (induction cs arbitrary: P out) (auto split: if_splits)

lemma jtag_drscan_ok:
  assumes "answers l (length req) r rest" and "length req \<le> 2 ^ 18" and "length resp0 = length req"
  shows "jtag_drscan l req resp0 = Inr (l\<lparr>tx := tx l @ command_text req, rx := rest\<rparr>, r, 0)"
proof -
  obtain chunks where c: "tx_script l = []" "length r = length req" "rx l = map Rx chunks @ rest"
    "fits 2048 0 0 chunks" "0x1a \<notin> set (butlast (concat chunks))"
    "absorb (length resp0) [] [] (concat chunks) = Some ([], r, True)"
    using assms by (auto simp: answers_def)
  have lb: "length (command_text req) \<le> OOCD_CMD_MAXLEN"
    using body_text_length [of req] assms(2)
    by (simp add: command_text_def OOCD_CMDSTART_def OOCD_CMDEND_def ascii_def OOCD_CMD_MAXLEN_def)
  define l1 where "l1 = l\<lparr>tx := tx l @ command_text req\<rparr>"
  have w: "jtag_drscan_write l req = Inr (l1, 0)"
    using lb c(1) by (simp add: jtag_drscan_write_eq write_b_all OOCD_CMD_MAXLEN_def l1_def)
  let ?d = "\<lparr>dbuf = replicate 2048 0, buf_pos = 0, field_start = 0, field_end = 0, resp = resp0, resp_pos = 0\<rparr>"
  have "\<exists>d'. drscan_loop l1 ?d = Inr (l1\<lparr>rx := rest\<rparr>, d', 0) \<and> resp d' = r @ drop (length r) resp0"
    using c assms(2,3) by (intro drscan_loop_ok [where P' = "[]"]) (simp_all add: l1_def reading_def)
  then obtain d' where "drscan_loop l1 ?d = Inr (l1\<lparr>rx := rest\<rparr>, d', 0)" "resp d' = r"
    using c(2) assms(3) by auto
  then show ?thesis using w by (simp add: jtag_drscan_def jtag_drscan_read_def l1_def)
qed

section \<open>The response\<close>

lemma parse_jtag_resp_ok:
  assumes "round_inv j" and ww: "ww = unat (target_word_width j)"
    and "4 * ww \<le> n" and "n \<le> length response" and "n < 2 ^ 30"
    and a: "a = le_nat (take ww (drop (n - 2 * ww) response))" "a * ww \<le> length (jtag_out j)"
    and g: "g = le_nat (take ww (drop (n - ww) response))" "g * ww \<le> jtag_in_room j" "(g + 4) * ww \<le> n"
  shows "\<exists>j' aw gw. parse_jtag_resp j response n = Inr (j', aw, gw) \<and> unat aw = a \<and> unat gw = g \<and>
    round_inv j' \<and> jtag_out j' = drop (a * ww) (jtag_out j) \<and>
    jtag_in j' = jtag_in j @ take (g * ww) (drop (2 * ww) response) \<and>
    target_word_width j' = target_word_width j \<and> jsock j' = jsock j"
proof -
  have J: "cbuf_wf (jwrite_buf j)" "cbuf_wf (jread_buf j)" "0 < ww" "ww \<le> 4"
    using assms(1) ww by (simp_all add: round_inv_def jtag_inv_def)
  have n2: "\<not> n < ww * 2" using assms(3) by simp
  have off: "n - ww * 2 + ww \<le> length response" "n - ww + ww \<le> length response"
    using assms(3,4) by simp_all
  obtain aw where aw: "copy_from_word (target_word_width j) response (n - ww * 2) = Inr aw" "unat aw = a"
    using copy_from_word_nat [OF _ _ off(1) [unfolded ww]] J(3,4) a(1) unfolding ww
    by (auto simp: mult.commute)
  obtain gw where gw: "copy_from_word (target_word_width j) response (n - ww) = Inr gw" "unat gw = g"
    using copy_from_word_nat [OF _ _ off(2) [unfolded ww]] J(3,4) g(1) unfolding ww by auto
  have small: "length (jtag_out j) < 2 ^ 31" "jtag_in_room j < 2 ^ 31"
    using fifo_small [OF J(1)] fifo_small [OF J(2)] by simp_all
  have tb: "unat (to_bytes (target_word_width j) aw) = a * ww" "unat (to_bytes (target_word_width j) gw) = g * ww"
    using aw(2) gw(2) a(2) g(2) small by (subst unat_to_bytes; simp flip: ww)+
  obtain wb where wb: "cbuf_discard (jwrite_buf j) (to_bytes (target_word_width j) aw) = (wb, 0)" "cbuf_wf wb"
    "capacity wb = capacity (jwrite_buf j)" "contents wb = drop (a * ww) (jtag_out j)"
    using cq.drop_front [OF J(1), of "to_bytes (target_word_width j) aw"] tb a(2) by auto
  have src: "g * ww \<le> length (drop (ww * 2) response)"
    using g(3) assms(4) by (simp add: algebra_simps)
  obtain rb where rb: "cbuf_write (jread_buf j) (drop (ww * 2) response) (to_bytes (target_word_width j) gw) = Inr (rb, 0)"
    "cbuf_wf rb" "capacity rb = capacity (jread_buf j)"
    "contents rb = jtag_in j @ take (g * ww) (drop (2 * ww) response)"
    using cq.put [OF J(2), of "to_bytes (target_word_width j) gw" "drop (ww * 2) response"] tb g(2) src
    by (auto simp: mult.commute)
  have tmp: "cbuf_tmp_wf wb"
    using cbuf_discard_tmp_wf [of "jwrite_buf j" "to_bytes (target_word_width j) aw"] wb(1) assms(1)
    by (simp add: round_inv_def)
  have "parse_jtag_resp j response n = Inr (j\<lparr>jwrite_buf := wb, jread_buf := rb\<rparr>, aw, gw)"
    using n2 aw(1) gw(1) wb(1) rb(1) by (simp add: parse_jtag_resp_def Let_def flip: ww)
  then show ?thesis using aw(2) gw(2) wb rb tmp assms(1) by (simp add: round_inv_def jtag_inv_def)
qed

section \<open>The number of words wanted\<close>

lemma scale_wanted_ok:
  assumes "unat wanted < 2 ^ 30"
  shows "\<exists>w. scale_wanted wanted acked wr got rd = Inr w \<and> unat w < 2 ^ 31"
proof -
  have "unat wanted * 3 div 2 < 2 ^ 31" "unat wanted * 3 div 10 < 2 ^ 31" using assms by simp_all
  moreover from this have "unat (of_nat (unat wanted * 3 div 2) :: u32) = unat wanted * 3 div 2"
    "unat (of_nat (unat wanted * 3 div 10) :: u32) = unat wanted * 3 div 10"
    by (auto intro!: unat_of_nat_small simp del: of_nat_mult)
  ultimately show ?thesis using assms by (simp add: scale_wanted_def del: of_nat_mult)
qed

lemma clamp_wanted_ok:
  assumes "unat ww \<le> 3" and "0 < unat ww" and "unat minw < 2 ^ 31" and "unat w < 2 ^ 31"
  shows "\<exists>w'. clamp_wanted ww minw w = Inr w' \<and>
    unat w' = min (max (unat minw) (min (unat w) (256 ^ unat ww - 2))) 15000"
proof -
  have s: "unat (ww * 8) = 8 * unat ww" using assms(1) by (simp add: unat_word_ariths)
  consider "unat ww = 1" | "unat ww = 2" | "unat ww = 3" using assms(1,2) by linarith
  then have l: "unat (push_bit (unat (ww * 8)) 1 - 2 :: u32) = 256 ^ unat ww - 2"
    unfolding s by cases (simp_all add: push_bit_eq_mult)
  have "(256::nat) ^ unat ww \<le> 256 ^ 3" using assms(1) by (intro power_increasing) simp_all
  then have lb: "unat (push_bit (unat (ww * 8)) 1 - 2 :: u32) < 2 ^ 31" unfolding l by simp
  have w1: "unat (int_min w (push_bit (unat (ww * 8)) 1 - 2)) = min (unat w) (256 ^ unat ww - 2)"
    using assms(4) lb l by (simp add: unat_int_min_max)
  then have w1b: "unat (int_min w (push_bit (unat (ww * 8)) 1 - 2)) < 2 ^ 31" using assms(4) by simp
  have w2: "unat (int_max minw (int_min w (push_bit (unat (ww * 8)) 1 - 2))) =
      max (unat minw) (min (unat w) (256 ^ unat ww - 2))"
    using assms(3) w1b w1 by (simp add: unat_int_min_max)
  have "unat (int_min (int_max minw (int_min w (push_bit (unat (ww * 8)) 1 - 2))) MAX_PAYLOAD_WORDS) =
      min (max (unat minw) (min (unat w) (256 ^ unat ww - 2))) 15000"
    using w2 assms(3,4) w1b by (subst unat_int_min_max) (simp_all add: MAX_PAYLOAD_WORDS_def)
  moreover have "\<not> 31 \<le> unat (ww * 8)" using s assms(1) by simp
  ultimately show ?thesis by (simp add: clamp_wanted_def Let_def)
qed

section \<open>The round\<close>

text \<open>The words offered and asked for, and the state of the local variables.\<close>

definition offered :: "jtag \<Rightarrow> poll \<Rightarrow> nat" where
  "offered j p = min (length (jtag_out j) div unat (target_word_width j)) (unat (wanted_words p))"

definition asked :: "jtag \<Rightarrow> poll \<Rightarrow> nat" where
  "asked j p = min (jtag_in_room j div unat (target_word_width j)) (unat (wanted_words p))"

definition round_bytes :: "jtag \<Rightarrow> poll \<Rightarrow> nat" where
  "round_bytes j p = (max (offered j p) (asked j p) + 4) * unat (target_word_width j)"

definition poll_inv :: "poll \<Rightarrow> bool" where
  "poll_inv p \<longleftrightarrow> 16384 \<le> length (buf_tx p) \<and> length (buf_tx p) \<le> 2 ^ 21 \<and>
     length (buf_rx p) = length (buf_tx p) \<and> unat (wanted_words p) < 2 ^ 30 \<and> unat (min_wanted_words p) < 2 ^ 31"

lemma words_le: "(w::nat) \<le> n div ww \<Longrightarrow> w * ww \<le> n"
  by (metis div_times_less_eq_dividend mult_le_mono1 order_trans)

text \<open>Up to the response, for every width.\<close>

lemma poll_round_request:
  assumes "round_inv j" and "poll_inv p" and "sock_open j" and ww: "ww = unat (target_word_width j)"
    and n: "n = round_bytes j p" and ans: "answers (jsock j) n r rest"
    and a: "a = le_nat (take ww (drop (n - 2 * ww) r))" "a \<le> offered j p"
    and g: "g = le_nat (take ww (drop (n - ww) r))" "g \<le> asked j p"
  obtains j' p' req acked got wr rd where "poll_round j p =
      cbind (scale_wanted (wanted_words p) acked wr got rd) (\<lambda>w1.
      cbind (clamp_wanted (target_word_width j) (min_wanted_words p) w1) (\<lambda>w2. Inr (j', p'\<lparr>wanted_words := w2\<rparr>, True)))"
    "round_inv j'" "target_word_width j' = target_word_width j" "jsock j' = (jsock j)\<lparr>tx := tx (jsock j) @ command_text req, rx := rest\<rparr>"
    "length req = n" "le_nat (take ww req) = offered j p mod 256 ^ ww"
    "le_nat (take ww (drop ww req)) = asked j p mod 256 ^ ww"
    "take (offered j p * ww) (drop (2 * ww) req) = take (offered j p * ww) (jtag_out j)"
    "jtag_out j' = drop (a * ww) (jtag_out j)" "jtag_in j' = jtag_in j @ take (g * ww) (drop (2 * ww) r)"
    "poll_inv p'" "min_wanted_words p' = min_wanted_words p"
proof -
  have J: "jtag_inv j" "0 < ww" "ww \<le> 4" "capacity (jread_buf j) \<le> 65536" "capacity (jwrite_buf j) \<le> 65536"
    using assms(1) ww by (simp_all add: round_inv_def)
  have Q: "16384 \<le> length (buf_tx p)" "length (buf_tx p) \<le> 2 ^ 21" "length (buf_rx p) = length (buf_tx p)"
    "unat (wanted_words p) < 2 ^ 31" using assms(2) by (simp_all add: poll_inv_def)
  obtain wr rd pl where P: "calc_payload_len j (wanted_words p) = Inr (wr, rd, pl)"
    "unat wr = offered j p" "unat rd = asked j p"
    using calc_payload_len_ok [OF J(1) ww J(2) Q(4)] by (metis asked_def offered_def ww)
  have nt: "n = exchange_bytes j wr rd" using n P(2,3) by (simp add: exchange_bytes_def round_bytes_def)
  have ow: "offered j p * ww \<le> length (jtag_out j)" "asked j p * ww \<le> jtag_in_room j"
    by (rule words_le; simp add: offered_def asked_def ww)+
  have "length (jtag_out j) \<le> 65536"
    using J(1,5) cq.bounded [of "jwrite_buf j"] by (simp add: jtag_inv_def)
  then have "max (offered j p) (asked j p) * ww \<le> 65536" using ow J(4) by (auto simp: max_def)
  then have nb: "n \<le> 65536 + 16" using n J(3) ww by (simp add: round_bytes_def add_mult_distrib)
  obtain b p1 where B: "build_loop BUILD_ATTEMPTS j wr rd p = Inr (j\<lparr>jwrite_buf := b\<rparr>, p1, int n)"
    "request_ok j wr rd (buf_tx p1)" "n \<le> length (buf_tx p1)" "length (buf_rx p1) = length (buf_tx p1)"
    "length (buf_tx p) \<le> length (buf_tx p1)" "length (buf_tx p1) \<le> 2 ^ 21"
    "wanted_words p1 = wanted_words p" "min_wanted_words p1 = min_wanted_words p"
    "cbuf_wf b" "cbuf_tmp_wf b" "contents b = jtag_out j" "capacity b = capacity (jwrite_buf j)"
    using build_loop_ok [OF assms(1) _ nt, of p 63] ow(1) P(2) ww nb Q by (auto simp: BUILD_ATTEMPTS_def)
  define j1 where "j1 = j\<lparr>jwrite_buf := b\<rparr>"
  define req where "req = take n (buf_tx p1)"
  have lreq: "length req = n" using B(3) by (simp add: req_def)
  have four: "4 * ww \<le> n" using n ww by (simp add: round_bytes_def)
  define j2 where "j2 = j1\<lparr>jsock := (jsock j)\<lparr>tx := tx (jsock j) @ command_text req, rx := rest\<rparr>\<rparr>"
  have d: "backend_drscan j1 req (take n (buf_rx p1)) = Inr (j2, r, 0)"
    using jtag_drscan_ok [of "jsock j" req r rest "take n (buf_rx p1)"] ans lreq nb B(3,4) assms(3)
    by (simp add: backend_drscan_def j1_def j2_def)
  have inv2: "round_inv j2" "target_word_width j2 = target_word_width j" "jtag_out j2 = jtag_out j" "jtag_in j2 = jtag_in j"
    "jtag_in_room j2 = jtag_in_room j" "capacity (jread_buf j2) = capacity (jread_buf j)" "jread_buf j2 = jread_buf j"
    using assms(1) B(9-12) by (simp_all add: j2_def j1_def round_inv_def jtag_inv_def)
  have lr: "length r = n" using ans by (simp add: answers_def)
  define rx' where "rx' = r @ drop n (buf_rx p1)"
  have cut: "take ww (drop (n - 2 * ww) rx') = take ww (drop (n - 2 * ww) r)"
    "take ww (drop (n - ww) rx') = take ww (drop (n - ww) r)"
    using lr four by (simp_all add: rx'_def)
  have gb: "(g + 4) * ww \<le> n"
    using g(2) unfolding n round_bytes_def ww by (intro mult_le_mono1) simp
  have abr: "a * ww \<le> length (jtag_out j)" "g * ww \<le> jtag_in_room j"
    using a(2) g(2) ow by (meson mult_le_mono1 order_trans)+
  obtain j3 aw gw where R: "parse_jtag_resp j2 rx' n = Inr (j3, aw, gw)" "round_inv j3"
    "jtag_out j3 = drop (a * ww) (jtag_out j)" "jtag_in j3 = jtag_in j @ take (g * ww) (drop (2 * ww) rx')"
    "target_word_width j3 = target_word_width j" "jsock j3 = jsock j2"
    using parse_jtag_resp_ok [of j2 ww n rx' a g] inv2 ww four nb lr a(1) g(1) cut gb abr
    by (auto simp: rx'_def)
  have gcut: "take (g * ww) (drop (2 * ww) rx') = take (g * ww) (drop (2 * ww) r)"
    using lr gb by (simp add: rx'_def algebra_simps)
  define p2 where "p2 = p1\<lparr>buf_rx := rx'\<rparr>"
  have eq: "poll_round j p =
      cbind (scale_wanted (wanted_words p) aw wr gw rd) (\<lambda>w1.
      cbind (clamp_wanted (target_word_width j) (min_wanted_words p) w1) (\<lambda>w2. Inr (j3, p2\<lparr>wanted_words := w2\<rparr>, True)))"
    using P(1) B(1,7,8) d R(1,5) by (simp add: poll_round_def j1_def [symmetric] req_def [symmetric] rx'_def [symmetric] p2_def)
  have "le_nat (take ww req) = offered j p mod 256 ^ ww" "le_nat (take ww (drop ww req)) = asked j p mod 256 ^ ww"
    "take (offered j p * ww) (drop (2 * ww) req) = take (offered j p * ww) (jtag_out j)"
  proof -
    have m: "max (offered j p) (asked j p) * ww + 4 * ww = n" using n ww by (simp add: round_bytes_def algebra_simps)
    moreover have "offered j p * ww \<le> max (offered j p) (asked j p) * ww" by (intro mult_le_mono1) simp
    ultimately have o: "offered j p * ww + 2 * ww \<le> n" by linarith
    have "take ww req = take ww (buf_tx p1)" "take ww (drop ww req) = take ww (drop ww (buf_tx p1))"
      "take (offered j p * ww) (drop (2 * ww) req) = take (offered j p * ww) (drop (2 * ww) (buf_tx p1))"
      using four o by (simp_all add: req_def drop_take min.absorb1)
    then show "le_nat (take ww req) = offered j p mod 256 ^ ww" "le_nat (take ww (drop ww req)) = asked j p mod 256 ^ ww"
      "take (offered j p * ww) (drop (2 * ww) req) = take (offered j p * ww) (jtag_out j)"
      using B(2) P(2,3) by (simp_all add: request_ok_def Let_def flip: ww)
  qed
  moreover have "poll_inv p2"
    using B(3-8) Q assms(2) lr by (simp add: p2_def rx'_def poll_inv_def)
  ultimately show thesis
    using that [OF eq R(2,5)] R(3,4,6) lreq gcut B(8) by (simp add: j2_def p2_def)
qed

end
