(* ===== verification/Jtag_Response.thy ===== *)
theory Jtag_Response
  imports Jtag_Protocol
begin

text \<open>
  Responses written by OpenOCD: fields of bytes in hexadecimal, last byte first, with a blank behind
  each but the last and the end mark behind that; and the blocking write over a script of the socket.
\<close>

section \<open>The text of a response\<close>

definition hex_field :: "u8 list \<Rightarrow> u8 list" where
  "hex_field f = concat (map hex_byte (rev f))"

fun response_text :: "u8 list list \<Rightarrow> u8 list \<Rightarrow> u8 list" where
  "response_text [] final = hex_field final @ [0x1a]"
| "response_text (f # fs) final = hex_field f @ 0x20 # response_text fs final"

lemma hex_field_facts [simp]:
  "length (hex_field f) = 2 * length f" "hex_pairs (hex_field f) = rev f"
  by (simp_all add: hex_field_def hex_pairs_hex)

lemma hex_field_delimiter: "c \<in> set (hex_field f) \<Longrightarrow> \<not> delimiter c"
  using hex_no_delimiter [of c "rev f"] by (auto simp: hex_field_def)

lemma absorb_response:
  "length out + length (concat fs) + length final \<le> m \<Longrightarrow>
     absorb m [] out (response_text fs final) = Some ([], out @ concat fs @ final, True)"
proof (induction fs arbitrary: out)
  case Nil
  then show ?case using absorb_field [of "hex_field final"] hex_field_delimiter
    by (auto simp: absorb_append)
next
  case (Cons f fs)
  have "absorb m [] out (hex_field f @ 0x20 # response_text fs final) =
      absorb m [] (out @ f) (response_text fs final)"
    using absorb_field [of "hex_field f" m "[]" out] hex_field_delimiter Cons.prems
    by (auto simp: absorb_append)
  then show ?case using Cons by simp
qed

lemma response_end: "0x1a \<notin> set (butlast (response_text fs final))" "response_text fs final \<noteq> []"
proof (induction fs)
  case Nil
  { case 1 show ?case using hex_field_delimiter by (auto simp: butlast_append) }
  { case 2 show ?case by simp }
next
  case (Cons f fs)
  { case 1 show ?case using Cons hex_field_delimiter by (auto simp: butlast_append) }
  { case 2 show ?case by simp }
qed

text \<open>What is left of the present field when the end of one has been passed.\<close>

lemma absorb_rest:
  "absorb m P out cs = Some (P', out', False) \<Longrightarrow> i < length cs \<Longrightarrow> delimiter (cs ! i) \<Longrightarrow>
     length P' + i < length cs"
proof (induction cs arbitrary: P out i)
  case (Cons c cs)
  have len: "absorb m Q o' ds = Some (P', out', False) \<Longrightarrow> length P' \<le> length Q + length ds" for Q o' ds
    by (induction ds arbitrary: Q o') (fastforce split: if_splits)+
  show ?case
  proof (cases i)
    case 0
    then have "c = 0x20" "absorb m [] (out @ rev (hex_pairs P)) cs = Some (P', out', False)"
      using Cons.prems by (auto split: if_splits)
    then show ?thesis using len 0 by fastforce
  next
    case (Suc k)
    then obtain Q o' where "absorb m Q o' cs = Some (P', out', False)"
      using Cons.prems(1) by (auto split: if_splits)
    then show ?thesis using Cons.IH [of Q o' k] Cons.prems(2,3) Suc by simp
  qed
qed simp

lemma absorb_no_end:
  "absorb m P out cs = Some (P', out', fin) \<Longrightarrow> 0x1a \<notin> set cs \<Longrightarrow> \<not> fin"
  using absorb_end by fastforce

section \<open>The blocking write\<close>

lemma write_b_from_ok:
  assumes "\<forall>e \<in> set (tx_script l). \<exists>k. e = Tx k" and "unat n \<le> length bs" and "length bs < 2 ^ 31"
    and "bs \<noteq> []"
  shows "\<exists>l'. write_b_from l bs n = (l', int (length bs)) \<and> tx l' = tx l @ drop (unat n) bs \<and> rx l' = rx l"
  using assms(1,2)
proof (induction "length (tx_script l)" arbitrary: l n rule: less_induct)
  case less
  have u: "unat (of_nat (length bs) :: size_t) = length bs" using assms(3) by simp
  have s: "sint (of_nat (length bs) :: size_t) = int (length bs)"
    using u assms(3) by (subst sint_small) simp_all
  show ?case
  proof (cases "tx_script l")
    case Nil
    have "n + of_nat (length bs - unat n) = of_nat (length bs)"
      using less.prems(2) by (simp add: of_nat_diff)
    then show ?thesis using Nil s
      by (subst write_b_from.simps) (simp add: tty_write_def Let_def)
  next
    case (Cons e r)
    obtain k where k: "e = Tx k" using less.prems(1) Cons by auto
    define j where "j = min k (length bs - unat n)"
    define l1 where "l1 = l\<lparr>tx_script := r, tx := tx l @ take k (drop (unat n) bs)\<rparr>"
    have "j \<le> length bs - unat n" by (simp add: j_def)
    then have j: "unat n + j \<le> length bs" using less.prems(2) by linarith
    then have uj: "unat (n + of_nat j) = unat n + j"
      using assms(3) by (subst unat_add_small) simp_all
    have w: "tty_write l (drop (unat n) bs) = (l1, Io j)" using Cons k by (simp add: tty_write_def l1_def j_def)
    have t: "take k (drop (unat n) bs) = take j (drop (unat n) bs)" by (simp add: j_def min_def)
    show ?thesis
    proof (cases "unat n + j < length bs")
      case True
      have "write_b_from l bs n = write_b_from l1 bs (n + of_nat j)"
        using w True uj u by (subst write_b_from.simps) (simp add: Let_def word_less_nat_alt)
      moreover have "\<exists>l'. write_b_from l1 bs (n + of_nat j) = (l', int (length bs)) \<and>
          tx l' = tx l1 @ drop (unat (n + of_nat j)) bs \<and> rx l' = rx l1"
        using less.prems(1) Cons j uj by (intro less.hyps) (auto simp: l1_def)
      ultimately show ?thesis using t uj by (simp add: l1_def) (metis append_take_drop_id drop_drop add.commute)
    next
      case False
      then have "unat n + j = length bs" using j by simp
      then have e: "n + of_nat j = of_nat (length bs)" using uj u by (simp add: word_unat_eq_iff)
      have "write_b_from l bs n = (l1, int (length bs))"
        using w e u s by (subst write_b_from.simps) (simp add: Let_def)
      moreover have "take j (drop (unat n) bs) = drop (unat n) bs"
        using \<open>unat n + j = length bs\<close> by simp
      ultimately show ?thesis using t by (simp add: l1_def)
    qed
  qed
qed

end
