(* ===== verification/Jtag_Properties.thy ===== *)
theory Jtag_Properties
  imports Jtag_Round Jtag_Response Examples
begin

text \<open>The properties of the JTAG backend, with examples.\<close>

section \<open>Rounds of the thread\<close>

text \<open>C15: A round with a target that answers properly, with words of one to three bytes, moves both byte
  streams: the request on the wire carries the oldest bytes of the write buffer behind the two header words,
  exactly the words the target took leave the write buffer, and exactly the words it gave are appended to
  the read buffer, whatever the fill levels and the wanted length; the next wanted length stays within its
  bounds.  With words of four bytes the same round ends in undefined behaviour: the limit of the wanted length
  shifts an \<open>int\<close> by 32.  A proper answer is as long as the request, says that the target took at most the words
  offered and gave at most the words asked for, and comes in reads of which each holds the end of a field
  (\<open>answers\<close>); memory for copies out of the write buffer never runs out (\<open>round_inv\<close>).\<close>

theorem jtag_round_streams:
  assumes "round_inv j" and "poll_inv p" and "sock_open j" and "ww = unat (target_word_width j)"
    and "n = round_bytes j p" and "answers (jsock j) n r rest"
    and "a = le_nat (take ww (drop (n - 2 * ww) r))" and "a \<le> offered j p"
    and "g = le_nat (take ww (drop (n - ww) r))" and "g \<le> asked j p"
  shows "if ww \<le> 3
    then \<exists>j' p' req. poll_round j p = Inr (j', p', True) \<and>
      jsock j' = (jsock j)\<lparr>tx := tx (jsock j) @ command_text req, rx := rest\<rparr> \<and>
      length req = n \<and> le_nat (take ww req) = offered j p mod 256 ^ ww \<and>
      le_nat (take ww (drop ww req)) = asked j p mod 256 ^ ww \<and>
      take (offered j p * ww) (drop (2 * ww) req) = take (offered j p * ww) (jtag_out j) \<and>
      jtag_out j' = drop (a * ww) (jtag_out j) \<and>
      jtag_in j' = jtag_in j @ take (g * ww) (drop (2 * ww) r) \<and>
      round_inv j' \<and> poll_inv p' \<and> unat (wanted_words p') \<le> 15000
    else poll_round j p = Inl Int_Overflow"
proof -
  have P: "unat (wanted_words p) < 2 ^ 30" "unat (min_wanted_words p) < 2 ^ 31" "0 < unat (target_word_width j)"
    "unat (target_word_width j) \<le> 4"
    using assms(1,2) by (simp_all add: poll_inv_def round_inv_def)
  from assms show ?thesis
  proof (cases rule: poll_round_request)
    case (1 j' p' req acked got wr rd)
    obtain w where w: "scale_wanted (wanted_words p) acked wr got rd = Inr w" "unat w < 2 ^ 31"
      using scale_wanted_ok [OF P(1)] by blast
    show ?thesis
    proof (cases "ww \<le> 3")
      case True
      obtain w' where w': "clamp_wanted (target_word_width j) (min_wanted_words p) w = Inr w'" "unat w' \<le> 15000"
        using clamp_wanted_ok [OF _ P(3,2) w(2)] True assms(4) by auto
      have "poll_round j p = Inr (j', p'\<lparr>wanted_words := w'\<rparr>, True)" using 1(1) w(1) w'(1) by simp
      moreover have "poll_inv (p'\<lparr>wanted_words := w'\<rparr>)" using 1(11) w'(2) by (simp add: poll_inv_def)
      ultimately show ?thesis using 1(2,4-10) w'(2) True by (simp only: if_True) fastforce
    next
      case False
      then have "31 \<le> unat (target_word_width j * 8)" using P(4) assms(4) by (simp add: unat_word_ariths)
      then show ?thesis using 1(1) w(1) False by (simp add: clamp_wanted_def)
    qed
  qed
qed

definition jtag0 :: "line \<Rightarrow> u32 \<Rightarrow> u8 list \<Rightarrow> u8 list \<Rightarrow> jtag" where
  "jtag0 l ww inp outp =
     \<lparr>jwrite_buf = small_buf outp, jread_buf = small_buf inp, sockadrr = 5, oocd_pid = 77,
      target_word_width = ww, target_buffer_size = 4, jthread = True, jsock = l, sock_open = True,
      lookups = [], pkgdatadir = [], oocd_popen = popen_fail, oocd_getfl = 0, oocd_setfl = 0,
      oocd_start = (0, 0), oocd_turns = [], oocd_events = [], jalloc = good_alloc,
      resp_junk = replicate 6 0, jin_waits = [], jout_waits = []\<rparr>"

lemma jtag0_simps [simp]:
  "jwrite_buf (jtag0 l ww i q) = small_buf q" "jread_buf (jtag0 l ww i q) = small_buf i"
  "target_word_width (jtag0 l ww i q) = ww" "jsock (jtag0 l ww i q) = l" "sock_open (jtag0 l ww i q)"
  by (simp_all add: jtag0_def)

lemma jtag0_inv:
  assumes "length i \<le> 8" and "length q \<le> 8" and "0 < unat ww" and "unat ww \<le> 4"
  shows "jtag_inv (jtag0 l ww i q)" "round_inv (jtag0 l ww i q)"
proof -
  show "jtag_inv (jtag0 l ww i q)" using assms by (simp add: jtag_inv_def small_buf_wf)
  moreover have "cbuf_tmp_wf (small_buf q)" by (simp add: cbuf_tmp_wf_def small_buf_def tmp_ok_def)
  moreover have "alloc_total (jalloc (jtag0 l ww i q))"
    by (simp add: jtag0_def alloc_total_def) (simp add: good_alloc_def)
  ultimately show "round_inv (jtag0 l ww i q)"
    using assms by (simp add: round_inv_def small_buf_wf)
qed

definition poll0 :: "u32 \<Rightarrow> poll" where
  "poll0 w = \<lparr>buf_tx = replicate 30008 0, buf_rx = replicate 30008 0, wanted_words = w, min_wanted_words = w\<rparr>"

lemma poll0_inv: "unat w < 2 ^ 30 \<Longrightarrow> poll_inv (poll0 w)"
  by (simp add: poll_inv_def poll0_def)

lemma answers_split:
  assumes "response_text fs final = c1 @ c2" and "length c1 \<le> 1024" and "length c2 \<le> 1024"
    and "\<exists>x \<in> set c1. delimiter x" and "\<exists>x \<in> set c2. delimiter x" and "n = length (concat fs @ final)"
  shows "answers (line_of [Rx c1, Rx c2]) n (concat fs @ final) []"
proof -
  have "absorb n [] [] (response_text fs final) = Some ([], concat fs @ final, True)"
    using absorb_response [of "[]" fs final n] assms(6) by simp
  then show ?thesis
    using response_end(1) [of fs final] assms fits_small [of "[c1, c2]" 0 0] unfolding answers_def line_of_def
    by (auto intro!: exI [of _ "[c1, c2]"] simp del: fits.simps)
qed


text \<open>A target that takes one word of two and gives one; its answer arrives in two pieces, cut inside
  a field.\<close>

definition answer_fields :: "u8 list list" where
  "answer_fields = [[0, 0, 0, 0], [0x41, 0x42, 0, 0], [0, 0, 1, 0]]"

definition answer_text :: "nat \<Rightarrow> u8 list \<times> u8 list" where
  "answer_text k = (take k (response_text answer_fields [1, 0]), drop k (response_text answer_fields [1, 0]))"

definition answer_line :: line where
  "answer_line = line_of [Rx (fst (answer_text 12)), Rx (snd (answer_text 12))]"

lemma answer_line_answers: "answers answer_line 14 [0, 0, 0, 0, 0x41, 0x42, 0, 0, 0, 0, 1, 0, 1, 0] []"
proof -
  have t: "response_text answer_fields [1, 0] =
      hex_field [0, 0, 0, 0] @ 0x20 # (hex_field [0x41, 0x42, 0, 0] @ 0x20 # (hex_field [0, 0, 1, 0] @
      0x20 # (hex_field [1, 0] @ [0x1a])))"
    by (simp add: answer_fields_def)
  have "0x20 \<in> set (fst (answer_text 12))" "0x1a \<in> set (snd (answer_text 12))"
    by (simp_all add: answer_text_def t)
  moreover have "length (response_text answer_fields [1, 0]) = 32" by (simp add: t)
  ultimately have "answers answer_line 14 (concat answer_fields @ [1, 0]) []"
    unfolding answer_line_def
    by (intro answers_split) (auto simp: answer_text_def answer_fields_def intro: bexI [of _ "0x20"] bexI [of _ "0x1a"])
  then show ?thesis by (simp add: answer_fields_def)
qed

theorem jtag_round_streams_witness:
  "\<exists>j' p' req. poll_round (jtag0 answer_line 2 [9] [1, 2, 3, 4, 5]) (poll0 4) = Inr (j', p', True) \<and>
    length req = 14 \<and> le_nat (take 2 req) = 2 \<and> take 4 (drop 4 req) = [1, 2, 3, 4] \<and>
    jtag_out j' = [3, 4, 5] \<and> jtag_in j' = [9, 0x41, 0x42]"
proof -
  let ?j = "jtag0 answer_line 2 [9] [1, 2, 3, 4, 5]"
  let ?r = "[0, 0, 0, 0, 0x41, 0x42, 0, 0, 0, 0, 1, 0, 1, 0] :: u8 list"
  have o: "offered ?j (poll0 4) = 2" "asked ?j (poll0 4) = 3"
    by (simp_all add: offered_def asked_def poll0_def small_buf_wf)
  then have n: "14 = round_bytes ?j (poll0 4)" by (simp add: round_bytes_def)
  have a: "1 = le_nat (take 2 (drop (14 - 2 * 2) ?r))" "1 = le_nat (take 2 (drop (14 - 2) ?r))" by simp_all
  have "if (2::nat) \<le> 3
    then \<exists>j' p' req. poll_round ?j (poll0 4) = Inr (j', p', True) \<and>
      jsock j' = (jsock ?j)\<lparr>tx := tx (jsock ?j) @ command_text req, rx := []\<rparr> \<and>
      length req = 14 \<and> le_nat (take 2 req) = offered ?j (poll0 4) mod 256 ^ 2 \<and>
      le_nat (take 2 (drop 2 req)) = asked ?j (poll0 4) mod 256 ^ 2 \<and>
      take (offered ?j (poll0 4) * 2) (drop (2 * 2) req) = take (offered ?j (poll0 4) * 2) (jtag_out ?j) \<and>
      jtag_out j' = drop (1 * 2) (jtag_out ?j) \<and> jtag_in j' = jtag_in ?j @ take (1 * 2) (drop (2 * 2) ?r) \<and>
      round_inv j' \<and> poll_inv p' \<and> unat (wanted_words p') \<le> 15000
    else poll_round ?j (poll0 4) = Inl Int_Overflow"
    by (rule jtag_round_streams [OF jtag0_inv(2) poll0_inv _ _ n _ a(1) _ a(2)])
      (use o answer_line_answers in simp_all)
  then have "\<exists>j' p' req. poll_round ?j (poll0 4) = Inr (j', p', True) \<and>
    jsock j' = (jsock ?j)\<lparr>tx := tx (jsock ?j) @ command_text req, rx := []\<rparr> \<and>
    length req = 14 \<and> le_nat (take 2 req) = offered ?j (poll0 4) mod 256 ^ 2 \<and>
    le_nat (take 2 (drop 2 req)) = asked ?j (poll0 4) mod 256 ^ 2 \<and>
    take (offered ?j (poll0 4) * 2) (drop (2 * 2) req) = take (offered ?j (poll0 4) * 2) (jtag_out ?j) \<and>
    jtag_out j' = drop (1 * 2) (jtag_out ?j) \<and> jtag_in j' = jtag_in ?j @ take (1 * 2) (drop (2 * 2) ?r) \<and>
    round_inv j' \<and> poll_inv p' \<and> unat (wanted_words p') \<le> 15000"
    by (simp only: if_True numeral_le_iff semiring_norm)
  then show ?thesis unfolding o by (auto simp: small_buf_wf)
qed

section \<open>Commands\<close>

text \<open>C17: A request of up to 299588 bytes is written without an abort, and read the way OpenOCD reads
  numerals the command says for each four bytes of it the number of bits and the little-endian
  value; the error for a command that is too long can never be returned.\<close>

theorem jtag_command_meaning:
  assumes "length req \<le> 299588"
  shows "\<exists>body. jtag_drscan_write l req = Inr (fst (write_b l (OOCD_CMDSTART @ body @ OOCD_CMDEND)), 0) \<and>
    oocd_fields body = map (\<lambda>f. (8 * length f, le_nat f)) (words4 req) \<and>
    (\<forall>l' rv req'. jtag_drscan_write l req' = Inr (l', rv) \<longrightarrow> rv = 0)"
proof -
  have "(length req + 3) div 4 \<le> 74897" using assms by simp
  then have "length (body_text req) \<le> 14 * 74897" using body_text_length [of req] by linarith
  then have "length (command_text req) \<le> OOCD_CMD_MAXLEN"
    by (simp add: command_text_def OOCD_CMDSTART_def OOCD_CMDEND_def ascii_def OOCD_CMD_MAXLEN_def)
  then have w: "jtag_drscan_write l req =
      Inr (fst (write_b l (OOCD_CMDSTART @ body_text req @ OOCD_CMDEND)), 0)"
    by (simp add: jtag_drscan_write_eq) (simp add: command_text_def)
  have "\<forall>l' rv req'. jtag_drscan_write l req' = Inr (l', rv) \<longrightarrow> rv = 0"
    by (auto simp: jtag_drscan_write_eq split: if_splits)
  then show ?thesis using w oocd_fields_body by blast
qed

theorem jtag_command_meaning_witness:
  "\<exists>body. jtag_drscan_write (line_of []) [1, 2, 3, 4, 0xff, 0] =
      Inr (fst (write_b (line_of []) (OOCD_CMDSTART @ body @ OOCD_CMDEND)), 0) \<and>
    oocd_fields body = [(32, 67305985), (16, 255)]"
proof -
  have "words4 [1, 2, 3, 4, 0xff, 0 :: u8] = [[1, 2, 3, 4], [0xff, 0]]"
    by (simp add: words4.simps)
  then show ?thesis using jtag_command_meaning [of "[1, 2, 3, 4, 0xff, 0]" "line_of []"] by auto
qed

section \<open>Responses\<close>

text \<open>C16: A response is received byte for byte whatever the reads of the socket return of it, as long as each
  read returns the end of a field (\<open>jtag_response_split_fault\<close> is about the others): the fields one behind the
  other, then what the array held before, and the socket is left at what follows the end mark.  The only bound on
  a read is the one the code gives it: the room left in its buffer, of 2048 bytes at first and grown when it
  is full.\<close>

theorem jtag_response_received:
  assumes "concat chunks = response_text fs final" and "rx l = map Rx chunks @ rest"
    and "fits 2048 0 0 chunks"
    and "length (concat fs @ final) \<le> length resp0" and "length resp0 < 2 ^ 30"
  shows "jtag_drscan_read l resp0 =
    Inr (l\<lparr>rx := rest\<rparr>, concat fs @ final @ drop (length (concat fs @ final)) resp0, 0)"
proof -
  let ?d = "\<lparr>dbuf = replicate 2048 0, buf_pos = 0, field_start = 0, field_end = 0, resp = resp0, resp_pos = 0\<rparr>"
  have A: "absorb (length resp0) [] [] (concat chunks) = Some ([], concat fs @ final, True)"
    using absorb_response [of "[]" fs final "length resp0"] assms(1,4) by simp
  have E: "0x1a \<notin> set (butlast (concat chunks))" unfolding assms(1) by (rule response_end)
  have "\<exists>d'. drscan_loop l ?d = Inr (l\<lparr>rx := rest\<rparr>, d', 0) \<and>
      resp d' = (concat fs @ final) @ drop (length (concat fs @ final)) resp0"
    using assms(3,5) by (intro drscan_loop_ok [OF assms(2) _ E _ A]) (simp_all add: reading_def)
  then show ?thesis by (auto simp: jtag_drscan_read_def)
qed

definition two_fields :: "u8 list" where
  "two_fields = response_text [[1, 2], [3, 4]] [5]"

lemma two_fields_text:
  "two_fields = hex_field [1, 2] @ 0x20 # (hex_field [3, 4] @ 0x20 # (hex_field [5] @ [0x1a]))"
  by (simp add: two_fields_def)

theorem jtag_response_received_witness:
  "jtag_drscan_read (line_of [Rx (take 7 two_fields), Rx (drop 7 two_fields), Rx [7]]) [0, 0, 0, 0, 0, 9] =
    Inr (line_of [Rx [7]], [1, 2, 3, 4, 5, 9], 0)"
proof -
  have "0x20 \<in> set (take 7 two_fields)" "0x1a \<in> set (drop 7 two_fields)" "length two_fields = 13"
    by (simp_all add: two_fields_text)
  then have "fits 2048 0 0 [take 7 two_fields, drop 7 two_fields]" by (intro fits_small) auto
  from jtag_response_received [OF _ _ this, of "[[1, 2], [3, 4]]" "[5]"
      "line_of [Rx (take 7 two_fields), Rx (drop 7 two_fields), Rx [7]]" "[Rx [7]]" "[0, 0, 0, 0, 0, 9]"]
  show ?thesis by (simp add: two_fields_def line_of_def)
qed

text \<open>The same response cut elsewhere makes the function read outside its buffer: after a piece
  in which a field has ended (not with the first two characters), a piece that holds no end of a
  field makes the next end of a field a memory fault.\<close>

theorem jtag_response_split_fault:
  assumes "response_text fs final = c1 @ c2 @ c3" and "rx l = Rx c1 # Rx c2 # Rx c3 # rest"
    and "2 \<le> i" and "i < length c1" and "delimiter (c1 ! i)"
    and "c2 \<noteq> []" and "\<forall>c \<in> set c2. \<not> delimiter c" and "length (c1 @ c2 @ c3) \<le> 1024"
    and "length (concat fs @ final) \<le> length resp0" and "length resp0 < 2 ^ 30"
  shows "jtag_drscan_read l resp0 = Inl Mem_Fault"
proof -
  have A: "absorb (length resp0) [] [] (c1 @ c2 @ c3) = Some ([], concat fs @ final, True)"
    using absorb_response [of "[]" fs final "length resp0"] assms(1,9) by simp
  have ne: "c2 @ c3 \<noteq> []" using assms(6) by simp
  have "0x1a \<notin> set c1"
    using response_end(1) [of fs final] assms(1) ne by (simp add: butlast_append split: if_splits)
  obtain P1 out1 fin where a1: "absorb (length resp0) [] [] c1 = Some (P1, out1, fin)"
    using A by (auto simp: absorb_append split: option.splits)
  with \<open>0x1a \<notin> set c1\<close> have fin: "\<not> fin" using absorb_no_end by blast
  have a2: "absorb (length resp0) P1 out1 c2 = Some (P1 @ c2, out1, False)"
    using assms(7) by (rule absorb_field)
  have a3: "absorb (length resp0) (P1 @ c2) out1 c3 = Some ([], concat fs @ final, True)"
    using A a1 a2 fin by (simp add: absorb_append)
  then have "0x1a \<in> set c3" by (rule absorb_end)
  then obtain u x v where c3: "c3 = u @ x # v" "delimiter x" "\<forall>c \<in> set u. \<not> delimiter c"
    using split_list_first_prop [of c3 delimiter] by blast
  have len: "length P1 + 2 < length c1"
    using absorb_rest [of "length resp0" "[]" "[]" c1 P1 out1 i] a1 fin assms(3-5) by simp
  have "\<exists>c \<in> set c1. delimiter c" using assms(4,5) nth_mem by blast
  with assms(2,6-8,10) a1 fin a3 c3 len have "drscan_loop l \<lparr>dbuf = replicate 2048 0, buf_pos = 0,
      field_start = 0, field_end = 0, resp = resp0, resp_pos = 0\<rparr> = Inl Mem_Fault"
    by (intro drscan_loop_stale [where ?r0.0 = resp0 and u = u and x = x and v = v and r = rest and
          ?P1.0 = P1 and ?out1.0 = out1]) auto
  then show ?thesis by (simp add: jtag_drscan_read_def)
qed

theorem jtag_response_split_fault_witness:
  "jtag_drscan_read (line_of [Rx (take 6 two_fields), Rx (take 1 (drop 6 two_fields)), Rx (drop 7 two_fields)])
     [0, 0, 0, 0, 0, 9] = Inl Mem_Fault"
proof -
  have "drop 7 two_fields = drop 1 (drop 6 two_fields)" by simp
  then have t: "two_fields = take 6 two_fields @ take 1 (drop 6 two_fields) @ drop 7 two_fields"
    by (simp only: append_take_drop_id)
  have l: "length two_fields = 13" "two_fields ! 4 = 0x20" by (simp_all add: two_fields_text nth_append)
  have n: "\<forall>c \<in> set (take 1 (drop 6 two_fields)). \<not> delimiter c"
    using hex_field_delimiter [of _ "[3, 4]"] by (auto simp: two_fields_text dest: in_set_takeD in_set_dropD)
  have t': "response_text [[1, 2], [3, 4]] [5] =
      take 6 two_fields @ take 1 (drop 6 two_fields) @ drop 7 two_fields"
    unfolding two_fields_def [symmetric] by (rule t)
  have "delimiter (take 6 two_fields ! 4)" "length (take 6 two_fields @ take 1 (drop 6 two_fields) @ drop 7 two_fields) \<le> 1024"
    using l by (simp_all flip: t)
  then show ?thesis
    by (intro jtag_response_split_fault [where i = 4, OF t' _ _ _ _ _ n]) (use l in \<open>simp_all add: line_of_def\<close>)
qed

section \<open>The blocking write\<close>

text \<open>C18: Over a socket that takes any number of bytes at a time the blocking write sends everything in
  order.  When the socket is busy (\<open>EAGAIN\<close>) at first nothing is sent at all and \<open>-1\<close> returned;
  when it is busy after some bytes the last of them is sent twice.\<close>

theorem jtag_write_b_spec:
  assumes "\<forall>e \<in> set evs. \<exists>k. e = Tx k" and "bs \<noteq> []" and "length bs < 2 ^ 31" and "0 < k" and "k < length bs"
  shows "\<exists>l1 l2 l3. write_b (l\<lparr>tx_script := evs\<rparr>) bs = (l1, int (length bs)) \<and> tx l1 = tx l @ bs \<and>
    write_b (l\<lparr>tx_script := Tx_Again # evs\<rparr>) bs = (l2, - 1) \<and> tx l2 = tx l \<and>
    write_b (l\<lparr>tx_script := Tx k # Tx_Again # evs\<rparr>) bs = (l3, int (length bs)) \<and>
    tx l3 = tx l @ take k bs @ drop (k - 1) bs"
proof -
  have u: "unat (of_nat (length bs) :: size_t) = length bs" using assms(3) by simp
  obtain l1 where 1: "write_b (l\<lparr>tx_script := evs\<rparr>) bs = (l1, int (length bs))" "tx l1 = tx l @ bs"
    using write_b_from_ok [of "l\<lparr>tx_script := evs\<rparr>" 0 bs] assms(1-3) by (auto simp: write_b_def)
  have "\<not> (- 1 :: size_t) < of_nat (length bs)" unfolding not_less by (rule word_order.extremum)
  then have 2: "write_b (l\<lparr>tx_script := Tx_Again # evs\<rparr>) bs = (l\<lparr>tx_script := evs\<rparr>, - 1)"
    unfolding write_b_def by (subst write_b_from.simps) (simp add: tty_write_def Let_def)
  define l3 where "l3 = l\<lparr>tx_script := Tx_Again # evs, tx := tx l @ take k bs\<rparr>"
  define l4 where "l4 = l3\<lparr>tx_script := evs\<rparr>"
  have l3: "tty_write l3 (drop k bs) = (l4, Io_Again)" by (simp add: tty_write_def l3_def l4_def)
  have l4: "tx l4 = tx l @ take k bs" "tx_script l4 = evs" by (simp_all add: l3_def l4_def)
  have k: "unat (of_nat k :: size_t) = k" using assms(3,5) by simp
  have km: "of_nat k + - 1 = (of_nat (k - 1) :: size_t)" using assms(4) by (simp add: of_nat_diff)
  have "k - 1 < 2 ^ 31" using assms(3,5) by simp
  then have uk: "unat (of_nat (k - 1) :: size_t) = k - 1" by (rule unat_size)
  have "write_b (l\<lparr>tx_script := Tx k # Tx_Again # evs\<rparr>) bs = write_b_from l3 bs (of_nat k)"
    unfolding write_b_def using assms(5) u k
    by (subst write_b_from.simps) (simp add: tty_write_def Let_def l3_def word_less_nat_alt)
  also have "\<dots> = write_b_from l4 bs (of_nat (k - 1))"
    using assms(4,5) u uk km k l3 less_imp_diff_less [OF assms(5), of "Suc 0"]
    by (subst write_b_from.simps) (simp add: Let_def word_less_nat_alt del: of_nat_diff)
  finally have e: "write_b (l\<lparr>tx_script := Tx k # Tx_Again # evs\<rparr>) bs = write_b_from l4 bs (of_nat (k - 1))" .
  have "k - 1 \<le> length bs" using assms(5) by simp
  then have "\<exists>l'. write_b_from l4 bs (of_nat (k - 1)) = (l', int (length bs)) \<and> tx l' = tx l4 @ drop (k - 1) bs"
    using write_b_from_ok [of l4 "of_nat (k - 1)" bs, unfolded uk] assms(1-3) l4(2) by blast
  then show ?thesis using 1 2 l4(1) e by auto
qed

theorem jtag_write_b_spec_witness:
  "\<exists>l1 l2 l3. write_b ((line_of [])\<lparr>tx_script := [Tx 1, Tx 0]\<rparr>) [1, 2, 3] = (l1, 3) \<and> tx l1 = [1, 2, 3] \<and>
    write_b ((line_of [])\<lparr>tx_script := [Tx_Again, Tx 1, Tx 0]\<rparr>) [1, 2, 3] = (l2, - 1) \<and> tx l2 = [] \<and>
    write_b ((line_of [])\<lparr>tx_script := [Tx 2, Tx_Again, Tx 1, Tx 0]\<rparr>) [1, 2, 3] = (l3, 3) \<and>
    tx l3 = [1, 2, 2, 3]"
  using jtag_write_b_spec [of "[Tx 1, Tx 0]" "[1, 2, 3]" 2 "line_of []"] by (simp add: line_of_def)

section \<open>The interface\<close>

text \<open>Through the public interface a connected JTAG target is a pair of byte streams: whatever the
  sizes of the pieces, reads hand out the received bytes in order without gap, and writes append
  the bytes taken, in order, to what is scheduled for transfers, as far as there is room.\<close>

theorem jtag_api_streams:
  assumes "connected c" and "backend_functions c = jtag_backend" and "jtag_inv (backend_ctx c)"
    and "\<forall>n \<in> set ns. unat n < 2 ^ 31"
  shows "(\<exists>c' ds. read_pieces c ns = Inr (c', ds) \<and>
      ds @ jtag_in (backend_ctx c') = jtag_in (backend_ctx c) \<and>
      length ds = min (sum_list (map unat ns)) (length (jtag_in (backend_ctx c)))) \<and>
    (\<exists>c' m. write_pieces c ns src = Inr (c', drop m src) \<and>
      jtag_out (backend_ctx c') = jtag_out (backend_ctx c) @ take m src \<and>
      m = min (sum_list (map unat ns)) (min (length src) (jtag_room (backend_ctx c))))"
  using jb.read_pieces_ok [OF assms] jb.write_pieces_ok [OF assms refl, of src] by blast

definition jtag_ctx :: "jtag \<Rightarrow> jtag glip_ctx" where
  "jtag_ctx j = \<lparr>backend_options = [], num_backend_options = 0, log_fn = 1, ctx_log_priority = 3,
     caller_ctx = 0, backend_ctx = j, backend_functions = jtag_backend, connected = True\<rparr>"

theorem jtag_api_streams_witness:
  "(\<exists>c' ds. read_pieces (jtag_ctx (jtag0 (line_of []) 2 [1, 2, 3] [7])) [2, 5] = Inr (c', ds) \<and>
      ds @ jtag_in (backend_ctx c') = [1, 2, 3] \<and> length ds = 3) \<and>
    (\<exists>c'. write_pieces (jtag_ctx (jtag0 (line_of []) 2 [1, 2, 3] [7])) [2, 5] [8, 9, 10] = Inr (c', []) \<and>
      jtag_out (backend_ctx c') = [7, 8, 9, 10])"
proof -
  let ?c = "jtag_ctx (jtag0 (line_of []) 2 [1, 2, 3] [7])"
  have "jtag_inv (backend_ctx ?c)" by (simp add: jtag_ctx_def jtag0_inv)
  then have "(\<exists>c' ds. read_pieces ?c [2, 5] = Inr (c', ds) \<and>
      ds @ jtag_in (backend_ctx c') = jtag_in (backend_ctx ?c) \<and>
      length ds = min (sum_list (map unat [2, 5 :: size_t])) (length (jtag_in (backend_ctx ?c)))) \<and>
    (\<exists>c' m. write_pieces ?c [2, 5] [8, 9, 10] = Inr (c', drop m [8, 9, 10]) \<and>
      jtag_out (backend_ctx c') = jtag_out (backend_ctx ?c) @ take m [8, 9, 10] \<and>
      m = min (sum_list (map unat [2, 5 :: size_t])) (min (length [8, 9, 10 :: u8]) (jtag_room (backend_ctx ?c))))"
    by (intro jtag_api_streams) (simp_all add: jtag_ctx_def)
  then show ?thesis by (simp del: read_pieces.simps write_pieces.simps add: small_buf_wf jtag_ctx_def) auto
qed

section \<open>Where the thread stops\<close>

text \<open>With words of four bytes the first round that gets a proper answer ends in undefined behaviour:
  the limit of the wanted length shifts an \<open>int\<close> by 32.\<close>

theorem jtag_four_byte_words_stop:
  assumes "round_inv j" and "poll_inv p" and "sock_open j" and "unat (target_word_width j) = 4"
    and "n = round_bytes j p" and "answers (jsock j) n r rest"
    and "le_nat (take 4 (drop (n - 2 * 4) r)) \<le> offered j p" and "le_nat (take 4 (drop (n - 4) r)) \<le> asked j p"
  shows "poll_round j p = Inl Int_Overflow"
proof -
  have w: "4 = unat (target_word_width j)" using assms(4) by simp
  have o: "31 \<le> unat (target_word_width j * 8)" using assms(4) by (simp add: unat_word_ariths)
  have P: "unat (wanted_words p) < 2 ^ 30" using assms(2) by (simp add: poll_inv_def)
  from assms(1-3) w assms(5,6) refl assms(7) refl assms(8) show ?thesis
  proof (cases rule: poll_round_request)
    case (1 j' p' req acked got wr rd)
    obtain w where "scale_wanted (wanted_words p) acked wr got rd = Inr w"
      using scale_wanted_ok [OF P] by blast
    then show ?thesis using 1(1) o by (simp add: clamp_wanted_def)
  qed
qed

definition answer4 :: "u8 list" where
  "answer4 = [0, 0, 0, 0, 0, 0, 0, 0, 0xaa, 0xbb, 0xcc, 0xdd, 0, 0, 0, 0, 1, 0, 0, 0]"

definition answer4_line :: line where
  "answer4_line = (let t = response_text [take 4 answer4] (drop 4 answer4) in line_of [Rx (take 9 t), Rx (drop 9 t)])"

lemma answer4_answers: "answers answer4_line 20 answer4 []"
proof -
  have t: "response_text [take 4 answer4] (drop 4 answer4) =
      hex_field (take 4 answer4) @ 0x20 # (hex_field (drop 4 answer4) @ [0x1a])"
    by simp
  have l: "length answer4 = 20" by (simp add: answer4_def)
  let ?t = "response_text [take 4 answer4] (drop 4 answer4)"
  have "0x20 \<in> set (take 9 ?t)" "0x1a \<in> set (drop 9 ?t)" "length ?t = 42"
    unfolding t using l by simp_all
  then have "answers (line_of [Rx (take 9 ?t), Rx (drop 9 ?t)]) 20 (concat [take 4 answer4] @ drop 4 answer4) []"
    using l by (intro answers_split) (auto simp del: response_text.simps)
  then show ?thesis by (simp add: answer4_line_def Let_def)
qed

theorem jtag_four_byte_words_stop_witness:
  "poll_round (jtag0 answer4_line 4 [] []) (poll0 1) = Inl Int_Overflow"
proof -
  have o: "offered (jtag0 answer4_line 4 [] []) (poll0 1) = 0" "asked (jtag0 answer4_line 4 [] []) (poll0 1) = 1"
    by (simp_all add: offered_def asked_def poll0_def small_buf_wf)
  then have n: "20 = round_bytes (jtag0 answer4_line 4 [] []) (poll0 1)" by (simp add: round_bytes_def)
  have "le_nat (take 4 (drop (20 - 2 * 4) answer4)) = 0" "le_nat (take 4 (drop (20 - 4) answer4)) = 1"
    by (simp_all add: answer4_def)
  then have ag: "le_nat (take 4 (drop (20 - 2 * 4) answer4)) \<le> offered (jtag0 answer4_line 4 [] []) (poll0 1)"
    "le_nat (take 4 (drop (20 - 4) answer4)) \<le> asked (jtag0 answer4_line 4 [] []) (poll0 1)"
    unfolding o by linarith+
  have an: "answers (jsock (jtag0 answer4_line 4 [] [])) 20 answer4 []" using answer4_answers by simp
  show ?thesis
    by (rule jtag_four_byte_words_stop [OF jtag0_inv(2) poll0_inv _ _ n an ag]) simp_all
qed

text \<open>The thread goes on when it could not find out the configuration of the target, and divides by
  the word width zero.\<close>

theorem jtag_failed_discovery_stops:
  assumes "target_word_width j = 0" and "discover_targetconf j = Inr (j1, rv)" and "rv \<noteq> 0"
  shows "poll_thread (Suc n) j = Inl Div_Zero"
proof -
  have "target_word_width j1 = 0"
    using assms by (auto simp: discover_targetconf_def backend_drscan_def cbind_eq_Inr_iff split: if_splits)
  then have "poll_round j1 (poll_start j1) = Inl Div_Zero"
    by (simp add: poll_round_def calc_payload_len_def to_words_def)
  then show ?thesis using assms(2) by (simp add: poll_thread_def)
qed

theorem jtag_failed_discovery_stops_witness:
  "poll_thread 3 ((jtag0 (line_of []) 0 [] [])\<lparr>sock_open := False\<rparr>) = Inl Div_Zero"
  using jtag_failed_discovery_stops [of "(jtag0 (line_of []) 0 [] [])\<lparr>sock_open := False\<rparr>"
      "(jtag0 (line_of []) 0 [] [])\<lparr>sock_open := False\<rparr>" "- 1" 2]
  by (simp add: discover_targetconf_def backend_drscan_def numeral_eq_Suc)

section \<open>Waiting for OpenOCD\<close>

lemma search_string_bytes:
  "search_string = [0x74, 0x61, 0x70, 0x2f, 0x64, 0x65, 0x76, 0x69, 0x63, 0x65, 0x20, 0x66, 0x6f, 0x75, 0x6e, 0x64]"
  by (simp add: search_string_def ascii_def)

lemma scan_output_sound:
  "scan_output f cs = (f', True) \<Longrightarrow> f < length search_string \<Longrightarrow>
     \<exists>u v. take f search_string @ cs = u @ search_string @ v"
proof (induction f cs rule: scan_output.induct)
  case (2 f c cs)
  show ?case
  proof (cases "c = search_string ! f")
    case True
    then have t: "take f search_string @ [c] = take (f + 1) search_string"
      using 2(4) by (simp add: take_Suc_conv_app_nth)
    show ?thesis
    proof (cases "f + 1 = length search_string")
      case full: True
      then have "take f search_string @ c # cs = [] @ search_string @ cs"
        using t by (metis append.assoc append_Cons append_Nil take_all_iff le_refl)
      then show ?thesis by blast
    next
      case False
      then have "\<exists>u v. take (f + 1) search_string @ cs = u @ search_string @ v"
        using 2(3,4) True by (intro 2(1)) (auto split: if_splits)
      then show ?thesis using t by (metis append.assoc append_Cons append_Nil)
    qed
  next
    case False
    then have "\<exists>u v. take 0 search_string @ cs = u @ search_string @ v"
      using 2(3,4) by (intro 2(2)) (auto split: if_splits)
    then obtain u v where "cs = u @ search_string @ v" by auto
    then have "take f search_string @ c # cs = (take f search_string @ c # u) @ search_string @ v" by simp
    then show ?thesis by blast
  qed
qed simp

lemma scan_output_skip: "0x74 \<notin> set u \<Longrightarrow> 0xFF \<notin> set u \<Longrightarrow> scan_output 0 (u @ cs) = scan_output 0 cs"
  by (induction u) (auto simp: search_string_bytes)

lemma scan_output_match:
  "f + length cs = length search_string \<Longrightarrow> drop f search_string = cs \<Longrightarrow> cs \<noteq> [] \<Longrightarrow>
     scan_output f (cs @ v) = (length search_string, True)"
proof (induction cs arbitrary: f)
  case (Cons c cs)
  have "f < length search_string" using Cons.prems(1) by simp
  then have c: "c = search_string ! f" "drop (f + 1) search_string = cs"
    using Cons.prems(2) by (metis nth_via_drop, metis Suc_eq_plus1 drop_Suc tl_drop list.sel(3))
  have "0xFF \<notin> set search_string" by (simp add: search_string_bytes)
  then have "c \<noteq> 0xFF" using c(1) \<open>f < length search_string\<close> nth_mem by metis
  then show ?case using Cons c by (cases cs) auto
qed simp

text \<open>The search in the output of OpenOCD reports success only when the awaited text is in it, and
  finds the text whenever none of its first letters and no byte \<open>0xFF\<close> comes before it; with
  one such letter directly in front the text is missed.\<close>

theorem openocd_scan_spec:
  assumes "0x74 \<notin> set u" and "0xFF \<notin> set u"
  shows "snd (scan_output 0 (u @ search_string @ v)) \<and> \<not> snd (scan_output 0 (0x74 # search_string)) \<and>
    (\<forall>out. snd (scan_output 0 out) \<longrightarrow> (\<exists>x y. out = x @ search_string @ y))"
proof -
  have "scan_output 0 (search_string @ v) = (length search_string, True)"
    by (rule scan_output_match) (simp_all add: search_string_bytes)
  then have "snd (scan_output 0 (u @ search_string @ v))" using scan_output_skip [OF assms] by simp
  moreover have "\<not> snd (scan_output 0 (0x74 # search_string))" by (simp add: search_string_bytes)
  moreover have "\<exists>x y. out = x @ search_string @ y" if "snd (scan_output 0 out)" for out
  proof -
    obtain f' where "scan_output 0 out = (f', True)" using \<open>snd (scan_output 0 out)\<close>
      by (cases "scan_output 0 out") auto
    moreover have "0 < length search_string" by (simp add: search_string_bytes)
    ultimately show ?thesis using scan_output_sound [of 0 out f'] by simp
  qed
  ultimately show ?thesis by blast
qed

theorem openocd_scan_spec_witness:
  "snd (scan_output 0 ([0x49, 0x0a] @ search_string @ [0x0a]))"
  using openocd_scan_spec [of "[0x49, 0x0a]" "[0x0a]"] by simp

end
