(* ===== verification/Tcp.thy ===== *)
theory Tcp
  imports Uart_Line Util Glip
begin

text \<open>
  The TCP backend, \<^verbatim>\<open>backend_tcp/sw/backend_tcp.c\<close>: a data socket that is read and written
  directly, a control socket, and blocking calls that wait with \<open>epoll\<close>.  Both sockets do not block;
  each is a \<open>line\<close> (theory \<open>Uart_Line\<close>), of which \<open>Rx []\<close> is the end of the stream.
\<close>

section \<open>State\<close>

datatype tcp_event = Tcp_Close int | Tcp_Epoll_Add int int

text \<open>
  The descriptors of the backend context, and behind them the world it works in: the sockets, what
  each coming connection attempt finds (it fails when the list has ended), the results of the
  \<open>fcntl\<close> calls and of \<open>epoll_create1\<close> and \<open>epoll_ctl\<close>, the values of the monotonic clock, the
  results of \<open>epoll_wait\<close> with the event mask stored, and the calls made.
\<close>

record tcp =
  data_sfd :: int
  data_efd :: int
  ctrl_sfd :: int
  tdata :: line
  tctrl :: line
  tlookups :: "(string option \<Rightarrow> string \<Rightarrow> int \<times> addr_candidate list) list"
  tcp_getfl :: u32
  tcp_setfl :: u32
  epoll_create_rv :: int
  epoll_ctl_rv :: int
  mono_clock :: "(int \<times> int) list"
  polls :: "(int \<times> u32) list"
  tcp_events :: "tcp_event list"

definition EPOLLIN :: u32 where "EPOLLIN = 0x1"
definition EPOLLPRI :: u32 where "EPOLLPRI = 0x2"
definition EPOLLOUT :: u32 where "EPOLLOUT = 0x4"
definition EPOLLERR :: u32 where "EPOLLERR = 0x8"
definition EPOLLHUP :: u32 where "EPOLLHUP = 0x10"
definition EPOLLRDHUP :: u32 where "EPOLLRDHUP = 0x2000"

definition DEFAULT_PORT_DATA :: u32 where "DEFAULT_PORT_DATA = 23000"

definition tcp_log :: "tcp_event \<Rightarrow> tcp \<Rightarrow> tcp" where
  "tcp_log e t = t\<lparr>tcp_events := tcp_events t @ [e]\<rparr>"

section \<open>Opening and closing\<close>

text \<open>The result of \<open>calloc\<close> is not tested.\<close>

definition gb_tcp_new :: "tcp \<Rightarrow> bool \<Rightarrow> (tcp \<times> int) exec" where
  "gb_tcp_new w alloc =
     (if \<not> alloc then Inl Mem_Fault
      else Inr (w\<lparr>data_sfd := - 1, ctrl_sfd := - 1, data_efd := - 1\<rparr>, 0))"

definition tcp_connect :: "tcp \<Rightarrow> string option \<Rightarrow> u32 \<Rightarrow> tcp \<times> int option" where
  "tcp_connect t hostname port =
     (case tlookups t of
        [] \<Rightarrow> (t, None)
      | f # fs \<Rightarrow> (case gl_util_connect_to_host f hostname port of
            (_, sfd, rv) \<Rightarrow> (t\<lparr>tlookups := fs\<rparr>, if rv \<noteq> 0 then None else sfd)))"

text \<open>The control channel: the port behind that of the data channel.\<close>

definition open_ctrl :: "tcp \<Rightarrow> string option \<Rightarrow> u32 \<Rightarrow> tcp \<times> int" where
  "open_ctrl t hostname port_ctrl =
     (case tcp_connect (t\<lparr>ctrl_sfd := 0\<rparr>) hostname port_ctrl of
        (t1, None) \<Rightarrow> (t1, - 1)
      | (t1, Some sfd) \<Rightarrow>
          (let t2 = t1\<lparr>ctrl_sfd := sfd\<rparr>
           in if fst (gl_util_fd_nonblock (tcp_getfl t2) (tcp_setfl t2)) \<noteq> 0 then (t2, - 1) else (t2, 0)))"

definition open_data :: "tcp \<Rightarrow> string option \<Rightarrow> u32 \<Rightarrow> tcp \<times> int" where
  "open_data t hostname port_data =
     (case tcp_connect (t\<lparr>data_sfd := 0\<rparr>) hostname port_data of
        (t1, None) \<Rightarrow> (t1, - 1)
      | (t1, Some sfd) \<Rightarrow>
          (let t2 = t1\<lparr>data_sfd := sfd\<rparr>
           in if fst (gl_util_fd_nonblock (tcp_getfl t2) (tcp_setfl t2)) \<noteq> 0 then (t2, - 1)
              else (let t3 = t2\<lparr>data_efd := epoll_create_rv t2\<rparr>
                    in if data_efd t3 = - 1 then (t3, - 1)
                       else (let t4 = tcp_log (Tcp_Epoll_Add (data_efd t3) sfd) t3
                             in if epoll_ctl_rv t4 \<noteq> 0 then (t4, - 1) else (t4, 0)))))"

definition gb_tcp_open :: "glip_opts \<Rightarrow> tcp \<Rightarrow> u32 \<Rightarrow> (tcp \<times> int) exec" where
  "gb_tcp_open opts t num_channels =
     (if data_sfd t \<ge> 0 \<or> ctrl_sfd t \<ge> 0 then Inr (t, - 1)
      else cbind (glip_option_get_char opts ''hostname'') (\<lambda>(h, _).
           cbind (glip_option_get_uint32 opts ''port'') (\<lambda>(p, _).
             let hostname = (case h of None \<Rightarrow> Some ''localhost'' | Some h \<Rightarrow> h);
                 port_data = (case p of None \<Rightarrow> DEFAULT_PORT_DATA | Some n \<Rightarrow> n);
                 (t1, rv) = open_data t hostname port_data
             in if rv \<noteq> 0 then Inr (t1, - 1) else Inr (open_ctrl t1 hostname (port_data + 1)))))"

definition gb_tcp_close :: "tcp \<Rightarrow> (tcp \<times> int) exec" where
  "gb_tcp_close t =
     (let t1 = (if data_efd t \<ge> 0 then tcp_log (Tcp_Close (data_efd t)) t else t);
          t2 = (if data_sfd t1 \<ge> 0 then (tcp_log (Tcp_Close (data_sfd t1)) t1)\<lparr>data_sfd := - 1\<rparr> else t1);
          t3 = (if ctrl_sfd t2 \<ge> 0 then (tcp_log (Tcp_Close (ctrl_sfd t2)) t2)\<lparr>ctrl_sfd := - 1\<rparr> else t2)
      in Inr (t3, 0))"

text \<open>The reset message is the number one in two bytes, least significant first.\<close>

definition gb_tcp_logic_reset :: "tcp \<Rightarrow> (tcp \<times> int) exec" where
  "gb_tcp_logic_reset t =
     (let (l, r) = tty_write (tctrl t) [1, 0]
      in Inr (t\<lparr>tctrl := l\<rparr>, if r = Io 2 then 0 else - 1))"

section \<open>Reading and writing\<close>

definition gb_tcp_read ::
    "tcp \<Rightarrow> u32 \<Rightarrow> size_t \<Rightarrow> u8 list \<Rightarrow> (tcp \<times> u8 list \<times> size_t option \<times> int) exec" where
  "gb_tcp_read t channel sz data =
     (if channel \<noteq> 0 then Inr (t, data, None, - 1)
      else cbind (tty_read (tdata t) (unat sz)) (\<lambda>(l, r).
        case r of
          Io bs \<Rightarrow> cbind (memcpy data 0 bs 0 (length bs)) (\<lambda>d.
            Inr (t\<lparr>tdata := l\<rparr>, d, Some (of_nat (length bs)), 0))
        | Io_Again \<Rightarrow> Inr (t\<lparr>tdata := l\<rparr>, data, Some 0, 0)
        | Io_Fail \<Rightarrow> Inr (t\<lparr>tdata := l\<rparr>, data, Some 0, - 1)))"

definition gb_tcp_write ::
    "tcp \<Rightarrow> u32 \<Rightarrow> size_t \<Rightarrow> u8 list \<Rightarrow> (tcp \<times> size_t option \<times> int) exec" where
  "gb_tcp_write t channel sz data =
     (if channel \<noteq> 0 then Inr (t, None, - 1)
      else if length data < unat sz then Inl Mem_Fault
      else (let (l, r) = tty_write (tdata t) (take (unat sz) data)
            in Inr (t\<lparr>tdata := l\<rparr>, Some (case r of Io k \<Rightarrow> of_nat k | _ \<Rightarrow> 0),
                    if r = Io_Fail then - 1 else 0)))"

section \<open>Waiting\<close>

definition clock_monotonic :: "tcp \<Rightarrow> (tcp \<times> int \<times> int) exec" where
  "clock_monotonic t =
     (case mono_clock t of [] \<Rightarrow> Inl Blocked | c # cs \<Rightarrow> Inr (t\<lparr>mono_clock := cs\<rparr>, c))"

definition spent_ms :: "int \<times> int \<Rightarrow> int \<times> int \<Rightarrow> int" where
  "spent_ms start now =
     sint (word_of_int (fst now * 1000 + snd now div 1000 div 1000 -
                        (fst start * 1000 + snd start div 1000 div 1000)) :: u32)"

text \<open>
  The inner loop of the blocking calls: wait until the socket is ready for the events \<open>wanted\<close>.  The
  comparison with the timeout is one of \<open>int\<close>.
\<close>

datatype wait_result = Ready | Give_Up | Wait_Failed

lemma clock_monotonic_frame:
  "clock_monotonic t = Inr (t', c) \<Longrightarrow> polls t' = polls t \<and> tdata t' = tdata t"
  by (auto simp: clock_monotonic_def split: list.splits)

function tcp_wait :: "tcp \<Rightarrow> u32 \<Rightarrow> int \<times> int \<Rightarrow> u32 \<Rightarrow> (tcp \<times> wait_result) exec" where
  "tcp_wait t wanted start timeout =
     cbind (clock_monotonic t) (\<lambda>(t1, now).
       if spent_ms start now \<ge> sint timeout then Inr (t1, Give_Up)
       else (case polls t1 of
           [] \<Rightarrow> Inl Blocked
         | (nfds, ev) # r \<Rightarrow>
             (let t2 = t1\<lparr>polls := r\<rparr>
              in if nfds = - 1 then Inr (t2, Wait_Failed)
                 else if nfds = 0 then Inr (t2, Give_Up)
                 else cbind (c_assert (nfds = 1)) (\<lambda>_.
                   if ev AND (EPOLLRDHUP OR EPOLLERR OR EPOLLHUP) \<noteq> 0 then Inr (t2, Give_Up)
                   else if ev AND wanted = 0 then tcp_wait t2 wanted start timeout
                   else Inr (t2, Ready)))))"
  by pat_completeness auto
termination
  by (relation "measure (\<lambda>(t, _). length (polls t))") (auto dest!: clock_monotonic_frame)

declare tcp_wait.simps [simp del]

lemma tcp_wait_frame: "tcp_wait t wanted start timeout = Inr (t', w) \<Longrightarrow> tdata t' = tdata t"
proof (induction t wanted start timeout rule: tcp_wait.induct)
  case (1 t wanted start timeout)
  obtain t1 now where c: "clock_monotonic t = Inr (t1, now)"
    using 1(2) by (subst (asm) tcp_wait.simps) (auto simp: cbind_eq_Inr_iff)
  have d: "tdata t1 = tdata t" using clock_monotonic_frame [OF c] by simp
  show ?case
  proof (cases "spent_ms start now \<ge> sint timeout \<or> polls t1 = []")
    case True
    then show ?thesis using 1(2) c d by (subst (asm) tcp_wait.simps) (auto split: if_splits)
  next
    case False
    then obtain nfds ev r where p: "polls t1 = (nfds, ev) # r" by (cases "polls t1") auto
    show ?thesis
    proof (cases "nfds = 1 \<and> ev AND (EPOLLRDHUP OR EPOLLERR OR EPOLLHUP) = 0 \<and> ev AND wanted = 0")
      case again: True
      then have "tcp_wait (t1\<lparr>polls := r\<rparr>) wanted start timeout = Inr (t', w)"
        using 1(2) c False p by (subst (asm) tcp_wait.simps) simp
      then have "tdata t' = tdata (t1\<lparr>polls := r\<rparr>)"
        using False p again by (intro 1(1) [OF c refl _ p refl refl]) (auto intro: c_assert_True)
      then show ?thesis using d by simp
    next
      case over: False
      then show ?thesis using 1(2) c d False p
        by (subst (asm) tcp_wait.simps) (auto simp: cbind_eq_Inr_iff Let_def split: if_splits)
    qed
  qed
qed

section \<open>Blocking calls\<close>

text \<open>
  One turn of the loop of \<open>gb_tcp_read_b\<close>: what is still missing is read, and if that was not all
  and there is a timeout the call waits.  On an error nothing is stored in the size variable.
\<close>

lemma tty_read_progress:
  "tty_read l n = Inr (l', r) \<Longrightarrow> 0 < n \<Longrightarrow> rx_weight l' < rx_weight l"
  by (auto simp: tty_read_def rx_weight_def split: if_splits list.splits rd_event.splits)

lemma gb_tcp_read_weight:
  assumes "gb_tcp_read t ch sz data = Inr (t1, d, n, 0)" and "sz \<noteq> 0"
  shows "rx_weight (tdata t1) < rx_weight (tdata t)"
proof -
  obtain l r where r: "tty_read (tdata t) (unat sz) = Inr (l, r)"
    using assms(1) by (auto simp: gb_tcp_read_def cbind_eq_Inr_iff split: if_splits)
  then have "tdata t1 = l"
    using assms(1) by (cases r) (auto simp: gb_tcp_read_def cbind_eq_Inr_iff split: if_splits)
  moreover have "0 < unat sz" using assms(2) by (simp add: unat_gt_0)
  ultimately show ?thesis using tty_read_progress [OF r] by simp
qed

lemma gb_tcp_read_zero:
  "gb_tcp_read t ch 0 data = Inr (t1, d, n, 0) \<Longrightarrow> n = Some 0"
  by (auto simp: gb_tcp_read_def tty_read_def cbind_eq_Inr_iff
      split: if_splits list.splits rd_event.splits io.splits)

function tcp_read_loop ::
    "tcp \<Rightarrow> u32 \<Rightarrow> int \<times> int \<Rightarrow> size_t \<Rightarrow> u8 list \<Rightarrow> size_t \<Rightarrow> u32
       \<Rightarrow> (tcp \<times> u8 list \<times> size_t option \<times> int) exec" where
  "tcp_read_loop t channel start sz data got timeout =
     (let remaining = sz - got
      in cbind (gb_tcp_read t channel remaining (drop (unat got) data)) (\<lambda>(t1, d, n, rv).
           let data' = take (unat got) data @ d; sr = (case n of None \<Rightarrow> 0 | Some k \<Rightarrow> k); got' = got + sr
           in if rv \<noteq> 0 then Inr (t1, data', None, - 1)
              else cbind (if sr \<noteq> remaining \<and> timeout > 0
                          then tcp_wait t1 (EPOLLIN OR EPOLLPRI) start timeout else Inr (t1, Ready)) (\<lambda>(t2, w).
                if w = Wait_Failed then Inr (t2, data', None, - 1)
                else if w = Ready \<and> sz > got' then tcp_read_loop t2 channel start sz data' got' timeout
                else Inr (t2, data', Some got', if got' \<noteq> sz then - ETIMEDOUT else 0))))"
  by pat_completeness auto
termination
proof (relation "measure (\<lambda>(t, _). rx_weight (tdata t))")
  fix t :: tcp and channel :: u32 and start sz data got timeout remaining x t1 y d z n and rv :: int
    and data' sr got' xa t2 w
  assume a: "remaining = sz - got" "gb_tcp_read t channel remaining (drop (unat got) data) = Inr x"
    "(t1, y) = x" "(d, z) = y" "(n, rv) = z" "\<not> rv \<noteq> 0" "sr = (case n of None \<Rightarrow> 0 | Some k \<Rightarrow> k)" "got' = got + sr"
    "(if sr \<noteq> remaining \<and> timeout > 0 then tcp_wait t1 (EPOLLIN OR EPOLLPRI) start timeout else Inr (t1, Ready)) = Inr xa"
    "(t2, w) = xa" "w = Ready \<and> sz > got'"
  have r: "gb_tcp_read t channel remaining (drop (unat got) data) = Inr (t1, d, n, 0)" using a(2-6) by auto
  have "remaining \<noteq> 0"
  proof
    assume z: "remaining = 0"
    then have "n = Some 0" using r gb_tcp_read_zero by metis
    then show False using z a(1,7,8,11) by simp
  qed
  then have "rx_weight (tdata t1) < rx_weight (tdata t)" using r gb_tcp_read_weight by metis
  moreover have "tdata t2 = tdata t1" using a(9,10) tcp_wait_frame [of t1 _ start timeout t2 w] by (auto split: if_splits)
  ultimately show "((t2, channel, start, sz, data', got', timeout), t, channel, start, sz, data, got, timeout)
      \<in> measure (\<lambda>(t, _). rx_weight (tdata t))" by simp
qed simp

declare tcp_read_loop.simps [simp del]

definition gb_tcp_read_b ::
    "tcp \<Rightarrow> u32 \<Rightarrow> size_t \<Rightarrow> u8 list \<Rightarrow> u32 \<Rightarrow> (tcp \<times> u8 list \<times> size_t option \<times> int) exec" where
  "gb_tcp_read_b t channel sz data timeout =
     cbind (clock_monotonic t) (\<lambda>(t1, start). tcp_read_loop t1 channel start sz data 0 timeout)"

lemma gb_tcp_write_script:
  assumes "gb_tcp_write t ch sz data = Inr (t1, n, 0)" and "n \<noteq> Some sz"
  shows "length (tx_script (tdata t1)) < length (tx_script (tdata t))"
  using assms
  by (auto simp: gb_tcp_write_def tty_write_def min_def Let_def
      split: if_splits list.splits wr_event.splits io.splits)

function tcp_write_loop ::
    "tcp \<Rightarrow> u32 \<Rightarrow> int \<times> int \<Rightarrow> size_t \<Rightarrow> u8 list \<Rightarrow> size_t \<Rightarrow> u32 \<Rightarrow> (tcp \<times> size_t option \<times> int) exec" where
  "tcp_write_loop t channel start sz data got timeout =
     (let remaining = sz - got
      in cbind (gb_tcp_write t channel remaining (drop (unat got) data)) (\<lambda>(t1, n, rv).
           let sw = (case n of None \<Rightarrow> 0 | Some k \<Rightarrow> k); got' = got + sw
           in if rv \<noteq> 0 then Inr (t1, None, - 1)
              else cbind (if sw \<noteq> remaining \<and> timeout > 0
                          then tcp_wait t1 EPOLLOUT start timeout else Inr (t1, Ready)) (\<lambda>(t2, w).
                if w = Wait_Failed then Inr (t2, None, - 1)
                else if w = Ready \<and> got' < sz then tcp_write_loop t2 channel start sz data got' timeout
                else Inr (t2, Some got', if got' \<noteq> sz then - ETIMEDOUT else 0))))"
  by pat_completeness auto
termination
proof (relation "measure (\<lambda>(t, _). length (tx_script (tdata t)))")
  fix t :: tcp and channel :: u32 and start sz data got timeout remaining x t1 y n and rv :: int and sw got' xa t2 w
  assume a: "remaining = sz - got" "gb_tcp_write t channel remaining (drop (unat got) data) = Inr x"
    "(t1, y) = x" "(n, rv) = y" "sw = (case n of None \<Rightarrow> 0 | Some k \<Rightarrow> k)" "got' = got + sw" "\<not> rv \<noteq> 0"
    "(if sw \<noteq> remaining \<and> timeout > 0 then tcp_wait t1 EPOLLOUT start timeout else Inr (t1, Ready)) = Inr xa"
    "(t2, w) = xa" "w = Ready \<and> got' < sz"
  have r: "gb_tcp_write t channel remaining (drop (unat got) data) = Inr (t1, n, 0)" using a(2-4,7) by auto
  have "n \<noteq> Some remaining" using a(1,5,6,10) by auto
  then have "length (tx_script (tdata t1)) < length (tx_script (tdata t))" using r gb_tcp_write_script by metis
  moreover have "tdata t2 = tdata t1" using a(8,9) tcp_wait_frame [of t1 _ start timeout t2 w] by (auto split: if_splits)
  ultimately show "((t2, channel, start, sz, data, got', timeout), t, channel, start, sz, data, got, timeout)
      \<in> measure (\<lambda>(t, _). length (tx_script (tdata t)))" by simp
qed simp

declare tcp_write_loop.simps [simp del]

definition gb_tcp_write_b ::
    "tcp \<Rightarrow> u32 \<Rightarrow> size_t \<Rightarrow> u8 list \<Rightarrow> u32 \<Rightarrow> (tcp \<times> size_t option \<times> int) exec" where
  "gb_tcp_write_b t channel sz data timeout =
     cbind (clock_monotonic t) (\<lambda>(t1, start). tcp_write_loop t1 channel start sz data 0 timeout)"

definition gb_tcp_get_channel_count :: "tcp \<Rightarrow> u32" where
  "gb_tcp_get_channel_count t = 1"

definition gb_tcp_get_fifo_width :: "tcp \<Rightarrow> u32" where
  "gb_tcp_get_fifo_width t = 2"

definition tcp_backend :: "tcp glip_backend_if" where
  "tcp_backend =
     \<lparr>be_open = gb_tcp_open, be_close = gb_tcp_close, be_logic_reset = gb_tcp_logic_reset,
      be_read = gb_tcp_read, be_read_b = gb_tcp_read_b, be_write = gb_tcp_write,
      be_write_b = gb_tcp_write_b, be_get_fifo_width = gb_tcp_get_fifo_width,
      be_get_channel_count = gb_tcp_get_channel_count\<rparr>"

end
