(* ===== verification/Tcp_Properties.thy ===== *)
theory Tcp_Properties
  imports Tcp Examples
begin

text \<open>The TCP backend: what its blocking calls deliver and take, and what a failed opening leaves behind.\<close>

section \<open>Reading\<close>

lemma tty_read_pending:
  "tty_read l n = Inr (l', r) \<Longrightarrow> bs = (case r of Io b \<Rightarrow> b | _ \<Rightarrow> []) \<Longrightarrow>
     pending l = bs @ pending l' \<and> length bs \<le> n"
  by (auto simp: tty_read_def pending_def split: list.splits rd_event.splits if_splits)

lemma gb_tcp_read_result:
  assumes "gb_tcp_read t 0 sz data = Inr (t1, d, n, rv)" and "unat sz < 2 ^ 31"
  obtains bs where "pending (tdata t) = bs @ pending (tdata t1)" "d = bs @ drop (length bs) data"
    "length bs \<le> unat sz" "n = Some (of_nat (length bs))" "rv = 0 \<or> rv = - 1"
proof -
  obtain l r where r: "tty_read (tdata t) (unat sz) = Inr (l, r)"
    using assms(1) by (auto simp: gb_tcp_read_def cbind_eq_Inr_iff)
  then show thesis
    using assms(1) tty_read_pending [OF r refl] that
    by (cases r) (auto simp: gb_tcp_read_def cbind_eq_Inr_iff memcpy_def split: if_splits)
qed

lemma tcp_read_loop_result:
  assumes "unat got \<le> unat sz" and "unat sz \<le> length data" and "unat sz < 2 ^ 31"
    and "tcp_read_loop t 0 start sz data got timeout = Inr (t', d, n, rv)"
  shows "\<exists>bs. pending (tdata t) = bs @ pending (tdata t') \<and>
    d = take (unat got) data @ bs @ drop (unat got + length bs) data \<and> unat got + length bs \<le> unat sz \<and>
    (n = None \<and> rv = - 1 \<or> n = Some (got + of_nat (length bs)) \<and>
       rv = (if unat got + length bs = unat sz then 0 else - ETIMEDOUT))"
  using assms
proof (induction "rx_weight (tdata t)" arbitrary: t data got rule: less_induct)
  case less
  let ?rem = "sz - got"
  have rem: "unat ?rem = unat sz - unat got" using less.prems(1) by (intro unat_minus_le) (simp add: word_le_nat_alt)
  obtain t1 d1 n1 rv1 where r: "gb_tcp_read t 0 ?rem (drop (unat got) data) = Inr (t1, d1, n1, rv1)"
    using less.prems(4) by (subst (asm) tcp_read_loop.simps) (auto simp: cbind_eq_Inr_iff Let_def)
  obtain bs where bs: "pending (tdata t) = bs @ pending (tdata t1)"
    "d1 = bs @ drop (length bs) (drop (unat got) data)" "length bs \<le> unat ?rem"
    "n1 = Some (of_nat (length bs))" "rv1 = 0 \<or> rv1 = - 1"
    by (rule gb_tcp_read_result [OF r]) (use less.prems(3) rem in simp)
  let ?data = "take (unat got) data @ d1" and ?got = "got + of_nat (length bs)"
  have data: "?data = take (unat got) data @ bs @ drop (unat got + length bs) data"
    using bs(2) by (simp add: add.commute)
  have len: "unat got + length bs \<le> unat sz" using bs(3) rem less.prems(1) by simp
  have u: "unat ?got = unat got + length bs"
    using len less.prems(3) by (subst unat_add_small) simp_all
  have eq: "?got \<noteq> sz \<longleftrightarrow> unat got + length bs \<noteq> unat sz" using u by (metis word_unat_eq_iff)
  show ?case
  proof (cases "rv1 = 0")
    case False
    then have "t' = t1" "d = ?data" "n = None" "rv = - 1"
      using less.prems(4) r by (subst (asm) tcp_read_loop.simps; simp add: Let_def)+
    then show ?thesis using bs(1) data len by blast
  next
    case True
    have S: "tcp_read_loop t 0 start sz data got timeout =
        cbind (if of_nat (length bs) \<noteq> ?rem \<and> timeout > 0
          then tcp_wait t1 (EPOLLIN OR EPOLLPRI) start timeout else Inr (t1, Ready)) (\<lambda>(t2, w).
        if w = Wait_Failed then Inr (t2, ?data, None, - 1)
        else if w = Ready \<and> sz > ?got then tcp_read_loop t2 0 start sz ?data ?got timeout
        else Inr (t2, ?data, Some ?got, if ?got \<noteq> sz then - ETIMEDOUT else 0))"
      using r True bs(4) by (subst tcp_read_loop.simps) (simp add: Let_def cong: if_cong)
    obtain t2 w where w: "(if of_nat (length bs) \<noteq> ?rem \<and> timeout > 0
        then tcp_wait t1 (EPOLLIN OR EPOLLPRI) start timeout else Inr (t1, Ready)) = Inr (t2, w)"
      and res: "(if w = Wait_Failed then Inr (t2, ?data, None, - 1)
        else if w = Ready \<and> sz > ?got then tcp_read_loop t2 0 start sz ?data ?got timeout
        else Inr (t2, ?data, Some ?got, if ?got \<noteq> sz then - ETIMEDOUT else 0)) = (Inr (t', d, n, rv) :: _ exec)"
      using less.prems(4) unfolding S cbind_eq_Inr_iff by auto
    have t2: "tdata t2 = tdata t1"
      using w tcp_wait_frame [of t1 _ start timeout t2 w] by (auto split: if_splits)
    show ?thesis
    proof (cases "w = Ready \<and> sz > ?got")
      case again: True
      then have "sz \<noteq> got" using u len by (auto simp: word_less_nat_alt)
      then have "rx_weight (tdata t2) < rx_weight (tdata t)"
        using gb_tcp_read_weight [of t 0 ?rem] r True t2 by auto
      moreover have "unat sz \<le> length ?data" using less.prems(2) len by (simp add: data)
      moreover have "tcp_read_loop t2 0 start sz ?data ?got timeout = Inr (t', d, n, rv)" using res again by simp
      moreover have "unat ?got \<le> unat sz" using u len by simp
      ultimately obtain bs' where bs': "pending (tdata t2) = bs' @ pending (tdata t')"
        "d = take (unat ?got) ?data @ bs' @ drop (unat ?got + length bs') ?data"
        "unat ?got + length bs' \<le> unat sz"
        "n = None \<and> rv = - 1 \<or> n = Some (?got + of_nat (length bs')) \<and>
          rv = (if unat ?got + length bs' = unat sz then 0 else - ETIMEDOUT)"
        using less.hyps [of t2 ?got ?data] less.prems(3) by blast
      have "take (unat ?got) ?data = take (unat got) data @ bs"
        "drop (unat ?got + length bs') ?data = drop (unat got + length (bs @ bs')) data"
        unfolding data u using len less.prems(2) by (simp_all add: add.assoc add.commute add.left_commute)
      then show ?thesis using bs(1) t2 bs' u
        by (intro exI [of _ "bs @ bs'"]) (simp add: add.assoc)
    next
      case over: False
      then have "t' = t2" "d = ?data" "(w = Wait_Failed \<and> n = None \<and> rv = - 1) \<or>
          (n = Some ?got \<and> rv = (if ?got \<noteq> sz then - ETIMEDOUT else 0))"
        using res by (auto split: if_splits)
      then show ?thesis using bs(1) t2 data len eq by (intro exI [of _ bs]) auto
    qed
  qed
qed

text \<open>Without a timeout the loop goes on until everything is there.\<close>

lemma gb_tcp_read_returns:
  assumes "rx_clean (tdata t)" and "rx (tdata t) \<noteq> []" and "unat sz \<le> length data"
  shows "\<exists>t1 d n. gb_tcp_read t 0 sz data = Inr (t1, d, n, 0) \<and> rx_clean (tdata t1)"
proof -
  from tty_read_clean [OF assms(1,2), of "unat sz"]
  obtain l' r bs where r: "tty_read (tdata t) (unat sz) = Inr (l', r)" "r \<noteq> Io_Fail"
    "bs = (case r of Io bs \<Rightarrow> bs | _ \<Rightarrow> [])" "length bs \<le> unat sz" "rx_clean l'" by metis
  then show ?thesis using assms(3) by (cases r) (auto simp: gb_tcp_read_def memcpy_ok)
qed

lemma tcp_read_loop_returns:
  assumes "unat got < unat sz" and "unat sz \<le> length data" and "unat sz < 2 ^ 31"
    and "rx_clean (tdata t)" and "unat sz - unat got \<le> length (pending (tdata t))"
  shows "\<exists>t' d n rv. tcp_read_loop t 0 start sz data got 0 = Inr (t', d, n, rv) \<and> n \<noteq> None \<and> rv \<noteq> - ETIMEDOUT"
  using assms
proof (induction "rx_weight (tdata t)" arbitrary: t data got rule: less_induct)
  case less
  let ?rem = "sz - got"
  have rem: "unat ?rem = unat sz - unat got" using less.prems(1) by (intro unat_minus_le) (simp add: word_le_nat_alt)
  have "rx (tdata t) \<noteq> []" using less.prems(1,5) by (auto simp: pending_def)
  then obtain t1 d1 n1 where r: "gb_tcp_read t 0 ?rem (drop (unat got) data) = Inr (t1, d1, n1, 0)" "rx_clean (tdata t1)"
  proof -
    assume ne: "rx (tdata t) \<noteq> []"
    have "unat ?rem \<le> length (drop (unat got) data)" using rem less.prems(2) by simp
    from gb_tcp_read_returns [OF less.prems(4) ne this] show thesis using that by blast
  qed
  obtain bs where bs: "pending (tdata t) = bs @ pending (tdata t1)"
    "d1 = bs @ drop (length bs) (drop (unat got) data)" "length bs \<le> unat ?rem" "n1 = Some (of_nat (length bs))"
    by (rule gb_tcp_read_result [OF r(1)]) (use less.prems(3) rem in simp)
  have len: "unat got + length bs \<le> unat sz" using bs(3) rem less.prems(1) by simp
  have u: "unat (got + of_nat (length bs)) = unat got + length bs"
    using len less.prems(3) by (subst unat_add_small) simp_all
  let ?data = "take (unat got) data @ d1" and ?got = "got + of_nat (length bs)"
  have step: "tcp_read_loop t 0 start sz data got 0 =
      (if sz > ?got then tcp_read_loop t1 0 start sz ?data ?got 0
       else Inr (t1, ?data, Some ?got, if ?got \<noteq> sz then - ETIMEDOUT else 0))"
    using r(1) bs(4) by (subst tcp_read_loop.simps) (simp add: Let_def)
  show ?case
  proof (cases "sz > ?got")
    case True
    have "sz \<noteq> got" using less.prems(1) by auto
    then have "rx_weight (tdata t1) < rx_weight (tdata t)"
      using gb_tcp_read_weight [OF r(1)] by simp
    moreover have "unat sz \<le> length ?data" using less.prems(2) len bs(2) by simp
    moreover have "unat sz - unat ?got \<le> length (pending (tdata t1))" using less.prems(5) bs(1) u by simp
    moreover have "unat ?got < unat sz" using True by (simp add: word_less_nat_alt)
    ultimately show ?thesis unfolding step using less.hyps [of t1 ?got ?data] less.prems(3) r(2) True by simp
  next
    case False
    then have "?got = sz" using u len by (simp add: word_less_nat_alt word_unat_eq_iff)
    then show ?thesis unfolding step by (simp add: ETIMEDOUT_def)
  qed
qed

text \<open>C19: A blocking read that returns has put the next bytes of the stream, and no others, into the
  array, in order and without losing any; it reports their number, with \<open>-ETIMEDOUT\<close> exactly
  when they are fewer than asked for.  Without a timeout it returns with everything asked for as
  soon as that many bytes come.\<close>

theorem tcp_read_b_spec:
  assumes "unat sz \<le> length data" and "unat sz < 2 ^ 31"
  shows "(\<forall>t' d n rv. gb_tcp_read_b t 0 sz data timeout = Inr (t', d, n, rv) \<longrightarrow>
      (\<exists>bs. pending (tdata t) = bs @ pending (tdata t') \<and> d = bs @ drop (length bs) data \<and>
        length bs \<le> unat sz \<and>
        (n = None \<and> rv = - 1 \<or> n = Some (of_nat (length bs)) \<and>
           rv = (if length bs = unat sz then 0 else - ETIMEDOUT)))) \<and>
    (rx_clean (tdata t) \<and> mono_clock t \<noteq> [] \<and> 0 < unat sz \<and> unat sz \<le> length (pending (tdata t)) \<longrightarrow>
      (\<exists>t'. gb_tcp_read_b t 0 sz data 0 =
        Inr (t', take (unat sz) (pending (tdata t)) @ drop (unat sz) data, Some sz, 0)))"
proof -
  have P: "\<exists>bs. pending (tdata t) = bs @ pending (tdata t') \<and> d = bs @ drop (length bs) data \<and>
      length bs \<le> unat sz \<and> (n = None \<and> rv = - 1 \<or> n = Some (of_nat (length bs)) \<and>
        rv = (if length bs = unat sz then 0 else - ETIMEDOUT))"
    if "gb_tcp_read_b t 0 sz data to = Inr (t', d, n, rv)" for t' d n rv to
  proof -
    obtain t1 start where "clock_monotonic t = Inr (t1, start)"
      "tcp_read_loop t1 0 start sz data 0 to = Inr (t', d, n, rv)"
      using \<open>gb_tcp_read_b t 0 sz data to = Inr (t', d, n, rv)\<close>
      by (auto simp: gb_tcp_read_b_def cbind_eq_Inr_iff)
    then show ?thesis
      using tcp_read_loop_result [of 0 sz data t1 start to t' d n rv] assms clock_monotonic_frame by fastforce
  qed
  moreover have "\<exists>t'. gb_tcp_read_b t 0 sz data 0 =
      Inr (t', take (unat sz) (pending (tdata t)) @ drop (unat sz) data, Some sz, 0)"
    if A: "rx_clean (tdata t)" "mono_clock t \<noteq> []" "0 < unat sz" "unat sz \<le> length (pending (tdata t))"
  proof -
    obtain t1 start where c: "clock_monotonic t = Inr (t1, start)"
      using A(2) by (cases "mono_clock t") (auto simp: clock_monotonic_def)
    then have "tdata t1 = tdata t" using clock_monotonic_frame by blast
    then obtain t' d n rv where "tcp_read_loop t1 0 start sz data 0 0 = Inr (t', d, n, rv)"
      "n \<noteq> None" "rv \<noteq> - ETIMEDOUT"
      using tcp_read_loop_returns [of 0 sz data t1 start] assms A by auto
    then have g: "gb_tcp_read_b t 0 sz data 0 = Inr (t', d, n, rv)" "n \<noteq> None" "rv \<noteq> - ETIMEDOUT"
      using c by (simp_all add: gb_tcp_read_b_def)
    obtain bs where bs: "pending (tdata t) = bs @ pending (tdata t')" "d = bs @ drop (length bs) data"
      "n = Some (of_nat (length bs))" "length bs = unat sz" "rv = 0"
      using P [OF g(1)] g(2,3) by (auto split: if_splits)
    then have "take (unat sz) (pending (tdata t)) = bs" by simp
    then show ?thesis using g(1) bs(2-5) by simp
  qed
  ultimately show ?thesis by blast
qed


definition tcp0 :: "line \<Rightarrow> (int \<times> u32) list \<Rightarrow> tcp" where
  "tcp0 l ps = \<lparr>data_sfd = 3, data_efd = 4, ctrl_sfd = 5, tdata = l, tctrl = line_of [], tlookups = [],
     tcp_getfl = 0, tcp_setfl = 0, epoll_create_rv = 4, epoll_ctl_rv = 0,
     mono_clock = [(10, 0), (10, 5000000), (10, 8000000)], polls = ps, tcp_events = []\<rparr>"

theorem tcp_read_b_spec_witness:
  "\<exists>t'. gb_tcp_read_b (tcp0 (line_of [Rx [1], Rx_Again, Rx [2, 3, 4]]) []) 0 3 [0, 0, 0, 9] 0 =
     Inr (t', [1, 2, 3, 9], Some 3, 0)"
  using tcp_read_b_spec [of 3 "[0, 0, 0, 9]" "tcp0 (line_of [Rx [1], Rx_Again, Rx [2, 3, 4]]) []" 0]
  by (simp add: tcp0_def line_of_def rx_clean_def pending_def)

section \<open>Writing\<close>

lemma gb_tcp_write_result:
  assumes "gb_tcp_write t 0 sz data = Inr (t1, n, rv)" and "unat sz < 2 ^ 31"
  obtains k where "tx (tdata t1) = tx (tdata t) @ take k data" "k \<le> unat sz" "unat sz \<le> length data"
    "n = Some (of_nat k)" "rv = 0 \<or> rv = - 1"
proof -
  have l: "unat sz \<le> length data" using assms(1) by (auto simp: gb_tcp_write_def split: if_splits)
  obtain l' r where r: "tty_write (tdata t) (take (unat sz) data) = (l', r)" by fastforce
  define k where "k = (case r of Io k \<Rightarrow> k | _ \<Rightarrow> 0)"
  have "tx l' = tx (tdata t) @ take k data" "k \<le> unat sz"
    using r l by (auto simp: tty_write_def k_def take_take split: list.splits wr_event.splits)
  moreover have "t1 = t\<lparr>tdata := l'\<rparr>" "n = Some (of_nat k)" "rv = 0 \<or> rv = - 1"
    using assms(1) r l by (auto simp: gb_tcp_write_def k_def split: if_splits io.splits)
  ultimately show thesis using l by (intro that [of k]) simp_all
qed

lemma tcp_write_step:
  assumes "gb_tcp_write t 0 (sz - got) (drop (unat got) data) = Inr (t1, Some (of_nat k), 0)"
  shows "tcp_write_loop t 0 start sz data got timeout =
    cbind (if of_nat k \<noteq> sz - got \<and> timeout > 0 then tcp_wait t1 EPOLLOUT start timeout else Inr (t1, Ready)) (\<lambda>(t2, w).
      if w = Wait_Failed then Inr (t2, None, - 1)
      else if w = Ready \<and> got + of_nat k < sz then tcp_write_loop t2 0 start sz data (got + of_nat k) timeout
      else Inr (t2, Some (got + of_nat k), if got + of_nat k \<noteq> sz then - ETIMEDOUT else 0))"
  using assms by (subst tcp_write_loop.simps) (simp add: Let_def cong: if_cong)

lemma tcp_write_loop_result:
  assumes "unat got \<le> unat sz" and "unat sz < 2 ^ 31"
    and "tcp_write_loop t 0 start sz data got timeout = Inr (t', n, rv)"
  shows "\<exists>m. tx (tdata t') = tx (tdata t) @ take m (drop (unat got) data) \<and> unat got + m \<le> unat sz \<and>
    (n = None \<and> rv = - 1 \<or> n = Some (got + of_nat m) \<and>
       rv = (if unat got + m = unat sz then 0 else - ETIMEDOUT))"
  using assms
proof (induction "length (tx_script (tdata t))" arbitrary: t got rule: less_induct)
  case less
  let ?rem = "sz - got"
  have rem: "unat ?rem = unat sz - unat got" using less.prems(1) by (intro unat_minus_le) (simp add: word_le_nat_alt)
  obtain t1 n1 rv1 where r: "gb_tcp_write t 0 ?rem (drop (unat got) data) = Inr (t1, n1, rv1)"
    using less.prems(3) by (subst (asm) tcp_write_loop.simps) (auto simp: cbind_eq_Inr_iff Let_def)
  obtain k where k: "tx (tdata t1) = tx (tdata t) @ take k (drop (unat got) data)" "k \<le> unat ?rem"
    "n1 = Some (of_nat k)" "rv1 = 0 \<or> rv1 = - 1"
    by (rule gb_tcp_write_result [OF r]) (use less.prems(2) rem in simp)
  let ?got = "got + of_nat k"
  have len: "unat got + k \<le> unat sz" using k(2) rem less.prems(1) by simp
  have u: "unat ?got = unat got + k" using len less.prems(2) by (subst unat_add_small) simp_all
  have eq: "?got \<noteq> sz \<longleftrightarrow> unat got + k \<noteq> unat sz" using u by (metis word_unat_eq_iff)
  show ?case
  proof (cases "rv1 = 0")
    case False
    then have "t' = t1" "n = None" "rv = - 1"
      using less.prems(3) r by (subst (asm) tcp_write_loop.simps; simp add: Let_def)+
    then show ?thesis using k(1) len by blast
  next
    case True
    have S: "gb_tcp_write t 0 ?rem (drop (unat got) data) = Inr (t1, Some (of_nat k), 0)" using r k(3) True by simp
    obtain t2 w where w: "(if of_nat k \<noteq> ?rem \<and> timeout > 0
        then tcp_wait t1 EPOLLOUT start timeout else Inr (t1, Ready)) = Inr (t2, w)"
      and res: "(if w = Wait_Failed then Inr (t2, None, - 1)
        else if w = Ready \<and> ?got < sz then tcp_write_loop t2 0 start sz data ?got timeout
        else Inr (t2, Some ?got, if ?got \<noteq> sz then - ETIMEDOUT else 0)) = (Inr (t', n, rv) :: _ exec)"
      using less.prems(3) unfolding tcp_write_step [OF S] cbind_eq_Inr_iff by auto
    have t2: "tdata t2 = tdata t1"
      using w tcp_wait_frame [of t1 _ start timeout t2 w] by (auto split: if_splits)
    show ?thesis
    proof (cases "w = Ready \<and> ?got < sz")
      case again: True
      have "Some (of_nat k) \<noteq> Some ?rem" using again by auto
      then have "length (tx_script (tdata t2)) < length (tx_script (tdata t))"
        using gb_tcp_write_script [OF S] t2 by simp
      moreover have "tcp_write_loop t2 0 start sz data ?got timeout = Inr (t', n, rv)" using res again by simp
      moreover have "unat ?got \<le> unat sz" using u len by simp
      ultimately obtain m where m: "tx (tdata t') = tx (tdata t2) @ take m (drop (unat ?got) data)"
        "unat ?got + m \<le> unat sz"
        "n = None \<and> rv = - 1 \<or> n = Some (?got + of_nat m) \<and> rv = (if unat ?got + m = unat sz then 0 else - ETIMEDOUT)"
        using less.hyps [of t2 ?got] less.prems(2) by blast
      have "take k (drop (unat got) data) @ take m (drop (unat ?got) data) = take (k + m) (drop (unat got) data)"
        unfolding u by (simp add: take_add add.commute)
      then show ?thesis using k(1) t2 m u by (intro exI [of _ "k + m"]) (simp add: add.assoc)
    next
      case over: False
      then have "t' = t2" "(w = Wait_Failed \<and> n = None \<and> rv = - 1) \<or>
          (n = Some ?got \<and> rv = (if ?got \<noteq> sz then - ETIMEDOUT else 0))"
        using res by (auto split: if_splits)
      then show ?thesis using k(1) t2 len eq by (intro exI [of _ k]) auto
    qed
  qed
qed

lemma tcp_write_loop_returns:
  assumes "unat got < unat sz" and "unat sz \<le> length data" and "unat sz < 2 ^ 31" and "tx_clean (tdata t)"
  shows "\<exists>t' n rv. tcp_write_loop t 0 start sz data got 0 = Inr (t', n, rv) \<and> n \<noteq> None \<and> rv \<noteq> - ETIMEDOUT"
  using assms
proof (induction "length (tx_script (tdata t))" arbitrary: t got rule: less_induct)
  case less
  let ?rem = "sz - got"
  have rem: "unat ?rem = unat sz - unat got" using less.prems(1) by (intro unat_minus_le) (simp add: word_le_nat_alt)
  have dl: "\<not> length (drop (unat got) data) < unat ?rem" using rem less.prems(2) by simp
  obtain l r where w: "tty_write (tdata t) (take (unat ?rem) (drop (unat got) data)) = (l, r)" by fastforce
  then have "r \<noteq> Io_Fail" "tx_clean l"
    using less.prems(4) by (auto simp: tty_write_def tx_clean_def split: list.splits wr_event.splits)
  then obtain n1 where r0: "gb_tcp_write t 0 ?rem (drop (unat got) data) = Inr (t\<lparr>tdata := l\<rparr>, n1, 0)"
    using w dl by (simp add: gb_tcp_write_def)
  obtain k where k: "k \<le> unat ?rem" "n1 = Some (of_nat k)"
    by (rule gb_tcp_write_result [OF r0]) (use less.prems(3) rem in simp)
  note S = r0 [unfolded k(2)]
  let ?got = "got + of_nat k"
  have len: "unat got + k \<le> unat sz" using k(1) rem less.prems(1) by simp
  have u: "unat ?got = unat got + k" using len less.prems(3) by (subst unat_add_small) simp_all
  show ?case
  proof (cases "?got < sz")
    case True
    have "Some (of_nat k) \<noteq> Some ?rem" using True by auto
    then have "length (tx_script (tdata (t\<lparr>tdata := l\<rparr>))) < length (tx_script (tdata t))"
      by (rule gb_tcp_write_script [OF S])
    moreover have "unat ?got < unat sz" using True by (simp add: word_less_nat_alt)
    ultimately have "\<exists>t' n rv. tcp_write_loop (t\<lparr>tdata := l\<rparr>) 0 start sz data ?got 0 = Inr (t', n, rv) \<and>
        n \<noteq> None \<and> rv \<noteq> - ETIMEDOUT"
      using less.prems(2,3) \<open>tx_clean l\<close> by (intro less.hyps) simp_all
    then show ?thesis using True by (simp add: tcp_write_step [OF S])
  next
    case False
    then have "?got = sz" using u len by (simp add: word_less_nat_alt word_unat_eq_iff)
    then show ?thesis by (simp add: tcp_write_step [OF S] ETIMEDOUT_def)
  qed
qed

lemma tcp_write_b_result:
  assumes "unat sz \<le> length data" and "unat sz < 2 ^ 31"
    and "gb_tcp_write_b t 0 sz data timeout = Inr (t', n, rv)"
  shows "\<exists>m. tx (tdata t') = tx (tdata t) @ take m data \<and> m \<le> unat sz \<and>
    (n = None \<and> rv = - 1 \<or> n = Some (of_nat m) \<and> rv = (if m = unat sz then 0 else - ETIMEDOUT))"
proof -
  obtain t1 start where "clock_monotonic t = Inr (t1, start)"
    "tcp_write_loop t1 0 start sz data 0 timeout = Inr (t', n, rv)"
    using assms(3) by (auto simp: gb_tcp_write_b_def cbind_eq_Inr_iff)
  then show ?thesis
    using tcp_write_loop_result [of 0 sz t1 start data timeout t' n rv] assms(1,2) clock_monotonic_frame by fastforce
qed

lemma tcp_write_b_all:
  assumes "unat sz \<le> length data" and "unat sz < 2 ^ 31" and "tx_clean (tdata t)" and "mono_clock t \<noteq> []"
    and "0 < unat sz"
  shows "\<exists>t'. gb_tcp_write_b t 0 sz data 0 = Inr (t', Some sz, 0) \<and>
    tx (tdata t') = tx (tdata t) @ take (unat sz) data"
proof -
  obtain t1 start where c: "clock_monotonic t = Inr (t1, start)"
    using assms(4) by (cases "mono_clock t") (auto simp: clock_monotonic_def)
  then have "tdata t1 = tdata t" using clock_monotonic_frame by blast
  then obtain t' n rv where "tcp_write_loop t1 0 start sz data 0 0 = Inr (t', n, rv)"
    "n \<noteq> None" "rv \<noteq> - ETIMEDOUT"
    using tcp_write_loop_returns [of 0 sz data t1 start] assms by auto
  then have g: "gb_tcp_write_b t 0 sz data 0 = Inr (t', n, rv)" "n \<noteq> None" "rv \<noteq> - ETIMEDOUT"
    using c by (simp_all add: gb_tcp_write_b_def)
  then show ?thesis using tcp_write_b_result [OF assms(1,2) g(1)] by (auto split: if_splits)
qed

text \<open>C20: A blocking write that returns has sent a prefix of the data, once and in order, and reports its
  length, with \<open>-ETIMEDOUT\<close> exactly when it is not all.  Without a timeout it returns with
  everything sent whenever the socket does not fail.\<close>

theorem tcp_write_b_spec:
  assumes "unat sz \<le> length data" and "unat sz < 2 ^ 31"
  shows "(\<forall>t' n rv. gb_tcp_write_b t 0 sz data timeout = Inr (t', n, rv) \<longrightarrow>
      (\<exists>m. tx (tdata t') = tx (tdata t) @ take m data \<and> m \<le> unat sz \<and>
        (n = None \<and> rv = - 1 \<or> n = Some (of_nat m) \<and> rv = (if m = unat sz then 0 else - ETIMEDOUT)))) \<and>
    (tx_clean (tdata t) \<and> mono_clock t \<noteq> [] \<and> 0 < unat sz \<longrightarrow>
      (\<exists>t'. gb_tcp_write_b t 0 sz data 0 = Inr (t', Some sz, 0) \<and>
        tx (tdata t') = tx (tdata t) @ take (unat sz) data))"
  using tcp_write_b_result [OF assms] tcp_write_b_all [OF assms] by blast

theorem tcp_write_b_spec_witness:
  "\<exists>t'. gb_tcp_write_b (tcp0 ((line_of [])\<lparr>tx_script := [Tx 1, Tx_Again]\<rparr>) []) 0 3 [1, 2, 3] 0 =
     Inr (t', Some 3, 0) \<and> tx (tdata t') = [1, 2, 3]"
  using tcp_write_b_spec [of 3 "[1, 2, 3]" "tcp0 ((line_of [])\<lparr>tx_script := [Tx 1, Tx_Again]\<rparr>) []" 0]
  by (simp add: tcp0_def line_of_def tx_clean_def)

section \<open>Opening\<close>

text \<open>When the data channel cannot be connected, the descriptor is left at zero: every later opening
  is refused as already connected, and closing closes descriptor zero, the standard input.\<close>

theorem tcp_failed_open:
  assumes "data_sfd t < 0" and "ctrl_sfd t < 0" and "data_efd t < 0" and "tlookups t = []"
    and "num_backend_options opts = 0"
  shows "\<exists>t1. gb_tcp_open opts t nch = Inr (t1, - 1) \<and> (\<forall>opts' nch'. gb_tcp_open opts' t1 nch' = Inr (t1, - 1)) \<and>
    (\<exists>t2. gb_tcp_close t1 = Inr (t2, 0) \<and> tcp_events t2 = tcp_events t @ [Tcp_Close 0])"
proof -
  have "gb_tcp_open opts t nch = Inr (t\<lparr>data_sfd := 0\<rparr>, - 1)"
    using assms by (simp add: gb_tcp_open_def open_data_def tcp_connect_def glip_option_get_char_def
        glip_option_get_uint32_def)
  moreover have "gb_tcp_open opts' (t\<lparr>data_sfd := 0\<rparr>) nch' = Inr (t\<lparr>data_sfd := 0\<rparr>, - 1)" for opts' nch'
    by (simp add: gb_tcp_open_def)
  moreover have "\<exists>t2. gb_tcp_close (t\<lparr>data_sfd := 0\<rparr>) = Inr (t2, 0) \<and> tcp_events t2 = tcp_events t @ [Tcp_Close 0]"
    using assms by (simp add: gb_tcp_close_def tcp_log_def)
  ultimately show ?thesis by blast
qed

theorem tcp_failed_open_witness:
  "\<exists>t0 t1 t2. gb_tcp_new (tcp0 (line_of []) []) True = Inr (t0, 0) \<and>
    gb_tcp_open \<lparr>backend_options = [], num_backend_options = 0\<rparr> t0 1 = Inr (t1, - 1) \<and>
    gb_tcp_close t1 = Inr (t2, 0) \<and> tcp_events t2 = [Tcp_Close 0]"
proof -
  let ?t = "(tcp0 (line_of []) [])\<lparr>data_sfd := - 1, ctrl_sfd := - 1, data_efd := - 1\<rparr>"
  have n: "gb_tcp_new (tcp0 (line_of []) []) True = Inr (?t, 0)" by (simp add: gb_tcp_new_def)
  have "\<exists>t1. gb_tcp_open \<lparr>backend_options = [], num_backend_options = 0\<rparr> ?t 1 = Inr (t1, - 1) \<and>
    (\<forall>opts' nch'. gb_tcp_open opts' t1 nch' = Inr (t1, - 1)) \<and>
    (\<exists>t2. gb_tcp_close t1 = Inr (t2, 0) \<and> tcp_events t2 = tcp_events ?t @ [Tcp_Close 0])"
    by (rule tcp_failed_open) (simp_all add: tcp0_def)
  then show ?thesis using n by (auto simp: tcp0_def)
qed

end
