(* ===== verification/Cypress.thy ===== *)
theory Cypress
  imports Cbuf_Blocking C_Strings Glip
begin

text \<open>
  The Cypress FX2 backend, \<^verbatim>\<open>backend_cypressfx2/sw/backend_cypressfx2.c\<close>: a write and a read
  circular buffer between the calls of the user and two threads that move packets over USB.
  libusb is not part of the sources: what its calls return is part of the state, as lists of
  results that the calls use up, beside the bytes the device has taken and handed over so far.
\<close>

section \<open>State\<close>

definition LIBUSB_ERROR_TIMEOUT :: int where "LIBUSB_ERROR_TIMEOUT = - 7"
definition USB_TRANSFER_PACKET_SIZE_BYTES :: u32 where "USB_TRANSFER_PACKET_SIZE_BYTES = 512"
definition USB_MAX_PACKETS_PER_TRANSFER :: u32 where "USB_MAX_PACKETS_PER_TRANSFER = 64"
definition USB_BUF_SIZE :: u32 where
  "USB_BUF_SIZE = USB_TRANSFER_PACKET_SIZE_BYTES * USB_MAX_PACKETS_PER_TRANSFER * 2"

lemmas usb_sizes = USB_BUF_SIZE_def USB_TRANSFER_PACKET_SIZE_BYTES_def USB_MAX_PACKETS_PER_TRANSFER_def

text \<open>
  A device on the bus: its descriptor and its two strings, where they can be read, and the results
  of opening it during the search and for use.
\<close>

record usb_device =
  ud_bus :: u8
  ud_addr :: u8
  ud_desc :: "(u16 \<times> u16) option"
  ud_probe_rv :: int
  ud_manufacturer :: "string option"
  ud_product :: "string option"
  ud_open_rv :: int

record usb_dev_entry =
  de_vid :: u16
  de_pid :: u16
  de_manufacturer :: "string option"
  de_product :: "string option"

text \<open>The list of known devices ends with an entry whose vendor is zero.\<close>

definition no_entry :: usb_dev_entry where
  "no_entry = \<lparr>de_vid = 0, de_pid = 0, de_manufacturer = None, de_product = None\<rparr>"

definition usb_devs :: "usb_dev_entry list" where
  "usb_devs = [\<lparr>de_vid = 0x221a, de_pid = 0x0100, de_manufacturer = Some ''TUM LIS'',
     de_product = Some ''GLIP''\<rparr>, no_entry]"

datatype usb_event = Usb_Open nat | Usb_Close nat | Usb_Free_List | Usb_Control u16 | Usb_Release

text \<open>
  A device is known by its place in the list.  The two buffers are \<open>None\<close> before they have been
  created and after they have been freed, when using them is a fault.  The counts of the semaphores
  are numbers.  Nothing ever ends the reading thread, so there can be several.
\<close>

record cyp =
  usb_dev_handle :: "nat option"
  write_buf :: "cbuf option"
  read_buf :: "cbuf option"
  write_sem :: nat
  read_sem :: nat
  write_thread :: bool
  read_threads :: nat
  usb_init_rv :: int
  usb_list :: "usb_device list option"
  config_rv :: int
  claim_rv :: int
  control_rvs :: "int list"
  create_write_rv :: int
  create_read_rv :: int
  write_mem :: "bool \<times> allocator"
  read_mem :: "bool \<times> allocator"
  tmp_mem :: allocator
  bulk_out :: "(int \<times> nat) list"
  bulk_in :: "(int \<times> u8 list) list"
  usb_sent :: "u8 list"
  usb_got :: "u8 list"
  usb_log :: "usb_event list"
  read_waits :: "wait_event list"
  write_waits :: "wait_event list"

definition usb_logged :: "usb_event list \<Rightarrow> cyp \<Rightarrow> cyp" where
  "usb_logged es c = c\<lparr>usb_log := usb_log c @ es\<rparr>"

text \<open>A control transfer; it succeeds when the list of results has ended.\<close>

definition libusb_control_transfer :: "cyp \<Rightarrow> u16 \<Rightarrow> cyp \<times> int" where
  "libusb_control_transfer c v =
     (let c1 = usb_logged [Usb_Control v] c
      in case control_rvs c of [] \<Rightarrow> (c1, 0) | rv # r \<Rightarrow> (c1\<lparr>control_rvs := r\<rparr>, rv))"

section \<open>Finding a device\<close>

text \<open>Whether \<open>strncmp\<close> finds no difference within the first \<open>n\<close> characters, the NUL included.\<close>

definition strncmp_eq :: "string \<Rightarrow> string \<Rightarrow> nat \<Rightarrow> bool" where
  "strncmp_eq a b n = (take n (a @ [CHR 0x00]) = take n (b @ [CHR 0x00]))"

text \<open>
  One entry against one device, opened for its strings.  The manufacturer is compared as a whole,
  the product only as far as the device's string goes.  When a string cannot be read the device is
  not closed again.
\<close>

definition match_entry :: "nat \<Rightarrow> usb_device \<Rightarrow> usb_dev_entry \<Rightarrow> usb_event list \<times> bool" where
  "match_entry i d e =
     (if ud_desc d \<noteq> Some (de_vid e, de_pid e) then ([], False)
      else if ud_probe_rv d < 0 then ([], False)
      else (case (de_manufacturer e, ud_manufacturer d) of
          (Some m, None) \<Rightarrow> ([Usb_Open i], False)
        | (mo, dm) \<Rightarrow>
            if (case (mo, dm) of (Some m, Some s) \<Rightarrow> \<not> strncmp_eq s m 256 | _ \<Rightarrow> False)
            then ([Usb_Open i, Usb_Close i], False)
            else (case (de_product e, ud_product d) of
                (Some p, None) \<Rightarrow> ([Usb_Open i], False)
              | (Some p, Some s) \<Rightarrow> ([Usb_Open i, Usb_Close i], strncmp_eq s p (length s))
              | (None, _) \<Rightarrow> ([Usb_Open i, Usb_Close i], True))))"

fun search_entries :: "nat \<Rightarrow> usb_device \<Rightarrow> usb_dev_entry list \<Rightarrow> usb_event list \<times> bool" where
  "search_entries i d [] = ([], False)"
| "search_entries i d (e # es) =
     (if de_vid e = 0 then ([], False)
      else (let (ev, ok) = match_entry i d e
            in if ok then (ev, True)
               else (let (ev', ok') = search_entries i d es in (ev @ ev', ok'))))"

text \<open>The loop over the devices: how many were found, and the last of them.\<close>

fun auto_search :: "usb_dev_entry list \<Rightarrow> nat \<Rightarrow> usb_device list \<Rightarrow> nat \<times> nat option
    \<Rightarrow> usb_event list \<times> nat \<times> nat option" where
  "auto_search es i [] found = ([], found)"
| "auto_search es i (d # ds) found =
     (if ud_desc d = None then auto_search es (Suc i) ds found
      else (let (ev, ok) = search_entries i d es;
                (ev', r) = auto_search es (Suc i) ds (if ok then (Suc (fst found), Some i) else found)
            in (ev @ ev', r)))"

fun manual_search :: "u8 \<Rightarrow> u8 \<Rightarrow> nat \<Rightarrow> usb_device list \<Rightarrow> nat \<times> nat option" where
  "manual_search bus addr i [] = (0, None)"
| "manual_search bus addr i (d # ds) =
     (if ud_bus d = bus \<and> ud_addr d = addr then (1, Some i) else manual_search bus addr (Suc i) ds)"

text \<open>What the options ask for: a bus and an address, or a list of entries to search.\<close>

datatype dev_config = Cfg_Invalid | Cfg_Manual u8 u8 | Cfg_Search "usb_dev_entry list"

text \<open>The members of the entry stay null when the option is missing, and become null when it has no value.\<close>

definition option_string :: "string option option \<Rightarrow> string option" where
  "option_string v = (case v of None \<Rightarrow> None | Some p \<Rightarrow> p)"

definition device_config :: "glip_opts \<Rightarrow> dev_config exec" where
  "device_config opts =
     cbind (glip_option_get_uint8 opts ''usb_dev_bus'') (\<lambda>(bus, brv).
     cbind (glip_option_get_uint8 opts ''usb_dev_addr'') (\<lambda>(addr, arv).
       case (if brv = 0 then bus else None, if arv = 0 then addr else None) of
         (Some b, Some a) \<Rightarrow> Inr (Cfg_Manual b a)
       | (Some _, None) \<Rightarrow> Inr Cfg_Invalid
       | (None, Some _) \<Rightarrow> Inr Cfg_Invalid
       | (None, None) \<Rightarrow>
           cbind (glip_option_get_uint16 opts ''usb_vid'') (\<lambda>(vid, vrv).
           cbind (glip_option_get_uint16 opts ''usb_pid'') (\<lambda>(pid, prv).
             case (if vrv = 0 then vid else None, if prv = 0 then pid else None) of
               (Some _, None) \<Rightarrow> Inr Cfg_Invalid
             | (None, Some _) \<Rightarrow> Inr Cfg_Invalid
             | (None, None) \<Rightarrow> Inr (Cfg_Search usb_devs)
             | (Some v, Some p) \<Rightarrow>
                 cbind (glip_option_get_char opts ''usb_manufacturer'') (\<lambda>(m, _).
                 cbind (glip_option_get_char opts ''usb_product'') (\<lambda>(q, _).
                   Inr (Cfg_Search [\<lparr>de_vid = v, de_pid = p, de_manufacturer = option_string m, de_product = option_string q\<rparr>,
                     no_entry])))))))"

definition find_device :: "dev_config \<Rightarrow> usb_device list \<Rightarrow> usb_event list \<times> nat \<times> nat option" where
  "find_device cfg ds =
     (case cfg of
        Cfg_Invalid \<Rightarrow> ([], 0, None)
      | Cfg_Manual bus addr \<Rightarrow> ([], manual_search bus addr 0 ds)
      | Cfg_Search es \<Rightarrow> auto_search es 0 ds (0, None))"


section \<open>Opening and closing\<close>

text \<open>\<open>w\<close> is the world the context is put into.  The result of \<open>calloc\<close> is not tested.\<close>

definition gb_cypressfx2_new :: "cyp \<Rightarrow> bool \<Rightarrow> (cyp option \<times> int) exec" where
  "gb_cypressfx2_new w alloc =
     (if \<not> alloc then Inl Mem_Fault
      else if usb_init_rv w < 0 then Inr (None, usb_init_rv w)
      else Inr (Some (w\<lparr>usb_dev_handle := None, write_buf := None, read_buf := None,
             write_sem := 0, read_sem := 0, write_thread := False, read_threads := 0\<rparr>), 0))"

text \<open>Behind the opening of the device: configuration, reset, buffers, threads.\<close>

definition open_buffers :: "cyp \<Rightarrow> (cyp \<times> int) exec" where
  "open_buffers c =
     cbind (cbuf_init (fst (write_mem c)) (snd (write_mem c)) (ucast USB_BUF_SIZE)) (\<lambda>(wb, rv).
       if rv < 0 then Inr (c\<lparr>write_buf := None\<rparr>, - 1)
       else (let c1 = c\<lparr>write_buf := map_option (\<lambda>b. fst (cbuf_set_hint_max_read_size b
                 (ucast (USB_MAX_PACKETS_PER_TRANSFER * USB_TRANSFER_PACKET_SIZE_BYTES)))) wb\<rparr>
             in cbind (cbuf_init (fst (read_mem c1)) (snd (read_mem c1)) (ucast USB_BUF_SIZE)) (\<lambda>(rb, rv').
               if rv' < 0 then Inr (c1\<lparr>read_buf := None\<rparr>, - 1)
               else Inr (c1\<lparr>read_buf := rb\<rparr>, 0))))"

definition start_threads :: "cyp \<Rightarrow> cyp \<times> int" where
  "start_threads c =
     (let c0 = c\<lparr>write_sem := 0, read_sem := 0\<rparr>
      in if create_write_rv c \<noteq> 0 then (c0, - 1)
         else if create_read_rv c \<noteq> 0 then (c0\<lparr>write_thread := True\<rparr>, - 1)
         else (c0\<lparr>write_thread := True, read_threads := read_threads c0 + 1\<rparr>, 0))"

definition open_device :: "cyp \<Rightarrow> (cyp \<times> int) exec" where
  "open_device c =
     (if config_rv c < 0 then Inr (c, - 1)
      else if claim_rv c < 0 then Inr (c, - 1)
      else (let (c1, rv1) = libusb_control_transfer c 1
            in if rv1 < 0 then Inr (c1, - 1)
               else (let (c2, rv2) = libusb_control_transfer c1 0
                     in if rv2 < 0 then Inr (c2, - 1)
                        else cbind (open_buffers c2) (\<lambda>(c3, rv3).
                          if rv3 < 0 then Inr (c3, - 1) else Inr (start_threads c3)))))"

definition gb_cypressfx2_open :: "glip_opts \<Rightarrow> cyp \<Rightarrow> u32 \<Rightarrow> (cyp \<times> int) exec" where
  "gb_cypressfx2_open opts c num_channels =
     (if usb_dev_handle c \<noteq> None then Inr (c, - 1)
      else cbind (device_config opts) (\<lambda>cfg.
        if cfg = Cfg_Invalid then Inr (c, - EINVAL)
        else (case usb_list c of
            None \<Rightarrow> Inr (c, - 1)
          | Some ds \<Rightarrow>
              (let (ev, found_cnt, found) = find_device cfg ds; c1 = usb_logged ev c
               in case found of
                    None \<Rightarrow> Inr (c1, - EINVAL)
                  | Some i \<Rightarrow>
                      if ud_open_rv (ds ! i) < 0 then Inr (c1, - 1)
                      else open_device (usb_logged [Usb_Open i, Usb_Free_List]
                             (c1\<lparr>usb_dev_handle := Some i\<rparr>))))))"

text \<open>
  Closing cancels and joins the writing thread, which must exist; the reading thread is left alone.
  The result of releasing the interface is only reported.
\<close>

definition gb_cypressfx2_close :: "cyp \<Rightarrow> (cyp \<times> int) exec" where
  "gb_cypressfx2_close c =
     (case usb_dev_handle c of
        None \<Rightarrow> Inr (c, - 1)
      | Some i \<Rightarrow>
          if \<not> write_thread c then Inl Mem_Fault
          else Inr ((usb_logged [Usb_Release, Usb_Close i] c)
                 \<lparr>write_thread := False, usb_dev_handle := None, write_buf := None, read_buf := None\<rparr>, 0))"

definition gb_cypressfx2_logic_reset :: "cyp \<Rightarrow> (cyp \<times> int) exec" where
  "gb_cypressfx2_logic_reset c =
     (if usb_dev_handle c = None then Inr (c, - 1)
      else (let (c1, rv) = libusb_control_transfer c 2
            in if rv < 0 then Inr (c1, - 1)
               else (let (c2, rv') = libusb_control_transfer c1 0
                     in Inr (c2, if rv' < 0 then - 1 else 0))))"

section \<open>Reading and writing\<close>

text \<open>A semaphore is posted only when its count is zero.\<close>

definition post_if_zero :: "nat \<Rightarrow> nat" where
  "post_if_zero sval = (if sval = 0 then sval + 1 else sval)"

definition gb_cypressfx2_read ::
    "cyp \<Rightarrow> u32 \<Rightarrow> size_t \<Rightarrow> u8 list \<Rightarrow> (cyp \<times> u8 list \<times> size_t option \<times> int) exec" where
  "gb_cypressfx2_read c channel sz data =
     (if channel \<noteq> 0 then Inr (c, data, None, - 1)
      else (case read_buf c of
          None \<Rightarrow> Inl Mem_Fault
        | Some b \<Rightarrow>
            (let fill_level = cbuf_fill_level b;
                 size_read_req = (if sz > fill_level then fill_level else sz)
             in cbind (cbuf_read b data size_read_req) (\<lambda>(b', d, rv).
                  if rv < 0 then Inr (c\<lparr>read_buf := Some b'\<rparr>, d, None, - 1)
                  else Inr (c\<lparr>read_buf := Some b',
                         read_sem := (if cbuf_free_level b' \<ge> ucast USB_TRANSFER_PACKET_SIZE_BYTES
                                      then post_if_zero (read_sem c) else read_sem c)\<rparr>,
                       d, Some size_read_req, 0)))))"

definition gb_cypressfx2_read_b ::
    "cyp \<Rightarrow> u32 \<Rightarrow> size_t \<Rightarrow> u8 list \<Rightarrow> u32 \<Rightarrow> (cyp \<times> u8 list \<times> size_t option \<times> int) exec" where
  "gb_cypressfx2_read_b c channel sz data timeout =
     (if sz > ucast USB_BUF_SIZE then Inr (c, data, None, - 1)
      else (case read_buf c of
          None \<Rightarrow> Inl Mem_Fault
        | Some b \<Rightarrow>
            cbind (wait_fill b sz (read_waits c)) (\<lambda>(b1, evs).
            cbind (gb_cypressfx2_read (c\<lparr>read_buf := Some b1, read_waits := evs\<rparr>) channel sz data)
              (\<lambda>(c2, d, n, rv).
                 let size_read = (case n of None \<Rightarrow> 0 | Some k \<Rightarrow> k)
                 in Inr (c2, d, Some size_read,
                      if rv = 0 \<and> sz \<noteq> size_read then - ETIMEDOUT else rv)))))"

text \<open>The buffer part is that of the other backends (\<open>fifo_write\<close>).\<close>

definition gb_cypressfx2_write ::
    "cyp \<Rightarrow> u32 \<Rightarrow> size_t \<Rightarrow> u8 list \<Rightarrow> (cyp \<times> size_t option \<times> int) exec" where
  "gb_cypressfx2_write c channel sz data =
     (if channel \<noteq> 0 then Inr (c, None, - 1)
      else (case write_buf c of
          None \<Rightarrow> Inl Mem_Fault
        | Some b \<Rightarrow>
            cbind (fifo_write b sz data) (\<lambda>(b', n).
              Inr (c\<lparr>write_buf := Some b',
                   write_sem := (if cbuf_fill_level b' \<ge> ucast (USB_BUF_SIZE div 2)
                                 then post_if_zero (write_sem c) else write_sem c)\<rparr>, Some n, 0))))"

text \<open>
  The loop of the blocking write: neither the result of the write nor that of the wait is looked at.
  Between two turns the writing thread may take bytes out, as in \<open>write_b_loop\<close>.
\<close>

fun cyp_write_b_loop ::
    "cyp \<Rightarrow> u32 \<Rightarrow> size_t \<Rightarrow> u8 list \<Rightarrow> size_t \<Rightarrow> wait_event list \<Rightarrow> (cyp \<times> wait_event list \<times> size_t) exec"
  where
  "cyp_write_b_loop c channel sz data size_done evs =
     cbind (gb_cypressfx2_write c channel (sz - size_done) (drop (unat size_done) data)) (\<lambda>(c1, n, _).
       let size_done' = size_done + (case n of None \<Rightarrow> 0 | Some k \<Rightarrow> k)
       in if size_done' = sz then Inr (c1, evs, size_done')
          else (case evs of
              [] \<Rightarrow> Inl Blocked
            | e # r \<Rightarrow>
                (case write_buf c1 of
                   None \<Rightarrow> Inl Mem_Fault
                 | Some b1 \<Rightarrow>
                     (let (b2, _) = cbuf_discard b1 (we_early e);
                          (b3, _) = (if cbuf_free_level b2 = 0 then cbuf_discard b2 (we_late e) else (b2, 0))
                      in cyp_write_b_loop (c1\<lparr>write_buf := Some b3\<rparr>) channel sz data size_done' r))))"

declare cyp_write_b_loop.simps [simp del]

definition gb_cypressfx2_write_b ::
    "cyp \<Rightarrow> u32 \<Rightarrow> size_t \<Rightarrow> u8 list \<Rightarrow> u32 \<Rightarrow> (cyp \<times> size_t option \<times> int) exec" where
  "gb_cypressfx2_write_b c channel sz data timeout =
     cbind (cyp_write_b_loop c channel sz data 0 (write_waits c)) (\<lambda>(c', evs, size_written).
       Inr (c'\<lparr>write_waits := evs\<rparr>, Some size_written, if sz \<noteq> size_written then - ETIMEDOUT else 0))"

definition gb_cypressfx2_get_channel_count :: "cyp \<Rightarrow> u32" where
  "gb_cypressfx2_get_channel_count c = 1"

definition gb_cypressfx2_get_fifo_width :: "cyp \<Rightarrow> u32" where
  "gb_cypressfx2_get_fifo_width c = 2"

definition cypressfx2_backend :: "cyp glip_backend_if" where
  "cypressfx2_backend =
     \<lparr>be_open = gb_cypressfx2_open, be_close = gb_cypressfx2_close,
      be_logic_reset = gb_cypressfx2_logic_reset, be_read = gb_cypressfx2_read,
      be_read_b = gb_cypressfx2_read_b, be_write = gb_cypressfx2_write,
      be_write_b = gb_cypressfx2_write_b, be_get_fifo_width = gb_cypressfx2_get_fifo_width,
      be_get_channel_count = gb_cypressfx2_get_channel_count\<rparr>"

section \<open>The two threads\<close>

text \<open>
  One turn of a thread: the wait on its semaphore ends by a post or by its timeout, and the turn
  goes on in both cases.  As many full packets as there are, at most 64, or one short packet of
  whole words.
\<close>

definition transfer_size :: "u32 \<Rightarrow> u32" where
  "transfer_size fill =
     (if fill \<ge> USB_TRANSFER_PACKET_SIZE_BYTES
      then (let n = fill div USB_TRANSFER_PACKET_SIZE_BYTES;
                num_packets = (if sint n > sint USB_MAX_PACKETS_PER_TRANSFER
                               then USB_MAX_PACKETS_PER_TRANSFER else n)
            in num_packets * USB_TRANSFER_PACKET_SIZE_BYTES)
      else fill - fill mod 2)"

text \<open>The bytes a transfer is made of; of an empty one the pointer is not followed.\<close>

definition transfer_bytes :: "cbuf \<Rightarrow> bufptr option \<Rightarrow> u32 \<Rightarrow> u8 list exec" where
  "transfer_bytes b p len =
     (if len = 0 then Inr []
      else (case p of None \<Rightarrow> Inl Mem_Fault | Some p \<Rightarrow> ptr_load b p (unat len)))"

text \<open>A transfer that fails otherwise than by its timeout must not have sent anything.\<close>

definition usb_write_round :: "cyp \<Rightarrow> cyp exec" where
  "usb_write_round c =
     (let c0 = c\<lparr>write_sem := write_sem c - 1\<rparr>
      in case write_buf c0 of
           None \<Rightarrow> Inl Mem_Fault
         | Some b \<Rightarrow>
             (let fill = (ucast (cbuf_fill_level b) :: u32); len = transfer_size fill
              in if fill = 0 then Inr c0
                 else cbind (c_assert (len mod gb_cypressfx2_get_fifo_width c0 = 0)) (\<lambda>_.
                   cbind (cbuf_peek (tmp_mem c0) b (ucast len)) (\<lambda>(b1, p, rv).
                   cbind (c_assert (rv = 0)) (\<lambda>_.
                   cbind (transfer_bytes b1 p len) (\<lambda>d.
                     case bulk_out c0 of
                       [] \<Rightarrow> Inl Blocked
                     | (rv', k) # r \<Rightarrow>
                         (let sent = min k (unat len);
                              c1 = c0\<lparr>write_buf := Some b1, bulk_out := r, usb_sent := usb_sent c0 @ take sent d\<rparr>
                          in if rv' \<noteq> 0 \<and> rv' \<noteq> LIBUSB_ERROR_TIMEOUT
                             then cbind (c_assert (sent = 0)) (\<lambda>_. Inr c1)
                             else Inr (c1\<lparr>write_buf := Some (fst (cbuf_discard b1 (of_nat sent)))\<rparr>))))))))"

text \<open>
  The result of \<open>cbuf_reserve\<close> is not looked at: when there is no memory the pointer is
  uninitialised, or one of an earlier turn.
\<close>

definition usb_read_round :: "cyp \<Rightarrow> cyp exec" where
  "usb_read_round c =
     (let c0 = c\<lparr>read_sem := read_sem c - 1\<rparr>
      in case read_buf c0 of
           None \<Rightarrow> Inl Mem_Fault
         | Some b \<Rightarrow>
             (let n = (ucast (cbuf_free_level b) :: u32) div USB_TRANSFER_PACKET_SIZE_BYTES;
                  num_packets = (if n > USB_MAX_PACKETS_PER_TRANSFER then USB_MAX_PACKETS_PER_TRANSFER else n);
                  buf_size = num_packets * USB_TRANSFER_PACKET_SIZE_BYTES
              in if buf_size = 0 then Inr c0
                 else cbind (cbuf_reserve (tmp_mem c0) b (ucast buf_size)) (\<lambda>(b1, p, _).
                   case p of
                     None \<Rightarrow> Inl Mem_Fault
                   | Some p \<Rightarrow>
                       (case bulk_in c0 of
                          [] \<Rightarrow> Inl Blocked
                        | (rv, bs) # r \<Rightarrow>
                            (let received = take (unat buf_size) bs;
                                 c1 = c0\<lparr>bulk_in := r, usb_got := usb_got c0 @ received\<rparr>
                             in cbind (ptr_store b1 p received) (\<lambda>b2.
                                  if rv \<noteq> 0 \<and> rv \<noteq> LIBUSB_ERROR_TIMEOUT
                                  then Inr (c1\<lparr>read_buf := Some b2\<rparr>)
                                  else cbind (cbuf_commit b2 p (of_nat (length received))) (\<lambda>(b3, _).
                                    Inr (c1\<lparr>read_buf := Some b3\<rparr>))))))))"

text \<open>The loops of the threads, for \<open>n\<close> turns.\<close>

fun usb_write_thread :: "nat \<Rightarrow> cyp \<Rightarrow> cyp exec" where
  "usb_write_thread 0 c = Inr c"
| "usb_write_thread (Suc n) c = cbind (usb_write_round c) (usb_write_thread n)"

fun usb_read_thread :: "nat \<Rightarrow> cyp \<Rightarrow> cyp exec" where
  "usb_read_thread 0 c = Inr c"
| "usb_read_thread (Suc n) c = cbind (usb_read_round c) (usb_read_thread n)"

end
