(* ===== verification/Cypress_Streams.thy ===== *)
theory Cypress_Streams
  imports Cypress Backend_Contract
begin

text \<open>
  The Cypress FX2 backend as a pair of byte streams: the invariant of its state, what every call
  and every turn of a thread does to the bytes in the buffers, the interpretation of the contract of
  the backends, and the states that calls and turns in any order can reach.
\<close>

section \<open>The invariant\<close>

definition buf_ok :: "cbuf option \<Rightarrow> bool" where
  "buf_ok bo = (case bo of None \<Rightarrow> False | Some b \<Rightarrow> cbuf_wf b \<and> cbuf_tmp_wf b)"

definition held :: "cbuf option \<Rightarrow> u8 list" where
  "held bo = (case bo of None \<Rightarrow> [] | Some b \<Rightarrow> contents b)"

lemma buf_ok_simps [simp]:
  "\<not> buf_ok None" "buf_ok (Some b) \<longleftrightarrow> cbuf_wf b \<and> cbuf_tmp_wf b" "held (Some b) = contents b" "held None = []"
  by (simp_all add: buf_ok_def held_def)

lemma buf_okE:
  assumes "buf_ok bo"
  obtains b where "bo = Some b" "cbuf_wf b" "cbuf_tmp_wf b"
  using assms by (cases bo) simp_all

definition cyp_inv :: "cyp \<Rightarrow> bool" where
  "cyp_inv c \<longleftrightarrow> buf_ok (write_buf c) \<and> buf_ok (read_buf c) \<and> write_sem c \<le> 1 \<and> read_sem c \<le> 1"

abbreviation cyp_in :: "cyp \<Rightarrow> u8 list" where
  "cyp_in c \<equiv> held (read_buf c)"

abbreviation cyp_out :: "cyp \<Rightarrow> u8 list" where
  "cyp_out c \<equiv> held (write_buf c)"

definition cyp_room :: "cyp \<Rightarrow> nat" where
  "cyp_room c = (case write_buf c of None \<Rightarrow> 0 | Some b \<Rightarrow> capacity b - length (contents b))"

lemma cyp_room_Some [simp]: "write_buf c = Some b \<Longrightarrow> cyp_room c = capacity b - length (contents b)"
  by (simp add: cyp_room_def)

lemma post_if_zero_le [simp]: "n \<le> Suc 0 \<Longrightarrow> post_if_zero n \<le> Suc 0"
  by (simp add: post_if_zero_def)

section \<open>The calls\<close>

lemma fifo_write_tmp_wf: "fifo_write b n src = Inr (b', m) \<Longrightarrow> cbuf_tmp_wf b' = cbuf_tmp_wf b"
  by (auto simp: fifo_write_def cbind_eq_Inr_iff Let_def dest: cbuf_write_tmp_wf)

lemma cyp_write_ok:
  assumes "cyp_inv c" and "unat n \<le> length src" and k: "k = min (unat n) (cyp_room c)"
  shows "\<exists>c'. gb_cypressfx2_write c 0 n src = Inr (c', Some (of_nat k), 0) \<and> cyp_inv c' \<and>
    cyp_out c' = cyp_out c @ take k src \<and> cyp_room c' = cyp_room c - k \<and> k < 2 ^ 31 \<and>
    read_buf c' = read_buf c \<and> usb_sent c' = usb_sent c \<and> usb_got c' = usb_got c \<and>
    tmp_mem c' = tmp_mem c \<and> bulk_out c' = bulk_out c \<and> bulk_in c' = bulk_in c"
proof -
  obtain b where b: "write_buf c = Some b" "cbuf_wf b" "cbuf_tmp_wf b"
    using assms(1) by (auto simp: cyp_inv_def elim: buf_okE)
  have k': "k = min (unat n) (capacity b - length (contents b))" using k b(1) by simp
  obtain b' where b': "fifo_write b n src = Inr (b', of_nat k)" "cbuf_wf b'" "contents b' = contents b @ take k src"
    "capacity b' - length (contents b') = capacity b - length (contents b) - k"
    using fifo_write_ok [OF b(2) assms(2) k'] by blast
  have "k < 2 ^ 31" using k' fifo_small(2) [OF b(2)] by (simp add: min.strict_coboundedI2)
  then show ?thesis
    using assms(1) b b' fifo_write_tmp_wf [OF b'(1)] by (simp add: gb_cypressfx2_write_def cyp_inv_def cyp_room_def)
qed

lemma cyp_read_ok:
  assumes "cyp_inv c" and "unat n \<le> length dst" and k: "k = min (unat n) (length (cyp_in c))"
  shows "\<exists>c'. gb_cypressfx2_read c 0 n dst = Inr (c', take k (cyp_in c) @ drop k dst, Some (of_nat k), 0) \<and>
    cyp_inv c' \<and> cyp_in c' = drop k (cyp_in c) \<and> k < 2 ^ 31 \<and>
    write_buf c' = write_buf c \<and> usb_sent c' = usb_sent c \<and> usb_got c' = usb_got c \<and>
    tmp_mem c' = tmp_mem c \<and> bulk_out c' = bulk_out c \<and> bulk_in c' = bulk_in c"
proof -
  obtain b where b: "read_buf c = Some b" "cbuf_wf b" "cbuf_tmp_wf b"
    using assms(1) by (auto simp: cyp_inv_def elim: buf_okE)
  define m where "m = (if n > cbuf_fill_level b then cbuf_fill_level b else n)"
  have m: "unat m = k" using k b(1) cq.level [OF b(2)] by (auto simp: m_def word_less_nat_alt)
  have "length (contents b) < 2 ^ 31" using fifo_small(1) [OF b(2)] .
  then have k31: "k < 2 ^ 31" using k b(1) by (simp add: min.strict_coboundedI2)
  then have mk: "m = of_nat k" using m by (simp add: word_unat_eq_iff)
  obtain b' where b': "cbuf_read b dst m = Inr (b', take k (contents b) @ drop k dst, 0)"
    "cbuf_wf b'" "contents b' = drop k (contents b)"
    using cq.get_some [OF b(2) assms(2), of m] m k b(1) by auto
  have "cbuf_tmp_wf b'" using cbuf_read_tmp_wf [OF b'(1)] b(3) by simp
  then show ?thesis
    using assms(1) b b' k31 by (simp add: gb_cypressfx2_read_def cyp_inv_def flip: m_def mk)
qed

interpretation cy: fifo_backend cypressfx2_backend cyp_inv cyp_in cyp_out cyp_room
proof
  fix s :: cyp and n :: size_t and dst :: "u8 list" and k :: nat
  assume "cyp_inv s" "unat n < 2 ^ 31" "unat n \<le> length dst" "k = min (unat n) (length (cyp_in s))"
  from cyp_read_ok [OF this(1,3,4)]
  show "\<exists>s'. be_read cypressfx2_backend s 0 n dst =
      Inr (s', take k (cyp_in s) @ drop k dst, Some (of_nat k), 0) \<and> cyp_inv s' \<and>
      cyp_in s' = drop k (cyp_in s) \<and> cyp_out s' = cyp_out s \<and> cyp_room s' = cyp_room s"
    by (auto simp: cypressfx2_backend_def cyp_room_def)
next
  fix s :: cyp and n :: size_t and src :: "u8 list" and k :: nat
  assume "cyp_inv s" "unat n < 2 ^ 31" "unat n \<le> length src" "k = min (unat n) (cyp_room s)"
  from cyp_write_ok [OF this(1,3,4)]
  show "\<exists>s'. be_write cypressfx2_backend s 0 n src = Inr (s', Some (of_nat k), 0) \<and> cyp_inv s' \<and>
      cyp_out s' = cyp_out s @ take k src \<and> cyp_in s' = cyp_in s \<and> cyp_room s' = cyp_room s - k"
    by (auto simp: cypressfx2_backend_def)
next
  fix s :: cyp and ch :: u32 and n dst src
  assume "ch \<noteq> 0"
  then show "be_read cypressfx2_backend s ch n dst = Inr (s, dst, None, - 1)"
    "be_write cypressfx2_backend s ch n src = Inr (s, None, - 1)"
    by (simp_all add: cypressfx2_backend_def gb_cypressfx2_read_def gb_cypressfx2_write_def)
next
  fix s
  assume "cyp_inv s"
  then obtain w r where "write_buf s = Some w" "cbuf_wf w" "read_buf s = Some r" "cbuf_wf r"
    by (auto simp: cyp_inv_def elim!: buf_okE)
  then show "length (cyp_in s) < 2 ^ 31" "cyp_room s < 2 ^ 31"
    using fifo_small(1) [of r] fifo_small(2) [of w] by simp_all
qed

interpretation cy: copying_backend cypressfx2_backend cyp_inv cyp_in cyp_out cyp_room
proof
  fix s :: cyp and n :: size_t and src :: "u8 list" and k :: nat
  assume i: "cyp_inv s" and k: "k = min (unat n) (cyp_room s)"
  obtain b where b: "write_buf s = Some b" "cbuf_wf b" using i by (auto simp: cyp_inv_def elim: buf_okE)
  then show "be_write cypressfx2_backend s 0 n src = be_write cypressfx2_backend s 0 (of_nat k) src"
    using fifo_write_fits [of b k n src] k by (simp add: cypressfx2_backend_def gb_cypressfx2_write_def)
next
  fix s :: cyp and n :: size_t and src :: "u8 list"
  assume i: "cyp_inv s" and n: "unat n \<le> cyp_room s" "length src < unat n"
  obtain b where b: "write_buf s = Some b" "cbuf_wf b" using i by (auto simp: cyp_inv_def elim: buf_okE)
  then show "be_write cypressfx2_backend s 0 n src = Inl Mem_Fault"
    using fifo_write_outside [of b n src] n by (simp add: cypressfx2_backend_def gb_cypressfx2_write_def)
qed

section \<open>Turns of the threads\<close>

definition transfer_len :: "nat \<Rightarrow> nat" where
  "transfer_len f = (if 512 \<le> f then min (f div 512) 64 * 512 else f - f mod 2)"

lemma unat_times_packet:
  assumes "unat (n :: u32) \<le> 64"
  shows "unat (n * USB_TRANSFER_PACKET_SIZE_BYTES) = unat n * 512"
  using assms by (simp add: usb_sizes unat_word_ariths)

lemma unat_packets:
  "unat (if n > USB_MAX_PACKETS_PER_TRANSFER then USB_MAX_PACKETS_PER_TRANSFER else n) = min (unat n) 64"
  by (auto simp: usb_sizes word_less_nat_alt)

lemma unat_transfer_size:
  assumes "unat f < 2 ^ 31"
  shows "unat (transfer_size f) = transfer_len (unat f)"
proof (cases "USB_TRANSFER_PACKET_SIZE_BYTES \<le> f")
  case True
  let ?n = "f div USB_TRANSFER_PACKET_SIZE_BYTES"
  have n: "unat ?n = unat f div 512" by (simp add: usb_sizes unat_div)
  then have "sint ?n = int (unat f div 512)" using sint_small [of ?n] assms by simp
  then have "sint ?n > sint USB_MAX_PACKETS_PER_TRANSFER \<longleftrightarrow> ?n > USB_MAX_PACKETS_PER_TRANSFER"
    using n by (simp add: usb_sizes word_less_nat_alt)
  then have "transfer_size f = (if ?n > USB_MAX_PACKETS_PER_TRANSFER then USB_MAX_PACKETS_PER_TRANSFER else ?n)
      * USB_TRANSFER_PACKET_SIZE_BYTES"
    using True by (simp add: transfer_size_def Let_def)
  moreover have "512 \<le> unat f" using True by (simp add: usb_sizes word_le_nat_alt)
  ultimately show ?thesis
    using unat_times_packet unat_packets [of ?n] n by (simp add: transfer_len_def)
next
  case False
  then have "unat f < 512" by (simp add: usb_sizes word_le_nat_alt)
  moreover have "unat (f - f mod 2) = unat f - unat f mod 2"
    by (simp add: unat_minus_le unat_mod word_le_nat_alt)
  ultimately show ?thesis using False by (simp add: transfer_size_def transfer_len_def)
qed

lemma transfer_len_bounds: "transfer_len n \<le> n" "even (transfer_len n)"
proof -
  have "min (n div 512) 64 * 512 \<le> n div 512 * 512" by simp
  also have "\<dots> \<le> n" by (rule div_times_less_eq_dividend)
  finally show "transfer_len n \<le> n" by (simp add: transfer_len_def)
  have "even (n - n mod 2)" by (simp add: minus_mod_eq_mult_div)
  then show "even (transfer_len n)" by (simp add: transfer_len_def)
qed

text \<open>
  A turn of the writing thread hands the oldest bytes to the device and keeps what it did not take; it ends in
  the assertion when a transfer fails that has moved bytes.  A transfer that ran into its timeout counts as good.
\<close>

definition transfer_fails :: "int \<Rightarrow> bool" where
  "transfer_fails rv \<longleftrightarrow> rv \<noteq> 0 \<and> rv \<noteq> LIBUSB_ERROR_TIMEOUT"

lemma unat_ucast_level: "unat (x :: size_t) < 2 ^ 31 \<Longrightarrow> unat (ucast x :: u32) = unat x"
  using unat_to_int [of x] by (simp add: to_int_def)

lemma peek_for_transfer:
  assumes "cbuf_wf b" and "cbuf_tmp_wf b" and "alloc_total al" and "unat (len :: u32) \<le> length (contents b)"
  obtains b1 p where "cbuf_peek al b (ucast len) = Inr (b1, p, 0)" "cbuf_wf b1" "cbuf_tmp_wf b1"
    "contents b1 = contents b"
    "transfer_bytes b1 p len = Inr (take (unat len) (contents b))"
proof (cases "len = 0")
  case True
  then show thesis using that [of b None] assms by (simp add: cbuf_peek_zero transfer_bytes_def)
next
  case False
  have u: "unat (ucast len :: size_t) = unat len" by (rule unat_ucast_up) simp
  have n: "(ucast len :: size_t) \<noteq> 0" using False u by (metis unat_eq_0 word_unat_eq_iff unsigned_0)
  have al: "alloc_ok al" "\<And>n. al n \<noteq> None" using assms(3) by (auto simp: alloc_total_def)
  have f: "unat (ucast len :: size_t) \<le> cbuf_fill b" using assms(4) u by simp
  from assms(1,2) al(1) f n show thesis
  proof (cases rule: cbuf_peek_cases)
    case (ok b1 p)
    then show thesis using that [of b1 "Some p"] False u by (simp add: transfer_bytes_def)
  next
    case (no_memory b' k)
    then show thesis using al(2) by blast
  qed
qed

lemma usb_write_round_ok:
  assumes "cyp_inv c" and "alloc_total (tmp_mem c)" and "n = transfer_len (length (cyp_out c))"
  shows "if cyp_out c = [] then usb_write_round c = Inr (c\<lparr>write_sem := write_sem c - 1\<rparr>)
    else (case bulk_out c of
        [] \<Rightarrow> usb_write_round c = Inl Blocked
      | (rv, k) # r \<Rightarrow>
          if transfer_fails rv \<and> min k n \<noteq> 0 then usb_write_round c = Inl Assert_Failed
          else \<exists>c'. usb_write_round c = Inr c' \<and> cyp_inv c' \<and> usb_sent c' = usb_sent c @ take (min k n) (cyp_out c) \<and>
            cyp_out c' = drop (min k n) (cyp_out c) \<and> read_buf c' = read_buf c \<and> usb_got c' = usb_got c \<and>
            tmp_mem c' = tmp_mem c \<and> bulk_out c' = r \<and> bulk_in c' = bulk_in c)"
proof -
  let ?c = "c\<lparr>write_sem := write_sem c - 1\<rparr>"
  obtain b where b: "write_buf c = Some b" "cbuf_wf b" "cbuf_tmp_wf b"
    using assms(1) by (auto simp: cyp_inv_def elim: buf_okE)
  define f where "f = (ucast (cbuf_fill_level b) :: u32)"
  have f: "unat f = length (contents b)" "unat f < 2 ^ 31"
    using unat_ucast_level [OF fifo_small(3) [OF b(2)]] fifo_small [OF b(2)] cq.level [OF b(2)] by (simp_all add: f_def)
  have f0: "f = 0 \<longleftrightarrow> contents b = []" using f(1) by (metis length_0_conv unat_eq_0 unsigned_0)
  define len where "len = transfer_size f"
  have len: "unat len = transfer_len (length (contents b))" using unat_transfer_size [OF f(2)] f(1) by (simp add: len_def)
  have even: "len mod gb_cypressfx2_get_fifo_width ?c = 0"
    using transfer_len_bounds(2) [of "length (contents b)"] len
    by (simp add: gb_cypressfx2_get_fifo_width_def word_unat_eq_iff unat_mod)
  have le: "unat len \<le> length (contents b)" using len transfer_len_bounds(1) by simp
  obtain b1 p where p: "cbuf_peek (tmp_mem c) b (ucast len) = Inr (b1, p, 0)" "cbuf_wf b1" "cbuf_tmp_wf b1"
    "contents b1 = contents b"
    "transfer_bytes b1 p len = Inr (take (unat len) (contents b))"
    by (rule peek_for_transfer [OF b(2,3) assms(2) le])
  show ?thesis
  proof (cases "cyp_out c = []")
    case True
    then show ?thesis using b f0 by (simp add: usb_write_round_def Let_def flip: f_def)
  next
    case False
    then have nz: "f \<noteq> 0" using b(1) f0 by simp
    have step: "usb_write_round c = (case bulk_out c of [] \<Rightarrow> Inl Blocked
      | (rv', k) # r \<Rightarrow>
          (let sent = min k (unat len);
               c1 = ?c\<lparr>write_buf := Some b1, bulk_out := r, usb_sent := usb_sent c @ take sent (contents b)\<rparr>
           in if rv' \<noteq> 0 \<and> rv' \<noteq> LIBUSB_ERROR_TIMEOUT then cbind (c_assert (sent = 0)) (\<lambda>_. Inr c1)
              else Inr (c1\<lparr>write_buf := Some (fst (cbuf_discard b1 (of_nat sent)))\<rparr>)))"
      using b(1) nz even p by (simp add: usb_write_round_def Let_def min.absorb1 cong: list.case_cong if_cong flip: f_def len_def)
    show ?thesis
    proof (cases "bulk_out c")
      case Nil
      then show ?thesis using False by (simp add: step)
    next
      case (Cons x r)
      obtain rv k where x: "x = (rv, k)" by fastforce
      define sent where "sent = min k (unat len)"
      have s: "sent \<le> length (contents b1)" "sent < 2 ^ 31"
        using le p(4) f by (simp_all add: sent_def min.coboundedI2 min.strict_coboundedI2)
      then have u: "unat (of_nat sent :: size_t) = sent" by simp
      obtain b2 where b2: "cbuf_discard b1 (of_nat sent) = (b2, 0)" "cbuf_wf b2" "contents b2 = drop sent (contents b1)"
        using cq.drop_front [OF p(2), of "of_nat sent"] s u by auto
      have t2: "cbuf_tmp_wf b2" using cbuf_discard_tmp_wf [of b1 "of_nat sent"] b2(1) p(3) by simp
      have n: "sent = min k n" using len b(1) assms(3) by (simp add: sent_def)
      show ?thesis
      proof (cases "transfer_fails rv \<and> sent \<noteq> 0")
        case True
        then have "usb_write_round c = Inl Assert_Failed"
          using Cons x by (simp add: step transfer_fails_def flip: sent_def)
        then show ?thesis using False Cons x True n by simp
      next
        case good: False
        let ?c1 = "?c\<lparr>write_buf := Some (if transfer_fails rv then b1 else b2),
          bulk_out := r, usb_sent := usb_sent c @ take sent (contents b)\<rparr>"
        have "usb_write_round c = Inr ?c1"
          using Cons x good b2(1) by (auto simp: step transfer_fails_def simp flip: sent_def)
        moreover have "cyp_inv ?c1" using assms(1) p(2,3) b2(2) t2 by (simp add: cyp_inv_def)
        moreover have "cyp_out ?c1 = drop sent (contents b)" using good p(4) b2(3) by auto
        ultimately show ?thesis using False Cons x b(1) good n by simp
      qed
    qed
  qed
qed

end
