(* ===== verification/Cypress_Reach.thy ===== *)
theory Cypress_Reach
  imports Cypress_Streams
begin

text \<open>
  The turns of the reading thread, what happens during the blocking calls, and the states of the Cypress FX2
  backend that the caller and its two threads can reach together.
\<close>

section \<open>Turns of the reading thread\<close>

definition cyp_in_room :: "cyp \<Rightarrow> nat" where
  "cyp_in_room c = (case read_buf c of None \<Rightarrow> 0 | Some b \<Rightarrow> capacity b - length (contents b))"

definition read_len :: "nat \<Rightarrow> nat" where
  "read_len room = min (room div 512) 64 * 512"

lemma read_len_le: "read_len n \<le> n"
proof -
  have "min (n div 512) 64 * 512 \<le> n div 512 * 512" by simp
  also have "\<dots> \<le> n" by (rule div_times_less_eq_dividend)
  finally show ?thesis by (simp add: read_len_def)
qed

lemma usb_read_round_ok:
  assumes "cyp_inv c" and "alloc_total (tmp_mem c)"
  shows "if cyp_in_room c < 512 then usb_read_round c = Inr (c\<lparr>read_sem := read_sem c - 1\<rparr>)
    else (case bulk_in c of
        [] \<Rightarrow> usb_read_round c = Inl Blocked
      | (rv, bs) # r \<Rightarrow> \<exists>c'. usb_read_round c = Inr c' \<and> cyp_inv c' \<and>
          usb_got c' = usb_got c @ take (read_len (cyp_in_room c)) bs \<and>
          cyp_in c' = cyp_in c @ (if transfer_fails rv then [] else take (read_len (cyp_in_room c)) bs) \<and>
          write_buf c' = write_buf c \<and> usb_sent c' = usb_sent c \<and>
          tmp_mem c' = tmp_mem c \<and> bulk_out c' = bulk_out c \<and> bulk_in c' = r)"
proof -
  let ?c = "c\<lparr>read_sem := read_sem c - 1\<rparr>"
  obtain b where b: "read_buf c = Some b" "cbuf_wf b" "cbuf_tmp_wf b"
    using assms(1) by (auto simp: cyp_inv_def elim: buf_okE)
  let ?room = "capacity b - length (contents b)"
  have room: "cyp_in_room c = ?room" using b(1) by (simp add: cyp_in_room_def)
  define n where "n = (ucast (cbuf_free_level b) :: u32) div USB_TRANSFER_PACKET_SIZE_BYTES"
  have n: "unat n = ?room div 512"
    using unat_ucast_level [OF fifo_small(4) [OF b(2)]] cq.room [OF b(2)] by (simp add: n_def usb_sizes unat_div)
  define sz where "sz = (if n > USB_MAX_PACKETS_PER_TRANSFER then USB_MAX_PACKETS_PER_TRANSFER else n)
    * USB_TRANSFER_PACKET_SIZE_BYTES"
  have sz: "unat sz = read_len ?room"
    using unat_times_packet [of "if n > USB_MAX_PACKETS_PER_TRANSFER then USB_MAX_PACKETS_PER_TRANSFER else n"]
      unat_packets [of n] n unfolding sz_def read_len_def by simp
  have z: "sz = 0 \<longleftrightarrow> ?room < 512"
    using sz by (auto simp: read_len_def word_unat_eq_iff min_def split: if_splits)
  show ?thesis
  proof (cases "?room < 512")
    case True
    then have "usb_read_round c = Inr ?c" using b(1) z by (simp add: usb_read_round_def Let_def flip: n_def sz_def)
    then show ?thesis using True room by simp
  next
    case False
    define bs where "bs = take (unat sz) (snd (hd (bulk_in c)))"
    have u: "unat (ucast sz :: size_t) = unat sz" by (rule unat_ucast_up) simp
    have fit: "unat (ucast sz :: size_t) \<le> ?room" using u sz read_len_le by simp
    have bl: "length bs \<le> unat (ucast sz :: size_t)" by (simp add: u bs_def)
    obtain b1 p b2 where p: "cbuf_reserve (tmp_mem c) b (ucast sz) = Inr (b1, Some p, 0)" "contents b1 = contents b"
      "ptr_store b1 p bs = Inr b2" "cbuf_wf b2" "cbuf_tmp_wf b2" "contents b2 = contents b" "cb_size b2 = cb_size b"
      "\<forall>m. unat m \<le> length bs \<longrightarrow> (\<exists>b3. cbuf_commit b2 p m = Inr (b3, 0) \<and> cbuf_wf b3 \<and>
         cbuf_tmp_wf b3 \<and> cb_size b3 = cb_size b \<and> contents b3 = contents b @ take (unat m) bs)"
      by (rule reserve_store_commit [OF b(2,3) assms(2) fit bl])
    have step: "usb_read_round c = (case bulk_in c of [] \<Rightarrow> Inl Blocked
      | (rv, bs) # r \<Rightarrow>
          (let received = take (unat sz) bs; c1 = ?c\<lparr>bulk_in := r, usb_got := usb_got c @ received\<rparr>
           in cbind (ptr_store b1 p received) (\<lambda>b2.
                if rv \<noteq> 0 \<and> rv \<noteq> LIBUSB_ERROR_TIMEOUT then Inr (c1\<lparr>read_buf := Some b2\<rparr>)
                else cbind (cbuf_commit b2 p (of_nat (length received))) (\<lambda>(b3, _).
                  Inr (c1\<lparr>read_buf := Some b3\<rparr>)))))"
      using b(1) z False p(1)
      by (simp add: usb_read_round_def Let_def cong: list.case_cong if_cong flip: n_def sz_def)
    show ?thesis
    proof (cases "bulk_in c")
      case Nil
      then show ?thesis using False room by (simp add: step)
    next
      case (Cons x r)
      obtain rv got where x: "x = (rv, got)" by fastforce
      have bs: "bs = take (unat sz) got" using Cons x by (simp add: bs_def)
      have "length bs \<le> ?room" using bl fit by simp
      then have "length bs < 2 ^ 31" using fifo_small(2) [OF b(2)] by linarith
      then have ub: "unat (of_nat (length bs) :: size_t) = length bs" by simp
      obtain b3 where b3: "cbuf_commit b2 p (of_nat (length bs)) = Inr (b3, 0)" "cbuf_wf b3" "cbuf_tmp_wf b3"
        "contents b3 = contents b @ bs"
        using p(8) [rule_format, of "of_nat (length bs)"] ub by auto
      let ?c1 = "?c\<lparr>read_buf := Some (if transfer_fails rv then b2 else b3),
        bulk_in := r, usb_got := usb_got c @ bs\<rparr>"
      have "usb_read_round c = Inr ?c1" using Cons x b3(1) p(3) by (auto simp: step transfer_fails_def simp flip: bs)
      moreover have "cyp_inv ?c1" using assms(1) p(4,5) b3(2,3) by (simp add: cyp_inv_def)
      moreover have "cyp_in ?c1 = contents b @ (if transfer_fails rv then [] else bs)" using p(6) b3(4) by simp
      ultimately show ?thesis using False Cons x b(1) sz room bs by simp
    qed
  qed
qed

section \<open>Blocking calls\<close>

lemma write_buffer_step:
  assumes "write_buf c = Some b" and "fifo_write b n src = Inr (b', k)"
  shows "\<exists>w. gb_cypressfx2_write c 0 n src = Inr (c\<lparr>write_sem := w, write_buf := Some b'\<rparr>, Some k, 0) \<and>
    (write_sem c \<le> 1 \<longrightarrow> w \<le> 1)"
  using assms
  by (cases c, intro exI [of _ "if cbuf_fill_level b' \<ge> ucast (USB_BUF_SIZE div 2)
      then post_if_zero (write_sem c) else write_sem c"]) (simp add: gb_cypressfx2_write_def)

text \<open>On channel zero the loop does to the buffer what that of the other backends does.\<close>

lemma cyp_write_b_loop_eq:
  assumes "write_buf c = Some b"
  shows "case write_b_loop b sz data n evs of
      Inl e \<Rightarrow> cyp_write_b_loop c 0 sz data n evs = Inl e
    | Inr (b', evs', m) \<Rightarrow> \<exists>w. (write_sem c \<le> 1 \<longrightarrow> w \<le> 1) \<and>
        cyp_write_b_loop c 0 sz data n evs = Inr (c\<lparr>write_sem := w, write_buf := Some b'\<rparr>, evs', m)"
  using assms
proof (induction evs arbitrary: c b n)
  case Nil
  show ?case
  proof (cases "fifo_write b (sz - n) (drop (unat n) data)")
    case (Inl e)
    then show ?thesis using Nil by (subst cyp_write_b_loop.simps, subst write_b_loop.simps)
      (simp add: gb_cypressfx2_write_def)
  next
    case (Inr r)
    then obtain b1 k where k: "fifo_write b (sz - n) (drop (unat n) data) = Inr (b1, k)" by (cases r) auto
    obtain w where w: "gb_cypressfx2_write c 0 (sz - n) (drop (unat n) data) =
        Inr (c\<lparr>write_sem := w, write_buf := Some b1\<rparr>, Some k, 0)" "write_sem c \<le> 1 \<longrightarrow> w \<le> 1"
      using write_buffer_step [OF Nil k] by blast
    have "cyp_write_b_loop c 0 sz data n [] =
        (if n + k = sz then Inr (c\<lparr>write_sem := w, write_buf := Some b1\<rparr>, [], sz) else Inl Blocked)"
      using w(1) by (subst cyp_write_b_loop.simps) (auto simp: Let_def)
    moreover have "write_b_loop b sz data n [] = (if n + k = sz then Inr (b1, [], sz) else Inl Blocked)"
      using k by (subst write_b_loop.simps) (auto simp: Let_def)
    ultimately show ?thesis using w(2) by auto
  qed
next
  case (Cons e evs)
  show ?case
  proof (cases "fifo_write b (sz - n) (drop (unat n) data)")
    case (Inl e)
    then show ?thesis using Cons.prems by (subst cyp_write_b_loop.simps, subst write_b_loop.simps)
      (simp add: gb_cypressfx2_write_def)
  next
    case (Inr r)
    then obtain b1 k where k: "fifo_write b (sz - n) (drop (unat n) data) = Inr (b1, k)" by (cases r) auto
    obtain w where w: "gb_cypressfx2_write c 0 (sz - n) (drop (unat n) data) =
        Inr (c\<lparr>write_sem := w, write_buf := Some b1\<rparr>, Some k, 0)" "write_sem c \<le> 1 \<longrightarrow> w \<le> 1"
      using write_buffer_step [OF Cons.prems k] by blast
    show ?thesis
    proof (cases "n + k = sz")
      case True
      have "cyp_write_b_loop c 0 sz data n (e # evs) = Inr (c\<lparr>write_sem := w, write_buf := Some b1\<rparr>, e # evs, sz)"
        using w(1) True by (subst cyp_write_b_loop.simps) (simp add: Let_def)
      moreover have "write_b_loop b sz data n (e # evs) = Inr (b1, e # evs, sz)"
        using k True by (subst write_b_loop.simps) (simp add: Let_def)
      ultimately show ?thesis using w(2) by auto
    next
      case False
      let ?c = "c\<lparr>write_sem := w, write_buf := Some (next_turn b1 e)\<rparr>"
      have "cyp_write_b_loop c 0 sz data n (e # evs) = cyp_write_b_loop ?c 0 sz data (n + k) evs"
        using False w(1) by (subst cyp_write_b_loop.simps) (simp add: Let_def next_turn_def case_prod_beta)
      moreover have "write_b_loop b sz data n (e # evs) = write_b_loop (next_turn b1 e) sz data (n + k) evs"
        using False k by (subst write_b_loop.simps) (simp add: Let_def next_turn_def case_prod_beta)
      moreover have "write_buf ?c = Some (next_turn b1 e)" by simp
      note Cons.IH [OF this, of "n + k"]
      ultimately show ?thesis using w(2) by (auto split: sum.splits)
    qed
  qed
qed

lemma cyp_write_b_loop_stuck:
  assumes "ch \<noteq> 0" and "n \<noteq> sz" and "write_buf c \<noteq> None"
  shows "cyp_write_b_loop c ch sz data n evs = Inl Blocked"
  using assms(2,3)
proof (induction evs arbitrary: c)
  case Nil
  then show ?case using assms(1) by (subst cyp_write_b_loop.simps) (simp add: gb_cypressfx2_write_def)
next
  case (Cons e evs)
  then show ?case using assms(1)
    by (subst cyp_write_b_loop.simps) (auto simp: gb_cypressfx2_write_def case_prod_beta Let_def)
qed

lemma write_b_try:
  assumes "cbuf_wf b" and "unat done \<le> unat sz" and "unat sz \<le> length data" and "unat sz < 2 ^ 31"
  obtains b' k where "fifo_write b (sz - done) (drop (unat done) data) = Inr (b', of_nat k)" "cbuf_wf b'"
    "cbuf_tmp_wf b' = cbuf_tmp_wf b" "k \<le> unat sz - unat done" "contents b' = contents b @ take k (drop (unat done) data)"
    "unat (done + of_nat k) = unat done + k" "done + of_nat k = sz \<longleftrightarrow> unat done + k = unat sz"
proof -
  define k where "k = min (unat sz - unat done) (capacity b - length (contents b))"
  have d: "unat (sz - done) = unat sz - unat done"
    using assms(2) by (simp add: unat_minus_le word_le_nat_alt)
  obtain b' where b: "fifo_write b (sz - done) (drop (unat done) data) = Inr (b', of_nat k)"
    "cbuf_wf b'" "contents b' = contents b @ take k (drop (unat done) data)"
    using fifo_write_ok [OF assms(1), of "sz - done" "drop (unat done) data" k]
      diff_le_mono [OF assms(3), of "unat done"] d unfolding k_def length_drop by metis
  have kle: "k \<le> unat sz - unat done" by (simp add: k_def)
  then have k: "k < 2 ^ 31" "unat done + k < 2 ^ 31" using assms(2,4) by linarith+
  then have a: "unat (done + of_nat k) = unat done + k" by (simp add: unat_add_small)
  then have "done + of_nat k = sz \<longleftrightarrow> unat done + k = unat sz" by (metis word_unat_eq_iff)
  then show thesis using that [OF b(1,2) fifo_write_tmp_wf [OF b(1)] kle b(3) a] by blast
qed

lemma write_b_loop_turn:
  assumes "fifo_write b (sz - done) (drop (unat done) data) = Inr (b', n)"
  shows "write_b_loop b sz data done evs = (if done + n = sz then Inr (b', evs, sz)
    else (case evs of [] \<Rightarrow> Inl Blocked | e # r \<Rightarrow> write_b_loop (next_turn b' e) sz data (done + n) r))"
  by (subst write_b_loop.simps) (cases evs, auto simp: assms case_prod_unfold Let_def next_turn_def)

lemma write_b_loop_blocked:
  assumes "cbuf_wf b" and "unat done \<le> unat sz" and "unat sz \<le> length data" and "unat sz < 2 ^ 31"
    and "write_b_loop b sz data done evs = Inl e"
  shows "e = Blocked"
  using assms
proof (induction evs arbitrary: b "done")
  case Nil
  obtain b1 k where "fifo_write b (sz - done) (drop (unat done) data) = Inr (b1, of_nat k)"
    by (rule write_b_try [OF Nil.prems(1-4)])
  from write_b_loop_turn [OF this, of "[]"] show ?case using Nil.prems(5) by (simp split: if_splits)
next
  case (Cons x r)
  obtain b1 k where b1: "fifo_write b (sz - done) (drop (unat done) data) = Inr (b1, of_nat k)" "cbuf_wf b1"
    "k \<le> unat sz - unat done" "unat (done + of_nat k) = unat done + k"
    by (rule write_b_try [OF Cons.prems(1-4)])
  obtain j where j: "cbuf_wf (next_turn b1 x)" by (rule next_turn_ok [OF b1(2)])
  have "write_b_loop (next_turn b1 x) sz data (done + of_nat k) r = Inl e"
    using Cons.prems(5) write_b_loop_turn [OF b1(1), of "x # r"] by (simp split: if_splits)
  moreover have "unat (done + of_nat k) \<le> unat sz" using b1(3,4) Cons.prems(2) by linarith
  ultimately show ?case using Cons.IH [OF j _ Cons.prems(3,4)] by blast
qed

text \<open>The bytes the writing thread takes out of the buffer while a blocking write goes on.\<close>

fun left_meanwhile :: "cbuf \<Rightarrow> size_t \<Rightarrow> u8 list \<Rightarrow> size_t \<Rightarrow> wait_event list \<Rightarrow> u8 list" where
  "left_meanwhile b sz data done [] = []"
| "left_meanwhile b sz data done (e # r) =
     (case fifo_write b (sz - done) (drop (unat done) data) of
        Inl _ \<Rightarrow> []
      | Inr (b1, n) \<Rightarrow>
          if done + n = sz then []
          else (let b2 = next_turn b1 e
                in take (length (contents b1) - length (contents b2)) (contents b1) @
                   left_meanwhile b2 sz data (done + n) r))"

lemma take_drop_lengths: "take (length xs - length (drop j xs)) xs @ drop j xs @ ys = xs @ ys"
  by (cases "j \<le> length xs") simp_all

lemma next_turn_tmp_wf: "cbuf_tmp_wf (next_turn b e) = cbuf_tmp_wf b"
  by (simp add: next_turn_def Let_def cbuf_discard_tmp_wf)

lemma write_b_loop_left:
  assumes "cbuf_wf b" and "cbuf_tmp_wf b" and "unat done \<le> unat sz" and "unat sz \<le> length data" and "unat sz < 2 ^ 31"
    and "write_b_loop b sz data done evs = Inr (b', evs', m)"
  shows "m = sz \<and> cbuf_wf b' \<and> cbuf_tmp_wf b' \<and>
    left_meanwhile b sz data done evs @ contents b' = contents b @ drop (unat done) (take (unat sz) data)"
  using assms
proof (induction evs arbitrary: b "done")
  case Nil
  obtain b1 k where b1: "fifo_write b (sz - done) (drop (unat done) data) = Inr (b1, of_nat k)" "cbuf_wf b1"
    "cbuf_tmp_wf b1 = cbuf_tmp_wf b" "k \<le> unat sz - unat done" "contents b1 = contents b @ take k (drop (unat done) data)"
    "unat (done + of_nat k) = unat done + k" "done + of_nat k = sz \<longleftrightarrow> unat done + k = unat sz"
    by (rule write_b_try [OF Nil.prems(1,3-5)])
  have r: "unat done + k = unat sz" "b' = b1" "m = sz"
    using Nil.prems(6) b1(7) unfolding write_b_loop_turn [OF b1(1)] by (simp_all split: if_splits)
  then show ?case using b1(2,3,5) Nil.prems(2) split_take [OF b1(4), of data] by simp
next
  case (Cons e r)
  obtain b1 k where b1: "fifo_write b (sz - done) (drop (unat done) data) = Inr (b1, of_nat k)" "cbuf_wf b1"
    "cbuf_tmp_wf b1 = cbuf_tmp_wf b" "k \<le> unat sz - unat done" "contents b1 = contents b @ take k (drop (unat done) data)"
    "unat (done + of_nat k) = unat done + k" "done + of_nat k = sz \<longleftrightarrow> unat done + k = unat sz"
    by (rule write_b_try [OF Cons.prems(1,3-5)])
  note turn = Cons.prems(6) [unfolded write_b_loop_turn [OF b1(1)]]
  note split = split_take [OF b1(4), of data]
  show ?case
  proof (cases "done + of_nat k = sz")
    case True
    then have r: "unat done + k = unat sz" "b' = b1" "m = sz" using turn b1(7) by simp_all
    then show ?thesis using True b1(1-3,5) Cons.prems(2) split by simp
  next
    case False
    obtain j where j: "cbuf_wf (next_turn b1 e)" "contents (next_turn b1 e) = drop j (contents b1)"
      by (rule next_turn_ok [OF b1(2)])
    have l: "write_b_loop (next_turn b1 e) sz data (done + of_nat k) r = Inr (b', evs', m)" using turn False by simp
    have "unat (done + of_nat k) \<le> unat sz" using b1(4,6) Cons.prems(3) by linarith
    from Cons.IH [OF j(1) _ this Cons.prems(4,5) l] have IH: "m = sz" "cbuf_wf b'" "cbuf_tmp_wf b'"
      "left_meanwhile (next_turn b1 e) sz data (done + of_nat k) r @ contents b' =
        drop j (contents b1) @ drop (unat done + k) (take (unat sz) data)"
      using next_turn_tmp_wf b1(3) Cons.prems(2) j(2) b1(6) by simp_all
    have "left_meanwhile b sz data done (e # r) @ contents b' =
        take (length (contents b1) - length (contents (next_turn b1 e))) (contents b1) @
        left_meanwhile (next_turn b1 e) sz data (done + of_nat k) r @ contents b'"
      using False b1(1) by (simp add: Let_def del: length_contents)
    also have "\<dots> = contents b1 @ drop (unat done + k) (take (unat sz) data)"
      unfolding IH(4) j(2) by (rule take_drop_lengths)
    also have "\<dots> = contents b @ drop (unat done) (take (unat sz) data)" using b1(5) split by simp
    finally show ?thesis using IH(1-3) by blast
  qed
qed

lemma wait_fill_tmp_wf: "wait_fill b sz evs = Inr (b', evs') \<Longrightarrow> cbuf_tmp_wf b' = cbuf_tmp_wf b"
proof (induction evs arbitrary: b)
  case Nil
  then show ?case by (subst (asm) wait_fill.simps) (auto split: if_splits)
next
  case (Cons e evs)
  then show ?case
    by (subst (asm) wait_fill.simps) (auto simp: cbind_eq_Inr_iff dest!: cbuf_write_tmp_wf split: if_splits)
qed

section \<open>Reachable states\<close>

text \<open>
  The backend together with what has passed its ends since it was opened: the bytes accepted from the caller and
  those taken by the device, the bytes received from the device and those delivered to the caller.  The bytes of a
  reading transfer count as received when the transfer has not failed; what a failed transfer brought is lost
  (the code does not commit it).

  The caller and the two threads take turns in any order; the buffers themselves bear finer interleavings
  (theory \<open>Cbuf_Concurrent\<close>).  A blocking call is one step: what the thread on the other side does to the buffer
  while it waits is a list of events chosen freely, except that the reading thread commits no more than there is
  room for, as it reserves the room beforehand.
\<close>

record cyp_sys =
  backend :: cyp
  accepted :: "u8 list"
  taken :: "u8 list"
  received :: "u8 list"
  delivered :: "u8 list"

definition cyp_start :: "cyp \<Rightarrow> cyp_sys" where
  "cyp_start c = \<lparr>backend = c, accepted = [], taken = [], received = [], delivered = []\<rparr>"

definition count :: "size_t option \<Rightarrow> nat" where
  "count k = (case k of None \<Rightarrow> 0 | Some k \<Rightarrow> unat k)"

definition left_by :: "cyp \<Rightarrow> size_t \<Rightarrow> u8 list \<Rightarrow> wait_event list \<Rightarrow> u8 list" where
  "left_by c sz data evs = (case write_buf c of None \<Rightarrow> [] | Some b \<Rightarrow> left_meanwhile b sz data 0 evs)"

inductive cyp_step :: "cyp_sys \<Rightarrow> cyp_sys \<Rightarrow> bool" where
  call_write: "unat n \<le> length src \<Longrightarrow> gb_cypressfx2_write (backend s) ch n src = Inr (c, k, rv) \<Longrightarrow>
    cyp_step s (s\<lparr>backend := c, accepted := accepted s @ take (count k) src\<rparr>)"
| call_read: "unat n \<le> length dst \<Longrightarrow> gb_cypressfx2_read (backend s) ch n dst = Inr (c, d, k, rv) \<Longrightarrow>
    cyp_step s (s\<lparr>backend := c, delivered := delivered s @ take (count k) d\<rparr>)"
| call_write_b: "unat n \<le> length src \<Longrightarrow> unat n < 2 ^ 31 \<Longrightarrow>
    gb_cypressfx2_write_b ((backend s)\<lparr>write_waits := evs\<rparr>) ch n src timeout = Inr (c, k, rv) \<Longrightarrow>
    cyp_step s (s\<lparr>backend := c, accepted := accepted s @ take (count k) src,
      taken := taken s @ left_by (backend s) n src evs\<rparr>)"
| call_read_b: "unat n \<le> length dst \<Longrightarrow> length (arrived evs) \<le> cyp_in_room (backend s) \<Longrightarrow>
    gb_cypressfx2_read_b ((backend s)\<lparr>read_waits := evs\<rparr>) ch n dst timeout = Inr (c, d, k, rv) \<Longrightarrow>
    cyp_step s (s\<lparr>backend := c, delivered := delivered s @ take (count k) d,
      received := received s @ arrived (take (length evs - length (read_waits c)) evs)\<rparr>)"
| call_reset: "gb_cypressfx2_logic_reset (backend s) = Inr (c, rv) \<Longrightarrow> cyp_step s (s\<lparr>backend := c\<rparr>)"
| write_turn: "usb_write_round (backend s) = Inr c \<Longrightarrow>
    cyp_step s (s\<lparr>backend := c, taken := taken s @ drop (length (usb_sent (backend s))) (usb_sent c)\<rparr>)"
| read_turn: "usb_read_round (backend s) = Inr c \<Longrightarrow>
    cyp_step s (s\<lparr>backend := c, received := received s @
      (case bulk_in (backend s) of [] \<Rightarrow> []
       | (rv, _) # _ \<Rightarrow> if transfer_fails rv then [] else drop (length (usb_got (backend s))) (usb_got c))\<rparr>)"

inductive cyp_reach :: "cyp_sys \<Rightarrow> cyp_sys \<Rightarrow> bool" where
  reach_refl: "cyp_reach s s"
| reach_step: "cyp_reach s s' \<Longrightarrow> cyp_step s' s'' \<Longrightarrow> cyp_reach s s''"

definition streams_kept :: "cyp_sys \<Rightarrow> bool" where
  "streams_kept s \<longleftrightarrow> cyp_inv (backend s) \<and> alloc_total (tmp_mem (backend s)) \<and>
     taken s @ cyp_out (backend s) = accepted s \<and> delivered s @ cyp_in (backend s) = received s"

lemma step_write:
  assumes "streams_kept s" and "unat n \<le> length src"
    and "gb_cypressfx2_write (backend s) ch n src = Inr (c, k, rv)"
  shows "streams_kept (s\<lparr>backend := c, accepted := accepted s @ take (count k) src\<rparr>)"
proof (cases "ch = 0")
  case True
  define m where "m = min (unat n) (cyp_room (backend s))"
  have i: "cyp_inv (backend s)" using assms(1) by (simp add: streams_kept_def)
  from cyp_write_ok [OF i assms(2) m_def] assms(3) have r: "k = Some (of_nat m)" "cyp_inv c" "m < 2 ^ 31"
    "cyp_out c = cyp_out (backend s) @ take m src" "read_buf c = read_buf (backend s)" "tmp_mem c = tmp_mem (backend s)"
    unfolding True by auto
  have "count k = m" using r(1,3) by (simp add: count_def)
  then show ?thesis using assms(1) r by (simp add: streams_kept_def flip: append.assoc)
next
  case False
  then show ?thesis using assms(1,3) by (auto simp: gb_cypressfx2_write_def count_def streams_kept_def)
qed

lemma step_read:
  assumes "streams_kept s" and "unat n \<le> length dst"
    and "gb_cypressfx2_read (backend s) ch n dst = Inr (c, d, k, rv)"
  shows "streams_kept (s\<lparr>backend := c, delivered := delivered s @ take (count k) d\<rparr>)"
proof (cases "ch = 0")
  case True
  let ?q = "cyp_in (backend s)"
  define m where "m = min (unat n) (length ?q)"
  have i: "cyp_inv (backend s)" using assms(1) by (simp add: streams_kept_def)
  from cyp_read_ok [OF i assms(2) m_def] assms(3) have r: "d = take m ?q @ drop m dst" "k = Some (of_nat m)" "m < 2 ^ 31"
    "cyp_inv c" "cyp_in c = drop m ?q" "write_buf c = write_buf (backend s)" "tmp_mem c = tmp_mem (backend s)"
    unfolding True by auto
  have "count k = m" using r(2,3) by (simp add: count_def)
  then have "take (count k) d = take m ?q" using r(1) by (simp add: m_def)
  then show ?thesis using assms(1) r(4-) by (simp add: streams_kept_def)
next
  case False
  then show ?thesis using assms(1,3) by (auto simp: gb_cypressfx2_read_def count_def streams_kept_def)
qed

lemma step_write_turn:
  assumes "streams_kept s" and "usb_write_round (backend s) = Inr c"
  shows "streams_kept (s\<lparr>backend := c, taken := taken s @ drop (length (usb_sent (backend s))) (usb_sent c)\<rparr>)"
proof -
  have i: "cyp_inv (backend s)" "alloc_total (tmp_mem (backend s))" using assms(1) by (simp_all add: streams_kept_def)
  note R = usb_write_round_ok [OF i refl]
  show ?thesis
  proof (cases "cyp_out (backend s) = [] \<or> bulk_out (backend s) = []")
    case True
    then show ?thesis using R assms by (auto simp: streams_kept_def cyp_inv_def split: if_splits)
  next
    case False
    then obtain rv k r where "bulk_out (backend s) = (rv, k) # r" by (cases "bulk_out (backend s)") auto
    then show ?thesis using False R assms by (auto simp: streams_kept_def split: if_splits)
  qed
qed

lemma step_read_turn:
  assumes "streams_kept s" and "usb_read_round (backend s) = Inr c"
  shows "streams_kept (s\<lparr>backend := c, received := received s @
      (case bulk_in (backend s) of [] \<Rightarrow> []
       | (rv, _) # _ \<Rightarrow> if transfer_fails rv then [] else drop (length (usb_got (backend s))) (usb_got c))\<rparr>)"
proof -
  have i: "cyp_inv (backend s)" "alloc_total (tmp_mem (backend s))" using assms(1) by (simp_all add: streams_kept_def)
  note R = usb_read_round_ok [OF i]
  show ?thesis
  proof (cases "cyp_in_room (backend s) < 512 \<or> bulk_in (backend s) = []")
    case True
    then show ?thesis using R assms by (auto simp: streams_kept_def cyp_inv_def split: if_splits list.splits)
  next
    case False
    then obtain rv bs r where "bulk_in (backend s) = (rv, bs) # r" by (cases "bulk_in (backend s)") auto
    then show ?thesis using False R assms by (auto simp: streams_kept_def simp flip: append.assoc)
  qed
qed

lemma step_write_b:
  assumes "streams_kept s" and "unat n \<le> length src" and "unat n < 2 ^ 31"
    and "gb_cypressfx2_write_b ((backend s)\<lparr>write_waits := evs\<rparr>) ch n src timeout = Inr (c, k, rv)"
  shows "streams_kept (s\<lparr>backend := c, accepted := accepted s @ take (count k) src,
      taken := taken s @ left_by (backend s) n src evs\<rparr>)"
proof -
  let ?b = "(backend s)\<lparr>write_waits := evs\<rparr>"
  obtain b where b: "write_buf (backend s) = Some b" "cbuf_wf b" "cbuf_tmp_wf b"
    using assms(1) by (auto simp: streams_kept_def cyp_inv_def elim: buf_okE)
  obtain c1 evs' m where l: "cyp_write_b_loop ?b ch n src 0 evs = Inr (c1, evs', m)" "c = c1\<lparr>write_waits := evs'\<rparr>" "k = Some m"
    using assms(4) by (auto simp: gb_cypressfx2_write_b_def cbind_eq_Inr_iff)
  show ?thesis
  proof (cases "ch = 0")
    case True
    obtain b' w where w: "write_b_loop b n src 0 evs = Inr (b', evs', m)" "write_sem (backend s) \<le> 1 \<longrightarrow> w \<le> 1"
      "c1 = ?b\<lparr>write_sem := w, write_buf := Some b'\<rparr>"
      using cyp_write_b_loop_eq [of ?b b n src 0 evs] l(1) b(1) unfolding True by (auto split: sum.splits)
    have f: "m = n" "cbuf_wf b'" "cbuf_tmp_wf b'"
      "left_meanwhile b n src 0 evs @ contents b' = contents b @ take (unat n) src"
      using write_b_loop_left [OF b(2,3) _ assms(2,3) w(1)] by simp_all
    then have "taken s @ left_by (backend s) n src evs @ contents b' = accepted s @ take (unat n) src"
      using assms(1) b(1) by (auto simp: streams_kept_def left_by_def)
    then show ?thesis
      using assms(1) l(2,3) w(2,3) f(1-3) by (simp add: streams_kept_def cyp_inv_def count_def)
  next
    case False
    then have n: "n = 0" using cyp_write_b_loop_stuck [of ch 0 n ?b src evs] l(1) b(1) by force
    have "left_meanwhile b 0 src 0 evs = []"
    proof (cases evs)
      case (Cons e r)
      obtain b1 i where "fifo_write b (0 - 0) (drop (unat 0) src) = Inr (b1, of_nat i)" "i \<le> unat 0 - unat 0"
        by (rule write_b_try [OF b(2), of 0 0 src]) simp_all
      then show ?thesis using Cons by simp
    qed simp
    moreover have "c1 = ?b \<and> m = 0"
      using l(1) False unfolding n by (subst (asm) cyp_write_b_loop.simps) (auto simp: gb_cypressfx2_write_def)
    ultimately show ?thesis
      using assms(1) b(1) l(2,3) n by (simp add: streams_kept_def cyp_inv_def count_def left_by_def)
  qed
qed

lemma read_b_fill:
  assumes "cyp_inv c" and "length (arrived evs) \<le> cyp_in_room c" and "unat n \<le> 65536"
  obtains (wait) "gb_cypressfx2_read_b (c\<lparr>read_waits := evs\<rparr>) ch n dst timeout = Inl Blocked"
  | (go) b k where "k \<le> length evs" "cyp_inv (c\<lparr>read_buf := Some b, read_waits := drop k evs\<rparr>)"
      "contents b = cyp_in c @ arrived (take k evs)"
      "gb_cypressfx2_read_b (c\<lparr>read_waits := evs\<rparr>) ch n dst timeout =
        cbind (gb_cypressfx2_read (c\<lparr>read_buf := Some b, read_waits := drop k evs\<rparr>) ch n dst) (\<lambda>(c2, d, m, rv).
          let size_read = (case m of None \<Rightarrow> 0 | Some k \<Rightarrow> k)
          in Inr (c2, d, Some size_read, if rv = 0 \<and> n \<noteq> size_read then - ETIMEDOUT else rv))"
proof -
  obtain b where b: "read_buf c = Some b" "cbuf_wf b" "cbuf_tmp_wf b"
    using assms(1) by (auto simp: cyp_inv_def elim: buf_okE)
  have u: "\<not> n > ucast USB_BUF_SIZE" using assms(3) by (simp add: usb_sizes word_less_nat_alt)
  have room: "length (contents b) + length (arrived evs) \<le> capacity b"
    using assms(2) b(1) cq.bounded [OF b(2)] by (simp add: cyp_in_room_def)
  show thesis
  proof (cases "waits_taken (length (contents b)) (unat n) evs")
    case None
    then have "gb_cypressfx2_read_b (c\<lparr>read_waits := evs\<rparr>) ch n dst timeout = Inl Blocked"
      using wait_fill_blocked [OF b(2) None room] b(1) u by (simp add: gb_cypressfx2_read_b_def)
    then show thesis by (rule wait)
  next
    case (Some k0)
    define k where "k = min k0 (length evs)"
    have tk: "take k0 evs = take k evs" "drop k0 evs = drop k evs" by (simp_all add: k_def min_def)
    have "length (arrived (take k evs)) \<le> length (arrived evs)"
      by (metis append_take_drop_id arrived_def concat_append map_append length_append le_add1)
    then have fit: "length (contents b) + length (arrived (take k0 evs)) \<le> capacity b" using room tk by simp
    obtain b1 where b1: "wait_fill b n evs = Inr (b1, drop k evs)" "cbuf_wf b1" "contents b1 = contents b @ arrived (take k evs)"
      using wait_fill_ok [OF b(2) Some fit] unfolding tk by blast
    show thesis
    proof (rule go [of k b1])
      show "k \<le> length evs" by (simp add: k_def)
      show "cyp_inv (c\<lparr>read_buf := Some b1, read_waits := drop k evs\<rparr>)"
        using assms(1) b(3) b1(2) wait_fill_tmp_wf [OF b1(1)] by (simp add: cyp_inv_def)
      show "contents b1 = cyp_in c @ arrived (take k evs)" using b1(3) b(1) by simp
      show "gb_cypressfx2_read_b (c\<lparr>read_waits := evs\<rparr>) ch n dst timeout =
        cbind (gb_cypressfx2_read (c\<lparr>read_buf := Some b1, read_waits := drop k evs\<rparr>) ch n dst) (\<lambda>(c2, d, m, rv).
          let size_read = (case m of None \<Rightarrow> 0 | Some k \<Rightarrow> k)
          in Inr (c2, d, Some size_read, if rv = 0 \<and> n \<noteq> size_read then - ETIMEDOUT else rv))"
        using b(1) b1(1) u by (simp add: gb_cypressfx2_read_b_def)
    qed
  qed
qed

lemma read_waits_kept: "gb_cypressfx2_read c ch n dst = Inr (c', d, k, rv) \<Longrightarrow> read_waits c' = read_waits c"
  by (auto simp: gb_cypressfx2_read_def Let_def cbind_eq_Inr_iff split: if_splits option.splits)

lemma step_read_b:
  assumes "streams_kept s" and "unat n \<le> length dst" and "length (arrived evs) \<le> cyp_in_room (backend s)"
    and "gb_cypressfx2_read_b ((backend s)\<lparr>read_waits := evs\<rparr>) ch n dst timeout = Inr (c, d, k, rv)"
  shows "streams_kept (s\<lparr>backend := c, delivered := delivered s @ take (count k) d,
      received := received s @ arrived (take (length evs - length (read_waits c)) evs)\<rparr>)"
proof (cases "n > ucast USB_BUF_SIZE")
  case True
  then have "c = (backend s)\<lparr>read_waits := evs\<rparr>" "k = None"
    using assms(4) by (auto simp: gb_cypressfx2_read_b_def)
  then show ?thesis using assms(1) by (simp add: streams_kept_def cyp_inv_def count_def arrived_def)
next
  case False
  then have n: "unat n \<le> 65536" by (simp add: usb_sizes word_less_nat_alt)
  have i: "cyp_inv (backend s)" using assms(1) by (simp add: streams_kept_def)
  from i assms(3) n show ?thesis
  proof (cases rule: read_b_fill [where ch = ch and dst = dst and timeout = timeout])
    case wait
    then show ?thesis using assms(4) by simp
  next
    case (go b m)
    let ?c = "(backend s)\<lparr>read_buf := Some b, read_waits := drop m evs\<rparr>"
    obtain c2 d2 k2 rv2 where r: "gb_cypressfx2_read ?c ch n dst = Inr (c2, d2, k2, rv2)" "c = c2" "d = d2"
      "k = Some (case k2 of None \<Rightarrow> 0 | Some k \<Rightarrow> k)"
      using assms(4) unfolding go(4) by (auto simp: cbind_eq_Inr_iff Let_def)
    let ?s = "s\<lparr>backend := ?c, received := received s @ arrived (take m evs)\<rparr>"
    have "streams_kept ?s" using assms(1) go(2,3) by (simp add: streams_kept_def flip: append.assoc)
    from step_read [OF this assms(2), of ch c2 d2 k2 rv2]
    have "streams_kept (?s\<lparr>backend := c2, delivered := delivered s @ take (count k2) d2\<rparr>)" using r(1) by simp
    moreover have "count k2 = count k" using r(4) by (cases k2) (simp_all add: count_def)
    moreover have "length evs - length (read_waits c) = m" using read_waits_kept [OF r(1)] go(1) r(2) by simp
    ultimately show ?thesis using r(2,3) by (simp add: streams_kept_def)
  qed
qed

lemma step_reset: "streams_kept s \<Longrightarrow> gb_cypressfx2_logic_reset (backend s) = Inr (c, rv) \<Longrightarrow> streams_kept (s\<lparr>backend := c\<rparr>)"
  by (auto simp: gb_cypressfx2_logic_reset_def libusb_control_transfer_def usb_logged_def streams_kept_def cyp_inv_def
      Let_def split: if_splits list.splits)

lemma cyp_step_kept: "cyp_step s s' \<Longrightarrow> streams_kept s \<Longrightarrow> streams_kept s'"
  by (induction rule: cyp_step.induct)
    (blast intro: step_write step_read step_write_b step_read_b step_reset step_write_turn step_read_turn)+

lemma cyp_reach_kept: "cyp_reach s s' \<Longrightarrow> streams_kept s \<Longrightarrow> streams_kept s'"
  by (induction rule: cyp_reach.induct) (auto intro: cyp_step_kept)

lemma read_never_fails: "cyp_inv c \<Longrightarrow> unat n \<le> length dst \<Longrightarrow> gb_cypressfx2_read c ch n dst \<noteq> Inl e"
  using cyp_read_ok [of c n dst] by (cases "ch = 0") (auto simp: gb_cypressfx2_read_def)

lemma write_b_waits:
  assumes "cyp_inv c" and "unat n \<le> length src" and "unat n < 2 ^ 31"
    and "gb_cypressfx2_write_b (c\<lparr>write_waits := evs\<rparr>) ch n src timeout = Inl e"
  shows "e = Blocked"
proof -
  let ?c = "c\<lparr>write_waits := evs\<rparr>"
  obtain b where b: "write_buf c = Some b" "cbuf_wf b" using assms(1) by (auto simp: cyp_inv_def elim: buf_okE)
  have l: "cyp_write_b_loop ?c ch n src 0 evs = Inl e"
    using assms(4) by (cases "cyp_write_b_loop ?c ch n src 0 evs") (auto simp: gb_cypressfx2_write_b_def)
  show ?thesis
  proof (cases "ch = 0")
    case True
    then have "write_b_loop b n src 0 evs = Inl e"
      using cyp_write_b_loop_eq [of ?c b n src 0 evs] l b(1) by (auto split: sum.splits)
    then show ?thesis using write_b_loop_blocked [OF b(2) _ assms(2,3), of 0 evs e] by simp
  next
    case False
    have "n \<noteq> 0"
      using l False by (subst (asm) cyp_write_b_loop.simps) (auto simp: gb_cypressfx2_write_def)
    then show ?thesis using cyp_write_b_loop_stuck [of ch 0 n ?c src evs] l b(1) False by simp
  qed
qed

lemma read_b_waits:
  assumes "cyp_inv c" and "unat n \<le> length dst" and "length (arrived evs) \<le> cyp_in_room c"
    and "gb_cypressfx2_read_b (c\<lparr>read_waits := evs\<rparr>) ch n dst timeout = Inl e"
  shows "e = Blocked"
proof (cases "n > ucast USB_BUF_SIZE")
  case True
  then show ?thesis using assms(4) by (simp add: gb_cypressfx2_read_b_def)
next
  case False
  then have n: "unat n \<le> 65536" by (simp add: usb_sizes word_less_nat_alt)
  from assms(1,3) n show ?thesis
  proof (cases rule: read_b_fill [where ch = ch and dst = dst and timeout = timeout])
    case wait
    then show ?thesis using assms(4) by simp
  next
    case (go b m)
    let ?c = "c\<lparr>read_buf := Some b, read_waits := drop m evs\<rparr>"
    obtain r where "gb_cypressfx2_read ?c ch n dst = Inr r"
      using read_never_fails [OF go(2) assms(2), of ch] by (cases "gb_cypressfx2_read ?c ch n dst") auto
    then show ?thesis using assms(4) unfolding go(4) by (simp add: case_prod_beta Let_def)
  qed
qed

text \<open>
  What a call or a turn can end in: a turn of the reading thread and a blocking call can wait; a turn of the
  writing thread can also run into the assertion, when its transfer fails after it has moved bytes.
\<close>

lemma streams_kept_progress:
  assumes "streams_kept s"
  shows "usb_write_round (backend s) = Inl e \<Longrightarrow> e = Blocked \<or>
      e = Assert_Failed \<and> (\<exists>rv k r. bulk_out (backend s) = (rv, k) # r \<and> transfer_fails rv \<and> k \<noteq> 0)"
    and "usb_read_round (backend s) = Inl e \<Longrightarrow> e = Blocked"
    and "unat n \<le> length src \<Longrightarrow> gb_cypressfx2_write (backend s) ch n src \<noteq> Inl e"
    and "unat n \<le> length dst \<Longrightarrow> gb_cypressfx2_read (backend s) ch n dst \<noteq> Inl e"
    and "unat n \<le> length src \<Longrightarrow> unat n < 2 ^ 31 \<Longrightarrow>
      gb_cypressfx2_write_b ((backend s)\<lparr>write_waits := evs\<rparr>) ch n src timeout = Inl e \<Longrightarrow> e = Blocked"
    and "unat n \<le> length dst \<Longrightarrow> length (arrived evs) \<le> cyp_in_room (backend s) \<Longrightarrow>
      gb_cypressfx2_read_b ((backend s)\<lparr>read_waits := evs\<rparr>) ch n dst timeout = Inl e \<Longrightarrow> e = Blocked"
    and "gb_cypressfx2_logic_reset (backend s) \<noteq> Inl e"
proof -
  have i: "cyp_inv (backend s)" "alloc_total (tmp_mem (backend s))" using assms by (simp_all add: streams_kept_def)
  show "usb_write_round (backend s) = Inl e \<Longrightarrow> e = Blocked \<or>
      e = Assert_Failed \<and> (\<exists>rv k r. bulk_out (backend s) = (rv, k) # r \<and> transfer_fails rv \<and> k \<noteq> 0)"
    using usb_write_round_ok [OF i refl] by (auto split: if_splits list.splits)
  show "usb_read_round (backend s) = Inl e \<Longrightarrow> e = Blocked"
    using usb_read_round_ok [OF i] by (auto split: if_splits list.splits)
  show "unat n \<le> length src \<Longrightarrow> gb_cypressfx2_write (backend s) ch n src \<noteq> Inl e"
    using cyp_write_ok [OF i(1), of n src] by (cases "ch = 0") (auto simp: gb_cypressfx2_write_def)
  show "unat n \<le> length dst \<Longrightarrow> gb_cypressfx2_read (backend s) ch n dst \<noteq> Inl e" by (rule read_never_fails [OF i(1)])
  show "gb_cypressfx2_logic_reset (backend s) \<noteq> Inl e"
    by (simp add: gb_cypressfx2_logic_reset_def case_prod_beta Let_def)
  show "unat n \<le> length src \<Longrightarrow> unat n < 2 ^ 31 \<Longrightarrow>
      gb_cypressfx2_write_b ((backend s)\<lparr>write_waits := evs\<rparr>) ch n src timeout = Inl e \<Longrightarrow> e = Blocked"
    by (rule write_b_waits [OF i(1)])
  show "unat n \<le> length dst \<Longrightarrow> length (arrived evs) \<le> cyp_in_room (backend s) \<Longrightarrow>
      gb_cypressfx2_read_b ((backend s)\<lparr>read_waits := evs\<rparr>) ch n dst timeout = Inl e \<Longrightarrow> e = Blocked"
    by (rule read_b_waits [OF i(1)])
qed

end
