(* ===== verification/Cypress_Open.thy ===== *)
theory Cypress_Open
  imports Cypress_Reach
begin

text \<open>
  Finding and opening a Cypress FX2 device: what the search selects, and the state a successful
  opening leaves.
\<close>

section \<open>The search\<close>

text \<open>The entries in front of the terminating one, and a device that fits an entry.\<close>

definition entry_fits :: "usb_device \<Rightarrow> usb_dev_entry \<Rightarrow> bool" where
  "entry_fits d e \<longleftrightarrow> ud_desc d = Some (de_vid e, de_pid e) \<and> 0 \<le> ud_probe_rv d \<and>
     (case de_manufacturer e of None \<Rightarrow> True
      | Some m \<Rightarrow> \<exists>s. ud_manufacturer d = Some s \<and> strncmp_eq s m 256) \<and>
     (case de_product e of None \<Rightarrow> True
      | Some p \<Rightarrow> \<exists>s. ud_product d = Some s \<and> strncmp_eq s p (length s))"

definition device_fits :: "usb_dev_entry list \<Rightarrow> usb_device \<Rightarrow> bool" where
  "device_fits es d \<longleftrightarrow> (\<exists>e \<in> set (takeWhile (\<lambda>e. de_vid e \<noteq> 0) es). entry_fits d e)"

lemma match_entry_iff: "snd (match_entry i d e) = entry_fits d e"
  by (auto simp: match_entry_def entry_fits_def split: option.splits)

lemma search_entries_iff: "snd (search_entries i d es) = device_fits es d"
  by (induction es) (auto simp: device_fits_def case_prod_beta Let_def simp flip: match_entry_iff [of i])

lemma no_desc_no_fit: "ud_desc d = None \<Longrightarrow> \<not> device_fits es d"
  by (simp add: device_fits_def entry_fits_def)

lemma auto_search_found:
  "snd (auto_search es i ds found) =
     (case filter (\<lambda>j. device_fits es (ds ! (j - i))) [i ..< i + length ds] of
        [] \<Rightarrow> found
      | js \<Rightarrow> (fst found + length js, Some (last js)))"
proof (induction ds arbitrary: i found)
  case Nil
  then show ?case by simp
next
  case (Cons d ds)
  let ?fs = "filter (\<lambda>j. device_fits es (ds ! (j - Suc i))) [Suc i ..< Suc i + length ds]"
  have up: "[i ..< i + length (d # ds)] = i # [Suc i ..< Suc i + length ds]" by (simp add: upt_rec)
  have "filter (\<lambda>j. device_fits es ((d # ds) ! (j - i))) [Suc i ..< Suc i + length ds] = ?fs"
    by (rule filter_cong) (auto simp: nth_Cons' Suc_le_eq)
  then have fs: "filter (\<lambda>j. device_fits es ((d # ds) ! (j - i))) [i ..< i + length (d # ds)] =
      (if device_fits es d then i # ?fs else ?fs)"
    unfolding up by simp
  show ?case
  proof (cases "ud_desc d = None")
    case True
    then show ?thesis using Cons.IH [of "Suc i" found] fs no_desc_no_fit [OF True] by simp
  next
    case False
    then obtain v p where "ud_desc d = Some (v, p)" by auto
    then have "snd (auto_search es i (d # ds) found) =
        snd (auto_search es (Suc i) ds (if device_fits es d then (Suc (fst found), Some i) else found))"
      by (simp add: case_prod_beta Let_def flip: search_entries_iff [of i])
    then show ?thesis using fs Cons.IH by (cases ?fs) (simp_all del: auto_search.simps)
  qed
qed

lemma manual_search_found:
  "manual_search bus addr i ds =
     (case filter (\<lambda>j. ud_bus (ds ! (j - i)) = bus \<and> ud_addr (ds ! (j - i)) = addr) [i ..< i + length ds] of
        [] \<Rightarrow> (0, None)
      | j # _ \<Rightarrow> (1, Some j))"
proof (induction ds arbitrary: i)
  case Nil
  then show ?case by simp
next
  case (Cons d ds)
  have up: "[i ..< i + length (d # ds)] = i # [Suc i ..< Suc i + length ds]" by (simp add: upt_rec)
  have "filter (\<lambda>j. ud_bus ((d # ds) ! (j - i)) = bus \<and> ud_addr ((d # ds) ! (j - i)) = addr)
      [Suc i ..< Suc i + length ds] =
    filter (\<lambda>j. ud_bus (ds ! (j - Suc i)) = bus \<and> ud_addr (ds ! (j - Suc i)) = addr) [Suc i ..< Suc i + length ds]"
    by (rule filter_cong) (auto simp: nth_Cons' Suc_le_eq)
  then show ?case unfolding up by (simp add: Cons.IH)
qed

text \<open>The two comparisons of strings, which hold no NUL.\<close>

lemma strncmp_eq_whole:
  assumes "CHR 0x00 \<notin> set s" and "CHR 0x00 \<notin> set m" and "length s < n"
  shows "strncmp_eq s m n \<longleftrightarrow> s = m"
proof
  assume "strncmp_eq s m n"
  then have t: "s @ [CHR 0x00] = take n (m @ [CHR 0x00])" using assms(3) by (simp add: strncmp_eq_def)
  have "length m < n"
  proof (rule ccontr)
    assume "\<not> length m < n"
    then have "take n (m @ [CHR 0x00]) = take n m" by simp
    then have "CHR 0x00 \<in> set m" using t by (metis in_set_conv_decomp in_set_takeD)
    then show False using assms(2) by contradiction
  qed
  then show "s = m" using t by simp
qed (simp add: strncmp_eq_def)

lemma strncmp_eq_prefix:
  assumes "CHR 0x00 \<notin> set s"
  shows "strncmp_eq s p (length s) \<longleftrightarrow> take (length s) p = s"
proof -
  have "strncmp_eq s p (length s) \<longleftrightarrow> take (length s) (p @ [CHR 0x00]) = s" by (auto simp: strncmp_eq_def)
  moreover have "take (length s) (p @ [CHR 0x00]) = s \<longleftrightarrow> take (length s) p = s"
  proof (cases "length s \<le> length p")
    case False
    then have "take (length s) (p @ [CHR 0x00]) = p @ [CHR 0x00]" "length (take (length s) p) \<noteq> length s" by auto
    then show ?thesis using assms by (metis in_set_conv_decomp)
  qed simp
  ultimately show ?thesis by simp
qed

text \<open>
  What the search means when the strings are as they should be: without NUL, and short enough to be
  compared as a whole.  The product of the device need only be a beginning of the one asked for.
\<close>

definition plain_device :: "usb_device \<Rightarrow> bool" where
  "plain_device d \<longleftrightarrow>
     (\<forall>s \<in> set_option (ud_manufacturer d) \<union> set_option (ud_product d). CHR 0x00 \<notin> set s \<and> length s < 256)"

definition plain_entry :: "usb_dev_entry \<Rightarrow> bool" where
  "plain_entry e \<longleftrightarrow> (\<forall>m \<in> set_option (de_manufacturer e). CHR 0x00 \<notin> set m)"

definition wanted :: "usb_dev_entry list \<Rightarrow> usb_device \<Rightarrow> bool" where
  "wanted es d \<longleftrightarrow> 0 \<le> ud_probe_rv d \<and> (\<exists>e \<in> set (takeWhile (\<lambda>e. de_vid e \<noteq> 0) es).
     ud_desc d = Some (de_vid e, de_pid e) \<and>
     (de_manufacturer e = None \<or> ud_manufacturer d = de_manufacturer e) \<and>
     (de_product e = None \<or> (\<exists>s. ud_product d = Some s \<and> take (length s) (the (de_product e)) = s)))"

lemma entry_fits_iff:
  assumes "plain_device d" and "plain_entry e"
  shows "entry_fits d e \<longleftrightarrow> 0 \<le> ud_probe_rv d \<and> ud_desc d = Some (de_vid e, de_pid e) \<and>
     (de_manufacturer e = None \<or> ud_manufacturer d = de_manufacturer e) \<and>
     (de_product e = None \<or> (\<exists>s. ud_product d = Some s \<and> take (length s) (the (de_product e)) = s))"
proof -
  have m: "strncmp_eq s m 256 \<longleftrightarrow> s = m" if "ud_manufacturer d = Some s" "de_manufacturer e = Some m" for s m
    using assms that by (intro strncmp_eq_whole) (auto simp: plain_device_def plain_entry_def)
  have p: "strncmp_eq s p (length s) \<longleftrightarrow> take (length s) p = s" if "ud_product d = Some s" for s p
    using assms that by (intro strncmp_eq_prefix) (auto simp: plain_device_def)
  show ?thesis
    by (cases "de_manufacturer e"; cases "ud_manufacturer d"; cases "de_product e"; cases "ud_product d")
      (auto simp: entry_fits_def m p)
qed

lemma device_fits_wanted:
  "plain_device d \<Longrightarrow> \<forall>e \<in> set es. plain_entry e \<Longrightarrow> device_fits es d = wanted es d"
  using set_takeWhileD by (fastforce simp: device_fits_def wanted_def entry_fits_iff)

section \<open>A successful opening\<close>

lemma cbuf_init_success:
  assumes "cbuf_init sok al (ucast USB_BUF_SIZE) = Inr (bo, rv)" and "0 \<le> rv" and "alloc_ok al"
  obtains b where "bo = Some b" "cbuf_wf b" "cbuf_tmp_wf b" "contents b = []" "capacity b = 65536"
proof -
  have sz: "(ucast USB_BUF_SIZE :: size_t) = 2 ^ 16" by (simp add: usb_sizes)
  have "sok \<and> al (2 ^ 16) \<noteq> None"
    using assms(1,2) unfolding sz
    by (auto simp: cbuf_init_def calloc_def ENOMEM_def cbind_eq_Inr_iff split: if_splits option.splits)
  then show thesis
    using that cbuf_init_ok [of 16 al] assms(1,3) unfolding sz by auto
qed

definition same_link :: "cyp \<Rightarrow> cyp \<Rightarrow> bool" where
  "same_link c c' \<longleftrightarrow> usb_dev_handle c' = usb_dev_handle c \<and> write_thread c' = write_thread c \<and>
     read_threads c' = read_threads c \<and> usb_sent c' = usb_sent c \<and> usb_got c' = usb_got c \<and>
     tmp_mem c' = tmp_mem c \<and> bulk_out c' = bulk_out c \<and> bulk_in c' = bulk_in c \<and>
     write_mem c' = write_mem c \<and> read_mem c' = read_mem c \<and> create_read_rv c' = create_read_rv c"

lemma same_link_trans: "same_link a b \<Longrightarrow> same_link b c \<Longrightarrow> same_link a c"
  by (simp add: same_link_def)

lemma control_transfer_link: "same_link c (fst (libusb_control_transfer c v))"
  by (simp add: libusb_control_transfer_def usb_logged_def same_link_def Let_def split: list.splits)

lemma open_buffers_ok:
  assumes "open_buffers c = Inr (c', 0)" and "alloc_ok (snd (write_mem c))" and "alloc_ok (snd (read_mem c))"
  obtains w r where "c' = c\<lparr>write_buf := Some w, read_buf := Some r\<rparr>" "cbuf_wf w" "cbuf_tmp_wf w"
    "contents w = []" "capacity w = 65536" "cbuf_wf r" "cbuf_tmp_wf r" "contents r = []" "capacity r = 65536"
proof -
  obtain wo rv where i: "cbuf_init (fst (write_mem c)) (snd (write_mem c)) (ucast USB_BUF_SIZE) = Inr (wo, rv)" "0 \<le> rv"
    using assms(1) by (auto simp: open_buffers_def cbind_eq_Inr_iff split: if_splits)
  obtain w where w: "wo = Some w" "cbuf_wf w" "cbuf_tmp_wf w" "contents w = []" "capacity w = 65536"
    by (rule cbuf_init_success [OF i assms(2)])
  let ?w = "fst (cbuf_set_hint_max_read_size w (ucast (USB_MAX_PACKETS_PER_TRANSFER * USB_TRANSFER_PACKET_SIZE_BYTES)))"
  have w': "cbuf_wf ?w" "cbuf_tmp_wf ?w" "contents ?w = []" "capacity ?w = 65536"
    using w cbuf_wf_frame [of ?w w] by (simp_all add: cbuf_set_hint_max_read_size_def cbuf_tmp_wf_def)
  obtain ro rv' where j: "cbuf_init (fst (read_mem c)) (snd (read_mem c)) (ucast USB_BUF_SIZE) = Inr (ro, rv')" "0 \<le> rv'"
    using assms(1) i w by (auto simp: open_buffers_def Let_def cbind_eq_Inr_iff split: if_splits)
  obtain r where r: "ro = Some r" "cbuf_wf r" "cbuf_tmp_wf r" "contents r = []" "capacity r = 65536"
    by (rule cbuf_init_success [OF j assms(3)])
  have "c' = c\<lparr>write_buf := Some ?w, read_buf := Some r\<rparr>" using assms(1) i j w(1) r(1) by (simp add: open_buffers_def Let_def)
  then show thesis using that w' r by blast
qed

definition opened :: "cyp \<Rightarrow> cyp \<Rightarrow> bool" where
  "opened c c1 \<longleftrightarrow> usb_dev_handle c1 \<noteq> None \<and> buf_ok (write_buf c1) \<and> cyp_out c1 = [] \<and>
     buf_ok (read_buf c1) \<and> cyp_in c1 = [] \<and> cyp_room c1 = 65536 \<and> cyp_in_room c1 = 65536 \<and> write_sem c1 = 0 \<and> read_sem c1 = 0 \<and>
     write_thread c1 \<and> read_threads c1 = Suc (read_threads c) \<and> usb_sent c1 = usb_sent c \<and>
     usb_got c1 = usb_got c \<and> tmp_mem c1 = tmp_mem c \<and> bulk_out c1 = bulk_out c \<and> bulk_in c1 = bulk_in c"

lemma open_buffers_rv: "open_buffers c = Inr (c', rv) \<Longrightarrow> rv = 0 \<or> rv = - 1"
  by (auto simp: open_buffers_def Let_def cbind_eq_Inr_iff split: if_splits)

lemma open_device_cases:
  obtains (early) c' where "open_device c = Inr (c', - 1)" "same_link c c'"
  | (late) cb where "same_link c cb"
      "open_device c = cbind (open_buffers cb) (\<lambda>(c3, rv3). if rv3 < 0 then Inr (c3, - 1) else Inr (start_threads c3))"
proof -
  obtain ca rva where a: "libusb_control_transfer c 1 = (ca, rva)" by fastforce
  obtain cb rvb where b: "libusb_control_transfer ca 0 = (cb, rvb)" by fastforce
  have l: "same_link c ca" "same_link c cb"
    using control_transfer_link [of c 1] control_transfer_link [of ca 0] same_link_trans a b by (metis fst_conv)+
  have e: "open_device c = (if config_rv c < 0 \<or> claim_rv c < 0 then Inr (c, - 1)
      else if rva < 0 then Inr (ca, - 1) else if rvb < 0 then Inr (cb, - 1)
      else cbind (open_buffers cb) (\<lambda>(c3, rv3). if rv3 < 0 then Inr (c3, - 1) else Inr (start_threads c3)))"
    by (simp add: open_device_def a b)
  have "same_link c c" by (simp add: same_link_def)
  then show thesis using early late l unfolding e by (smt (verit))
qed

lemma open_device_ok:
  assumes "open_device c = Inr (c1, 0)" and "usb_dev_handle c \<noteq> None"
    and "alloc_ok (snd (write_mem c))" and "alloc_ok (snd (read_mem c))"
  shows "opened c c1"
proof (cases rule: open_device_cases [of c])
  case (early c')
  then show ?thesis using assms(1) by simp
next
  case (late cb)
  then obtain cd rv where "open_buffers cb = Inr (cd, rv)" "\<not> rv < 0" "start_threads cd = (c1, 0)"
    using assms(1) unfolding late(2) cbind_eq_Inr_iff by (auto split: if_splits)
  then have d: "open_buffers cb = Inr (cd, 0)" "start_threads cd = (c1, 0)" using open_buffers_rv by fastforce+
  obtain w r where "cd = cb\<lparr>write_buf := Some w, read_buf := Some r\<rparr>" "cbuf_wf w" "cbuf_tmp_wf w"
    "contents w = []" "capacity w = 65536" "cbuf_wf r" "cbuf_tmp_wf r" "contents r = []" "capacity r = 65536"
    by (rule open_buffers_ok [OF d(1)]) (use late assms in \<open>auto simp: same_link_def\<close>)
  then show ?thesis using d(2) late(1) assms(2)
    by (auto simp: opened_def cyp_in_room_def cyp_room_def start_threads_def same_link_def Let_def split: if_splits)
qed

lemma gb_cypressfx2_open_ok:
  assumes "gb_cypressfx2_open opts c nch = Inr (c1, 0)"
    and "alloc_ok (snd (write_mem c))" and "alloc_ok (snd (read_mem c))"
  shows "opened c c1"
proof -
  obtain l i where "open_device (c\<lparr>usb_dev_handle := Some i, usb_log := l\<rparr>) = Inr (c1, 0)"
    using assms(1) by (auto simp: gb_cypressfx2_open_def cbind_eq_Inr_iff case_prod_beta Let_def usb_logged_def
        EINVAL_def split: if_splits option.splits)
  then have "opened (c\<lparr>usb_dev_handle := Some i, usb_log := l\<rparr>) c1"
    by (rule open_device_ok) (use assms(2,3) in simp_all)
  then show ?thesis by (simp add: opened_def)
qed

lemma opened_streams: "opened c c1 \<Longrightarrow> alloc_total (tmp_mem c) \<Longrightarrow> streams_kept (cyp_start c1)"
  by (simp add: opened_def streams_kept_def cyp_inv_def cyp_start_def)

text \<open>Calls and turns leave the device and the threads as they are.\<close>

definition same_threads :: "cyp \<Rightarrow> cyp \<Rightarrow> bool" where
  "same_threads c c' \<longleftrightarrow> usb_dev_handle c' = usb_dev_handle c \<and> write_thread c' = write_thread c \<and>
     read_threads c' = read_threads c"

lemma call_write_threads: "gb_cypressfx2_write c ch n src = Inr (c', k, rv) \<Longrightarrow> same_threads c c'"
  by (auto simp: gb_cypressfx2_write_def same_threads_def cbind_eq_Inr_iff split: if_splits option.splits)

lemma call_read_threads: "gb_cypressfx2_read c ch n dst = Inr (c', d, k, rv) \<Longrightarrow> same_threads c c'"
  by (auto simp: gb_cypressfx2_read_def same_threads_def Let_def cbind_eq_Inr_iff split: if_splits option.splits)

lemma write_round_threads: "usb_write_round c = Inr c' \<Longrightarrow> same_threads c c'"
  by (cases "bulk_out c")
    (auto simp: usb_write_round_def same_threads_def Let_def cbind_eq_Inr_iff split: if_splits option.splits)

lemma read_round_threads: "usb_read_round c = Inr c' \<Longrightarrow> same_threads c c'"
  by (cases "bulk_in c")
    (auto simp: usb_read_round_def same_threads_def Let_def cbind_eq_Inr_iff split: if_splits option.splits)

lemma same_threads_trans: "same_threads a b \<Longrightarrow> same_threads b c \<Longrightarrow> same_threads a c"
  by (simp add: same_threads_def)

lemma write_b_loop_threads: "cyp_write_b_loop c ch sz data n evs = Inr (c', evs', m) \<Longrightarrow> same_threads c c'"
proof (induction evs arbitrary: c n)
  case Nil
  then show ?case
    by (subst (asm) cyp_write_b_loop.simps) (auto simp: cbind_eq_Inr_iff Let_def dest!: call_write_threads split: if_splits)
next
  case (Cons e evs)
  obtain c1 k rv where c1: "gb_cypressfx2_write c ch (sz - n) (drop (unat n) data) = Inr (c1, k, rv)"
    using Cons.prems by (subst (asm) cyp_write_b_loop.simps) (auto simp: cbind_eq_Inr_iff)
  have t: "same_threads c c1" by (rule call_write_threads [OF c1])
  show ?case
  proof (cases "n + (case k of None \<Rightarrow> 0 | Some k \<Rightarrow> k) = sz")
    case True
    then show ?thesis using Cons.prems c1 t by (subst (asm) cyp_write_b_loop.simps) simp
  next
    case False
    then obtain b where "cyp_write_b_loop (c1\<lparr>write_buf := b\<rparr>) ch sz data (n + (case k of None \<Rightarrow> 0 | Some k \<Rightarrow> k)) evs =
        Inr (c', evs', m)"
      using Cons.prems c1
      by (subst (asm) cyp_write_b_loop.simps) (auto simp: Let_def case_prod_beta split: option.splits if_splits)
    from Cons.IH [OF this] have "same_threads c1 c'" by (simp add: same_threads_def)
    then show ?thesis by (rule same_threads_trans [OF t])
  qed
qed

lemma call_write_b_threads:
  "gb_cypressfx2_write_b (c\<lparr>write_waits := evs\<rparr>) ch n src t = Inr (c', k, rv) \<Longrightarrow> same_threads c c'"
  by (auto simp: gb_cypressfx2_write_b_def cbind_eq_Inr_iff same_threads_def dest!: write_b_loop_threads)

lemma call_read_b_threads:
  "gb_cypressfx2_read_b (c\<lparr>read_waits := evs\<rparr>) ch n dst t = Inr (c', d, k, rv) \<Longrightarrow> same_threads c c'"
  by (auto simp: gb_cypressfx2_read_b_def cbind_eq_Inr_iff same_threads_def Let_def dest!: call_read_threads
      split: if_splits option.splits)

lemma reset_threads: "gb_cypressfx2_logic_reset c = Inr (c', rv) \<Longrightarrow> same_threads c c'"
  by (auto simp: gb_cypressfx2_logic_reset_def libusb_control_transfer_def usb_logged_def same_threads_def Let_def
      split: if_splits list.splits)

lemma cyp_step_threads: "cyp_step s s' \<Longrightarrow> same_threads (backend s) (backend s')"
  by (induction rule: cyp_step.induct)
    (auto dest: call_write_threads call_read_threads call_write_b_threads call_read_b_threads reset_threads
      write_round_threads read_round_threads)

lemma cyp_reach_threads: "cyp_reach s s' \<Longrightarrow> same_threads (backend s) (backend s')"
  by (induction rule: cyp_reach.induct) (auto dest!: cyp_step_threads simp: same_threads_def)

end
