(* ===== verification/Cypress_Properties.thy ===== *)
theory Cypress_Properties
  imports Cypress_Open Examples
begin

text \<open>
  The properties of the Cypress FX2 backend, each with the example that applies it.
\<close>

section \<open>Examples\<close>

text \<open>Two devices on the bus, of which the second is the board, and a world that goes well.\<close>

definition dev_other :: usb_device where
  "dev_other = \<lparr>ud_bus = 1, ud_addr = 4, ud_desc = Some (0x1234, 1), ud_probe_rv = 0,
     ud_manufacturer = Some ''X'', ud_product = Some ''Y'', ud_open_rv = 0\<rparr>"

definition dev_board :: usb_device where
  "dev_board = \<lparr>ud_bus = 1, ud_addr = 7, ud_desc = Some (0x221a, 0x0100), ud_probe_rv = 0,
     ud_manufacturer = Some ''TUM LIS'', ud_product = Some ''GLIP'', ud_open_rv = 0\<rparr>"

definition cyp0 :: cyp where
  "cyp0 = \<lparr>usb_dev_handle = None, write_buf = None, read_buf = None, write_sem = 0, read_sem = 0,
     write_thread = False, read_threads = 0, usb_init_rv = 0, usb_list = Some [dev_other, dev_board],
     config_rv = 0, claim_rv = 0, control_rvs = [], create_write_rv = 0, create_read_rv = 0,
     write_mem = (True, good_alloc), read_mem = (True, good_alloc), tmp_mem = good_alloc,
     bulk_out = [(0, 4)], bulk_in = [(- 7, [5, 6])], usb_sent = [], usb_got = [], usb_log = [],
     read_waits = [], write_waits = []\<rparr>"

lemma cyp0_simps [simp]:
  "write_mem cyp0 = (True, good_alloc)" "read_mem cyp0 = (True, good_alloc)" "usb_sent cyp0 = []"
  "usb_got cyp0 = []" "write_thread cyp0 = False" "read_threads cyp0 = 0"
  by (simp_all add: cyp0_def)

definition no_opts :: glip_opts where
  "no_opts = \<lparr>backend_options = [], num_backend_options = 0\<rparr>"

lemma no_opts_config [simp]: "device_config no_opts = Inr (Cfg_Search usb_devs)"
  by (simp add: device_config_def glip_option_get_uint8_def glip_option_get_uint16_def
      glip_option_get_uint32_def no_opts_def)

lemma find_board [simp]:
  "find_device (Cfg_Search usb_devs) [dev_other, dev_board] = ([Usb_Open 1, Usb_Close 1], 1, Some 1)"
  by (simp add: find_device_def usb_devs_def no_entry_def match_entry_def dev_other_def dev_board_def
      strncmp_eq_def)

lemma init_ok: "\<exists>b. cbuf_init True good_alloc (ucast USB_BUF_SIZE) = Inr (Some b, 0)"
proof -
  have "good_alloc n \<noteq> None" for n by (simp add: good_alloc_def)
  then obtain b where "cbuf_init True good_alloc (2 ^ 16) = Inr (Some b, 0)" using cbuf_init_ok [of 16 good_alloc] by auto
  moreover have "(ucast USB_BUF_SIZE :: size_t) = 2 ^ 16" by (simp add: usb_sizes)
  ultimately show ?thesis by metis
qed

lemma dev_board_opens [simp]: "ud_open_rv dev_board = 0"
  by (simp add: dev_board_def)

lemma open_cyp0: "\<exists>c1. gb_cypressfx2_open no_opts cyp0 1 = Inr (c1, 0)"
proof -
  obtain b where "cbuf_init True good_alloc (ucast USB_BUF_SIZE) = Inr (Some b, 0)" using init_ok by blast
  then show ?thesis
    by (simp add: gb_cypressfx2_open_def open_device_def open_buffers_def start_threads_def
        libusb_control_transfer_def usb_logged_def cyp0_def)
qed

lemma mem_cyp0 [simp]: "alloc_total (tmp_mem cyp0)"
  by (simp add: cyp0_def)

section \<open>Streams\<close>

text \<open>C22: After a successful opening, whatever the order of the calls of the caller (reads and writes, blocking or
  not, on any channel, and resets of the logic) and of the turns of the two threads, no byte is lost, doubled or
  moved: the bytes the device has taken and those still in the write buffer are what was accepted from the
  caller, the bytes handed to the caller and those still in the read buffer are what was received from the device
  in transfers that did not fail.  The transfers may end in any way.  What a failed reading transfer brought is not
  received: the code drops it.  A writing transfer that fails after it has moved bytes runs into the assertion of the
  code; otherwise no call and no turn faults, and each only ever waits, for its transfer or for the other
  thread.  The one condition on the environment is that memory for temporary buffers never runs out.\<close>

theorem cyp_streams:
  assumes "gb_cypressfx2_open opts c nch = Inr (c1, 0)"
    and "alloc_ok (snd (write_mem c))" and "alloc_ok (snd (read_mem c))" and "alloc_total (tmp_mem c)"
    and "cyp_reach (cyp_start c1) s"
  shows "taken s @ cyp_out (backend s) = accepted s \<and> delivered s @ cyp_in (backend s) = received s \<and>
    cyp_inv (backend s) \<and>
    (\<forall>e. usb_write_round (backend s) = Inl e \<longrightarrow> e = Blocked \<or>
       e = Assert_Failed \<and> (\<exists>rv k r. bulk_out (backend s) = (rv, k) # r \<and> transfer_fails rv \<and> k \<noteq> 0)) \<and>
    (\<forall>e. usb_read_round (backend s) = Inl e \<longrightarrow> e = Blocked) \<and>
    (\<forall>ch n src. unat n \<le> length src \<longrightarrow> (\<exists>r. gb_cypressfx2_write (backend s) ch n src = Inr r)) \<and>
    (\<forall>ch n dst. unat n \<le> length dst \<longrightarrow> (\<exists>r. gb_cypressfx2_read (backend s) ch n dst = Inr r)) \<and>
    (\<forall>evs ch n src t e. unat n \<le> length src \<and> unat n < 2 ^ 31 \<and>
       gb_cypressfx2_write_b ((backend s)\<lparr>write_waits := evs\<rparr>) ch n src t = Inl e \<longrightarrow> e = Blocked) \<and>
    (\<forall>evs ch n dst t e. unat n \<le> length dst \<and> length (arrived evs) \<le> cyp_in_room (backend s) \<and>
       gb_cypressfx2_read_b ((backend s)\<lparr>read_waits := evs\<rparr>) ch n dst t = Inl e \<longrightarrow> e = Blocked) \<and>
    (\<exists>r. gb_cypressfx2_logic_reset (backend s) = Inr r)"
proof -
  have k: "streams_kept s"
    using cyp_reach_kept [OF assms(5) opened_streams] gb_cypressfx2_open_ok [OF assms(1-3)] assms(4) by blast
  note P = streams_kept_progress [OF k]
  have "taken s @ cyp_out (backend s) = accepted s" "delivered s @ cyp_in (backend s) = received s" "cyp_inv (backend s)"
    using k by (simp_all add: streams_kept_def)
  moreover have "\<forall>ch n src. unat n \<le> length src \<longrightarrow> (\<exists>r. gb_cypressfx2_write (backend s) ch n src = Inr r)"
    "\<forall>ch n dst. unat n \<le> length dst \<longrightarrow> (\<exists>r. gb_cypressfx2_read (backend s) ch n dst = Inr r)"
    "\<exists>r. gb_cypressfx2_logic_reset (backend s) = Inr r"
    using P(3,4,7) by (meson sum.exhaust)+
  ultimately show ?thesis using P(1,2,5,6) by blast
qed

text \<open>The caller writes three bytes, the device takes two of them, and a transfer that runs into its timeout brings
  two others.\<close>

theorem cyp_streams_witness:
  "\<exists>c1 c2 c3 c4. gb_cypressfx2_open no_opts cyp0 1 = Inr (c1, 0) \<and>
    gb_cypressfx2_write c1 0 3 [1, 2, 3] = Inr (c2, Some 3, 0) \<and>
    usb_write_round c2 = Inr c3 \<and> usb_read_round c3 = Inr c4 \<and>
    [1, 2] @ cyp_out c4 = [1, 2, 3] \<and> cyp_in c4 = [5, 6] \<and> cyp_inv c4"
proof -
  obtain c1 where c1: "gb_cypressfx2_open no_opts cyp0 1 = Inr (c1, 0)" using open_cyp0 by blast
  have o: "opened cyp0 c1" by (rule gb_cypressfx2_open_ok [OF c1]) simp_all
  have w: "bulk_out cyp0 = [(0, 4)]" "bulk_in cyp0 = [(- 7, [5, 6])]" by (simp_all add: cyp0_def)
  have i: "cyp_inv c1" "3 = min (unat (3 :: size_t)) (cyp_room c1)" "cyp_out c1 = []" "cyp_in_room c1 = 65536"
    "usb_sent c1 = []" "usb_got c1 = []" "bulk_out c1 = [(0, 4)]" "bulk_in c1 = [(- 7, [5, 6])]" "alloc_total (tmp_mem c1)"
    using o by (simp_all add: opened_def cyp_inv_def w)
  obtain c2 where "gb_cypressfx2_write c1 0 3 [1, 2, 3] = Inr (c2, Some (of_nat 3), 0)" "cyp_inv c2"
    "cyp_out c2 = [1, 2, 3]" "read_buf c2 = read_buf c1" "usb_sent c2 = []" "usb_got c2 = []" "alloc_total (tmp_mem c2)"
    "bulk_out c2 = [(0, 4)]" "bulk_in c2 = [(- 7, [5, 6])]"
    using cyp_write_ok [OF i(1) _ i(2), of "[1, 2, 3]"] i(3-9) by fastforce
  then have c2: "gb_cypressfx2_write c1 0 3 [1, 2, 3] = Inr (c2, Some 3, 0)" "cyp_inv c2" "cyp_out c2 = [1, 2, 3]"
    "cyp_in_room c2 = 65536" "usb_sent c2 = []" "usb_got c2 = []" "alloc_total (tmp_mem c2)"
    "bulk_out c2 = [(0, 4)]" "bulk_in c2 = [(- 7, [5, 6])]"
    using i(4) by (simp_all add: cyp_in_room_def)
  have "2 = transfer_len (length (cyp_out c2))" by (simp add: c2(3) transfer_len_def)
  from usb_write_round_ok [OF c2(2,7) this] c2
  obtain c3 where c3: "usb_write_round c2 = Inr c3" "cyp_inv c3" "usb_sent c3 = [1, 2]" "cyp_out c3 = [3]"
    "cyp_in_room c3 = 65536" "usb_got c3 = []" "alloc_total (tmp_mem c3)" "bulk_in c3 = [(- 7, [5, 6])]"
    by (auto simp: transfer_fails_def cyp_in_room_def)
  have "read_len (cyp_in_room c3) = 32768" by (simp add: c3(5) read_len_def)
  from usb_read_round_ok [OF c3(2,7)] this c3(5,6,8) c2(9)
  obtain c4 where c4: "usb_read_round c3 = Inr c4" "usb_got c4 = [5, 6]" by auto
  let ?s2 = "(cyp_start c1)\<lparr>backend := c2, accepted := [1, 2, 3]\<rparr>"
  let ?s3 = "?s2\<lparr>backend := c3, taken := [1, 2]\<rparr>"
  let ?s4 = "?s3\<lparr>backend := c4, received := [5, 6]\<rparr>"
  have "cyp_step (cyp_start c1) ?s2"
    using call_write [of 3 "[1, 2, 3]" "cyp_start c1" 0 c2 "Some 3" 0] c2(1) by (simp add: cyp_start_def count_def)
  moreover have "cyp_step ?s2 ?s3" using write_turn [of ?s2 c3] c2(5) c3(1,3) by (simp add: cyp_start_def)
  moreover have "cyp_step ?s3 ?s4"
    using read_turn [of ?s3 c4] c3(6,8) c4 by (simp add: cyp_start_def transfer_fails_def LIBUSB_ERROR_TIMEOUT_def)
  ultimately have "cyp_reach (cyp_start c1) ?s4" by (blast intro: reach_step reach_refl)
  from cyp_streams [OF c1 _ _ _ this]
  have "[1, 2] @ cyp_out c4 = [1, 2, 3] \<and> cyp_in c4 = [5, 6] \<and> cyp_inv c4" by (simp add: cyp_start_def)
  then show ?thesis using c1 c2(1) c3(1) c4(1) by blast
qed

text \<open>Through the public interface a connected Cypress FX2 device is a pair of byte streams whatever
  the sizes of the pieces: reads hand out the received bytes in order without gap, writes append the
  bytes taken, in order, as far as there is room.\<close>

theorem cyp_api_streams:
  assumes "connected c" and "backend_functions c = cypressfx2_backend" and "cyp_inv (backend_ctx c)"
    and "\<forall>n \<in> set ns. unat n < 2 ^ 31"
  shows "(\<exists>c' ds. read_pieces c ns = Inr (c', ds) \<and>
      ds @ cyp_in (backend_ctx c') = cyp_in (backend_ctx c) \<and>
      length ds = min (sum_list (map unat ns)) (length (cyp_in (backend_ctx c)))) \<and>
    (\<exists>c' m. write_pieces c ns src = Inr (c', drop m src) \<and>
      cyp_out (backend_ctx c') = cyp_out (backend_ctx c) @ take m src \<and>
      m = min (sum_list (map unat ns)) (min (length src) (cyp_room (backend_ctx c))))"
  using cy.read_pieces_ok [OF assms] cy.write_pieces_ok [OF assms refl, of src] by blast

definition cyp_small :: "u8 list \<Rightarrow> u8 list \<Rightarrow> cyp" where
  "cyp_small i out = cyp0\<lparr>usb_dev_handle := Some 1, write_buf := Some (small_buf out),
     read_buf := Some (small_buf i), write_thread := True, read_threads := 1\<rparr>"

lemma small_buf_tmp [simp]: "cbuf_tmp_wf (small_buf bs)"
  by (simp add: small_buf_def cbuf_tmp_wf_def tmp_ok_def)

lemma cyp_small_inv [simp]: "length i \<le> 8 \<Longrightarrow> length out \<le> 8 \<Longrightarrow> cyp_inv (cyp_small i out)"
  by (simp add: cyp_inv_def cyp_small_def small_buf_wf cyp0_def)

definition cyp_ctx :: "cyp \<Rightarrow> cyp glip_ctx" where
  "cyp_ctx c = \<lparr>backend_options = [], num_backend_options = 0, log_fn = 1, ctx_log_priority = 3,
     caller_ctx = 0, backend_ctx = c, backend_functions = cypressfx2_backend, connected = True\<rparr>"

theorem cyp_api_streams_witness:
  "(\<exists>c' ds. read_pieces (cyp_ctx (cyp_small [1, 2, 3] [7])) [2, 5] = Inr (c', ds) \<and>
      ds @ cyp_in (backend_ctx c') = [1, 2, 3] \<and> length ds = 3) \<and>
    (\<exists>c'. write_pieces (cyp_ctx (cyp_small [1, 2, 3] [7])) [2, 5] [8, 9, 10] = Inr (c', []) \<and>
      cyp_out (backend_ctx c') = [7, 8, 9, 10])"
proof -
  let ?c = "cyp_ctx (cyp_small [1, 2, 3] [7])"
  have f: "connected ?c" "backend_functions ?c = cypressfx2_backend" "backend_ctx ?c = cyp_small [1, 2, 3] [7]"
    by (simp_all add: cyp_ctx_def)
  have q: "cyp_in (cyp_small [1, 2, 3] [7]) = [1, 2, 3]" "cyp_out (cyp_small [1, 2, 3] [7]) = [7]"
    "cyp_room (cyp_small [1, 2, 3] [7]) = 7"
    by (simp_all add: cyp_small_def cyp_room_def small_buf_wf)
  have n: "\<forall>n \<in> set [2, 5 :: size_t]. unat n < 2 ^ 31" by simp
  have i: "cyp_inv (backend_ctx ?c)" by (simp add: f)
  from cyp_api_streams [OF f(1,2) i n, of "[8, 9, 10]"] show ?thesis
    unfolding f q by (auto simp del: read_pieces.simps write_pieces.simps)
qed

section \<open>Blocking writes\<close>

text \<open>C25: A blocking write on channel zero that returns has had every byte taken, once and in order, by the
  buffer or through it by the device, whatever its timeout.  On any other channel it never returns:
  the refusal of the channel is not looked at.\<close>

theorem cyp_write_b_spec:
  assumes "write_buf c = Some b" and "cbuf_wf b" and "sz \<noteq> 0" and "unat sz < 2 ^ 31" and "unat sz \<le> length data"
  shows "(\<forall>c' n rv. gb_cypressfx2_write_b c 0 sz data timeout = Inr (c', n, rv) \<longrightarrow>
      rv = 0 \<and> n = Some sz \<and> (\<exists>gone. gone @ cyp_out c' = contents b @ take (unat sz) data)) \<and>
    (\<forall>ch. ch \<noteq> 0 \<longrightarrow> gb_cypressfx2_write_b c ch sz data timeout = Inl Blocked)"
proof (intro conjI allI impI)
  fix c' n rv
  assume "gb_cypressfx2_write_b c 0 sz data timeout = Inr (c', n, rv)"
  then obtain c1 evs m where l: "cyp_write_b_loop c 0 sz data 0 (write_waits c) = Inr (c1, evs, m)"
    "c' = c1\<lparr>write_waits := evs\<rparr>" "n = Some m" "rv = (if sz \<noteq> m then - ETIMEDOUT else 0)"
    by (auto simp: gb_cypressfx2_write_b_def cbind_eq_Inr_iff)
  obtain b' where b': "write_buf c1 = Some b'" "write_b_loop b sz data 0 (write_waits c) = Inr (b', evs, m)"
    using cyp_write_b_loop_eq [OF assms(1), of sz data 0 "write_waits c"] l(1) by (auto split: sum.splits)
  have "m = sz \<and> (\<exists>taken. taken @ contents b' = contents b @ drop (unat 0) (take (unat sz) data))"
    using write_b_loop_ok [OF assms(2) _ assms(5,4) b'(2)] by simp
  then show "rv = 0" "n = Some sz" "\<exists>gone. gone @ cyp_out c' = contents b @ take (unat sz) data"
    using l b' by auto
next
  fix ch :: u32
  assume "ch \<noteq> 0"
  then show "gb_cypressfx2_write_b c ch sz data timeout = Inl Blocked"
    using cyp_write_b_loop_stuck [of ch 0 sz c data "write_waits c"] assms(1,3)
    by (simp add: gb_cypressfx2_write_b_def)
qed

theorem cyp_write_b_spec_witness:
  "gb_cypressfx2_write_b (cyp_small [] [7]) 1 2 [8, 9] 100 = Inl Blocked \<and>
    (\<exists>c' gone. gb_cypressfx2_write_b (cyp_small [] [7]) 0 2 [8, 9] 100 = Inr (c', Some 2, 0) \<and>
      gone @ cyp_out c' = [7, 8, 9])"
proof -
  let ?c = "cyp_small [] [7]"
  have w: "write_buf ?c = Some (small_buf [7])" by (simp add: cyp_small_def)
  have k: "2 = min (unat (2 :: size_t)) (capacity (small_buf [7]) - length (contents (small_buf [7])))"
    by (simp add: small_buf_wf del: length_contents)
  obtain b where "fifo_write (small_buf [7]) 2 [8, 9] = Inr (b, of_nat 2)"
    using fifo_write_ok [OF small_buf_wf(1) _ k, of "[8, 9]"] by fastforce
  then obtain c' where "gb_cypressfx2_write ?c 0 2 [8, 9] = Inr (c', Some 2, 0)"
    using write_buffer_step [OF w] by fastforce
  then have r: "gb_cypressfx2_write_b ?c 0 2 [8, 9] 100 = Inr (c'\<lparr>write_waits := write_waits ?c\<rparr>, Some 2, 0)"
    unfolding gb_cypressfx2_write_b_def by (subst cyp_write_b_loop.simps) simp
  have "(\<forall>c' n rv. gb_cypressfx2_write_b ?c 0 2 [8, 9] 100 = Inr (c', n, rv) \<longrightarrow>
      rv = 0 \<and> n = Some 2 \<and> (\<exists>gone. gone @ cyp_out c' = contents (small_buf [7]) @ take (unat (2 :: size_t)) [8, 9])) \<and>
    (\<forall>ch. ch \<noteq> 0 \<longrightarrow> gb_cypressfx2_write_b ?c ch 2 [8, 9] 100 = Inl Blocked)"
    by (rule cyp_write_b_spec [OF w]) (simp_all add: small_buf_wf)
  then show ?thesis using r by (fastforce simp: small_buf_wf)
qed

section \<open>The writing thread\<close>

lemma transfer_len_pos: "2 \<le> n \<Longrightarrow> 2 \<le> transfer_len n"
proof (cases "512 \<le> n")
  case True
  then have "1 \<le> n div 512" by simp
  then show ?thesis using True by (simp add: transfer_len_def min_def)
next
  case False
  moreover assume "2 \<le> n"
  then have "2 \<le> n - n mod 2" by presburger
  ultimately show ?thesis by (simp add: transfer_len_def)
qed

lemma transfer_len_max: "transfer_len n \<le> 32768"
  by (simp add: transfer_len_def) linarith

lemma even_part_split: "even t \<Longrightarrow> t \<le> l \<Longrightarrow> t + ((l - t) - (l - t) mod 2) = l - l mod (2 :: nat)"
  by (cases "t = l") (auto simp: mod2_eq_if even_diff_nat)

lemma write_thread_drains:
  assumes "cyp_inv c" and "alloc_total (tmp_mem c)" and "\<forall>(rv, k) \<in> set (bulk_out c). rv = 0 \<and> 32768 \<le> k"
    and "n \<le> length (bulk_out c)" and "length (cyp_out c) \<le> 2 * n + 1"
    and "m = length (cyp_out c) - length (cyp_out c) mod 2"
  shows "\<exists>c'. usb_write_thread n c = Inr c' \<and> usb_sent c' = usb_sent c @ take m (cyp_out c) \<and>
    cyp_out c' = drop m (cyp_out c)"
  using assms
proof (induction n arbitrary: c m)
  case 0
  then have "m = 0" by (cases "length (cyp_out c)") auto
  then show ?case by simp
next
  case (Suc n)
  let ?q = "cyp_out c"
  obtain rv k r where b: "bulk_out c = (rv, k) # r" using Suc.prems(4) by (cases "bulk_out c") auto
  have k: "32768 \<le> k" and rv: "\<not> transfer_fails rv" using Suc.prems(3) b by (simp_all add: transfer_fails_def)
  define t where "t = transfer_len (length ?q)"
  have mt: "min k t = t" using k transfer_len_max [of "length ?q"] by (simp add: t_def)
  show ?case
  proof (cases "?q = []")
    case True
    let ?c = "c\<lparr>write_sem := write_sem c - 1\<rparr>"
    have "usb_write_round c = Inr ?c" using usb_write_round_ok [OF Suc.prems(1,2) refl] True by simp
    moreover have "\<exists>c'. usb_write_thread n ?c = Inr c' \<and> usb_sent c' = usb_sent ?c @ take 0 (cyp_out ?c) \<and>
        cyp_out c' = drop 0 (cyp_out ?c)"
      using True Suc.prems by (intro Suc.IH) (auto simp: cyp_inv_def)
    ultimately show ?thesis using True Suc.prems(6) by simp
  next
    case False
    then obtain c1 where c1: "usb_write_round c = Inr c1" "cyp_inv c1" "usb_sent c1 = usb_sent c @ take t ?q"
      "cyp_out c1 = drop t ?q" "tmp_mem c1 = tmp_mem c" "bulk_out c1 = r" "bulk_in c1 = bulk_in c"
      using usb_write_round_ok [OF Suc.prems(1,2) t_def, unfolded b list.case prod.case mt] False rv by auto
    have t: "even t" "t \<le> length ?q" using transfer_len_bounds by (simp_all add: t_def)
    have "2 \<le> length ?q \<Longrightarrow> 2 \<le> t" by (simp add: t_def transfer_len_pos)
    then have l: "length (cyp_out c1) \<le> 2 * n + 1" using c1(4) Suc.prems(5) by (cases "2 \<le> length ?q") auto
    define u where "u = length (cyp_out c1) - length (cyp_out c1) mod 2"
    obtain c' where c': "usb_write_thread n c1 = Inr c'" "usb_sent c' = usb_sent c1 @ take u (cyp_out c1)"
      "cyp_out c' = drop u (cyp_out c1)"
      using Suc.IH [OF c1(2) _ _ _ l u_def] c1 Suc.prems(2-4) b by auto
    have "m = t + u" using even_part_split [OF t] c1(4) Suc.prems(6) by (simp add: u_def)
    then have "take m ?q = take t ?q @ take u (drop t ?q)" "drop m ?q = drop u (drop t ?q)"
      by (simp_all add: take_add add.commute)
    then show ?thesis using c1(1,3,4) c' by simp
  qed
qed

text \<open>C23: With a device that takes whatever it is given, and memory for copies, the writing thread sends everything in the
  buffer, in order, but for a last odd byte: that one stays, for all the turns that follow, until the
  caller writes another.\<close>

theorem cyp_write_thread_drains:
  assumes "cyp_inv c" and "alloc_total (tmp_mem c)" and "\<forall>(rv, k) \<in> set (bulk_out c). rv = 0 \<and> 32768 \<le> k"
    and "n \<le> length (bulk_out c)" and "length (cyp_out c) \<le> 2 * n + 1"
  shows "\<exists>c' rest. usb_write_thread n c = Inr c' \<and> usb_sent c' @ rest = usb_sent c @ cyp_out c \<and>
    cyp_out c' = rest \<and> length rest = length (cyp_out c) mod 2"
proof -
  let ?m = "length (cyp_out c) - length (cyp_out c) mod 2"
  have "length (cyp_out c) - ?m = length (cyp_out c) mod 2" by simp
  then show ?thesis using write_thread_drains [OF assms refl] by (auto simp del: minus_mod_self1)
qed

theorem cyp_write_thread_drains_witness:
  "\<exists>c' rest. usb_write_thread 3 ((cyp_small [] [7, 8, 9])\<lparr>bulk_out := replicate 3 (0, 32768)\<rparr>) = Inr c' \<and>
    usb_sent c' @ rest = [7, 8, 9] \<and> cyp_out c' = rest \<and> length rest = 1"
proof -
  let ?c = "(cyp_small [] [7, 8, 9])\<lparr>bulk_out := replicate 3 (0, 32768)\<rparr>"
  have c: "cyp_out ?c = [7, 8, 9]" "usb_sent ?c = []" by (simp_all add: cyp_small_def small_buf_wf)
  have "cyp_inv ?c" using cyp_small_inv [of "[]" "[7, 8, 9]"] by (simp add: cyp_inv_def)
  moreover have "alloc_total (tmp_mem ?c)" by (simp add: cyp_small_def)
  moreover have "\<forall>(rv, k) \<in> set (bulk_out ?c). rv = 0 \<and> 32768 \<le> k" "3 \<le> length (bulk_out ?c)" by simp_all
  moreover have "length (cyp_out ?c) \<le> 2 * 3 + 1" unfolding c by simp
  ultimately show ?thesis using cyp_write_thread_drains [of ?c 3] unfolding c by simp
qed

section \<open>Finding, failing to open, and closing\<close>

text \<open>C24: The search counts the devices that answer to an entry of its list and selects the last of them:
  identifiers and manufacturer must agree, of the product only as many characters as the device
  shows, so that a device with a shorter product name, or an empty one, is taken for the board too.
  Asked for a bus and an address, it selects the first device there.\<close>

theorem cyp_find_device_spec:
  assumes "\<forall>d \<in> set ds. plain_device d" and "\<forall>e \<in> set es. plain_entry e"
  shows "snd (find_device (Cfg_Search es) ds) =
      (let js = filter (\<lambda>j. wanted es (ds ! j)) [0 ..< length ds]
       in (length js, if js = [] then None else Some (last js))) \<and>
    snd (find_device (Cfg_Manual bus addr) ds) =
      (let js = filter (\<lambda>j. ud_bus (ds ! j) = bus \<and> ud_addr (ds ! j) = addr) [0 ..< length ds]
       in if js = [] then (0, None) else (1, Some (hd js)))"
proof -
  have "filter (\<lambda>j. device_fits es (ds ! j)) [0 ..< length ds] = filter (\<lambda>j. wanted es (ds ! j)) [0 ..< length ds]"
    using assms by (intro filter_cong) (auto simp: device_fits_wanted)
  then show ?thesis
    by (simp add: find_device_def auto_search_found manual_search_found Let_def split: list.splits)
qed

theorem cyp_find_device_spec_witness:
  "snd (find_device (Cfg_Search usb_devs) [dev_board, dev_board\<lparr>ud_product := Some ''GL''\<rparr>, dev_other]) = (2, Some 1) \<and>
    snd (find_device (Cfg_Manual 1 4) [dev_board, dev_other]) = (1, Some 1)"
proof -
  have p: "plain_device dev_board" "plain_device dev_other" "plain_device (dev_board\<lparr>ud_product := Some ''GL''\<rparr>)"
    "\<forall>e \<in> set usb_devs. plain_entry e"
    by (simp_all add: plain_device_def plain_entry_def dev_board_def dev_other_def usb_devs_def no_entry_def)
  have w: "wanted usb_devs dev_board" "wanted usb_devs (dev_board\<lparr>ud_product := Some ''GL''\<rparr>)" "\<not> wanted usb_devs dev_other"
    by (simp_all add: wanted_def dev_board_def dev_other_def usb_devs_def no_entry_def)
  have a: "ud_bus dev_board = 1" "ud_bus dev_other = 1" "ud_addr dev_board = 7" "ud_addr dev_other = 4"
    by (simp_all add: dev_board_def dev_other_def)
  show ?thesis
    using cyp_find_device_spec [of "[dev_board, dev_board\<lparr>ud_product := Some ''GL''\<rparr>, dev_other]" usb_devs]
      cyp_find_device_spec [of "[dev_board, dev_other]" usb_devs 1 4] p w a
    by (simp add: upt_rec Let_def del: append.simps)
qed

lemma open_cases:
  assumes "gb_cypressfx2_open opts c nch = Inr (c1, rv)" and "rv \<noteq> 0" and "usb_dev_handle c = None"
    and "usb_dev_handle c1 \<noteq> None"
  obtains i l where "open_device (c\<lparr>usb_dev_handle := Some i, usb_log := l\<rparr>) = Inr (c1, rv)"
proof -
  obtain cfg where "device_config opts = Inr cfg"
    using assms(1,3) by (auto simp: gb_cypressfx2_open_def cbind_eq_Inr_iff)
  note step = assms(1) [unfolded gb_cypressfx2_open_def this]
  obtain ds where ds: "cfg \<noteq> Cfg_Invalid" "usb_list c = Some ds"
    using step assms(3,4) by (auto split: if_splits option.splits)
  obtain ev n found where f: "find_device cfg ds = (ev, n, found)" by (rule prod_cases3)
  obtain i where i: "found = Some i" "\<not> ud_open_rv (ds ! i) < 0"
    using step assms(3,4) ds f by (auto simp: usb_logged_def Let_def split: if_splits option.splits)
  then show thesis
    using step assms(3) ds f that [of "usb_log c @ ev @ [Usb_Open i, Usb_Free_List]" i] by (simp add: usb_logged_def Let_def)
qed

lemma open_buffers_link: "open_buffers c = Inr (c', rv) \<Longrightarrow> same_link c c'"
  by (auto simp: open_buffers_def same_link_def Let_def cbind_eq_Inr_iff split: if_splits)

lemma open_device_failed:
  assumes "open_device c = Inr (c1, rv)" and "rv \<noteq> 0" and "\<not> write_thread c"
  shows "rv = - 1 \<and> (write_thread c1 \<longrightarrow> create_read_rv c \<noteq> 0)"
proof (cases rule: open_device_cases [of c])
  case (early c')
  then show ?thesis using assms by (simp add: same_link_def)
next
  case (late cb)
  then obtain cd r where d: "open_buffers cb = Inr (cd, r)"
    "(if r < 0 then Inr (cd, - 1) else Inr (start_threads cd)) = (Inr (c1, rv) :: _ exec)"
    using assms(1) unfolding late(2) cbind_eq_Inr_iff by auto
  have "same_link c cd" using same_link_trans [OF late(1) open_buffers_link [OF d(1)]] .
  then show ?thesis using d(2) assms(2,3)
    by (auto simp: same_link_def start_threads_def Let_def split: if_splits)
qed

text \<open>When opening fails behind the opening of the device, the handle stays: every later opening is
  refused as already connected, and closing, the only way out, cancels a thread that was never
  started (unless it was the last step, the start of the reading thread, that failed).\<close>

theorem cyp_failed_open:
  assumes "gb_cypressfx2_open opts c nch = Inr (c1, rv)" and "rv \<noteq> 0" and "usb_dev_handle c = None"
    and "usb_dev_handle c1 \<noteq> None" and "\<not> write_thread c"
  shows "rv = - 1 \<and> (\<forall>opts' nch'. gb_cypressfx2_open opts' c1 nch' = Inr (c1, - 1)) \<and>
    (create_read_rv c = 0 \<longrightarrow> gb_cypressfx2_close c1 = Inl Mem_Fault)"
proof -
  obtain i l where "open_device (c\<lparr>usb_dev_handle := Some i, usb_log := l\<rparr>) = Inr (c1, rv)"
    by (rule open_cases [OF assms(1-4)])
  from open_device_failed [OF this assms(2)] assms(4,5) show ?thesis
    by (auto simp: gb_cypressfx2_open_def gb_cypressfx2_close_def)
qed

theorem cyp_failed_open_witness:
  "\<exists>c1. gb_cypressfx2_open no_opts (cyp0\<lparr>claim_rv := - 6\<rparr>) 1 = Inr (c1, - 1) \<and>
    gb_cypressfx2_open no_opts c1 1 = Inr (c1, - 1) \<and> gb_cypressfx2_close c1 = Inl Mem_Fault"
proof -
  have "usb_list cyp0 = Some [dev_other, dev_board]" "config_rv cyp0 = 0" "usb_dev_handle cyp0 = None"
    by (simp_all add: cyp0_def)
  then obtain c1 where c1: "gb_cypressfx2_open no_opts (cyp0\<lparr>claim_rv := - 6\<rparr>) 1 = Inr (c1, - 1)" "usb_dev_handle c1 \<noteq> None"
    by (simp add: gb_cypressfx2_open_def open_device_def usb_logged_def)
  from cyp_failed_open [OF c1(1) _ _ c1(2)] show ?thesis using c1 by (auto simp: cyp0_def)
qed

text \<open>Closing succeeds whatever has happened since the opening, but it does not end the reading
  thread: the thread outlives the connection, and its next turn uses the buffer that was freed.\<close>

theorem cyp_close_leaves_reader:
  assumes "gb_cypressfx2_open opts c nch = Inr (c1, 0)"
    and "alloc_ok (snd (write_mem c))" and "alloc_ok (snd (read_mem c))"
    and "cyp_reach (cyp_start c1) s"
  shows "\<exists>c2. gb_cypressfx2_close (backend s) = Inr (c2, 0) \<and> usb_dev_handle c2 = None \<and> \<not> write_thread c2 \<and>
    read_threads c2 = Suc (read_threads c) \<and> usb_read_round c2 = Inl Mem_Fault"
proof -
  have "usb_dev_handle (backend s) \<noteq> None" "write_thread (backend s)" "read_threads (backend s) = Suc (read_threads c)"
    using cyp_reach_threads [OF assms(4)] gb_cypressfx2_open_ok [OF assms(1-3)]
    by (simp_all add: same_threads_def opened_def cyp_start_def)
  then show ?thesis by (auto simp: gb_cypressfx2_close_def usb_logged_def usb_read_round_def)
qed

theorem cyp_close_leaves_reader_witness:
  "\<exists>c1 c2. gb_cypressfx2_open no_opts cyp0 1 = Inr (c1, 0) \<and> gb_cypressfx2_close c1 = Inr (c2, 0) \<and>
    read_threads c2 = 1 \<and> usb_read_round c2 = Inl Mem_Fault"
proof -
  obtain c1 where c1: "gb_cypressfx2_open no_opts cyp0 1 = Inr (c1, 0)" using open_cyp0 by blast
  show ?thesis using cyp_close_leaves_reader [OF c1 _ _ reach_refl] c1 by (auto simp: cyp_start_def)
qed

end
