(* ===== verification/Dpi.thy ===== *)
theory Dpi
  imports Uart_Line
begin

text \<open>
  The TCP endpoint inside a simulated system, \<^verbatim>\<open>backend_tcp/logic/dpi/GlipTcp.cpp\<close>: the counterpart of the TCP backend.  A thread moves bytes
  between two sockets and three queues, and the simulator makes items of several bytes out of them,
  cycle by cycle.
\<close>

section \<open>The queues\<close>

text \<open>
  The queues are those of Boost and not part of the sources: the model takes their operations as an
  argument.  Their documentation promises a first-in first-out queue of bounded size: \<open>push\<close> fails
  exactly when it is full, \<open>pop\<close> exactly when it is empty.
\<close>

record 'q spsc_ops =
  q_push :: "'q \<Rightarrow> u8 \<Rightarrow> 'q option"
  q_pop :: "'q \<Rightarrow> ('q \<times> u8) option"

definition spsc_laws :: "'q spsc_ops \<Rightarrow> ('q \<Rightarrow> nat) \<Rightarrow> ('q \<Rightarrow> u8 list) \<Rightarrow> bool" where
  "spsc_laws ops cap bytes \<longleftrightarrow>
     (\<forall>q d. case q_push ops q d of
        None \<Rightarrow> cap q \<le> length (bytes q)
      | Some q' \<Rightarrow> length (bytes q) < cap q \<and> bytes q' = bytes q @ [d] \<and> cap q' = cap q) \<and>
     (\<forall>q. case q_pop ops q of
        None \<Rightarrow> bytes q = []
      | Some (q', d) \<Rightarrow> bytes q = d # bytes q' \<and> cap q' = cap q)"

section \<open>State\<close>

text \<open>An item under way: whether it is complete, and how many of its bytes are there.\<close>

record temp_storage =
  ts_valid :: bool
  ts_partial :: nat
  ts_value :: u64

definition no_item :: temp_storage where
  "no_item = \<lparr>ts_valid = False, ts_partial = 0, ts_value = 0\<rparr>"

record 'q glip_tcp =
  mPort :: int
  mNumBytes :: nat
  mThreadReady :: bool
  mConnected :: bool
  mDataOut :: 'q
  mDataIn :: 'q
  mControl :: 'q
  mReadItem :: temp_storage
  mWriteItem :: temp_storage
  mControlItem :: temp_storage

definition CONTROL_AVAILABLE :: u32 where "CONTROL_AVAILABLE = 0x1"
definition INCOMING_AVAILABLE :: u32 where "INCOMING_AVAILABLE = 0x2"
definition OUTGOING_READY :: u32 where "OUTGOING_READY = 0x4"

section \<open>Reset\<close>

text \<open>Emptying a queue ends when a \<open>pop\<close> fails.\<close>

partial_function (option) q_clear :: "'q spsc_ops \<Rightarrow> 'q \<Rightarrow> 'q option" where
  "q_clear ops q = (case q_pop ops q of None \<Rightarrow> Some q | Some (q', _) \<Rightarrow> q_clear ops q')"

definition GlipTcp_reset :: "'q spsc_ops \<Rightarrow> 'q glip_tcp \<Rightarrow> 'q glip_tcp option" where
  "GlipTcp_reset ops g =
     (case (q_clear ops (mControl g), q_clear ops (mDataIn g), q_clear ops (mDataOut g)) of
        (Some c, Some i, Some out) \<Rightarrow>
          Some (g\<lparr>mControl := c, mDataIn := i, mDataOut := out, mControlItem := no_item,
            mReadItem := no_item, mWriteItem := no_item\<rparr>)
      | _ \<Rightarrow> None)"

text \<open>The thread is started before the reset and makes itself known at once.\<close>

definition GlipTcp_init :: "'q spsc_ops \<Rightarrow> 'q glip_tcp \<Rightarrow> int \<Rightarrow> nat \<Rightarrow> 'q glip_tcp exec" where
  "GlipTcp_init ops g port width =
     cbind (c_assert (\<not> mThreadReady g)) (\<lambda>_.
       case GlipTcp_reset ops (g\<lparr>mPort := port, mNumBytes := width div 8\<rparr>) of
         None \<Rightarrow> Inl Blocked
       | Some g' \<Rightarrow> Inr (g'\<lparr>mThreadReady := True\<rparr>))"

text \<open>The result \<open>None\<close> is the null pointer.\<close>

definition glip_tcp_create :: "'q spsc_ops \<Rightarrow> 'q glip_tcp \<Rightarrow> int \<Rightarrow> nat \<Rightarrow> 'q glip_tcp option exec" where
  "glip_tcp_create ops g tcp_port width =
     (if width mod 8 \<noteq> 0 \<or> 64 < width then Inr None
      else cbind (GlipTcp_init ops g tcp_port width) (\<lambda>g'. Inr (Some g')))"

section \<open>A cycle\<close>

text \<open>
  A byte moved to place \<open>k\<close> of an item.  The shift is one of \<open>int\<close>: from place four on it is
  undefined, and at place three a large byte makes it negative before it is widened.
\<close>

definition byte_at :: "u8 \<Rightarrow> nat \<Rightarrow> u64 exec" where
  "byte_at d k =
     (if 4 \<le> k then Inl Int_Overflow else Inr (scast (push_bit (8 * k) (ucast d :: u32))))"

function pop_item :: "'q spsc_ops \<Rightarrow> nat \<Rightarrow> nat \<Rightarrow> 'q \<Rightarrow> temp_storage \<Rightarrow> ('q \<times> temp_storage) exec" where
  "pop_item ops n i q it =
     (if n \<le> i then Inr (q, it)
      else (case q_pop ops q of
          None \<Rightarrow> Inr (q, it)
        | Some (q', d) \<Rightarrow> cbind (byte_at d (n - i - 1)) (\<lambda>v.
            pop_item ops n (Suc i) q' (it\<lparr>ts_value := ts_value it OR v, ts_partial := ts_partial it + 1\<rparr>))))"
  by pat_completeness auto
termination by (relation "measure (\<lambda>(_, n, i, _). n - i)") auto

function push_item :: "'q spsc_ops \<Rightarrow> nat \<Rightarrow> nat \<Rightarrow> 'q \<Rightarrow> temp_storage \<Rightarrow> 'q \<times> temp_storage" where
  "push_item ops n i q it =
     (if n \<le> i then (q, it)
      else (case q_push ops q (ucast (drop_bit ((n - i - 1) * 8) (ts_value it))) of
          None \<Rightarrow> (q, it)
        | Some q' \<Rightarrow> push_item ops n (Suc i) q' (it\<lparr>ts_partial := ts_partial it + 1\<rparr>)))"
  by pat_completeness auto
termination by (relation "measure (\<lambda>(_, n, i, _). n - i)") auto

declare pop_item.simps [simp del] push_item.simps [simp del]

definition cycle_control :: "'q spsc_ops \<Rightarrow> 'q glip_tcp \<Rightarrow> ('q glip_tcp \<times> u32) exec" where
  "cycle_control ops g =
     cbind (c_assert (\<not> ts_valid (mControlItem g))) (\<lambda>_.
     cbind (pop_item ops 2 (ts_partial (mControlItem g)) (mControl g) (mControlItem g)) (\<lambda>(q, it).
       if ts_partial it = 2
       then Inr (g\<lparr>mControl := q, mControlItem := it\<lparr>ts_valid := True\<rparr>\<rparr>, CONTROL_AVAILABLE)
       else Inr (g\<lparr>mControl := q, mControlItem := it\<rparr>, 0)))"

definition cycle_incoming :: "'q spsc_ops \<Rightarrow> 'q glip_tcp \<Rightarrow> ('q glip_tcp \<times> u32) exec" where
  "cycle_incoming ops g =
     (if ts_valid (mReadItem g) then Inr (g, INCOMING_AVAILABLE)
      else cbind (pop_item ops (mNumBytes g) (ts_partial (mReadItem g)) (mDataIn g) (mReadItem g)) (\<lambda>(q, it).
        if ts_partial it = mNumBytes g
        then Inr (g\<lparr>mDataIn := q, mReadItem := it\<lparr>ts_valid := True\<rparr>\<rparr>, INCOMING_AVAILABLE)
        else Inr (g\<lparr>mDataIn := q, mReadItem := it\<rparr>, 0)))"

definition cycle_outgoing :: "'q spsc_ops \<Rightarrow> 'q glip_tcp \<Rightarrow> 'q glip_tcp \<times> u32" where
  "cycle_outgoing ops g =
     (if \<not> ts_valid (mWriteItem g) then (g, OUTGOING_READY)
      else (let (q, it) = push_item ops (mNumBytes g) (ts_partial (mWriteItem g)) (mDataOut g) (mWriteItem g)
            in if ts_partial it = mNumBytes g
               then (g\<lparr>mDataOut := q, mWriteItem := it\<lparr>ts_valid := False\<rparr>\<rparr>, OUTGOING_READY)
               else (g\<lparr>mDataOut := q, mWriteItem := it\<rparr>, 0)))"

definition next_cycle :: "'q spsc_ops \<Rightarrow> 'q glip_tcp \<Rightarrow> ('q glip_tcp \<times> u32) exec" where
  "next_cycle ops g =
     (if \<not> mConnected g then Inr (g, 0)
      else cbind (cycle_control ops g) (\<lambda>(g1, s1).
           cbind (cycle_incoming ops g1) (\<lambda>(g2, s2).
             let (g3, s3) = cycle_outgoing ops g2 in Inr (g3, s1 OR s2 OR s3))))"

text \<open>Taking a control message leaves its value behind.\<close>

definition control_msg :: "'q glip_tcp \<Rightarrow> 'q glip_tcp \<times> u32" where
  "control_msg g =
     (g\<lparr>mControlItem := (mControlItem g)\<lparr>ts_valid := False, ts_partial := 0\<rparr>\<rparr>,
      ucast (ts_value (mControlItem g)))"

definition readData :: "'q glip_tcp \<Rightarrow> u64 exec" where
  "readData g = cbind (c_assert (ts_valid (mReadItem g))) (\<lambda>_. Inr (ts_value (mReadItem g)))"

definition readAck :: "'q glip_tcp \<Rightarrow> 'q glip_tcp" where
  "readAck g = g\<lparr>mReadItem := no_item\<rparr>"

definition writeData :: "'q glip_tcp \<Rightarrow> u64 \<Rightarrow> 'q glip_tcp exec" where
  "writeData g data =
     cbind (c_assert (\<not> ts_valid (mWriteItem g))) (\<lambda>_.
       Inr (g\<lparr>mWriteItem := \<lparr>ts_valid = True, ts_partial = 0, ts_value = data\<rparr>\<rparr>))"

section \<open>The thread\<close>

text \<open>
  Setting up the two listening sockets: two sockets, two options, two addresses, two queues of
  connections; \<open>rvs\<close> are the results of these eight calls.
\<close>

definition listenSockets :: "int list \<Rightarrow> bool" where
  "listenSockets rvs = (\<forall>rv \<in> set (take 8 rvs). 0 \<le> rv)"

text \<open>
  One turn of waiting for connections: \<open>select\<close> reports on the sockets without a connection, and
  each that is reported is accepted.  The turns end when both are connected; a failure ends the
  thread.
\<close>

record accept_event =
  ae_error :: bool
  ae_data :: "int option"
  ae_control :: "int option"

datatype accept_result = Accepted int int | Accept_Failed | Still_Waiting

fun accept_loop :: "accept_event list \<Rightarrow> int \<Rightarrow> int \<Rightarrow> accept_result" where
  "accept_loop [] d c = (if d = - 1 \<or> c = - 1 then Still_Waiting else Accepted d c)"
| "accept_loop (e # es) d c =
     (if \<not> (d = - 1 \<or> c = - 1) then Accepted d c
      else if ae_error e then Accept_Failed
      else (let d' = (if d = - 1 then (case ae_data e of None \<Rightarrow> d | Some s \<Rightarrow> s) else d);
                c' = (if c = - 1 then (case ae_control e of None \<Rightarrow> c | Some s \<Rightarrow> s) else c)
            in if (d = - 1 \<and> ae_data e \<noteq> None \<and> d' < 0) \<or> (c = - 1 \<and> ae_control e \<noteq> None \<and> c' < 0)
               then Accept_Failed else accept_loop es d' c'))"

text \<open>Received bytes are pushed one by one, waiting without end while the queue is full.\<close>

fun push_all :: "'q spsc_ops \<Rightarrow> 'q \<Rightarrow> u8 list \<Rightarrow> 'q exec" where
  "push_all ops q [] = Inr q"
| "push_all ops q (d # ds) =
     (case q_push ops q d of None \<Rightarrow> Inl Blocked | Some q' \<Rightarrow> push_all ops q' ds)"

fun pop_many :: "'q spsc_ops \<Rightarrow> nat \<Rightarrow> 'q \<Rightarrow> 'q \<times> u8 list" where
  "pop_many ops 0 q = (q, [])"
| "pop_many ops (Suc n) q =
     (case q_pop ops q of
        None \<Rightarrow> (q, [])
      | Some (q', d) \<Rightarrow> (let (q'', ds) = pop_many ops n q' in (q'', d # ds)))"

text \<open>
  One turn over an open connection.  The result says whether the connection goes on.  \<open>Io_Fail\<close>
  stands for the two error numbers that end it, \<open>Io_Again\<close> for all others.  What was taken from
  the queue to be sent is gone when the socket does not take it.
\<close>

definition receive_into :: "'q spsc_ops \<Rightarrow> 'q \<Rightarrow> line \<Rightarrow> ('q \<times> line \<times> bool) exec" where
  "receive_into ops q l =
     cbind (tty_read l 2048) (\<lambda>(l', r).
       case r of
         Io_Fail \<Rightarrow> Inr (q, l', False)
       | Io_Again \<Rightarrow> Inr (q, l', True)
       | Io bs \<Rightarrow> if bs = [] then Inr (q, l', False)
                  else cbind (push_all ops q bs) (\<lambda>q'. Inr (q', l', True)))"

definition thread_turn ::
    "'q spsc_ops \<Rightarrow> 'q glip_tcp \<Rightarrow> line \<Rightarrow> line \<Rightarrow> ('q glip_tcp \<times> line \<times> line \<times> bool) exec" where
  "thread_turn ops g cl dl =
     cbind (receive_into ops (mControl g) cl) (\<lambda>(c, cl', go1).
       if \<not> go1 then Inr (g\<lparr>mControl := c\<rparr>, cl', dl, False)
       else cbind (receive_into ops (mDataIn g) dl) (\<lambda>(i, dl', go2).
         if \<not> go2 then Inr (g\<lparr>mControl := c, mDataIn := i\<rparr>, cl', dl', False)
         else (let (out, bs) = pop_many ops 2048 (mDataOut g);
                   (dl'', r) = tty_write dl' bs;
                   g' = g\<lparr>mControl := c, mDataIn := i, mDataOut := out\<rparr>
               in (case r of
                     Io_Fail \<Rightarrow> Inr (g', cl', dl'', False)
                   | Io_Again \<Rightarrow> Inr (g', cl', dl'', True)
                   | Io k \<Rightarrow> cbind (c_assert (k = length bs)) (\<lambda>_. Inr (g', cl', dl'', True))))))"

text \<open>A whole connection, turn by turn; \<open>fuel\<close> bounds the turns looked at.\<close>

fun connection :: "nat \<Rightarrow> 'q spsc_ops \<Rightarrow> 'q glip_tcp \<Rightarrow> line \<Rightarrow> line \<Rightarrow> ('q glip_tcp \<times> line \<times> line \<times> bool) exec" where
  "connection 0 ops g cl dl = Inr (g, cl, dl, True)"
| "connection (Suc n) ops g cl dl =
     cbind (thread_turn ops g cl dl) (\<lambda>(g', cl', dl', go).
       if go then connection n ops g' cl' dl'
       else Inr (case GlipTcp_reset ops (g'\<lparr>mConnected := False\<rparr>) of None \<Rightarrow> g' | Some h \<Rightarrow> h, cl', dl', False))"

definition on_connect :: "'q spsc_ops \<Rightarrow> 'q glip_tcp \<Rightarrow> 'q glip_tcp option" where
  "on_connect ops g = map_option (\<lambda>g'. g'\<lparr>mConnected := True\<rparr>) (GlipTcp_reset ops g)"

end
