(* ===== verification/Dpi_Properties.thy ===== *)
theory Dpi_Properties
  imports Dpi Tcp Examples
begin

text \<open>
  The properties of the TCP endpoint in the simulated system, and of the pair it makes with the TCP
  backend of the host.
\<close>

section \<open>Queues\<close>

text \<open>A queue that keeps the promises, for the examples: a list and its bound.\<close>

definition list_queue :: "(nat \<times> u8 list) spsc_ops" where
  "list_queue =
     \<lparr>q_push = (\<lambda>(c, bs) d. if length bs < c then Some (c, bs @ [d]) else None),
      q_pop = (\<lambda>(c, bs). case bs of [] \<Rightarrow> None | d # ds \<Rightarrow> Some ((c, ds), d))\<rparr>"

lemma list_queue_laws [simp]: "spsc_laws list_queue fst snd"
  by (auto simp: spsc_laws_def list_queue_def split: list.splits)

section \<open>Items\<close>

lemma spsc_push:
  assumes "spsc_laws ops cap bytes"
  shows "q_push ops q d = Some q' \<Longrightarrow> length (bytes q) < cap q \<and> bytes q' = bytes q @ [d] \<and> cap q' = cap q"
    and "q_push ops q d = None \<Longrightarrow> cap q \<le> length (bytes q)"
  using assms [unfolded spsc_laws_def, THEN conjunct1, rule_format, of q d] by simp_all

lemma spsc_pop:
  assumes "spsc_laws ops cap bytes"
  shows "q_pop ops q = Some (q', d) \<Longrightarrow> bytes q = d # bytes q' \<and> cap q' = cap q"
    and "q_pop ops q = None \<Longrightarrow> bytes q = []"
proof -
  note law = assms [unfolded spsc_laws_def, THEN conjunct2, rule_format, of q]
  show "bytes q = d # bytes q' \<and> cap q' = cap q" if "q_pop ops q = Some (q', d)"
    using law unfolding that by (simp only: option.case prod.case)
  show "bytes q = []" if "q_pop ops q = None"
    using law unfolding that by (simp only: option.case)
qed

lemma spsc_pop_Nil: "spsc_laws ops cap bytes \<Longrightarrow> bytes q = [] \<Longrightarrow> q_pop ops q = None"
  by (metis spsc_pop(1) list.distinct(1) option.exhaust surj_pair)

lemma spsc_pop_Cons:
  assumes "spsc_laws ops cap bytes" and "bytes q = d # ds"
  obtains q' where "q_pop ops q = Some (q', d)" "bytes q' = ds" "cap q' = cap q"
proof (cases "q_pop ops q")
  case None
  then show thesis using spsc_pop(2) [OF assms(1) None] assms(2) by simp
next
  case (Some x)
  obtain q' e where x: "x = (q', e)" by fastforce
  have "bytes q = e # bytes q' \<and> cap q' = cap q" using spsc_pop(1) [OF assms(1)] Some x by blast
  then show thesis using assms(2) Some x by (intro that [of q']) simp_all
qed

lemma spsc_room: "spsc_laws ops cap bytes \<Longrightarrow> length (bytes q) < cap q \<Longrightarrow> \<exists>q'. q_push ops q d = Some q'"
  using spsc_push(2) [of ops cap bytes q d] by (cases "q_push ops q d") auto

text \<open>An item of \<open>n\<close> bytes holds \<open>bs\<close>, the first byte at the most significant place.\<close>

definition holds :: "nat \<Rightarrow> u8 list \<Rightarrow> u64 \<Rightarrow> bool" where
  "holds n bs v \<longleftrightarrow>
     (\<forall>j < 8 * n. bit v j \<longleftrightarrow> n - 1 - j div 8 < length bs \<and> bit (bs ! (n - 1 - j div 8)) (j mod 8))"

lemma bit_byte_at:
  assumes "byte_at d k = Inr v" and "j < 32"
  shows "bit v j \<longleftrightarrow> j div 8 = k \<and> bit d (j mod 8)"
proof -
  have k: "k < 4" "v = scast (push_bit (8 * k) (ucast d :: u32))"
    using assms(1) by (auto simp: byte_at_def split: if_splits)
  have "bit v j \<longleftrightarrow> bit (push_bit (8 * k) (ucast d :: u32)) j"
    using assms(2) by (simp add: k(2) bit_signed_iff)
  also have "\<dots> \<longleftrightarrow> 8 * k \<le> j \<and> bit d (j - 8 * k)"
    using assms(2) k(1) by (auto simp: bit_simps)
  also have "\<dots> \<longleftrightarrow> j div 8 = k \<and> bit d (j mod 8)"
  proof (cases "j div 8 = k")
    case True
    then show ?thesis by (auto simp: minus_mult_div_eq_mod)
  next
    case False
    have "\<not> bit d (j - 8 * k)" if "8 * k \<le> j"
    proof
      assume "bit d (j - 8 * k)"
      then have "j - 8 * k < 8" using bit_imp_le_length [of d] by fastforce
      then show False using False that by linarith
    qed
    then show ?thesis using False by blast
  qed
  finally show ?thesis .
qed

lemma holds_step:
  assumes "holds n bs v" and "length bs < n" and "n \<le> 4" and "byte_at d (n - length bs - 1) = Inr w"
  shows "holds n (bs @ [d]) (v OR w)"
  unfolding holds_def
proof (intro allI impI)
  fix j
  assume j: "j < 8 * n"
  let ?k = "n - 1 - j div 8"
  have "j < 32" using j assms(3) by simp
  then have w: "bit w j \<longleftrightarrow> j div 8 = n - length bs - 1 \<and> bit d (j mod 8)" by (rule bit_byte_at [OF assms(4)])
  have v: "bit v j \<longleftrightarrow> ?k < length bs \<and> bit (bs ! ?k) (j mod 8)" using assms(1) j by (simp add: holds_def)
  have m: "j div 8 < n" using j by (simp add: less_mult_imp_div_less mult.commute)
  then have "j div 8 = n - length bs - 1 \<longleftrightarrow> ?k = length bs" using assms(2) by linarith
  then show "bit (v OR w) j \<longleftrightarrow> ?k < length (bs @ [d]) \<and> bit ((bs @ [d]) ! ?k) (j mod 8)"
    using v w by (auto simp: bit_or_iff nth_append less_Suc_eq)
qed

lemma pop_item_ok:
  assumes "spsc_laws ops cap bytes" and "n \<le> 4" and "holds n bs (ts_value it)" and "ts_partial it = length bs"
    and "length bs \<le> n" and "k = min (n - length bs) (length (bytes q))"
  shows "\<exists>q' it'. pop_item ops n (length bs) q it = Inr (q', it') \<and> bytes q' = drop k (bytes q) \<and> cap q' = cap q \<and>
    ts_partial it' = length bs + k \<and> ts_valid it' = ts_valid it \<and> holds n (bs @ take k (bytes q)) (ts_value it')"
  using assms(3-)
proof (induction "n - length bs" arbitrary: bs q it k)
  case 0
  then show ?case by (subst pop_item.simps) simp
next
  case (Suc m)
  show ?case
  proof (cases "bytes q")
    case Nil
    then have "k = 0" "pop_item ops n (length bs) q it = Inr (q, it)"
      using Suc.prems(4) spsc_pop_Nil [OF assms(1) Nil] by (simp_all add: pop_item.simps [of _ _ _ q])
    then show ?thesis using Suc.prems(1,2) by simp
  next
    case (Cons d ds)
    obtain q1 where q1: "q_pop ops q = Some (q1, d)" "bytes q1 = ds" "cap q1 = cap q"
      by (rule spsc_pop_Cons [OF assms(1) Cons])
    have l: "length bs < n" using Suc.hyps(2) by simp
    then have "\<not> 4 \<le> n - length bs - 1" using assms(2) by simp
    then obtain w where w: "byte_at d (n - length bs - 1) = Inr w" by (simp add: byte_at_def)
    let ?it = "it\<lparr>ts_value := ts_value it OR w, ts_partial := ts_partial it + 1\<rparr>"
    have h: "holds n (bs @ [d]) (ts_value ?it)" using holds_step [OF Suc.prems(1) l assms(2) w] by simp
    have i: "m = n - length (bs @ [d])" "ts_partial ?it = length (bs @ [d])" "length (bs @ [d]) \<le> n"
      "k - 1 = min (n - length (bs @ [d])) (length (bytes q1))"
      using Suc.hyps(2) Suc.prems(2,4) l Cons q1(2) by auto
    obtain q' it' where r: "pop_item ops n (length (bs @ [d])) q1 ?it = Inr (q', it')"
      "bytes q' = drop (k - 1) ds" "cap q' = cap q"
      "ts_partial it' = length (bs @ [d]) + (k - 1)" "ts_valid it' = ts_valid it"
      "holds n ((bs @ [d]) @ take (k - 1) ds) (ts_value it')"
      using Suc.hyps(1) [OF i(1) h i(2-4)] q1(2,3) by fastforce
    have k: "k = Suc (k - 1)" using Suc.prems(4) l Cons by simp
    have "pop_item ops n (length bs) q it = Inr (q', it')"
      using l q1(1) w r(1) by (subst pop_item.simps) simp
    moreover have "drop k (bytes q) = drop (k - 1) ds" "take k (bytes q) = d # take (k - 1) ds"
      using k Cons by (metis drop_Suc_Cons, metis take_Suc_Cons)
    ultimately show ?thesis using r k by simp
  qed
qed

lemma holds_Nil: "holds n [] 0"
  by (simp add: holds_def)

definition collecting :: "nat \<Rightarrow> u8 list \<Rightarrow> temp_storage \<Rightarrow> bool" where
  "collecting n bs it \<longleftrightarrow> \<not> ts_valid it \<and> ts_partial it = length bs \<and> length bs < n \<and> holds n bs (ts_value it)"

lemma collecting_no_item: "0 < n \<Longrightarrow> collecting n [] no_item"
  by (simp add: collecting_def no_item_def holds_Nil)

lemma cycle_incoming_ok:
  assumes "spsc_laws ops cap bytes" and "mNumBytes g = n" and "n \<le> 4" and "collecting n bs (mReadItem g)"
    and "all = bs @ bytes (mDataIn g)"
  shows "if n \<le> length all
    then \<exists>g' v. cycle_incoming ops g = Inr (g', INCOMING_AVAILABLE) \<and> readData g' = Inr v \<and>
      holds n (take n all) v \<and> bytes (mDataIn g') = drop n all \<and> mNumBytes g' = n
    else \<exists>g'. cycle_incoming ops g = Inr (g', 0) \<and> collecting n all (mReadItem g') \<and>
      bytes (mDataIn g') = [] \<and> mNumBytes g' = n"
proof -
  have c: "\<not> ts_valid (mReadItem g)" "ts_partial (mReadItem g) = length bs" "length bs < n"
    "holds n bs (ts_value (mReadItem g))"
    using assms(4) by (simp_all add: collecting_def)
  define k where "k = min (n - length bs) (length (bytes (mDataIn g)))"
  obtain q it where p: "pop_item ops n (length bs) (mDataIn g) (mReadItem g) = Inr (q, it)"
    "bytes q = drop k (bytes (mDataIn g))" "ts_partial it = length bs + k" "\<not> ts_valid it"
    "holds n (bs @ take k (bytes (mDataIn g))) (ts_value it)"
    using pop_item_ok [OF assms(1,3) c(4,2) _ k_def] c(1,3) by auto
  have step: "cycle_incoming ops g = (if length bs + k = n
      then Inr (g\<lparr>mDataIn := q, mReadItem := it\<lparr>ts_valid := True\<rparr>\<rparr>, INCOMING_AVAILABLE)
      else Inr (g\<lparr>mDataIn := q, mReadItem := it\<rparr>, 0))"
    using c(1,2) p(1,3) assms(2) by (simp add: cycle_incoming_def)
  show ?thesis
  proof (cases "n \<le> length all")
    case True
    then have k: "k = n - length bs" using assms(5) c(3) by (simp add: k_def)
    then have t: "bs @ take k (bytes (mDataIn g)) = take n all" "drop k (bytes (mDataIn g)) = drop n all"
      using c(3) assms(5) by simp_all
    have "length bs + k = n" using k c(3) by simp
    then show ?thesis using True step p(2,5) assms(2) unfolding t by (simp add: readData_def)
  next
    case False
    then have k: "k = length (bytes (mDataIn g))" "length bs + k < n" using assms(5) by (auto simp: k_def)
    then have "collecting n all it" using p(3-5) assms(5) by (simp add: collecting_def)
    then show ?thesis using False step k p(2) assms(2) by simp
  qed
qed

text \<open>What the logic receives in \<open>k\<close> cycles when it takes every item at once.\<close>

fun receive_items :: "'q spsc_ops \<Rightarrow> nat \<Rightarrow> 'q glip_tcp \<Rightarrow> ('q glip_tcp \<times> u64 list) exec" where
  "receive_items ops 0 g = Inr (g, [])"
| "receive_items ops (Suc k) g =
     cbind (cycle_incoming ops g) (\<lambda>(g1, s).
       if s = INCOMING_AVAILABLE
       then cbind (readData g1) (\<lambda>v.
            cbind (receive_items ops k (readAck g1)) (\<lambda>(g2, vs). Inr (g2, v # vs)))
       else receive_items ops k g1)"

lemma receive_items_ok:
  assumes "spsc_laws ops cap bytes" and "mNumBytes g = n" and "n \<le> 4" and "collecting n bs (mReadItem g)"
    and "all = bs @ bytes (mDataIn g)"
  shows "\<exists>g' vs rest. receive_items ops k g = Inr (g', vs) \<and> length vs = min k (length all div n) \<and>
    (\<forall>i < length vs. holds n (take n (drop (i * n) all)) (vs ! i)) \<and>
    collecting n rest (mReadItem g') \<and> rest @ bytes (mDataIn g') = drop (length vs * n) all"
  using assms(2,4,5)
proof (induction k arbitrary: g bs all)
  case 0
  then show ?case by auto
next
  case (Suc k)
  have n: "0 < n" using Suc.prems(2) by (simp add: collecting_def)
  show ?case
  proof (cases "n \<le> length all")
    case True
    then obtain g1 v where g1: "cycle_incoming ops g = Inr (g1, INCOMING_AVAILABLE)" "readData g1 = Inr v"
      "holds n (take n all) v" "bytes (mDataIn g1) = drop n all" "mNumBytes g1 = n"
      using cycle_incoming_ok [OF assms(1) Suc.prems(1) assms(3) Suc.prems(2,3)] by auto
    have "mNumBytes (readAck g1) = n" "collecting n [] (mReadItem (readAck g1))"
      "drop n all = [] @ bytes (mDataIn (readAck g1))"
      using g1(4,5) n collecting_no_item by (simp_all add: readAck_def)
    then obtain g' vs rest where r: "receive_items ops k (readAck g1) = Inr (g', vs)"
      "length vs = min k (length (drop n all) div n)"
      "\<forall>i < length vs. holds n (take n (drop (i * n) (drop n all))) (vs ! i)"
      "collecting n rest (mReadItem g')" "rest @ bytes (mDataIn g') = drop (length vs * n) (drop n all)"
      using Suc.IH by metis
    have d: "length all div n = Suc (length (drop n all) div n)" using True n by (simp add: div_if)
    have "holds n (take n (drop (i * n) all)) ((v # vs) ! i)" if "i < length (v # vs)" for i
      using that g1(3) r(3) by (cases i) (auto simp: add.commute)
    moreover have "receive_items ops (Suc k) g = Inr (g', v # vs)" using g1(1,2) r(1) by simp
    ultimately show ?thesis using r(2,4,5) d by (intro exI [of _ g'] exI [of _ "v # vs"] exI [of _ rest]) (simp add: add.commute)
  next
    case False
    then obtain g1 where g1: "cycle_incoming ops g = Inr (g1, 0)" "collecting n all (mReadItem g1)"
      "bytes (mDataIn g1) = []" "mNumBytes g1 = n"
      using cycle_incoming_ok [OF assms(1) Suc.prems(1) assms(3) Suc.prems(2,3)] by auto
    have "receive_items ops (Suc k) g = receive_items ops k g1" using g1(1) by (simp add: INCOMING_AVAILABLE_def)
    moreover have "length all div n = 0" using False by simp
    ultimately show ?thesis using Suc.IH [OF g1(4,2), of all] g1(3) by simp
  qed
qed

text \<open>However the bytes arrive, the logic receives them as the consecutive groups of \<open>n\<close> bytes of the
  stream, one item for each, the first byte at the most significant place, and the bytes of an
  incomplete item are kept for the coming cycles.  This holds for items of up to four bytes; with
  the wider ones that can be asked for, the first byte of an item ends in an undefined shift.\<close>

theorem dpi_incoming_items:
  assumes "spsc_laws ops cap bytes" and "mNumBytes g = n" and "collecting n bs (mReadItem g)"
    and "all = bs @ bytes (mDataIn g)"
  shows "(n \<le> 4 \<longrightarrow> (\<exists>g' vs rest. receive_items ops k g = Inr (g', vs) \<and> length vs = min k (length all div n) \<and>
      (\<forall>i < length vs. holds n (take n (drop (i * n) all)) (vs ! i)) \<and>
      collecting n rest (mReadItem g') \<and> rest @ bytes (mDataIn g') = drop (length vs * n) all)) \<and>
    (4 < n \<and> bs = [] \<and> all \<noteq> [] \<longrightarrow> cycle_incoming ops g = Inl Int_Overflow)"
proof -
  have "cycle_incoming ops g = Inl Int_Overflow" if A: "4 < n" "bs = []" "all \<noteq> []"
  proof -
    obtain d ds where d: "bytes (mDataIn g) = d # ds" using A(2,3) assms(4) by (cases "bytes (mDataIn g)") auto
    obtain q' where "q_pop ops (mDataIn g) = Some (q', d)" by (rule spsc_pop_Cons [OF assms(1) d])
    moreover have "4 \<le> n - Suc 0" using A(1) by simp
    ultimately show ?thesis using A(1,2) assms(2,3)
      by (simp add: cycle_incoming_def collecting_def pop_item.simps [of _ _ 0] byte_at_def)
  qed
  then show ?thesis using receive_items_ok [OF assms(1,2) _ assms(3,4)] by blast
qed

definition dpi0 :: "nat \<Rightarrow> u8 list \<Rightarrow> u8 list \<Rightarrow> (nat \<times> u8 list) glip_tcp" where
  "dpi0 n ctrl bs = \<lparr>mPort = 23000, mNumBytes = n, mThreadReady = True, mConnected = True,
     mDataOut = (16, []), mDataIn = (16, bs), mControl = (4, ctrl), mReadItem = no_item,
     mWriteItem = no_item, mControlItem = no_item\<rparr>"

lemma dpi0_simps [simp]:
  "mNumBytes (dpi0 n ctrl bs) = n" "mReadItem (dpi0 n ctrl bs) = no_item" "mDataIn (dpi0 n ctrl bs) = (16, bs)"
  "mControl (dpi0 n ctrl bs) = (4, ctrl)" "mControlItem (dpi0 n ctrl bs) = no_item" "mWriteItem (dpi0 n ctrl bs) = no_item"
  "mDataOut (dpi0 n ctrl bs) = (16, [])"
  by (simp_all add: dpi0_def)

theorem dpi_incoming_items_witness:
  "(\<exists>g' vs rest. receive_items list_queue 3 (dpi0 2 [] [1, 2, 3, 4, 5]) = Inr (g', vs) \<and> length vs = 2 \<and>
      holds 2 [3, 4] (vs ! 1) \<and> rest @ snd (mDataIn g') = [5]) \<and>
    cycle_incoming list_queue (dpi0 8 [] [1]) = Inl Int_Overflow"
proof -
  have "collecting 2 [] (mReadItem (dpi0 2 [] [1, 2, 3, 4, 5]))" "collecting 8 [] (mReadItem (dpi0 8 [] [1]))"
    by (simp_all add: collecting_no_item)
  with dpi_incoming_items [of list_queue fst snd "dpi0 2 [] [1, 2, 3, 4, 5]" 2 "[]" "[1, 2, 3, 4, 5]" 3]
    dpi_incoming_items [of list_queue fst snd "dpi0 8 [] [1]" 8 "[]" "[1]"]
  show ?thesis by (fastforce simp del: receive_items.simps)
qed

definition out_byte :: "nat \<Rightarrow> u64 \<Rightarrow> nat \<Rightarrow> u8" where
  "out_byte n v i = ucast (drop_bit ((n - i - 1) * 8) v)"

lemma push_item_ok:
  assumes "spsc_laws ops cap bytes" and "i + k \<le> n" and "length (bytes q) + k \<le> cap q"
    and "i + k < n \<Longrightarrow> length (bytes q) + k = cap q"
  shows "\<exists>q'. push_item ops n i q it = (q', it\<lparr>ts_partial := ts_partial it + k\<rparr>) \<and>
    bytes q' = bytes q @ map (out_byte n (ts_value it)) [i ..< i + k] \<and> cap q' = cap q"
  using assms(2-)
proof (induction k arbitrary: i q it)
  case 0
  have "push_item ops n i q it = (q, it)"
  proof (cases "i < n")
    case True
    then have "length (bytes q) = cap q" using 0(3) by simp
    then have "q_push ops q d = None" for d
      using spsc_push(1) [OF assms(1)] by (cases "q_push ops q d") fastforce+
    then show ?thesis by (subst push_item.simps) simp
  qed (subst push_item.simps, simp)
  then show ?case by simp
next
  case (Suc k)
  obtain q1 where q1: "q_push ops q (out_byte n (ts_value it) i) = Some q1"
    using spsc_room [OF assms(1), of q] Suc.prems(2) by auto
  then have b1: "bytes q1 = bytes q @ [out_byte n (ts_value it) i]" "cap q1 = cap q"
    using spsc_push(1) [OF assms(1) q1] by simp_all
  let ?it = "it\<lparr>ts_partial := ts_partial it + 1\<rparr>"
  obtain q' where r: "push_item ops n (Suc i) q1 ?it = (q', ?it\<lparr>ts_partial := ts_partial ?it + k\<rparr>)"
    "bytes q' = bytes q1 @ map (out_byte n (ts_value ?it)) [Suc i ..< Suc i + k]" "cap q' = cap q1"
    using Suc.IH [of "Suc i" q1 ?it] Suc.prems b1 by auto
  have "push_item ops n i q it = push_item ops n (Suc i) q1 ?it"
    using Suc.prems(1) q1 by (subst push_item.simps) (simp add: out_byte_def)
  moreover have "[i ..< i + Suc k] = i # [Suc i ..< Suc i + k]" by (simp add: upt_rec)
  ultimately show ?case using r b1 by simp
qed

lemma holds_out_bytes:
  assumes "holds n (map (out_byte n v) [0 ..< n]) w" and "8 * n \<le> 64"
  shows "take_bit (8 * n) w = take_bit (8 * n) v"
proof (rule bit_word_eqI)
  fix j
  assume "j < LENGTH(64)"
  show "bit (take_bit (8 * n) w) j = bit (take_bit (8 * n) v) j"
  proof (cases "j < 8 * n")
    case True
    let ?k = "n - 1 - j div 8"
    have m: "j div 8 < n" using True by (simp add: less_mult_imp_div_less mult.commute)
    then have k: "?k < n" "(n - ?k - 1) * 8 = j div 8 * 8" by simp_all
    have "bit w j \<longleftrightarrow> bit (out_byte n v ?k) (j mod 8)" using assms(1) True k by (simp add: holds_def)
    also have "\<dots> \<longleftrightarrow> bit v (j div 8 * 8 + j mod 8)"
      unfolding out_byte_def k(2) by (simp add: bit_simps)
    finally show ?thesis using True by (simp add: bit_take_bit_iff)
  qed (simp add: bit_take_bit_iff)
qed

text \<open>An item the logic writes leaves as its bytes, most significant first, as soon as there is room,
  and an endpoint that receives these bytes makes the same item of them.\<close>

theorem dpi_items_roundtrip:
  assumes "spsc_laws ops cap bytes" and "0 < n" and "n \<le> 4" and "mNumBytes g = n" and "\<not> ts_valid (mWriteItem g)"
    and "length (bytes (mDataOut g)) + n \<le> cap (mDataOut g)"
    and "mNumBytes h = n" and "collecting n [] (mReadItem h)"
    and "bytes (mDataIn h) = map (out_byte n v) [0 ..< n]"
  shows "(\<exists>g1 g2. writeData g v = Inr g1 \<and> cycle_outgoing ops g1 = (g2, OUTGOING_READY) \<and>
      \<not> ts_valid (mWriteItem g2) \<and> bytes (mDataOut g2) = bytes (mDataOut g) @ map (out_byte n v) [0 ..< n]) \<and>
    (\<exists>h' w. cycle_incoming ops h = Inr (h', INCOMING_AVAILABLE) \<and> readData h' = Inr w \<and>
      take_bit (8 * n) w = take_bit (8 * n) v)"
proof -
  let ?it = "\<lparr>ts_valid = True, ts_partial = 0, ts_value = v\<rparr>"
  obtain q where "push_item ops n 0 (mDataOut g) ?it = (q, ?it\<lparr>ts_partial := n\<rparr>)"
    "bytes q = bytes (mDataOut g) @ map (out_byte n v) [0 ..< n]"
    using push_item_ok [OF assms(1), of 0 n n "mDataOut g" ?it] assms(6) by auto
  then have "\<exists>g1 g2. writeData g v = Inr g1 \<and> cycle_outgoing ops g1 = (g2, OUTGOING_READY) \<and>
      \<not> ts_valid (mWriteItem g2) \<and> bytes (mDataOut g2) = bytes (mDataOut g) @ map (out_byte n v) [0 ..< n]"
    using assms(4,5) by (simp add: writeData_def cycle_outgoing_def)
  moreover have "\<exists>h' w. cycle_incoming ops h = Inr (h', INCOMING_AVAILABLE) \<and> readData h' = Inr w \<and>
      take_bit (8 * n) w = take_bit (8 * n) v"
    using cycle_incoming_ok [OF assms(1,7,3,8), of "map (out_byte n v) [0 ..< n]"] assms(3,9)
      holds_out_bytes [of n v] by auto
  ultimately show ?thesis by blast
qed

theorem dpi_items_roundtrip_witness:
  "(\<exists>g1 g2. writeData (dpi0 2 [] []) 0x1234 = Inr g1 \<and> cycle_outgoing list_queue g1 = (g2, OUTGOING_READY) \<and>
      snd (mDataOut g2) = [0x12, 0x34]) \<and>
    (\<exists>h' w. cycle_incoming list_queue (dpi0 2 [] [0x12, 0x34]) = Inr (h', INCOMING_AVAILABLE) \<and>
      readData h' = Inr w \<and> take_bit 16 w = 0x1234)"
proof -
  have b: "map (out_byte 2 0x1234) [0 ..< 2] = [0x12, 0x34]" by (simp add: out_byte_def upt_rec)
  have h: "\<not> ts_valid (mWriteItem (dpi0 2 [] []))" "length (snd (mDataOut (dpi0 2 [] []))) + 2 \<le> fst (mDataOut (dpi0 2 [] []))"
    "collecting 2 [] (mReadItem (dpi0 2 [] [0x12, 0x34]))" "mNumBytes (dpi0 2 [] bs) = 2"
    "snd (mDataIn (dpi0 2 [] [0x12, 0x34])) = map (out_byte 2 0x1234) [0 ..< 2]" for bs
    by (simp_all add: b collecting_no_item) (simp add: no_item_def)
  have t: "take_bit (8 * 2) (0x1234 :: u64) = 0x1234" by (simp add: take_bit_eq_mod)
  show ?thesis
    using dpi_items_roundtrip [OF list_queue_laws _ _ h(4) h(1,2) h(4) h(3) h(5)] unfolding b t
    by (simp only: dpi0_simps snd_conv append_Nil) fastforce
qed

section \<open>Control messages\<close>

definition message :: "u8 \<times> u8 \<Rightarrow> u64" where
  "message m = push_bit 8 (ucast (fst m)) OR ucast (snd m)"

lemma scast_push_byte: "(scast (push_bit 8 (ucast d :: u32)) :: u64) = push_bit 8 (ucast (d :: u8))"
proof (rule bit_word_eqI)
  fix j
  assume "j < LENGTH(64)"
  have "\<not> bit d k" if "8 \<le> k" for k using bit_imp_le_length [of d k] that by auto
  then show "bit (scast (push_bit 8 (ucast d :: u32)) :: u64) j = bit (push_bit 8 (ucast d :: u64)) j"
    by (auto simp: bit_simps min_def)
qed

lemma scast_byte: "(scast (ucast d :: u32) :: u64) = ucast (d :: u8)"
proof (rule bit_word_eqI)
  fix j
  assume "j < LENGTH(64)"
  have "\<not> bit d k" if "8 \<le> k" for k using bit_imp_le_length [of d k] that by auto
  then show "bit (scast (ucast d :: u32) :: u64) j = bit (ucast d :: u64) j"
    by (auto simp: bit_simps min_def)
qed

lemma byte_at_message: "byte_at a 1 = Inr (push_bit 8 (ucast a))" "byte_at b 0 = Inr (ucast b)"
  using scast_push_byte [of a] scast_byte [of b] by (simp_all add: byte_at_def)

text \<open>What the logic is told in \<open>k\<close> cycles, each message taken in the cycle it arrives.\<close>

fun take_messages :: "'q spsc_ops \<Rightarrow> nat \<Rightarrow> 'q glip_tcp \<Rightarrow> ('q glip_tcp \<times> u32 list) exec" where
  "take_messages ops 0 g = Inr (g, [])"
| "take_messages ops (Suc k) g =
     cbind (cycle_control ops g) (\<lambda>(g1, s).
       if s = CONTROL_AVAILABLE
       then (let (g2, m) = control_msg g1
             in cbind (take_messages ops k g2) (\<lambda>(g3, ms). Inr (g3, m # ms)))
       else take_messages ops k g1)"

lemma cycle_control_message:
  assumes "spsc_laws ops cap bytes" and "\<not> ts_valid (mControlItem g)" and "ts_partial (mControlItem g) = 0"
    and "bytes (mControl g) = a # b # rest"
  obtains g' where "cycle_control ops g = Inr (g', CONTROL_AVAILABLE)" and "bytes (mControl g') = rest"
    and "ts_value (mControlItem g') = ts_value (mControlItem g) OR message (a, b)"
proof -
  obtain q1 where q1: "q_pop ops (mControl g) = Some (q1, a)" "bytes q1 = b # rest"
    by (rule spsc_pop_Cons [OF assms(1,4)])
  obtain q2 where q2: "q_pop ops q1 = Some (q2, b)" "bytes q2 = rest"
    by (rule spsc_pop_Cons [OF assms(1) q1(2)])
  let ?it = "\<lambda>n v. (mControlItem g)\<lparr>ts_value := v, ts_partial := n\<rparr>"
  let ?v1 = "ts_value (mControlItem g) OR push_bit 8 (ucast a)"
  have "pop_item ops 2 0 (mControl g) (mControlItem g) = pop_item ops 2 1 q1 (?it 1 ?v1)"
    using q1(1) assms(3) byte_at_message(1) [of a] by (subst pop_item.simps) simp
  also have "\<dots> = pop_item ops 2 2 q2 (?it 2 (?v1 OR ucast b))"
    using q2(1) byte_at_message(2) [of b] by (subst pop_item.simps) (simp add: numeral_2_eq_2)
  also have "\<dots> = Inr (q2, ?it 2 (?v1 OR ucast b))" by (subst pop_item.simps) simp
  finally show thesis using assms(2,3) q2(2)
    by (intro that) (auto simp: cycle_control_def message_def or.assoc)
qed

lemma take_messages_ok:
  assumes "spsc_laws ops cap bytes"
    and "\<not> ts_valid (mControlItem g)" and "ts_partial (mControlItem g) = 0"
    and "bytes (mControl g) = concat (map (\<lambda>(a, b). [a, b]) ms) @ rest"
  shows "\<exists>g'. take_messages ops (length ms) g =
      Inr (g', map (\<lambda>i. ucast (foldl (OR) (ts_value (mControlItem g)) (map message (take (Suc i) ms)))) [0 ..< length ms]) \<and>
    bytes (mControl g') = rest \<and> \<not> ts_valid (mControlItem g') \<and> ts_partial (mControlItem g') = 0"
  using assms(2-)
proof (induction ms arbitrary: g)
  case Nil
  then show ?case by simp
next
  case (Cons m ms)
  obtain a b where m: "m = (a, b)" by fastforce
  then have "bytes (mControl g) = a # b # (concat (map (\<lambda>(a, b). [a, b]) ms) @ rest)" using Cons.prems(3) by simp
  then obtain g1 where g1: "cycle_control ops g = Inr (g1, CONTROL_AVAILABLE)"
    "bytes (mControl g1) = concat (map (\<lambda>(a, b). [a, b]) ms) @ rest"
    "ts_value (mControlItem g1) = ts_value (mControlItem g) OR message m"
    unfolding m by (rule cycle_control_message [OF assms(1) Cons.prems(1,2)])
  let ?g2 = "fst (control_msg g1)"
  have c: "\<not> ts_valid (mControlItem ?g2)" "ts_partial (mControlItem ?g2) = 0" "mControl ?g2 = mControl g1"
    "ts_value (mControlItem ?g2) = ts_value (mControlItem g) OR message m"
    by (simp_all add: control_msg_def g1(3))
  obtain g' where g': "take_messages ops (length ms) ?g2 = Inr (g', map (\<lambda>i. ucast (foldl (OR)
      (ts_value (mControlItem ?g2)) (map message (take (Suc i) ms)))) [0 ..< length ms])"
    "bytes (mControl g') = rest" "\<not> ts_valid (mControlItem g')" "ts_partial (mControlItem g') = 0"
    using Cons.IH [OF c(1,2)] g1(2) c(3) by auto
  let ?r = "\<lambda>v ms. map (\<lambda>i. ucast (foldl (OR) v (map message (take (Suc i) ms))) :: u32) [0 ..< length ms]"
  let ?v = "ts_value (mControlItem g)"
  have "[0 ..< length (m # ms)] = 0 # map Suc [0 ..< length ms]" by (simp only: list.size upt_conv_Cons map_Suc_upt) simp
  then have "?r ?v (m # ms) = ucast (?v OR message m) # ?r (?v OR message m) ms"
    by (simp only: list.map map_map comp_def take_Suc_Cons take_0 foldl_Cons foldl_Nil)
  moreover have cm: "control_msg g1 = (?g2, ucast (?v OR message m))" by (simp add: control_msg_def g1(3))
  have "take_messages ops (length (m # ms)) g =
      cbind (take_messages ops (length ms) ?g2) (\<lambda>(g3, ms). Inr (g3, ucast (?v OR message m) # ms))"
    by (simp add: g1(1)) (subst cm, simp)
  then have "take_messages ops (length (m # ms)) g = Inr (g', ucast (?v OR message m) # ?r (?v OR message m) ms)"
    unfolding g'(1) c(4) by simp
  ultimately show ?case using g'(2-4) by auto
qed

text \<open>C32: The value of a control message is never cleared: each message the logic takes is the union of
  all that have come since the last reset.  The host's request to reset the logic, the two bytes
  that \<open>gb_tcp_logic_reset\<close> writes, arrives with them in the wrong order, as \<open>0x100\<close>; the bit that
  the logic looks at stays clear however often it is sent.\<close>

theorem dpi_control_messages:
  assumes "spsc_laws ops cap bytes"
    and "\<not> ts_valid (mControlItem g)" and "ts_partial (mControlItem g) = 0"
    and "bytes (mControl g) = concat (map (\<lambda>(a, b). [a, b]) ms) @ rest"
  shows "(\<exists>g'. take_messages ops (length ms) g =
      Inr (g', map (\<lambda>i. ucast (foldl (OR) (ts_value (mControlItem g)) (map message (take (Suc i) ms)))) [0 ..< length ms])) \<and>
    (\<forall>t t'. tx_script (tctrl t) = [] \<longrightarrow> gb_tcp_logic_reset t = Inr (t', 0) \<longrightarrow>
       tx (tctrl t') = tx (tctrl t) @ [1, 0]) \<and>
    (ts_value (mControlItem g) = 0 \<and> ms = replicate k (1, 0) \<longrightarrow>
       (\<exists>g'. take_messages ops k g = Inr (g', replicate k 0x100)) \<and> \<not> bit (0x100 :: u32) 0)"
proof -
  obtain g' where g': "take_messages ops (length ms) g = Inr (g', map (\<lambda>i. ucast (foldl (OR)
      (ts_value (mControlItem g)) (map message (take (Suc i) ms)))) [0 ..< length ms])"
    using take_messages_ok [OF assms] by blast
  have "foldl (OR) v (replicate j (0x100 :: u64)) = (if j = 0 then v else v OR 0x100)" for v j
    by (induction j arbitrary: v) (auto simp: or.assoc)
  then have "map (\<lambda>i. ucast (foldl (OR) (0 :: u64) (map message (take (Suc i) (replicate k (1, 0)))))) [0 ..< k]
      = replicate k (0x100 :: u32)"
    by (simp add: message_def take_Cons min_def map_replicate_const list_eq_iff_nth_eq)
  then show ?thesis using g' by (auto simp: gb_tcp_logic_reset_def tty_write_def)
qed

theorem dpi_control_messages_witness:
  "(\<exists>g'. take_messages list_queue 2 (dpi0 2 [0, 1, 2, 0] []) = Inr (g', [0x1, 0x201])) \<and>
    (\<exists>g'. take_messages list_queue 2 (dpi0 2 [1, 0, 1, 0] []) = Inr (g', [0x100, 0x100]))"
proof
  have two: "2 = Suc (Suc 0)" by simp
  have twice: "replicate 2 x = [x, x]" for x :: "'a" by (simp add: numeral_2_eq_2)
  have p: "\<not> ts_valid (mControlItem (dpi0 2 c []))" "ts_partial (mControlItem (dpi0 2 c [])) = 0" for c
    by (simp_all add: no_item_def)
  have "snd (mControl (dpi0 2 [0, 1, 2, 0] [])) = concat (map (\<lambda>(a, b). [a, b]) [(0, 1), (2, 0)]) @ []" by simp
  from dpi_control_messages [OF list_queue_laws p this, of 0, THEN conjunct1]
  show "\<exists>g'. take_messages list_queue 2 (dpi0 2 [0, 1, 2, 0] []) = Inr (g', [0x1, 0x201])"
    by (simp add: upt_rec message_def no_item_def two [symmetric] del: take_messages.simps)
  have "snd (mControl (dpi0 2 [1, 0, 1, 0] [])) = concat (map (\<lambda>(a, b). [a, b]) [(1, 0), (1, 0)]) @ []" by simp
  from dpi_control_messages [OF list_queue_laws p this, of 2, THEN conjunct2, THEN conjunct2]
  show "\<exists>g'. take_messages list_queue 2 (dpi0 2 [1, 0, 1, 0] []) = Inr (g', [0x100, 0x100])"
    by (simp add: no_item_def two [symmetric] twice del: take_messages.simps)
qed

section \<open>The thread\<close>

lemma push_all_ok:
  assumes "spsc_laws ops cap bytes" and "length (bytes q) + length ds \<le> cap q"
  shows "\<exists>q'. push_all ops q ds = Inr q' \<and> bytes q' = bytes q @ ds \<and> cap q' = cap q"
  using assms(2)
proof (induction ds arbitrary: q)
  case (Cons d ds)
  obtain q1 where q1: "q_push ops q d = Some q1" using spsc_room [OF assms(1), of q d] Cons.prems by auto
  then have "bytes q1 = bytes q @ [d]" "cap q1 = cap q" using spsc_push(1) [OF assms(1) q1] by simp_all
  then show ?case using Cons.IH [of q1] Cons.prems q1 by auto
qed simp

lemma pop_many_ok:
  assumes "spsc_laws ops cap bytes"
  shows "\<exists>q'. pop_many ops n q = (q', take n (bytes q)) \<and> bytes q' = drop n (bytes q) \<and> cap q' = cap q"
proof (induction n arbitrary: q)
  case (Suc n)
  show ?case
  proof (cases "bytes q")
    case Nil
    then show ?thesis using spsc_pop_Nil [OF assms Nil] by simp
  next
    case (Cons d ds)
    obtain q1 where q1: "q_pop ops q = Some (q1, d)" "bytes q1 = ds" "cap q1 = cap q"
      by (rule spsc_pop_Cons [OF assms Cons])
    then show ?thesis using Suc.IH [of q1] Cons by auto
  qed
qed simp

lemma receive_into_ok:
  assumes "spsc_laws ops cap bytes" and "rx l = Rx bs # r" and "bs \<noteq> []" and "length bs \<le> 2048"
    and "length (bytes q) + length bs \<le> cap q"
  shows "\<exists>q'. receive_into ops q l = Inr (q', l\<lparr>rx := r\<rparr>, True) \<and> bytes q' = bytes q @ bs \<and> cap q' = cap q"
  using push_all_ok [OF assms(1,5)] assms(2-4) by (auto simp: receive_into_def tty_read_def)

text \<open>C33: In a turn of the endpoint's thread the control and the data bytes that have come are put, in
  their order, behind those in the queues, and up to 2048 bytes of the logic are sent.  These
  leave the queue before the socket has taken them: when the socket has no room they are lost, and
  when it takes a part of them an assertion ends the simulation.\<close>

theorem dpi_thread_turn_spec:
  assumes "spsc_laws ops cap bytes"
    and "rx cl = Rx cs # cr" and "cs \<noteq> []" and "length cs \<le> 2048"
    and "length (bytes (mControl g)) + length cs \<le> cap (mControl g)"
    and "rx dl = Rx ds # dr" and "ds \<noteq> []" and "length ds \<le> 2048"
    and "length (bytes (mDataIn g)) + length ds \<le> cap (mDataIn g)"
    and "out = take 2048 (bytes (mDataOut g))"
  shows "\<exists>g'. bytes (mControl g') = bytes (mControl g) @ cs \<and> bytes (mDataIn g') = bytes (mDataIn g) @ ds \<and>
    bytes (mDataOut g') = drop 2048 (bytes (mDataOut g)) \<and>
    thread_turn ops g cl dl = (let dl1 = dl\<lparr>rx := dr\<rparr>; cl' = cl\<lparr>rx := cr\<rparr> in
      case tx_script dl of
        [] \<Rightarrow> Inr (g', cl', dl1\<lparr>tx := tx dl @ out\<rparr>, True)
      | Tx k # s \<Rightarrow> (if k < length out then Inl Assert_Failed
                     else Inr (g', cl', dl1\<lparr>tx_script := s, tx := tx dl @ out\<rparr>, True))
      | Tx_Again # s \<Rightarrow> Inr (g', cl', dl1\<lparr>tx_script := s\<rparr>, True)
      | Tx_Fail # s \<Rightarrow> Inr (g', cl', dl1\<lparr>tx_script := s\<rparr>, False))"
proof -
  obtain c where c: "receive_into ops (mControl g) cl = Inr (c, cl\<lparr>rx := cr\<rparr>, True)"
    "bytes c = bytes (mControl g) @ cs"
    using receive_into_ok [OF assms(1-5)] by blast
  obtain i where i: "receive_into ops (mDataIn g) dl = Inr (i, dl\<lparr>rx := dr\<rparr>, True)"
    "bytes i = bytes (mDataIn g) @ ds"
    using receive_into_ok [OF assms(1,6-9)] by blast
  obtain q where q: "pop_many ops 2048 (mDataOut g) = (q, out)" "bytes q = drop 2048 (bytes (mDataOut g))"
    using pop_many_ok [OF assms(1)] assms(10) by metis
  let ?g = "g\<lparr>mControl := c, mDataIn := i, mDataOut := q\<rparr>"
  have "thread_turn ops g cl dl = (let (dl2, r) = tty_write (dl\<lparr>rx := dr\<rparr>) out in case r of
      Io_Fail \<Rightarrow> Inr (?g, cl\<lparr>rx := cr\<rparr>, dl2, False)
    | Io_Again \<Rightarrow> Inr (?g, cl\<lparr>rx := cr\<rparr>, dl2, True)
    | Io k \<Rightarrow> cbind (c_assert (k = length out)) (\<lambda>_. Inr (?g, cl\<lparr>rx := cr\<rparr>, dl2, True)))"
    by (simp only: thread_turn_def c(1) i(1) q(1) cbind_Inr prod.case not_True_eq_False if_False Let_def)
  then show ?thesis using c(2) i(2) q(2)
    by (intro exI [of _ ?g])
      (auto simp: tty_write_def c_assert_def not_less min_absorb2 split: list.splits wr_event.splits)
qed

definition sock :: "rd_event list \<Rightarrow> wr_event list \<Rightarrow> line" where
  "sock r w = \<lparr>rx = r, tx_script = w, tx = [], clock = []\<rparr>"

theorem dpi_thread_turn_spec_witness:
  "(\<exists>g'. thread_turn list_queue (dpi0 2 [] [5]\<lparr>mDataOut := (16, [1, 2])\<rparr>) (sock [Rx [0]] []) (sock [Rx [6]] [Tx_Again]) =
      Inr (g', sock [] [], sock [] [], True) \<and> snd (mDataIn g') = [5, 6] \<and> snd (mDataOut g') = []) \<and>
    thread_turn list_queue (dpi0 2 [] [5]\<lparr>mDataOut := (16, [1, 2])\<rparr>) (sock [Rx [0]] []) (sock [Rx [6]] [Tx 1]) =
      Inl Assert_Failed"
proof -
  let ?g = "dpi0 2 [] [5]\<lparr>mDataOut := (16, [1, 2])\<rparr>"
  note turn = dpi_thread_turn_spec [where ops = list_queue and cap = fst and bytes = snd and g = ?g
      and cl = "sock [Rx [0]] []" and cs = "[0]" and cr = "[]" and ds = "[6]" and dr = "[]" and out = "[1, 2]"]
  show ?thesis
    using turn [of "sock [Rx [6]] [Tx_Again]"] turn [of "sock [Rx [6]] [Tx 1]"] by (auto simp: sock_def Let_def)
qed

end
