(* ===== verification/Options.thy ===== *)
theory Options
  imports Glip
begin

text \<open>
  The option parser of the command line tools, \<^verbatim>\<open>tools/options.c\<close>: a string of the form
  \<open>name=value,name=value\<close> becomes an array of options.  The string is cut up in place by the
  library's \<open>strtok\<close>, so the model has the array of characters and positions in it.  Memory for the
  copies is taken to be there.
\<close>

section \<open>Tokens in an array of characters\<close>

definition NUL :: char where "NUL = CHR 0x00"

text \<open>The C string at a position.\<close>

definition c_str :: "char list \<Rightarrow> nat \<Rightarrow> string" where
  "c_str buf p = takeWhile (\<lambda>c. c \<noteq> NUL) (drop p buf)"

text \<open>
  One call of \<open>strtok\<close> that goes on at \<open>p\<close>, for a single delimiter \<open>d\<close>: the array, where the
  next call goes on, and the start of the token.  The delimiter behind the token is overwritten.
\<close>

definition strtok_at :: "char \<Rightarrow> char list \<Rightarrow> nat \<Rightarrow> char list \<times> nat \<times> nat option" where
  "strtok_at d buf p =
     (let p1 = p + length (takeWhile (\<lambda>c. c = d) (c_str buf p));
          tok = takeWhile (\<lambda>c. c \<noteq> d) (c_str buf p1); e = p1 + length tok
      in if tok = [] then (buf, p1, None)
         else if buf ! e = NUL then (buf, e, Some p1)
         else (buf[e := NUL], Suc e, Some p1))"

lemma strtok_at_progress:
  assumes "strtok_at d buf p = (buf', p', Some t)"
  shows "length buf' - p' < length buf - p"
proof -
  define p1 where "p1 = p + length (takeWhile (\<lambda>c. c = d) (c_str buf p))"
  define tok where "tok = takeWhile (\<lambda>c. c \<noteq> d) (c_str buf p1)"
  have "length tok \<le> length (drop p1 buf)"
    unfolding tok_def c_str_def by (rule le_trans [OF length_takeWhile_le length_takeWhile_le])
  moreover have "tok \<noteq> []" "p \<le> p1" "length buf' = length buf" "p1 + length tok \<le> p'"
    using assms by (auto simp: strtok_at_def p1_def tok_def Let_def split: if_splits)
  ultimately show ?thesis by (cases tok) auto
qed

section \<open>The parser\<close>

record tool_option =
  to_name :: string
  to_value :: "string option"

function count_loop :: "char list \<Rightarrow> nat \<Rightarrow> nat" where
  "count_loop buf p =
     (case strtok_at CHR '','' buf p of (buf', p', None) \<Rightarrow> 0 | (buf', p', Some t) \<Rightarrow> Suc (count_loop buf' p'))"
  by pat_completeness auto
termination
  by (relation "measure (\<lambda>(buf, p). length buf - p)") (auto dest!: strtok_at_progress [OF sym])

text \<open>An option without a separator has no value: the pointer is null.\<close>

definition parse_option :: "string \<Rightarrow> tool_option" where
  "parse_option opt =
     (let name = takeWhile (\<lambda>c. c \<noteq> CHR ''='') opt
      in if CHR ''='' \<in> set opt
         then \<lparr>to_name = name,
               to_value = Some (take (length opt - length name) (drop (Suc (length name)) opt))\<rparr>
         else \<lparr>to_name = opt, to_value = None\<rparr>)"

text \<open>The loop over the tokens: \<open>t\<close> is the current one, \<open>n\<close> the entries left in the array.\<close>

function token_loop :: "nat \<Rightarrow> char list \<Rightarrow> nat \<Rightarrow> nat \<Rightarrow> (char list \<times> tool_option list) exec" where
  "token_loop n buf p t =
     (if n = 0 then Inl Mem_Fault
      else (let entry = parse_option (c_str buf t)
            in case strtok_at CHR '','' buf p of
                 (buf', p', None) \<Rightarrow> Inr (buf', [entry])
               | (buf', p', Some t') \<Rightarrow>
                   cbind (token_loop (n - 1) buf' p' t') (\<lambda>(b, os). Inr (b, entry # os))))"
  by pat_completeness auto
termination by (relation "measure (\<lambda>(n, _). n)") auto

declare count_loop.simps [simp del] token_loop.simps [simp del]

text \<open>
  The caller's string, the array stored for the caller (\<open>None\<close>: its variable is not written) and
  the number of options.
\<close>

definition parse_options :: "char list \<Rightarrow> (char list \<times> tool_option list option \<times> nat) exec" where
  "parse_options str =
     (let count = count_loop str 0
      in if count = 0 then Inr (str, None, 0)
         else (case strtok_at CHR '','' str 0 of
             (buf, p, None) \<Rightarrow> Inl Mem_Fault
           | (buf, p, Some t) \<Rightarrow>
               cbind (token_loop count buf p t) (\<lambda>(b, optvec). Inr (b, Some optvec, count))))"

section \<open>The reference\<close>

text \<open>The pieces of a string between the delimiters, and those of them that are not empty.\<close>

fun split_on :: "char \<Rightarrow> string \<Rightarrow> string list" where
  "split_on d [] = [[]]"
| "split_on d (c # s) =
     (if c = d then [] # split_on d s
      else (case split_on d s of [] \<Rightarrow> [[c]] | w # ws \<Rightarrow> (c # w) # ws))"

definition pieces :: "string \<Rightarrow> string list" where
  "pieces s = filter (\<lambda>w. w \<noteq> []) (split_on CHR '','' s)"

lemma split_on_token:
  assumes "d \<notin> set tok"
  shows "split_on d tok = [tok]" and "split_on d (tok @ d # s) = tok # split_on d s"
  using assms by (induction tok) auto

lemma pieces_delims: "set ds \<subseteq> {CHR '',''} \<Longrightarrow> pieces (ds @ s) = pieces s"
  by (induction ds) (auto simp: pieces_def)

lemma pieces_token:
  assumes "CHR '','' \<notin> set tok" and "tok \<noteq> []"
  shows "pieces (tok @ CHR '','' # s) = tok # pieces s" and "pieces tok = [tok]"
  using assms by (simp_all add: pieces_def split_on_token)

text \<open>Every string is a run of delimiters followed by nothing, a last token, or a token, a
  delimiter and a rest.\<close>

lemma token_cases:
  obtains (none) ds where "s = ds" "set ds \<subseteq> {d}"
  | (last) ds tok where "s = ds @ tok" "set ds \<subseteq> {d}" "tok \<noteq> []" "d \<notin> set tok"
  | (more) ds tok r where "s = ds @ tok @ d # r" "set ds \<subseteq> {d}" "tok \<noteq> []" "d \<notin> set tok"
proof -
  define ds where "ds = takeWhile (\<lambda>c. c = d) s"
  define q where "q = dropWhile (\<lambda>c. c = d) s"
  define tok where "tok = takeWhile (\<lambda>c. c \<noteq> d) q"
  define r where "r = dropWhile (\<lambda>c. c \<noteq> d) q"
  have s: "s = ds @ q" "q = tok @ r" by (simp_all add: ds_def q_def tok_def r_def)
  have ds: "set ds \<subseteq> {d}" "d \<notin> set tok" by (auto simp: ds_def tok_def dest: set_takeWhileD)
  have t: "q \<noteq> [] \<Longrightarrow> tok \<noteq> []"
    using hd_dropWhile [of "\<lambda>c. c = d" s] by (cases q) (auto simp: q_def [symmetric] tok_def)
  have r: "r \<noteq> [] \<Longrightarrow> hd r = d" using hd_dropWhile [of "\<lambda>c. c \<noteq> d" q] by (auto simp: r_def)
  show thesis
  proof (cases "q = []")
    case True
    then show thesis using none [of ds] s ds by simp
  next
    case False
    show thesis
    proof (cases r)
      case Nil
      then show thesis using last [of ds tok] s ds t [OF False] by simp
    next
      case (Cons c r')
      then show thesis using more [of ds tok r'] s ds t [OF False] r by simp
    qed
  qed
qed

text \<open>The array as the library sees it.\<close>

definition library_options :: "tool_option list \<Rightarrow> glip_option list" where
  "library_options os = map (\<lambda>p. \<lparr>opt_name = to_name p, opt_value = to_value p\<rparr>) os"

end
