(* ===== verification/Options_Properties.thy ===== *)
theory Options_Properties
  imports Options
begin

text \<open>The properties of the option parser: it finds the pieces of a reference definition, keeps to its
  array, and reads back what is written in the form it documents.\<close>

section \<open>The calls of \<open>strtok\<close>\<close>

lemma takeWhile_stop:
  "\<forall>x \<in> set xs. P x \<Longrightarrow> \<not> P y \<Longrightarrow> takeWhile P (xs @ y # ys) = xs"
  "\<forall>x \<in> set xs. P x \<Longrightarrow> takeWhile P xs = xs"
  by (induction xs) auto

lemma c_str_append:
  assumes "NUL \<notin> set s"
  shows "c_str (pre @ s @ NUL # post) (length pre) = s"
  using assms by (simp add: c_str_def) (rule takeWhile_stop(1), auto)

lemma strtok_at_eq:
  assumes "c_str buf p = q" and "takeWhile (\<lambda>c. c = d) q = ds" and "c_str buf (p + length ds) = r"
    and "takeWhile (\<lambda>c. c \<noteq> d) r = tok"
  shows "strtok_at d buf p =
    (if tok = [] then (buf, p + length ds, None)
     else if buf ! (p + length ds + length tok) = NUL then (buf, p + length ds + length tok, Some (p + length ds))
     else (buf[p + length ds + length tok := NUL], Suc (p + length ds + length tok), Some (p + length ds)))"
  unfolding strtok_at_def Let_def assms ..

lemma strtok_none:
  assumes "set ds \<subseteq> {d}" and "NUL \<notin> set ds"
  shows "strtok_at d (pre @ ds @ [NUL]) (length pre) = (pre @ ds @ [NUL], length (pre @ ds), None)"
proof -
  have t: "takeWhile (\<lambda>c. c = d) ds = ds" using assms(1) takeWhile_stop(2) [of ds "\<lambda>c. c = d"] by auto
  have c: "c_str (pre @ ds @ [NUL]) (length pre + length ds) = []"
    using c_str_append [of "[]" "pre @ ds" "[]"] by simp
  show ?thesis
    using strtok_at_eq [OF c_str_append [OF assms(2)] t c, of "[]"] by simp
qed

lemma takeWhile_delims:
  assumes "set ds \<subseteq> {d}" and "tok \<noteq> []" and "d \<notin> set tok"
  shows "takeWhile (\<lambda>c. c = d) (ds @ tok @ r) = ds"
proof -
  obtain c w where "tok = c # w" "c \<noteq> d" using assms(2,3) by (cases tok) auto
  then show ?thesis using assms(1) by (simp, intro takeWhile_stop(1)) auto
qed

lemma takeWhile_not_delim:
  "d \<notin> set tok \<Longrightarrow> takeWhile (\<lambda>c. c \<noteq> d) tok = tok"
  "d \<notin> set tok \<Longrightarrow> takeWhile (\<lambda>c. c \<noteq> d) (tok @ d # r) = tok"
  by (rule takeWhile_stop(2), blast) (rule takeWhile_stop(1), auto)

lemma strtok_last:
  assumes "set ds \<subseteq> {d}" and "tok \<noteq> []" and "d \<notin> set tok" and "NUL \<notin> set (ds @ tok)"
  shows "strtok_at d (pre @ ds @ tok @ [NUL]) (length pre) =
    (pre @ ds @ tok @ [NUL], length (pre @ ds @ tok), Some (length (pre @ ds)))"
proof -
  let ?b = "pre @ ds @ tok @ [NUL]"
  have c: "c_str ?b (length pre) = ds @ tok" "c_str ?b (length pre + length ds) = tok"
    using assms(4) c_str_append [of "ds @ tok" pre "[]"] c_str_append [of tok "pre @ ds" "[]"] by simp_all
  have n: "?b ! (length pre + length ds + length tok) = NUL" by (simp add: nth_append)
  have d: "takeWhile (\<lambda>c. c = d) (ds @ tok) = ds" using takeWhile_delims [OF assms(1-3), of "[]"] by simp
  show ?thesis
    unfolding strtok_at_eq [OF c(1) d c(2) takeWhile_not_delim(1) [OF assms(3)]] n using assms(2) by simp
qed

lemma strtok_more:
  assumes "set ds \<subseteq> {d}" and "tok \<noteq> []" and "d \<notin> set tok" and "NUL \<notin> set (ds @ tok @ d # r)"
  shows "strtok_at d (pre @ ds @ tok @ d # r @ [NUL]) (length pre) =
    ((pre @ ds @ tok @ [NUL]) @ r @ [NUL], length (pre @ ds @ tok @ [NUL]), Some (length (pre @ ds)))"
proof -
  let ?b = "pre @ ds @ tok @ d # r @ [NUL]"
  have c: "c_str ?b (length pre) = ds @ tok @ d # r" "c_str ?b (length pre + length ds) = tok @ d # r"
    using assms(4) c_str_append [of "ds @ tok @ d # r" pre "[]"] c_str_append [of "tok @ d # r" "pre @ ds" "[]"]
    by simp_all
  have n: "?b ! (length pre + length ds + length tok) = d" "d \<noteq> NUL"
    "?b [length pre + length ds + length tok := NUL] = pre @ ds @ tok @ NUL # r @ [NUL]"
    using assms(4) by (auto simp: nth_append list_update_append)
  show ?thesis
    unfolding strtok_at_eq [OF c(1) takeWhile_delims [OF assms(1-3)] c(2) takeWhile_not_delim(2) [OF assms(3)]] n
    using assms(2) n(2) by simp
qed

section \<open>The loops\<close>

lemma pieces_cases:
  obtains (none) ds where "s = ds" "set ds \<subseteq> {CHR '',''}" "pieces s = []"
  | (last) ds tok where "s = ds @ tok" "set ds \<subseteq> {CHR '',''}" "tok \<noteq> []" "CHR '','' \<notin> set tok"
      "pieces s = [tok]"
  | (more) ds tok r where "s = ds @ tok @ CHR '','' # r" "set ds \<subseteq> {CHR '',''}" "tok \<noteq> []"
      "CHR '','' \<notin> set tok" "pieces s = tok # pieces r"
proof (cases s "CHR '',''" rule: token_cases)
  case (none ds)
  have "pieces s = pieces (ds @ [])" using none(1) by simp
  also have "\<dots> = []" unfolding pieces_delims [OF none(2)] by (simp add: pieces_def)
  finally have "pieces s = []" .
  then show thesis by (rule that(1) [OF none])
next
  case (last ds tok)
  have "pieces s = [tok]" unfolding last(1) pieces_delims [OF last(2)] by (rule pieces_token(2) [OF last(4,3)])
  then show thesis by (rule that(2) [OF last])
next
  case (more ds tok r)
  have "pieces s = tok # pieces r" unfolding more(1) pieces_delims [OF more(2)] by (rule pieces_token(1) [OF more(4,3)])
  then show thesis by (rule that(3) [OF more])
qed

lemma count_loop_ok:
  assumes "NUL \<notin> set s"
  shows "count_loop (pre @ s @ [NUL]) (length pre) = length (pieces s)"
  using assms
proof (induction "length s" arbitrary: pre s rule: less_induct)
  case less
  have step: "count_loop (pre @ s @ [NUL]) (length pre) = (case strtok_at CHR '','' (pre @ s @ [NUL]) (length pre) of
      (buf', p', None) \<Rightarrow> 0 | (buf', p', Some t) \<Rightarrow> Suc (count_loop buf' p'))" by (rule count_loop.simps)
  have nil: "count_loop (q @ [NUL]) (length q) = 0" for q
    using strtok_none [of "[]" "CHR '',''" q] by (subst count_loop.simps) simp
  show ?case
  proof (cases s rule: pieces_cases)
    case (none ds)
    then show ?thesis using step strtok_none [of ds "CHR '',''" pre] less.prems by simp
  next
    case (last ds tok)
    have "NUL \<notin> set (ds @ tok)" using less.prems last(1) by simp
    from strtok_last [OF last(2-4) this, of pre] step last(1,5) nil [of "pre @ ds @ tok"]
    show ?thesis by simp
  next
    case (more ds tok r)
    have n: "NUL \<notin> set (ds @ tok @ CHR '','' # r)" using less.prems more(1) by simp
    have "count_loop ((pre @ ds @ tok @ [NUL]) @ r @ [NUL]) (length (pre @ ds @ tok @ [NUL])) = length (pieces r)"
      by (rule less.hyps) (use more(1) n in auto)
    with strtok_more [OF more(2-4) n, of pre] step more(1,5) show ?thesis by simp
  qed
qed

text \<open>\<open>pre\<close> holds the current token \<open>tok\<close> with what ends it.\<close>

lemma token_loop_ok:
  assumes "NUL \<notin> set s" and "c_str (pre @ s @ [NUL]) t = tok" and "length (pieces s) < n"
  shows "\<exists>b. token_loop n (pre @ s @ [NUL]) (length pre) t = Inr (pre @ b, map parse_option (tok # pieces s)) \<and>
    (s = [] \<longrightarrow> b = [NUL])"
  using assms
proof (induction "length s" arbitrary: pre s t tok n rule: less_induct)
  case less
  obtain m where m: "n = Suc m" using less.prems(3) by (cases n) auto
  have step: "token_loop n (pre @ s @ [NUL]) (length pre) t = (case strtok_at CHR '','' (pre @ s @ [NUL]) (length pre) of
      (buf', p', None) \<Rightarrow> Inr (buf', [parse_option tok])
    | (buf', p', Some t') \<Rightarrow> cbind (token_loop m buf' p' t') (\<lambda>(b, os). Inr (b, parse_option tok # os)))"
    unfolding m token_loop.simps [of "Suc m"] less.prems(2) Let_def by simp
  show ?case
  proof (cases s rule: pieces_cases)
    case (none ds)
    then show ?thesis using step strtok_none [of ds "CHR '',''" pre] less.prems(1) by simp
  next
    case (last ds w)
    have n: "NUL \<notin> set (ds @ w)" using less.prems(1) last(1) by simp
    have "\<exists>b. token_loop m ((pre @ ds @ w) @ [] @ [NUL]) (length (pre @ ds @ w)) (length (pre @ ds)) =
        Inr ((pre @ ds @ w) @ b, map parse_option (w # pieces [])) \<and> ([] = ([] :: string) \<longrightarrow> b = [NUL])"
      by (rule less.hyps)
        (use last n m less.prems(3) c_str_append [of w "pre @ ds" "[]"] in \<open>auto simp: pieces_def\<close>)
    with strtok_last [OF last(2-4) n, of pre] step last(1,3,5) show ?thesis by (auto simp: pieces_def)
  next
    case (more ds w r)
    have n: "NUL \<notin> set (ds @ w @ CHR '','' # r)" using less.prems(1) more(1) by simp
    have "\<exists>b. token_loop m ((pre @ ds @ w @ [NUL]) @ r @ [NUL]) (length (pre @ ds @ w @ [NUL])) (length (pre @ ds)) =
        Inr ((pre @ ds @ w @ [NUL]) @ b, map parse_option (w # pieces r)) \<and> (r = [] \<longrightarrow> b = [NUL])"
      by (rule less.hyps)
        (use more n m less.prems(3) c_str_append [of w "pre @ ds" "r @ [NUL]"] in auto)
    with strtok_more [OF more(2-4) n, of pre] step more(1,5) show ?thesis by auto
  qed
qed

lemma parse_option_eq:
  assumes "CHR ''='' \<notin> set n"
  shows "parse_option (n @ CHR ''='' # v) = \<lparr>to_name = n, to_value = Some v\<rparr>"
    and "parse_option n = \<lparr>to_name = n, to_value = None\<rparr>"
  using assms takeWhile_not_delim [of "CHR ''=''" n] by (simp_all add: parse_option_def Let_def)

section \<open>The parser\<close>

lemma parse_options_ok:
  assumes "NUL \<notin> set s"
  shows "\<exists>b. parse_options (s @ [NUL]) =
      Inr (b, if pieces s = [] then None else Some (map parse_option (pieces s)), length (pieces s)) \<and>
    c_str b 0 = takeWhile (\<lambda>c. c = CHR '','') s @ (case pieces s of [] \<Rightarrow> [] | w # _ \<Rightarrow> w)"
proof -
  have count: "count_loop (s @ [NUL]) 0 = length (pieces s)" using count_loop_ok [OF assms, of "[]"] by simp
  show ?thesis
  proof (cases s rule: pieces_cases)
    case (none ds)
    then have t: "takeWhile (\<lambda>c. c = CHR '','') s = s" by (intro takeWhile_stop(2)) auto
    show ?thesis unfolding t none(3) using count none(3) c_str_append [OF assms, of "[]" "[]"]
      by (simp add: parse_options_def)
  next
    case (last ds w)
    have n: "NUL \<notin> set (ds @ w)" using assms last(1) by simp
    have c: "c_str ((ds @ w) @ [] @ [NUL]) (length ds) = w" using c_str_append [of w ds "[]"] n by simp
    obtain b where "token_loop (length (pieces s)) ((ds @ w) @ [] @ [NUL]) (length (ds @ w)) (length ds) =
        Inr ((ds @ w) @ b, map parse_option (w # pieces []))" "b = [NUL]"
      using token_loop_ok [OF _ c, of "length (pieces s)"] last(5) by (auto simp: pieces_def)
    then show ?thesis
      using count last(1,5) strtok_last [OF last(2-4) n, of "[]"] c_str_append [OF n, of "[]" "[]"]
        takeWhile_delims [OF last(2-4), of "[]"]
      by (simp add: parse_options_def pieces_def)
  next
    case (more ds w r)
    have n: "NUL \<notin> set (ds @ w @ CHR '','' # r)" using assms more(1) by simp
    have c: "c_str ((ds @ w @ [NUL]) @ r @ [NUL]) (length ds) = w"
      using c_str_append [of w ds "r @ [NUL]"] n by simp
    obtain b where "token_loop (length (pieces s)) ((ds @ w @ [NUL]) @ r @ [NUL]) (length (ds @ w @ [NUL])) (length ds) =
        Inr ((ds @ w @ [NUL]) @ b, map parse_option (w # pieces r))"
      using token_loop_ok [OF _ c, of "length (pieces s)"] more(5) n by auto
    then show ?thesis
      using count more(1,5) strtok_more [OF more(2-4) n, of "[]"] c_str_append [of "ds @ w" "[]" b] n
        takeWhile_delims [OF more(2-4), of "CHR '','' # r"]
      by (simp add: parse_options_def)
  qed
qed

text \<open>C34: The parser finds the pieces between the commas that are not empty, in order, each as a name and
  the text behind its first equals sign, and as many as it reports; with no piece at all it leaves
  the caller's array pointer alone.  No entry is stored outside its array.  The caller's string is
  destroyed: it ends behind its first piece.\<close>

theorem parse_options_spec:
  assumes "NUL \<notin> set s"
  shows "\<exists>b. parse_options (s @ [NUL]) =
      Inr (b, if pieces s = [] then None else Some (map parse_option (pieces s)), length (pieces s)) \<and>
    c_str b 0 = takeWhile (\<lambda>c. c = CHR '','') s @ (case pieces s of [] \<Rightarrow> [] | w # _ \<Rightarrow> w)"
  by (rule parse_options_ok [OF assms])

theorem parse_options_spec_witness:
  "\<exists>b. parse_options (''baud=9600,,reset,port=a=b'' @ [NUL]) =
      Inr (b, Some [\<lparr>to_name = ''baud'', to_value = Some ''9600''\<rparr>, \<lparr>to_name = ''reset'', to_value = None\<rparr>,
        \<lparr>to_name = ''port'', to_value = Some ''a=b''\<rparr>], 3) \<and>
    c_str b 0 = ''baud=9600''"
proof -
  have "NUL \<notin> set ''baud=9600,,reset,port=a=b''" by (simp add: NUL_def)
  from parse_options_spec [OF this]
  show ?thesis by (simp add: pieces_def parse_option_def numeral_3_eq_3)
qed

section \<open>Writing and reading back\<close>

fun write_options :: "(string \<times> string) list \<Rightarrow> string" where
  "write_options [] = []"
| "write_options [(n, v)] = n @ CHR ''='' # v"
| "write_options ((n, v) # os) = n @ CHR ''='' # v @ CHR '','' # write_options os"

lemma pieces_write_options:
  assumes "\<forall>(n, v) \<in> set os. CHR '','' \<notin> set n \<and> CHR '','' \<notin> set v"
  shows "pieces (write_options os) = map (\<lambda>(n, v). n @ CHR ''='' # v) os"
  using assms
proof (induction os rule: write_options.induct)
  case (2 n v)
  then show ?case using pieces_token(2) [of "n @ CHR ''='' # v"] by simp
next
  case (3 n v o' os)
  then show ?case using pieces_token(1) [of "n @ CHR ''='' # v"] by simp
qed (simp add: pieces_def)

lemma find_option_map_of:
  "map_of os n = Some v \<Longrightarrow>
    find_option (library_options (map (\<lambda>(n, v). \<lparr>to_name = n, to_value = Some v\<rparr>) os)) (length os) n = Inr (Some (Some v))"
  by (induction os) (auto simp: library_options_def split: if_splits)

text \<open>C35: Options written as \<open>name=value\<close> and separated by commas are read back as they are, and a backend
  that asks the library for one of them by its name gets its value.\<close>

theorem options_roundtrip:
  assumes "\<forall>(n, v) \<in> set os. NUL \<notin> set n \<and> NUL \<notin> set v \<and> CHR '','' \<notin> set n \<and> CHR '','' \<notin> set v \<and> CHR ''='' \<notin> set n"
    and "os \<noteq> []" and "length os < 2 ^ 32"
  shows "\<exists>b optvec. parse_options (write_options os @ [NUL]) = Inr (b, Some optvec, length os) \<and>
    optvec = map (\<lambda>(n, v). \<lparr>to_name = n, to_value = Some v\<rparr>) os \<and>
    (\<forall>n v. map_of os n = Some v \<longrightarrow>
      glip_option_get_char \<lparr>backend_options = library_options optvec, num_backend_options = of_nat (length os)\<rparr> n =
        Inr (Some (Some v), 0))"
proof -
  have "NUL \<notin> set (write_options os)"
    using assms(1) by (induction os rule: write_options.induct) (auto simp: NUL_def)
  moreover have pc: "pieces (write_options os) = map (\<lambda>(n, v). n @ CHR ''='' # v) os"
    by (rule pieces_write_options) (use assms(1) in auto)
  moreover have "map parse_option (pieces (write_options os)) = map (\<lambda>(n, v). \<lparr>to_name = n, to_value = Some v\<rparr>) os"
    unfolding pc using assms(1) parse_option_eq(1) by (auto simp: comp_def)
  ultimately obtain b where "parse_options (write_options os @ [NUL]) =
      Inr (b, Some (map (\<lambda>(n, v). \<lparr>to_name = n, to_value = Some v\<rparr>) os), length os)"
    using parse_options_ok [of "write_options os"] assms(2) by auto
  moreover have "unat (of_nat (length os) :: u32) = length os" using assms(3) by (simp add: unat_of_nat take_bit_nat_eq_self)
  ultimately show ?thesis by (simp add: glip_option_get_char_def find_option_map_of)
qed

theorem options_roundtrip_witness:
  "\<exists>b optvec. parse_options (''hostname=vm1,port=2300'' @ [NUL]) = Inr (b, Some optvec, 2) \<and>
    glip_option_get_char \<lparr>backend_options = library_options optvec, num_backend_options = 2\<rparr> ''port'' =
      Inr (Some (Some ''2300''), 0)"
proof -
  let ?os = "[(''hostname'', ''vm1''), (''port'', ''2300'')]"
  have "\<forall>(n, v) \<in> set ?os. NUL \<notin> set n \<and> NUL \<notin> set v \<and> CHR '','' \<notin> set n \<and> CHR '','' \<notin> set v \<and> CHR ''='' \<notin> set n"
    by (simp add: NUL_def)
  from options_roundtrip [OF this] obtain b optvec where
    "parse_options (write_options ?os @ [NUL]) = Inr (b, Some optvec, length ?os)" and
    l: "\<forall>n v. map_of ?os n = Some v \<longrightarrow> glip_option_get_char
      \<lparr>backend_options = library_options optvec, num_backend_options = of_nat (length ?os)\<rparr> n = Inr (Some (Some v), 0)"
    by auto
  moreover have "write_options ?os = ''hostname=vm1,port=2300''" "length ?os = 2" "map_of ?os ''port'' = Some ''2300''" by simp_all
  ultimately show ?thesis using l [THEN spec [of _ "''port''"], THEN spec [of _ "''2300''"]]
    by (metis of_nat_numeral)
qed

end
