(* ===== verification/Loopback.thy ===== *)
theory Loopback
  imports Options Backend_Contract
begin

text \<open>
  The measuring program, \<^verbatim>\<open>tools/loopback_measure.c\<close>: it writes a repeating pattern to the target,
  and a second thread checks what comes back.  Its progress bar only prints.
\<close>

section \<open>Arguments\<close>

definition TRANSFER_SIZE_DEFAULT :: size_t where "TRANSFER_SIZE_DEFAULT = 10 * 1024 * 1024"
definition WRITE_BLOCK_SIZE :: size_t where "WRITE_BLOCK_SIZE = 6"
definition READ_BLOCK_SIZE :: size_t where "READ_BLOCK_SIZE = 2048"
definition READ_TIMEOUT_MS :: u32 where "READ_TIMEOUT_MS = 100"

lemmas measure_sizes = WRITE_BLOCK_SIZE_def READ_BLOCK_SIZE_def READ_TIMEOUT_MS_def

text \<open>What \<open>getopt_long\<close> returns, one by one.  The strings are arguments of the program.\<close>

datatype arg = Arg_Flag | Arg_Backend string | Arg_Options string | Arg_Size string | Arg_Nonblock
  | Arg_Version | Arg_Help | Arg_Other

record measure_args =
  ma_backend :: "string option"
  ma_options :: "tool_option list option"
  ma_num_options :: nat
  ma_transfer_size :: size_t
  ma_blocking :: bool

datatype 'a or_exit = Exit int | Go 'a

definition no_args :: measure_args where
  "no_args = \<lparr>ma_backend = None, ma_options = None, ma_num_options = 0,
     ma_transfer_size = TRANSFER_SIZE_DEFAULT, ma_blocking = True\<rparr>"

fun args_loop :: "arg list \<Rightarrow> measure_args \<Rightarrow> measure_args or_exit exec" where
  "args_loop [] a = Inr (if ma_backend a = None then Exit (- 1) else Go a)"
| "args_loop (Arg_Flag # r) a = args_loop r a"
| "args_loop (Arg_Backend s # r) a = args_loop r (a\<lparr>ma_backend := Some s\<rparr>)"
| "args_loop (Arg_Options s # r) a =
     cbind (parse_options (s @ [NUL])) (\<lambda>(_, opts, n).
       args_loop r (a\<lparr>ma_options := (case opts of None \<Rightarrow> ma_options a | Some os \<Rightarrow> Some os),
         ma_num_options := n\<rparr>))"
| "args_loop (Arg_Size s # r) a = args_loop r (a\<lparr>ma_transfer_size := strtoul10 s\<rparr>)"
| "args_loop (Arg_Nonblock # r) a = args_loop r (a\<lparr>ma_blocking := False\<rparr>)"
| "args_loop (Arg_Version # r) a = Inr (Exit 0)"
| "args_loop (Arg_Help # r) a = Inr (Exit 0)"
| "args_loop (Arg_Other # r) a = Inr (Exit (- 1))"

section \<open>State\<close>

record measure =
  transfer_size :: size_t
  current_sent :: size_t
  current_received :: size_t
  send_done :: bool
  use_blocking_functions :: bool

text \<open>
  Creating, opening and resetting.  That the context could not be created is noticed when it is
  opened.
\<close>

definition measure_start ::
    "(string \<times> 'b backend_new option) list \<Rightarrow> bool \<Rightarrow> string option \<Rightarrow> measure_args
       \<Rightarrow> ('b glip_ctx \<times> measure) or_exit exec" where
  "measure_start backends ctx_alloc env a =
     (case ma_backend a of None \<Rightarrow> Inr (Exit (- 1))
      | Some name \<Rightarrow>
          cbind (glip_open (fst (glip_new backends ctx_alloc env name
              (case ma_options a of None \<Rightarrow> [] | Some os \<Rightarrow> library_options os) (of_nat (ma_num_options a)))) 1)
            (\<lambda>(c, rv). if rv < 0 then Inr (Exit (- 1))
               else (case c of None \<Rightarrow> Inl Mem_Fault
                 | Some ctx \<Rightarrow> cbind (glip_logic_reset ctx) (\<lambda>(ctx', rv').
                     if rv' < 0 then Inr (Exit (- 1))
                     else Inr (Go (ctx', \<lparr>transfer_size = ma_transfer_size a, current_sent = 0,
                       current_received = 0, send_done = False, use_blocking_functions = ma_blocking a\<rparr>))))))"

text \<open>The program up to the start of its threads, and its end when both have finished: the result of closing is
  not looked at.\<close>

definition measure_launch ::
    "(string \<times> 'b backend_new option) list \<Rightarrow> bool \<Rightarrow> string option \<Rightarrow> arg list
       \<Rightarrow> ('b glip_ctx \<times> measure) or_exit exec" where
  "measure_launch backends ctx_alloc env args =
     cbind (args_loop args no_args) (\<lambda>r.
       case r of Exit code \<Rightarrow> Inr (Exit code) | Go a \<Rightarrow> measure_start backends ctx_alloc env a)"

definition measure_end :: "'b glip_ctx \<Rightarrow> ('b glip_ctx \<times> int) exec" where
  "measure_end ctx = cbind (glip_close ctx) (\<lambda>(ctx', rv). Inr (ctx', 0))"

section \<open>Sending\<close>

text \<open>The pattern in the block that is written.\<close>

definition block_data :: "u8 list" where
  "block_data = map (\<lambda>i. of_nat (i mod 256)) [0 ..< unat WRITE_BLOCK_SIZE]"

text \<open>
  A turn of the loop.  \<open>junk\<close> is the value of the variable the number of bytes goes to when the call
  stores nothing.  The result says whether the program goes on.
\<close>

definition send_turn :: "size_t \<Rightarrow> 'b glip_ctx \<Rightarrow> measure \<Rightarrow> ('b glip_ctx \<times> measure \<times> bool) exec" where
  "send_turn junk ctx m =
     (let block_size = (if current_sent m + WRITE_BLOCK_SIZE > transfer_size m
                        then transfer_size m - current_sent m else WRITE_BLOCK_SIZE);
          sub_idx = current_sent m mod WRITE_BLOCK_SIZE;
          src = drop (unat sub_idx) block_data
      in cbind (if use_blocking_functions m then glip_write_b ctx 0 (block_size - sub_idx) src 0
                else glip_write ctx 0 (block_size - sub_idx) src) (\<lambda>(ctx', size_written, rv).
         if rv \<noteq> 0 \<and> rv \<noteq> - ETIMEDOUT then Inr (ctx', m, False)
         else Inr (ctx', m\<lparr>current_sent := current_sent m +
           (case size_written of None \<Rightarrow> junk | Some n \<Rightarrow> n)\<rparr>, True)))"

text \<open>
  The loop.  Between two turns other threads work on the backend: \<open>es\<close> is what they do, one entry
  for each turn; when it is used up the loop is still running.
\<close>

datatype status = Done | Exited | Running

fun send_loop ::
    "size_t \<Rightarrow> ('b \<Rightarrow> 'b) list \<Rightarrow> 'b glip_ctx \<Rightarrow> measure \<Rightarrow> ('b glip_ctx \<times> measure \<times> status) exec" where
  "send_loop junk es ctx m =
     (if \<not> current_sent m < transfer_size m then Inr (ctx, m\<lparr>send_done := True\<rparr>, Done)
      else (case es of [] \<Rightarrow> Inr (ctx, m, Running)
        | e # es' \<Rightarrow> cbind (send_turn junk ctx m) (\<lambda>(ctx', m', go).
            if go then send_loop junk es' (ctx'\<lparr>backend_ctx := e (backend_ctx ctx')\<rparr>) m'
            else Inr (ctx', m', Exited))))"

declare send_loop.simps [simp del]

section \<open>Receiving\<close>

text \<open>The thread's own variables; \<open>rd_byte\<close> is an \<open>int\<close>.\<close>

record checker_vars =
  rd_data :: "u8 list"
  rd_size :: size_t
  rd_exp :: u8
  rd_byte :: int

text \<open>Checking the received bytes one by one: the expected byte and the count, or a difference.\<close>

fun check_bytes :: "u8 list \<Rightarrow> nat \<Rightarrow> nat \<Rightarrow> u8 \<Rightarrow> int \<Rightarrow> (u8 \<times> int) option exec" where
  "check_bytes data i 0 ex byte = Inr (Some (ex, byte))"
| "check_bytes data i (Suc n) ex byte =
     (if length data \<le> i then Inl Mem_Fault
      else if data ! i \<noteq> ex then Inr None
      else if byte = 2 ^ 31 - 1 then Inl Int_Overflow
      else check_bytes data (Suc i) n
        (ucast ((ucast ex + 1 :: u32) mod (if WRITE_BLOCK_SIZE < 256 then ucast WRITE_BLOCK_SIZE else 256))) (byte + 1))"

definition read_turn :: "'b glip_ctx \<Rightarrow> measure \<Rightarrow> checker_vars \<Rightarrow> ('b glip_ctx \<times> measure \<times> checker_vars \<times> status) exec" where
  "read_turn ctx m r =
     cbind (if use_blocking_functions m then glip_read_b ctx 0 READ_BLOCK_SIZE (rd_data r) READ_TIMEOUT_MS
            else glip_read ctx 0 READ_BLOCK_SIZE (rd_data r)) (\<lambda>(ctx', d, n, rv).
     let size_read = (case n of None \<Rightarrow> rd_size r | Some k \<Rightarrow> k);
         r1 = r\<lparr>rd_data := d, rd_size := size_read\<rparr>
     in if rv \<noteq> 0 \<and> rv \<noteq> - ETIMEDOUT then Inr (ctx', m, r1, Exited)
        else (let m1 = m\<lparr>current_received := current_received m + size_read\<rparr>
              in cbind (check_bytes d 0 (unat size_read) (rd_exp r) (rd_byte r)) (\<lambda>res.
                 case res of None \<Rightarrow> Inr (ctx', m1, r1, Exited)
                 | Some (ex, byte) \<Rightarrow>
                     Inr (ctx', m1, r1\<lparr>rd_exp := ex, rd_byte := byte\<rparr>,
                       if send_done m1 \<and> current_received m1 \<ge> current_sent m1 then Done else Running))))"

text \<open>The thread, with what the others do to the backend and to the shared variables between its turns.\<close>

fun read_loop_m ::
    "(('b \<Rightarrow> 'b) \<times> (measure \<Rightarrow> measure)) list \<Rightarrow> 'b glip_ctx \<Rightarrow> measure \<Rightarrow> checker_vars
       \<Rightarrow> ('b glip_ctx \<times> measure \<times> checker_vars \<times> status) exec" where
  "read_loop_m [] ctx m r = Inr (ctx, m, r, Running)"
| "read_loop_m ((e, f) # es) ctx m r =
     cbind (read_turn ctx m r) (\<lambda>(ctx', m', r', st).
       if st = Running then read_loop_m es (ctx'\<lparr>backend_ctx := e (backend_ctx ctx')\<rparr>) (f m') r'
       else Inr (ctx', m', r', st))"

end
