(* ===== verification/Loopback_Properties.thy ===== *)
theory Loopback_Properties
  imports Loopback Uart_Properties
begin

text \<open>The properties of the measuring program: what it sends over a backend with two byte queues, when it
  comes to an end, and what its checking thread accepts.\<close>

section \<open>The pattern\<close>

text \<open>The bytes of the stream from place \<open>a\<close> on.\<close>

definition pattern :: "nat \<Rightarrow> nat \<Rightarrow> u8 list" where
  "pattern a n = map (\<lambda>i. of_nat (i mod 6)) [a ..< a + n]"

lemma length_pattern [simp]: "length (pattern a n) = n"
  by (simp add: pattern_def)

lemma pattern_0 [simp]: "pattern a 0 = []"
  by (simp add: pattern_def)

lemma pattern_add: "pattern a (m + n) = pattern a m @ pattern (a + m) n"
  by (simp add: pattern_def upt_add_eq_append [of a "a + m" n] flip: add.assoc)

lemma block_data_eq: "block_data = map of_nat [0 ..< 6]"
  by (simp add: block_data_def measure_sizes)

lemma block_pattern:
  assumes "c mod 6 + k \<le> 6"
  shows "take k (drop (c mod 6) block_data) = pattern c k"
proof (rule nth_equalityI)
  fix i
  assume "i < length (take k (drop (c mod 6) block_data))"
  then have i: "i < k" "c mod 6 + i < 6" using assms by (simp_all add: block_data_eq)
  have "(c + i) mod 6 = (c mod 6 + i) mod 6" by (simp add: mod_add_left_eq)
  also have "\<dots> = c mod 6 + i" using i(2) by simp
  finally show "take k (drop (c mod 6) block_data) ! i = pattern c k ! i"
    using i by (simp add: block_data_eq pattern_def)
qed (use assms in \<open>simp add: block_data_eq pattern_def\<close>)

section \<open>Sending\<close>

text \<open>The size of a request: what is left of the block, computed without looking at the sign.\<close>

lemma request_size:
  fixes cur total :: size_t
  assumes "unat cur = c" and "unat total = N" and "c < N" and "N < 2 ^ 63"
    and "b = (if cur + WRITE_BLOCK_SIZE > total then total - cur else WRITE_BLOCK_SIZE)"
    and "want = min 6 (N - c)"
  shows "unat (cur mod WRITE_BLOCK_SIZE) = c mod 6"
    and "unat (b - cur mod WRITE_BLOCK_SIZE) =
      (if c mod 6 \<le> want then want - c mod 6 else 2 ^ 64 - (c mod 6 - want))"
proof -
  show q: "unat (cur mod WRITE_BLOCK_SIZE) = c mod 6" using assms(1) by (simp add: unat_mod measure_sizes)
  have s: "unat (cur + WRITE_BLOCK_SIZE) = c + 6"
    using assms(1,3,4) by (simp add: unat_word_ariths measure_sizes)
  have "unat (total - cur) = N - c" using assms(1-3) by (simp add: unat_sub word_le_nat_alt)
  then have b: "unat b = want" using s assms(2,3,5,6) by (auto simp: word_less_nat_alt measure_sizes)
  have "want \<le> 6" using assms(6) by simp
  then show "unat (b - cur mod WRITE_BLOCK_SIZE) =
      (if c mod 6 \<le> want then want - c mod 6 else 2 ^ 64 - (c mod 6 - want))"
    using q b by (simp add: unat_sub_if_size word_size) linarith
qed

context copying_backend
begin

lemma send_turn_ok:
  assumes "connected ctx" and "backend_functions ctx = fns" and "inv (backend_ctx ctx)"
    and "\<not> use_blocking_functions m" and "unat (current_sent m) = c" and "unat (transfer_size m) = N"
    and "c < N" and "N < 2 ^ 63" and "want = min 6 (N - c)"
    and "k = (if c mod 6 \<le> want then min (want - c mod 6) (room (backend_ctx ctx)) else room (backend_ctx ctx))"
  shows "if k \<le> 6 - c mod 6
    then \<exists>s'. send_turn junk ctx m =
        Inr (ctx\<lparr>backend_ctx := s'\<rparr>, m\<lparr>current_sent := current_sent m + of_nat k\<rparr>, True) \<and> inv s' \<and>
      outq s' = outq (backend_ctx ctx) @ pattern c k \<and> inq s' = inq (backend_ctx ctx) \<and>
      room s' = room (backend_ctx ctx) - k
    else send_turn junk ctx m = Inl Mem_Fault"
proof -
  define b where "b = (if current_sent m + WRITE_BLOCK_SIZE > transfer_size m
    then transfer_size m - current_sent m else WRITE_BLOCK_SIZE)"
  define q where "q = current_sent m mod WRITE_BLOCK_SIZE"
  note R = request_size [OF assms(5-8) b_def assms(9), folded q_def]
  have "room (backend_ctx ctx) < 2 ^ 31" using room_small [OF assms(3)] .
  then have k: "k = min (unat (b - q)) (room (backend_ctx ctx))" using R(2) assms(10) by auto
  have step: "send_turn junk ctx m = cbind (glip_write ctx 0 (b - q) (drop (c mod 6) block_data))
      (\<lambda>(ctx', n, rv). if rv \<noteq> 0 \<and> rv \<noteq> - ETIMEDOUT then Inr (ctx', m, False)
        else Inr (ctx', m\<lparr>current_sent := current_sent m + (case n of None \<Rightarrow> junk | Some n \<Rightarrow> n)\<rparr>, True))"
    using assms(4) R(1) by (simp add: send_turn_def Let_def b_def q_def)
  have l: "length (drop (c mod 6) block_data) = 6 - c mod 6" by (simp add: block_data_eq)
  note W = glip_write_any [OF assms(1-3) k, of "drop (c mod 6) block_data"]
  show ?thesis
  proof (cases "k \<le> 6 - c mod 6")
    case True
    then have "c mod 6 + k \<le> 6" using mod_less_divisor [of 6 c] by linarith
    from block_pattern [OF this] show ?thesis using True W l unfolding step by auto
  next
    case False
    then show ?thesis using W l unfolding step by simp
  qed
qed

text \<open>When exactly a part of a block is left that is as long as what was sent of the block before it, the
  request is for no bytes, and the loop goes on for ever.\<close>

lemma send_loop_stuck:
  assumes "connected ctx" and "backend_functions ctx = fns" and "inv (backend_ctx ctx)"
    and "\<not> use_blocking_functions m" and "unat (current_sent m) = c" and "unat (transfer_size m) = N"
    and "c < N" and "N < 2 ^ 63" and "N - c = c mod 6"
    and "\<forall>e \<in> set es. \<forall>s. inv s \<longrightarrow> inv (e s)"
  shows "\<exists>ctx'. send_loop junk es ctx m = Inr (ctx', m, Running)"
  using assms(1-3,10)
proof (induction es arbitrary: ctx)
  case Nil
  then show ?case using assms(5-7) by (simp add: send_loop.simps word_less_nat_alt)
next
  case (Cons e es)
  have w: "min 6 (N - c) = c mod 6" using assms(9) by simp
  have "send_turn junk ctx m = Inr (ctx\<lparr>backend_ctx := s\<rparr>, m\<lparr>current_sent := current_sent m + of_nat 0\<rparr>, True) \<Longrightarrow>
      inv s \<Longrightarrow> ?case" for s
    using Cons.IH [of "ctx\<lparr>backend_ctx := e s\<rparr>"] Cons.prems assms(5-7)
    by (subst send_loop.simps) (simp add: word_less_nat_alt)
  then show ?case using send_turn_ok [OF Cons.prems(1-3) assms(4-8) refl refl, of junk] w by auto
qed

text \<open>With room for a block in every turn the whole stream is sent and the loop comes to its end.\<close>

lemma send_loop_complete:
  assumes "connected ctx" and "backend_functions ctx = fns" and "inv (backend_ctx ctx)"
    and "6 \<le> room (backend_ctx ctx)"
    and "\<not> use_blocking_functions m" and "unat (current_sent m) = c" and "unat (transfer_size m) = N"
    and "c \<le> N" and "N < 2 ^ 63" and "c mod 6 = 0 \<or> c = N"
    and "\<forall>e \<in> set es. \<forall>s. inv s \<longrightarrow> inv (e s) \<and> 6 \<le> room (e s) \<and> (\<exists>t. t @ outq (e s) = outq s)"
    and "N - c \<le> 6 * length es"
  shows "\<exists>ctx' drained. send_loop junk es ctx m =
      Inr (ctx', m\<lparr>current_sent := transfer_size m, send_done := True\<rparr>, Done) \<and>
    drained @ outq (backend_ctx ctx') = outq (backend_ctx ctx) @ pattern c (N - c)"
  using assms
proof (induction es arbitrary: ctx m c)
  case Nil
  then have "c = N" "current_sent m = transfer_size m" by (simp_all add: word_unat_eq_iff)
  then show ?case by (intro exI [of _ ctx] exI [of _ "[]"]) (simp add: send_loop.simps)
next
  case (Cons e es)
  show ?case
  proof (cases "c = N")
    case True
    then have "current_sent m = transfer_size m" using Cons.prems(6,7) by (simp add: word_unat_eq_iff)
    then show ?thesis using True by (intro exI [of _ ctx] exI [of _ "[]"]) (simp add: send_loop.simps)
  next
    case False
    then have c: "c < N" "c mod 6 = 0" using Cons.prems(8,10) by simp_all
    define k where "k = min 6 (N - c)"
    have k: "k = (if c mod 6 \<le> min 6 (N - c) then min (min 6 (N - c) - c mod 6) (room (backend_ctx ctx))
        else room (backend_ctx ctx))" "k \<le> 6 - c mod 6"
      using Cons.prems(4) c(2) by (simp_all add: k_def)
    let ?m = "m\<lparr>current_sent := current_sent m + of_nat k\<rparr>"
    obtain s where s: "send_turn junk ctx m = Inr (ctx\<lparr>backend_ctx := s\<rparr>, ?m, True)" "inv s"
      "outq s = outq (backend_ctx ctx) @ pattern c k"
      using send_turn_ok [OF Cons.prems(1-3,5-7) c(1) Cons.prems(9) refl k(1)] k(2) by auto
    have ck: "c + k \<le> N" "c + k = N \<or> (c + k) mod 6 = 0" "N - (c + k) \<le> 6 * length es"
      using c Cons.prems(12) by (auto simp: k_def min_def mod_add_left_eq [symmetric] split: if_splits)
    have "k < 2 ^ 64" by (simp add: k_def min.strict_coboundedI1)
    then have u: "unat (current_sent ?m) = c + k"
      using Cons.prems(6,9) ck(1) by (simp add: unat_word_ariths unat_of_nat take_bit_nat_eq_self)
    obtain t where t: "inv (e s)" "6 \<le> room (e s)" "t @ outq (e s) = outq s" using Cons.prems(11) s(2) by auto
    obtain ctx' d where r: "send_loop junk es (ctx\<lparr>backend_ctx := e s\<rparr>) ?m =
        Inr (ctx', ?m\<lparr>current_sent := transfer_size ?m, send_done := True\<rparr>, Done)"
      "d @ outq (backend_ctx ctx') = outq (e s) @ pattern (c + k) (N - (c + k))"
      using Cons.IH [of "ctx\<lparr>backend_ctx := e s\<rparr>" ?m "c + k"] Cons.prems t ck u by auto
    have "current_sent m < transfer_size m" using c(1) Cons.prems(6,7) by (simp add: word_less_nat_alt)
    then have "send_loop junk (e # es) ctx m =
        Inr (ctx', m\<lparr>current_sent := transfer_size m, send_done := True\<rparr>, Done)"
      using s(1) r(1) by (simp add: send_loop.simps [of _ "e # es"])
    moreover have "N - c = k + (N - (c + k))" using ck(1) by simp
    then have "pattern c (N - c) = pattern c k @ pattern (c + k) (N - (c + k))" by (metis pattern_add)
    then have "(t @ d) @ outq (backend_ctx ctx') = outq (backend_ctx ctx) @ pattern c (N - c)"
      using r(2) t(3) s(3) by (metis append_assoc)
    ultimately show ?thesis by blast
  qed
qed

end

text \<open>With the blocking calls every turn sends a whole block, whatever the call waited for.\<close>

context taking_backend
begin

lemma send_turn_blocking:
  assumes "connected ctx" and "backend_functions ctx = fns" and "inv (backend_ctx ctx)"
    and "use_blocking_functions m" and "unat (current_sent m) = c" and "unat (transfer_size m) = N"
    and "c < N" and "N < 2 ^ 63" and "c mod 6 = 0" and "k = min 6 (N - c)"
    and "send_turn junk ctx m = Inr (ctx', m', go)"
  shows "go \<and> m' = m\<lparr>current_sent := current_sent m + of_nat k\<rparr> \<and> connected ctx' \<and> backend_functions ctx' = fns \<and>
    inv (backend_ctx ctx') \<and> (\<exists>t. t @ outq (backend_ctx ctx') = outq (backend_ctx ctx) @ pattern c k)"
proof -
  define b where "b = (if current_sent m + WRITE_BLOCK_SIZE > transfer_size m
    then transfer_size m - current_sent m else WRITE_BLOCK_SIZE)"
  define q where "q = current_sent m mod WRITE_BLOCK_SIZE"
  note R = request_size [OF assms(5-8) b_def assms(10), folded q_def]
  have q: "unat q = 0" "unat (b - q) = k" using R assms(9) by simp_all
  then have bk: "b - q = of_nat k" by (simp flip: q(2))
  have k: "k < 2 ^ 31" "k \<le> length block_data" using assms(10) by (simp_all add: block_data_eq min.strict_coboundedI1)
  obtain n rv where w: "glip_write_b ctx 0 (b - q) block_data 0 = Inr (ctx', n, rv)"
    "m' = (if rv \<noteq> 0 \<and> rv \<noteq> - ETIMEDOUT then m
      else m\<lparr>current_sent := current_sent m + (case n of None \<Rightarrow> junk | Some n \<Rightarrow> n)\<rparr>)"
    "go = (\<not> (rv \<noteq> 0 \<and> rv \<noteq> - ETIMEDOUT))"
    using assms(4,11) q(1)
    by (auto simp: send_turn_def Let_def cbind_eq_Inr_iff split: if_splits simp flip: b_def q_def)
  have W: "rv = 0 \<and> n = Some (b - q) \<and> ctx' = ctx\<lparr>backend_ctx := backend_ctx ctx'\<rparr> \<and> inv (backend_ctx ctx') \<and>
      (\<exists>t. t @ outq (backend_ctx ctx') = outq (backend_ctx ctx) @ take (unat (b - q)) block_data)"
    by (rule glip_write_b_all [OF assms(1-3) _ _ w(1)]) (use k q in simp_all)
  then have e: "ctx' = ctx\<lparr>backend_ctx := backend_ctx ctx'\<rparr>" by blast
  have "connected ctx'" "backend_functions ctx' = fns" using assms(1,2) by (subst e, simp)+
  moreover have "take k block_data = pattern c k"
    using block_pattern [of c k] assms(9,10) by simp
  ultimately show ?thesis using W w(2,3) q(2) bk by auto
qed

lemma send_loop_blocking:
  assumes "connected ctx" and "backend_functions ctx = fns" and "inv (backend_ctx ctx)"
    and "use_blocking_functions m" and "unat (current_sent m) = c" and "unat (transfer_size m) = N"
    and "c \<le> N" and "N < 2 ^ 63" and "c mod 6 = 0 \<or> c = N"
    and "\<forall>e \<in> set es. \<forall>s. inv s \<longrightarrow> inv (e s) \<and> (\<exists>t. t @ outq (e s) = outq s)"
    and "send_loop junk es ctx m = Inr (ctx', m', st)"
  shows "\<exists>k drained. c + k \<le> N \<and> unat (current_sent m') = c + k \<and>
    drained @ outq (backend_ctx ctx') = outq (backend_ctx ctx) @ pattern c k \<and>
    (st = Done \<and> c + k = N \<and> send_done m' \<or> st = Running \<and> c + k < N)"
  using assms
proof (induction es arbitrary: ctx m c)
  case Nil
  then show ?case
    by (intro exI [of _ 0] exI [of _ "[]"]) (auto simp: send_loop.simps word_less_nat_alt split: if_splits)
next
  case (Cons e es)
  show ?case
  proof (cases "c = N")
    case True
    then have "\<not> current_sent m < transfer_size m" using Cons.prems(5,6) by (simp add: word_less_nat_alt)
    then show ?thesis using Cons.prems(5,11) True
      by (intro exI [of _ 0] exI [of _ "[]"]) (auto simp: send_loop.simps [of _ "e # es"])
  next
    case False
    then have c: "c < N" "c mod 6 = 0" using Cons.prems(7,9) by simp_all
    then have "current_sent m < transfer_size m" using Cons.prems(5,6) by (simp add: word_less_nat_alt)
    then obtain c1 m1 go where t: "send_turn junk ctx m = Inr (c1, m1, go)"
      "(if go then send_loop junk es (c1\<lparr>backend_ctx := e (backend_ctx c1)\<rparr>) m1 else Inr (c1, m1, Exited)) =
        Inr (ctx', m', st)"
      using Cons.prems(11) by (auto simp: send_loop.simps [of _ "e # es"] cbind_eq_Inr_iff)
    define k where "k = min 6 (N - c)"
    obtain d where T: "go" "m1 = m\<lparr>current_sent := current_sent m + of_nat k\<rparr>" "connected c1"
      "backend_functions c1 = fns" "inv (backend_ctx c1)"
      "d @ outq (backend_ctx c1) = outq (backend_ctx ctx) @ pattern c k"
      using send_turn_blocking [OF Cons.prems(1-6) c(1) Cons.prems(8) c(2) k_def t(1)] by blast
    have ck: "c + k \<le> N" "(c + k) mod 6 = 0 \<or> c + k = N"
      using c by (auto simp: k_def min_def mod_add_left_eq [symmetric] split: if_splits)
    have "k < 2 ^ 64" by (simp add: k_def min.strict_coboundedI1)
    then have u: "unat (current_sent m1) = c + k"
      using Cons.prems(5,8) ck(1) T(2) by (simp add: unat_word_ariths unat_of_nat take_bit_nat_eq_self)
    obtain d' where e: "inv (e (backend_ctx c1))" "d' @ outq (e (backend_ctx c1)) = outq (backend_ctx c1)"
      using Cons.prems(10) T(5) by auto
    have "send_loop junk es (c1\<lparr>backend_ctx := e (backend_ctx c1)\<rparr>) m1 = Inr (ctx', m', st)" using t(2) T(1) by simp
    then obtain j d'' where r: "c + k + j \<le> N" "unat (current_sent m') = c + k + j"
      "d'' @ outq (backend_ctx ctx') = outq (e (backend_ctx c1)) @ pattern (c + k) j"
      "st = Done \<and> c + k + j = N \<and> send_done m' \<or> st = Running \<and> c + k + j < N"
      using Cons.IH [of "c1\<lparr>backend_ctx := e (backend_ctx c1)\<rparr>" m1 "c + k"] Cons.prems(4,6,8,10) T u ck e(1)
      by auto
    have "(d @ d' @ d'') @ outq (backend_ctx ctx') = outq (backend_ctx ctx) @ pattern c (k + j)"
      using r(3) e(2) T(6) by (metis append_assoc pattern_add)
    then show ?thesis using r by (intro exI [of _ "k + j"] exI [of _ "d @ d' @ d''"]) (simp add: add.assoc)
  qed
qed

end

section \<open>Checking\<close>

lemma next_expected:
  "(ucast ((ucast (of_nat (a mod 6) :: u8) + 1 :: u32) mod ucast WRITE_BLOCK_SIZE) :: u8) = of_nat (Suc a mod 6)"
proof -
  have "a mod 6 \<in> {0, 1, 2, 3, 4, 5}" using mod_less_divisor [of 6 a] by (simp, linarith)
  moreover have "Suc a mod 6 = Suc (a mod 6) mod 6" by (simp add: mod_Suc_eq)
  ultimately show ?thesis by (auto simp: measure_sizes)
qed

lemma check_bytes_ok:
  assumes "i + n \<le> length data" and "a + n < 2 ^ 31"
  shows "check_bytes data i n (of_nat (a mod 6)) (int a) =
    Inr (if take n (drop i data) = pattern a n then Some (of_nat ((a + n) mod 6), int (a + n)) else None)"
  using assms
proof (induction n arbitrary: i a)
  case 0
  then show ?case by simp
next
  case (Suc n)
  have d: "take (Suc n) (drop i data) = data ! i # take n (drop (Suc i) data)"
    using Suc.prems(1) by (simp add: take_Suc_conv_app_nth Cons_nth_drop_Suc [symmetric])
  have p: "pattern a (Suc n) = of_nat (a mod 6) # pattern (Suc a) n"
    using pattern_add [of a 1 n] by (simp add: pattern_def)
  have e: "(if WRITE_BLOCK_SIZE < 256 then ucast WRITE_BLOCK_SIZE else 256 :: u32) = ucast WRITE_BLOCK_SIZE"
    by (simp add: measure_sizes)
  have i: "(int a = 2 ^ 31 - 1) = False" "(length data \<le> i) = False" "int a + 1 = int (Suc a)" using Suc.prems by auto
  have "check_bytes data i (Suc n) (of_nat (a mod 6)) (int a) =
      (if data ! i \<noteq> of_nat (a mod 6) then Inr None
       else check_bytes data (Suc i) n (of_nat (Suc a mod 6)) (int (Suc a)))"
    by (simp only: check_bytes.simps e i next_expected if_False)
  then show ?case using Suc.IH [of "Suc i" "Suc a"] Suc.prems unfolding d p by simp
qed

context fifo_backend
begin

lemma read_turn_ok:
  assumes "connected ctx" and "backend_functions ctx = fns" and "inv (backend_ctx ctx)"
    and "\<not> use_blocking_functions m" and "length (rd_data r) = 2048"
    and "rd_exp r = of_nat (a mod 6)" and "rd_byte r = int a" and "a + k < 2 ^ 31"
    and "k = min 2048 (length (inq (backend_ctx ctx)))"
  shows "\<exists>s' d. inv s' \<and> inq s' = drop k (inq (backend_ctx ctx)) \<and> outq s' = outq (backend_ctx ctx) \<and>
    length d = 2048 \<and>
    read_turn ctx m r = (let m1 = m\<lparr>current_received := current_received m + of_nat k\<rparr>;
        r1 = r\<lparr>rd_data := d, rd_size := of_nat k\<rparr>
      in if take k (inq (backend_ctx ctx)) = pattern a k
         then Inr (ctx\<lparr>backend_ctx := s'\<rparr>, m1, r1\<lparr>rd_exp := of_nat ((a + k) mod 6), rd_byte := int (a + k)\<rparr>,
           if send_done m \<and> current_sent m \<le> current_received m + of_nat k then Done else Running)
         else Inr (ctx\<lparr>backend_ctx := s'\<rparr>, m1, r1, Exited))"
proof -
  let ?q = "inq (backend_ctx ctx)"
  have n: "unat READ_BLOCK_SIZE < 2 ^ 31" "unat READ_BLOCK_SIZE \<le> length (rd_data r)"
    "k = min (unat READ_BLOCK_SIZE) (length ?q)"
    unfolding assms(5,9) by (simp_all add: measure_sizes)
  obtain s' where s: "glip_read ctx 0 READ_BLOCK_SIZE (rd_data r) = Inr (ctx\<lparr>backend_ctx := s'\<rparr>,
      take k ?q @ drop k (rd_data r), Some (of_nat k), 0)" "inv s'" "inq s' = drop k ?q" "outq s' = outq (backend_ctx ctx)"
    using glip_read_ok [OF assms(1-3) n] by blast
  let ?d = "take k ?q @ drop k (rd_data r)"
  have k: "k \<le> length ?q" "k \<le> 2048" "length ?d = 2048" using assms(5,9) by auto
  then have u: "unat (of_nat k :: size_t) = k" by (simp add: unat_of_nat take_bit_nat_eq_self)
  have t: "take k ?d = take k ?q" using k(1) by simp
  have "check_bytes ?d 0 k (rd_exp r) (rd_byte r) =
      Inr (if take k ?q = pattern a k then Some (of_nat ((a + k) mod 6), int (a + k)) else None)"
    using check_bytes_ok [of 0 k ?d a] k(2,3) assms(6-8) t by (simp only: add_0 drop_0)
  then have "read_turn ctx m r = (let m1 = m\<lparr>current_received := current_received m + of_nat k\<rparr>;
        r1 = r\<lparr>rd_data := ?d, rd_size := of_nat k\<rparr>
      in if take k ?q = pattern a k
         then Inr (ctx\<lparr>backend_ctx := s'\<rparr>, m1, r1\<lparr>rd_exp := of_nat ((a + k) mod 6), rd_byte := int (a + k)\<rparr>,
           if send_done m \<and> current_sent m \<le> current_received m + of_nat k then Done else Running)
         else Inr (ctx\<lparr>backend_ctx := s'\<rparr>, m1, r1, Exited))"
    using assms(4) s(1) u by (simp add: read_turn_def Let_def)
  then show ?thesis using s(2-) k(3) by blast
qed

end

section \<open>The program over a UART\<close>

text \<open>What the thread of the backend does between two turns, as far as the caller sees it.\<close>

definition drains :: "(uart \<Rightarrow> uart) \<Rightarrow> bool" where
  "drains e \<longleftrightarrow> (\<forall>u. uart_inv u \<longrightarrow> uart_inv (e u) \<and> (\<exists>t. t @ uart_out (e u) = uart_out u))"

text \<open>C37: Without blocking calls, when there is room for a block in every turn, the program comes to its end
  after one turn for each block and has then handed the backend exactly the pattern, byte for byte
  of the size it was asked for, whatever the thread takes out meanwhile.\<close>

theorem loopback_completes:
  assumes "connected ctx" and "backend_functions ctx = uart_backend" and "uart_inv (backend_ctx ctx)"
    and "6 \<le> uart_room (backend_ctx ctx)" and "\<not> use_blocking_functions m" and "current_sent m = 0"
    and "unat (transfer_size m) = N" and "N < 2 ^ 63"
    and "\<forall>e \<in> set es. drains e \<and> (\<forall>u. uart_inv u \<longrightarrow> 6 \<le> uart_room (e u))" and "N \<le> 6 * length es"
  shows "\<exists>ctx' drained. send_loop junk es ctx m =
      Inr (ctx', m\<lparr>current_sent := transfer_size m, send_done := True\<rparr>, Done) \<and>
    drained @ uart_out (backend_ctx ctx') = uart_out (backend_ctx ctx) @ pattern 0 N"
  using ub.send_loop_complete [OF assms(1-5) _ assms(7) _ assms(8), of 0 es junk] assms(6,9,10)
  by (auto simp: drains_def)

definition measure0 :: "bool \<Rightarrow> nat \<Rightarrow> nat \<Rightarrow> measure" where
  "measure0 b c n = \<lparr>transfer_size = of_nat n, current_sent = of_nat c, current_received = 0,
     send_done = False, use_blocking_functions = b\<rparr>"

definition take_all :: "uart \<Rightarrow> uart" where
  "take_all u = u\<lparr>output_buffer := small_buf []\<rparr>"

lemma cbuf_fill_small_buf [simp]: "length bs \<le> 8 \<Longrightarrow> cbuf_fill (small_buf bs) = length bs"
  using small_buf_wf [of bs] length_contents [of "small_buf bs"] by simp

lemma take_all_drains: "drains take_all" "output_buffer (take_all u) = small_buf []"
  by (auto simp: drains_def take_all_def uart_inv_def small_buf_wf)

theorem loopback_completes_witness:
  "\<exists>ctx' drained. send_loop 0 [take_all, take_all] (uart_ctx (uart0 (line_of []) [] [])) (measure0 False 0 8) =
      Inr (ctx', (measure0 False 8 8)\<lparr>send_done := True\<rparr>, Done) \<and>
    drained @ uart_out (backend_ctx ctx') = [0, 1, 2, 3, 4, 5, 0, 1]"
proof -
  let ?c = "uart_ctx (uart0 (line_of []) [] [])" and ?m = "measure0 False 0 8"
  have "\<exists>ctx' drained. send_loop 0 [take_all, take_all] ?c ?m =
      Inr (ctx', ?m\<lparr>current_sent := transfer_size ?m, send_done := True\<rparr>, Done) \<and>
    drained @ uart_out (backend_ctx ctx') = uart_out (backend_ctx ?c) @ pattern 0 8"
    by (rule loopback_completes) (simp_all add: take_all_drains small_buf_wf measure0_def)
  moreover have "pattern 0 8 = [0, 1, 2, 3, 4, 5, 0, 1]" by (simp add: pattern_def upt_rec)
  ultimately show ?thesis by (simp add: small_buf_wf measure0_def)
qed

text \<open>C38: After short writes the last block goes wrong: its length is taken for that of the whole block although
  a part of a block was sent before.  When just as much is left as was sent of the block, the
  program asks for no bytes at all for ever, as with the default size five bytes before its end;
  when less is left the size wraps around and the backend reads behind the block.\<close>

theorem loopback_tail:
  assumes "connected ctx" and "backend_functions ctx = uart_backend" and "uart_inv (backend_ctx ctx)"
    and "\<not> use_blocking_functions m" and "unat (current_sent m) = c" and "unat (transfer_size m) = N"
    and "c < N" and "N < 2 ^ 63"
  shows "(N - c = c mod 6 \<and> (\<forall>e \<in> set es. drains e) \<longrightarrow> (\<exists>ctx'. send_loop junk es ctx m = Inr (ctx', m, Running))) \<and>
    (N - c < c mod 6 \<and> 6 - c mod 6 < uart_room (backend_ctx ctx) \<longrightarrow> send_turn junk ctx m = Inl Mem_Fault)"
  using ub.send_loop_stuck [OF assms, of es junk] ub.send_turn_ok [OF assms refl refl, of junk] assms(7)
  by (auto simp: drains_def)

theorem loopback_tail_witness:
  "(\<exists>ctx'. send_loop 0 [take_all, id] (uart_ctx (uart0 (line_of []) [] [])) (measure0 False 10485755 10485760) =
      Inr (ctx', measure0 False 10485755 10485760, Running)) \<and>
    unat TRANSFER_SIZE_DEFAULT = 10485760 \<and>
    send_turn 0 (uart_ctx (uart0 (line_of []) [] [])) (measure0 False 5 8) = Inl Mem_Fault"
proof -
  have d: "\<forall>e \<in> set [take_all, id]. drains e" using take_all_drains by (simp add: drains_def)
  have e: "(10485755 :: nat) mod 6 = 5" by simp
  show ?thesis
    using loopback_tail [of "uart_ctx (uart0 (line_of []) [] [])" "measure0 False 10485755 10485760" 10485755 10485760
        "[take_all, id]" 0] d e
      loopback_tail [of "uart_ctx (uart0 (line_of []) [] [])" "measure0 False 5 8" 5 8 "[]" 0]
    by (simp add: measure0_def small_buf_wf TRANSFER_SIZE_DEFAULT_def)
qed

text \<open>With the blocking calls the program sends the pattern whatever the calls wait for: at every moment
  the backend has taken a prefix of it, the program never gives up, and it ends with everything
  sent.\<close>

theorem loopback_blocking_sends:
  assumes "connected ctx" and "backend_functions ctx = uart_backend" and "uart_inv (backend_ctx ctx)"
    and "use_blocking_functions m" and "current_sent m = 0" and "unat (transfer_size m) = N" and "N < 2 ^ 63"
    and "\<forall>e \<in> set es. drains e" and "send_loop junk es ctx m = Inr (ctx', m', st)"
  shows "\<exists>k drained. k \<le> N \<and> unat (current_sent m') = k \<and>
    drained @ uart_out (backend_ctx ctx') = uart_out (backend_ctx ctx) @ pattern 0 k \<and>
    (st = Done \<and> k = N \<and> send_done m' \<or> st = Running \<and> k < N)"
  using ub.send_loop_blocking [OF assms(1-4) _ assms(6) _ assms(7) _ _ assms(9), of 0] assms(5,8)
  by (simp add: drains_def)

theorem loopback_blocking_sends_witness:
  "\<exists>ctx' m' st. send_loop 0 [take_all, take_all] (uart_ctx (uart0 (line_of []) [] [])) (measure0 True 0 8) =
      Inr (ctx', m', st) \<and> unat (current_sent m') \<le> 8"
proof -
  let ?c = "uart_ctx (uart0 (line_of []) [] [])" and ?m = "measure0 True 0 8"
  have "case send_loop 0 [take_all, take_all] ?c ?m of Inl _ \<Rightarrow> False | Inr _ \<Rightarrow> True" by code_simp
  then obtain c' m' st where w: "send_loop 0 [take_all, take_all] ?c ?m = Inr (c', m', st)"
    by (cases "send_loop 0 [take_all, take_all] ?c ?m") auto
  have "\<exists>k drained. k \<le> 8 \<and> unat (current_sent m') = k \<and>
    drained @ uart_out (backend_ctx c') = uart_out (backend_ctx ?c) @ pattern 0 k \<and>
    (st = Done \<and> k = 8 \<and> send_done m' \<or> st = Running \<and> k < 8)"
    by (rule loopback_blocking_sends [OF _ _ _ _ _ _ _ _ w])
      (simp_all add: take_all_drains measure0_def)
  then show ?thesis using w by auto
qed

text \<open>The checking thread takes what is there, up to its buffer, and goes on exactly when the bytes continue
  the pattern; otherwise the program ends.  It is done when the sender is and everything has
  come back.\<close>

theorem loopback_read_turn:
  assumes "connected ctx" and "backend_functions ctx = uart_backend" and "uart_inv (backend_ctx ctx)"
    and "\<not> use_blocking_functions m" and "length (rd_data r) = 2048"
    and "rd_exp r = of_nat (a mod 6)" and "rd_byte r = int a" and "a + k < 2 ^ 31"
    and "k = min 2048 (length (uart_in (backend_ctx ctx)))"
  shows "\<exists>u' d. uart_inv u' \<and> uart_in u' = drop k (uart_in (backend_ctx ctx)) \<and>
    uart_out u' = uart_out (backend_ctx ctx) \<and> length d = 2048 \<and>
    read_turn ctx m r = (let m1 = m\<lparr>current_received := current_received m + of_nat k\<rparr>;
        r1 = r\<lparr>rd_data := d, rd_size := of_nat k\<rparr>
      in if take k (uart_in (backend_ctx ctx)) = pattern a k
         then Inr (ctx\<lparr>backend_ctx := u'\<rparr>, m1, r1\<lparr>rd_exp := of_nat ((a + k) mod 6), rd_byte := int (a + k)\<rparr>,
           if send_done m \<and> current_sent m \<le> current_received m + of_nat k then Done else Running)
         else Inr (ctx\<lparr>backend_ctx := u'\<rparr>, m1, r1, Exited))"
  by (rule ub.read_turn_ok [OF assms])

definition reader0 :: checker_vars where
  "reader0 = \<lparr>rd_data = replicate 2048 0, rd_size = 0, rd_exp = 4, rd_byte = 10\<rparr>"

theorem loopback_read_turn_witness:
  "(\<exists>c' m' r'. read_turn (uart_ctx (uart0 (line_of []) [4, 5, 0, 1] [])) (measure0 False 14 14) reader0 =
      Inr (c', m', r', Running) \<and> rd_exp r' = 2 \<and> rd_byte r' = 14 \<and> current_received m' = 4) \<and>
    (\<exists>c' m' r'. read_turn (uart_ctx (uart0 (line_of []) [4, 5, 6] [])) (measure0 False 14 14) reader0 =
      Inr (c', m', r', Exited))"
proof
  have r: "length (rd_data reader0) = 2048" "rd_exp reader0 = of_nat (10 mod 6)" "rd_byte reader0 = int 10"
    by (simp_all only: reader0_def checker_vars.select_convs length_replicate) simp_all
  have p: "pattern 10 4 = [4, 5, 0, 1]" "pattern 10 3 = [4, 5, 0]" by (simp_all add: pattern_def upt_rec)
  have u: "\<not> use_blocking_functions (measure0 False 14 14)" by (simp add: measure0_def)
  let ?c = "\<lambda>bs. uart_ctx (uart0 (line_of []) bs [])"
  have i: "uart_in (backend_ctx (?c bs)) = bs" if "length bs \<le> 8" for bs using that by (simp add: small_buf_wf)
  show "\<exists>c' m' r'. read_turn (?c [4, 5, 0, 1]) (measure0 False 14 14) reader0 =
      Inr (c', m', r', Running) \<and> rd_exp r' = 2 \<and> rd_byte r' = 14 \<and> current_received m' = 4"
    using loopback_read_turn [of "?c [4, 5, 0, 1]", OF _ _ _ u r, of 4] i p
    by (auto simp: Let_def measure0_def)
  show "\<exists>c' m' r'. read_turn (?c [4, 5, 6]) (measure0 False 14 14) reader0 = Inr (c', m', r', Exited)"
    using loopback_read_turn [of "?c [4, 5, 6]", OF _ _ _ u r, of 3] i p by (auto simp: Let_def measure0_def)
qed

end
