(* ===== verification/Systemc.thy ===== *)
theory Systemc
  imports Uart_Line
begin

text \<open>
  The SystemC module that connects a simulated system to the TCP backend,
  \<^verbatim>\<open>backend_tcp/logic/systemc/glip_tcp_toplevel.cpp\<close> with the class in its header: three methods
  that run at each rising clock edge, and two threads that serve the sockets.
\<close>

section \<open>State\<close>

text \<open>
  The members of the class and the signals it drives.  What a method writes to a signal can be seen
  from outside after the edge only: at an edge the logic looks at the values of the state before it.
\<close>

record toplevel =
  m_chan_data_ok :: bool
  m_chan_ctrl_ok :: bool
  m_int_rst :: bool
  m_trigger_rst :: bool
  m_trigger_ctrl_rst :: bool
  m_input_queue :: "u16 list"
  m_output_queue :: "u16 list"
  fifo_out_ready :: bool
  fifo_in_data :: u16
  fifo_in_valid :: bool
  ctrl_logic_rst :: bool
  com_rst :: bool

text \<open>What the logic drives at an edge.\<close>

record ports =
  fifo_out_data :: u16
  fifo_out_valid :: bool
  fifo_in_ready :: bool
  rst :: bool

text \<open>The constructor leaves one member as it is; \<open>junk\<close> is its value.\<close>

definition sc_ctor :: "bool \<Rightarrow> toplevel" where
  "sc_ctor junk =
     \<lparr>m_chan_data_ok = False, m_chan_ctrl_ok = False, m_int_rst = False, m_trigger_rst = False,
      m_trigger_ctrl_rst = junk, m_input_queue = [], m_output_queue = [], fifo_out_ready = False,
      fifo_in_data = 0, fifo_in_valid = False, ctrl_logic_rst = False, com_rst = False\<rparr>"

definition OUTPUT_BUF_SIZE :: nat where "OUTPUT_BUF_SIZE = 1024"
definition CTRL_MSG_LOGIC_RESET :: u16 where "CTRL_MSG_LOGIC_RESET = 0x0001"

section \<open>The methods\<close>

definition fifo_if_proc :: "ports \<Rightarrow> toplevel \<Rightarrow> toplevel" where
  "fifo_if_proc p s =
     (if m_int_rst s then s
      else (let outq = (if fifo_out_valid p then m_output_queue s @ [fifo_out_data p] else m_output_queue s);
                inq = m_input_queue s
            in s\<lparr>m_output_queue := outq,
                 fifo_out_ready := length outq \<le> OUTPUT_BUF_SIZE,
                 fifo_in_data := (if inq = [] then 0 else hd inq),
                 fifo_in_valid := inq \<noteq> [],
                 m_input_queue := (if fifo_in_ready p \<and> inq \<noteq> [] then tl inq else inq)\<rparr>))"

definition reset_proc :: "ports \<Rightarrow> toplevel \<Rightarrow> toplevel" where
  "reset_proc p s =
     (let int_rst = m_trigger_rst s \<or> rst p
      in if int_rst
         then s\<lparr>m_int_rst := True, com_rst := True, fifo_out_ready := False, fifo_in_valid := False,
                m_input_queue := [], m_output_queue := [], m_trigger_rst := False\<rparr>
         else s\<lparr>m_int_rst := False, com_rst := False\<rparr>)"

definition ctrl_signal_proc :: "toplevel \<Rightarrow> toplevel" where
  "ctrl_signal_proc s =
     (if m_trigger_ctrl_rst s then s\<lparr>ctrl_logic_rst := True, m_trigger_ctrl_rst := False\<rparr>
      else s\<lparr>ctrl_logic_rst := False\<rparr>)"

text \<open>The order in which the three methods run at an edge is the simulator's choice.\<close>

datatype sc_method = Fifo_If | Reset | Ctrl_Signal

fun run_method :: "ports \<Rightarrow> sc_method \<Rightarrow> toplevel \<Rightarrow> toplevel" where
  "run_method p Fifo_If s = fifo_if_proc p s"
| "run_method p Reset s = reset_proc p s"
| "run_method p Ctrl_Signal s = ctrl_signal_proc s"

definition clock_edge :: "sc_method list \<Rightarrow> ports \<Rightarrow> toplevel \<Rightarrow> toplevel" where
  "clock_edge order p s = fold (run_method p) order s"

definition sc_orders :: "sc_method list list" where
  "sc_orders =
     [[Fifo_If, Reset, Ctrl_Signal], [Fifo_If, Ctrl_Signal, Reset], [Reset, Fifo_If, Ctrl_Signal],
      [Reset, Ctrl_Signal, Fifo_If], [Ctrl_Signal, Fifo_If, Reset], [Ctrl_Signal, Reset, Fifo_If]]"

section \<open>Sockets\<close>

text \<open>
  Setting up a listening socket: the results of \<open>socket\<close>, \<open>setsockopt\<close>, \<open>bind\<close> and \<open>listen\<close>; a
  failure of the second is only reported.
\<close>

definition listen_socket :: "int \<Rightarrow> int \<Rightarrow> int \<Rightarrow> int \<Rightarrow> int" where
  "listen_socket sock_rv opt_rv bind_rv listen_rv =
     (if sock_rv = - 1 then - 1 else if bind_rv = - 1 then - 1
      else if listen_rv = - 1 then - 1 else sock_rv)"

text \<open>Each \<open>select\<close> says whether a client is there; then it is accepted.\<close>

fun wait_for_connection :: "bool list \<Rightarrow> int \<Rightarrow> int exec" where
  "wait_for_connection [] accept_rv = Inl Blocked"
| "wait_for_connection (ready # rs) accept_rv =
     (if ready then Inr accept_rv else wait_for_connection rs accept_rv)"

section \<open>The threads\<close>

text \<open>Words in the memory of the host, least significant byte first; an odd last byte is not a word.\<close>

fun words_of :: "u8 list \<Rightarrow> u16 list" where
  "words_of (a # b # bs) = (ucast a OR push_bit 8 (ucast b)) # words_of bs"
| "words_of _ = []"

definition bytes_of :: "u16 list \<Rightarrow> u8 list" where
  "bytes_of ws = concat (map (\<lambda>w. [ucast w, ucast (drop_bit 8 w)]) ws)"

text \<open>A connection of the data channel: nothing happens until the other channel is connected too;
  then the module is reset.\<close>

datatype 'a waiting = Wait 'a | Ready 'a

definition data_connect :: "toplevel \<Rightarrow> toplevel waiting" where
  "data_connect s =
     (let s1 = s\<lparr>m_chan_data_ok := True\<rparr>
      in if \<not> m_chan_ctrl_ok s1 then Wait s1 else Ready (s1\<lparr>m_trigger_rst := True\<rparr>))"

definition ctrl_connect :: "toplevel \<Rightarrow> toplevel waiting" where
  "ctrl_connect s =
     (let s1 = s\<lparr>m_chan_ctrl_ok := True\<rparr> in if \<not> m_chan_data_ok s1 then Wait s1 else Ready s1)"

text \<open>
  A turn of the data channel outside of a reset: at most 1024 words are sent, whatever \<open>write\<close> says
  of them, and at most 2048 bytes are received.  The result says whether the connection goes on.
\<close>

definition tcp_data_turn :: "toplevel \<Rightarrow> line \<Rightarrow> (toplevel \<times> line \<times> bool) exec" where
  "tcp_data_turn s l =
     (if m_int_rst s then Inr (s, l, True)
      else (let outq = m_output_queue s;
                (l1, q1) = (if outq = [] then (l, outq)
                            else (fst (tty_write l (bytes_of (take 1024 outq))), drop 1024 outq));
                s1 = s\<lparr>m_output_queue := q1\<rparr>
            in cbind (tty_read l1 2048) (\<lambda>(l2, r).
                 case r of
                   Io bs \<Rightarrow> if bs = [] then Inr (s1\<lparr>m_chan_data_ok := False\<rparr>, l2, False)
                            else Inr (s1\<lparr>m_input_queue := m_input_queue s1 @ words_of bs\<rparr>, l2, True)
                 | _ \<Rightarrow> Inr (s1, l2, True))))"

definition tcp_ctrl_turn :: "toplevel \<Rightarrow> line \<Rightarrow> (toplevel \<times> line \<times> bool) exec" where
  "tcp_ctrl_turn s l =
     (if m_int_rst s then Inr (s, l, True)
      else cbind (tty_read l 2048) (\<lambda>(l1, r).
        case r of
          Io bs \<Rightarrow> if bs = [] then Inr (s\<lparr>m_chan_ctrl_ok := False\<rparr>, l1, False)
                   else Inr (if CTRL_MSG_LOGIC_RESET \<in> set (words_of bs) then s\<lparr>m_trigger_ctrl_rst := True\<rparr> else s,
                             l1, True)
        | _ \<Rightarrow> Inr (s, l1, True)))"

end
