(* ===== verification/Systemc_Properties.thy ===== *)
theory Systemc_Properties
  imports Systemc Examples
begin

text \<open>
  The properties of the SystemC module.  The interface to the logic is the one of the documentation
  of the FIFOs: a word changes hands at an edge at which both \<open>valid\<close> and \<open>ready\<close> are seen high.
\<close>

section \<open>Runs\<close>

text \<open>The words the logic takes and those it hands over in the course of some edges.\<close>

fun sc_run :: "sc_method list \<Rightarrow> ports list \<Rightarrow> toplevel \<Rightarrow> toplevel \<times> u16 list \<times> u16 list" where
  "sc_run order [] s = (s, [], [])"
| "sc_run order (p # ps) s =
     (let (s', taken, given) = sc_run order ps (clock_edge order p s)
      in (s', (if fifo_in_valid s \<and> fifo_in_ready p then [fifo_in_data s] else []) @ taken,
          (if fifo_out_valid p \<and> fifo_out_ready s then [fifo_out_data p] else []) @ given))"

definition quiet :: "toplevel \<Rightarrow> bool" where
  "quiet s \<longleftrightarrow> \<not> m_int_rst s \<and> \<not> m_trigger_rst s"

lemma sc_orders_cases:
  assumes "order \<in> set sc_orders"
  obtains "order = [Fifo_If, Reset, Ctrl_Signal]" | "order = [Fifo_If, Ctrl_Signal, Reset]"
  | "order = [Reset, Fifo_If, Ctrl_Signal]" | "order = [Reset, Ctrl_Signal, Fifo_If]"
  | "order = [Ctrl_Signal, Fifo_If, Reset]" | "order = [Ctrl_Signal, Reset, Fifo_If]"
  using assms by (auto simp: sc_orders_def)

text \<open>Outside of a reset the order of the methods does not matter.\<close>

lemma clock_edge_quiet:
  assumes "quiet s" and "\<not> rst p" and "order \<in> set sc_orders"
  shows "clock_edge order p s = (fifo_if_proc p s)
    \<lparr>com_rst := False, ctrl_logic_rst := m_trigger_ctrl_rst s, m_trigger_ctrl_rst := False\<rparr>"
  using assms(3)
  by (cases rule: sc_orders_cases)
    (use assms(1,2) in \<open>cases s; simp add: clock_edge_def reset_proc_def ctrl_signal_proc_def fifo_if_proc_def quiet_def Let_def\<close>)+

lemma edge_input:
  assumes "quiet s" and "\<not> rst p" and "order \<in> set sc_orders" and "s' = clock_edge order p s"
  shows "quiet s'"
    and "m_input_queue s' = (if fifo_in_ready p then tl (m_input_queue s) else m_input_queue s)"
    and "fifo_in_valid s' \<longleftrightarrow> m_input_queue s \<noteq> []"
    and "m_input_queue s \<noteq> [] \<Longrightarrow> fifo_in_data s' = hd (m_input_queue s)"
    and "m_output_queue s' = m_output_queue s @ (if fifo_out_valid p then [fifo_out_data p] else [])"
    and "fifo_out_ready s' \<longleftrightarrow> length (m_output_queue s') \<le> OUTPUT_BUF_SIZE"
  unfolding assms(4) clock_edge_quiet [OF assms(1-3)]
  using assms(1) by (auto simp: fifo_if_proc_def quiet_def Let_def)

section \<open>From the host to the logic\<close>

text \<open>The words taken are determined by when the logic is ready: \<open>v\<close> is the word that can be seen.\<close>

fun words_taken :: "bool list \<Rightarrow> u16 list \<Rightarrow> u16 option \<Rightarrow> u16 list" where
  "words_taken [] q v = []"
| "words_taken (r # rs) q v =
     (if r then (case v of None \<Rightarrow> [] | Some w \<Rightarrow> [w]) else []) @
     words_taken rs (if r then tl q else q) (if q = [] then None else Some (hd q))"

definition seen :: "toplevel \<Rightarrow> u16 option" where
  "seen s = (if fifo_in_valid s then Some (fifo_in_data s) else None)"

lemma sc_run_taken:
  assumes "quiet s" and "\<forall>p \<in> set ps. \<not> rst p" and "order \<in> set sc_orders"
  shows "fst (snd (sc_run order ps s)) = words_taken (map fifo_in_ready ps) (m_input_queue s) (seen s)"
  using assms(1,2)
proof (induction ps arbitrary: s)
  case (Cons p ps)
  let ?s = "clock_edge order p s"
  have p: "\<not> rst p" using Cons.prems(2) by simp
  note E = edge_input [OF Cons.prems(1) p assms(3) refl]
  have "fst (snd (sc_run order ps ?s)) = words_taken (map fifo_in_ready ps) (m_input_queue ?s) (seen ?s)"
    using Cons.IH E(1) Cons.prems(2) by simp
  moreover have "seen ?s = (if m_input_queue s = [] then None else Some (hd (m_input_queue s)))"
    using E(3,4) by (simp add: seen_def)
  ultimately show ?case using E(2) by (simp add: Let_def case_prod_beta seen_def)
qed simp

lemma words_taken_empty: "words_taken rs [] None = []"
  by (induction rs) auto

lemma words_taken_ready: "words_taken (replicate n True) q (Some w) = take n (w # q)"
proof (induction n arbitrary: q w)
  case (Suc n)
  then show ?case by (cases q) (simp_all add: words_taken_empty)
qed simp

lemma words_taken_run:
  "m \<le> length q \<Longrightarrow> words_taken (replicate m True @ rs) q (Some w) =
    take m (w # q) @ words_taken rs (drop m q) (Some ((w # q) ! m))"
proof (induction m arbitrary: q w)
  case (Suc m)
  then show ?case by (cases q) simp_all
qed simp

lemma words_taken_pause:
  "words_taken (replicate j False @ rs) q v =
    words_taken rs q (if j = 0 then v else if q = [] then None else Some (hd q))"
  by (induction j arbitrary: v) auto

text \<open>C27: As long as the logic is ready at every edge it takes the words from the host one by one, without
  gap.  A single pause, however long, breaks the stream: the word that is on the port when the
  logic stops is gone, and the one after it is taken twice.\<close>

theorem sc_input_stream:
  assumes "quiet s" and "\<forall>p \<in> set ps. \<not> rst p" and "order \<in> set sc_orders" and "\<not> fifo_in_valid s"
    and "map fifo_in_ready ps = replicate m True @ replicate j False @ replicate k True"
    and "0 < m" and "m + k < length (m_input_queue s)" and "q = m_input_queue s"
  shows "(j = 0 \<longrightarrow> fst (snd (sc_run order ps s)) = take (m + k - 1) q) \<and>
    (0 < j \<and> 0 < k \<longrightarrow>
      fst (snd (sc_run order ps s)) = take (m - 1) q @ q ! m # take (k - 1) (drop m q))"
proof -
  have v: "seen s = None" using assms(4) by (simp add: seen_def)
  obtain m' where m: "m = Suc m'" using assms(6) by (cases m) auto
  obtain w q' where "m_input_queue s = w # q'" using assms(7) by (cases "m_input_queue s") auto
  then have q: "q = w # q'" using assms(8) by simp
  have r: "fst (snd (sc_run order ps s)) =
      words_taken (replicate m' True @ replicate j False @ replicate k True) q' (Some w)"
    unfolding sc_run_taken [OF assms(1-3)] assms(5) v assms(8) [symmetric] m q by simp
  have "m' \<le> length q'" "m' < length q'" using assms(7) m q assms(8) by simp_all
  then have d: "drop m' q' \<noteq> []" "hd (drop m' q') = q' ! m'" by (simp_all add: hd_drop_conv_nth)
  show ?thesis
  proof (intro conjI impI)
    assume "j = 0"
    then show "fst (snd (sc_run order ps s)) = take (m + k - 1) q"
      unfolding r using words_taken_ready [of "m' + k" q' w] by (simp add: replicate_add m q)
  next
    assume jk: "0 < j \<and> 0 < k"
    then obtain k' where k: "k = Suc k'" by (cases k) auto
    show "fst (snd (sc_run order ps s)) = take (m - 1) q @ q ! m # take (k - 1) (drop m q)"
      unfolding r words_taken_run [OF \<open>m' \<le> length q'\<close>] words_taken_pause
      using jk d words_taken_ready [of k "drop m' q'" "q' ! m'"] by (simp add: m q k)
  qed
qed

definition port :: "bool \<Rightarrow> ports" where
  "port r = \<lparr>fifo_out_data = 0, fifo_out_valid = False, fifo_in_ready = r, rst = False\<rparr>"

theorem sc_input_stream_witness:
  "fst (snd (sc_run [Reset, Fifo_If, Ctrl_Signal] (map port [True, True, False, True, True])
      ((sc_ctor False)\<lparr>m_input_queue := [10, 20, 30, 40, 50]\<rparr>))) = [10, 30, 30]"
  using sc_input_stream [of "(sc_ctor False)\<lparr>m_input_queue := [10, 20, 30, 40, 50]\<rparr>"
      "map port [True, True, False, True, True]" "[Reset, Fifo_If, Ctrl_Signal]" 2 1 2 "[10, 20, 30, 40, 50]"]
  by (simp add: quiet_def sc_ctor_def port_def sc_orders_def numeral_2_eq_2)

section \<open>From the logic to the host\<close>

lemma sc_run_given:
  assumes "quiet s" and "\<forall>p \<in> set ps. \<not> rst p" and "order \<in> set sc_orders"
    and "sc_run order ps s = (s', taken, given)"
  shows "m_output_queue s' = m_output_queue s @ map fifo_out_data (filter fifo_out_valid ps) \<and>
    (fifo_out_ready s \<and> length (m_output_queue s) + length ps \<le> OUTPUT_BUF_SIZE \<longrightarrow>
      given = map fifo_out_data (filter fifo_out_valid ps)) \<and>
    (\<not> fifo_out_ready s \<and> OUTPUT_BUF_SIZE < length (m_output_queue s) \<longrightarrow> given = [])"
  using assms(1,2,4)
proof (induction ps arbitrary: s s' taken given)
  case (Cons p ps)
  let ?s = "clock_edge order p s"
  have p: "\<not> rst p" using Cons.prems(2) by simp
  note E = edge_input [OF Cons.prems(1) p assms(3) refl]
  obtain t g where r: "sc_run order ps ?s = (s', t, g)"
    "given = (if fifo_out_valid p \<and> fifo_out_ready s then [fifo_out_data p] else []) @ g"
    using Cons.prems(3) by (auto simp: Let_def split: prod.splits)
  from Cons.IH [OF E(1) _ r(1)] Cons.prems(2) show ?case
    using E(5,6) r(2) by (auto split: if_splits)
qed simp

text \<open>C28: What the logic drives with a valid word is stored at every edge, whether the module has said that
  it is ready or not.  As long as there is room that is the stream of the words handed over; when
  the buffer is full, words that are only held and not handed over are stored all the same, once
  for each edge.\<close>

theorem sc_output_ignores_ready:
  assumes "quiet s" and "\<forall>p \<in> set ps. \<not> rst p" and "order \<in> set sc_orders"
    and "sc_run order ps s = (s', taken, given)"
  shows "m_output_queue s' = m_output_queue s @ map fifo_out_data (filter fifo_out_valid ps) \<and>
    (fifo_out_ready s \<and> length (m_output_queue s) + length ps \<le> OUTPUT_BUF_SIZE \<longrightarrow>
      given = map fifo_out_data (filter fifo_out_valid ps)) \<and>
    (\<not> fifo_out_ready s \<and> OUTPUT_BUF_SIZE < length (m_output_queue s) \<longrightarrow> given = [])"
  by (rule sc_run_given [OF assms])

definition held :: ports where
  "held = \<lparr>fifo_out_data = 7, fifo_out_valid = True, fifo_in_ready = False, rst = False\<rparr>"

theorem sc_output_ignores_ready_witness:
  "\<exists>s' taken. sc_run [Fifo_If, Reset, Ctrl_Signal] [held, held, held]
      ((sc_ctor False)\<lparr>m_output_queue := replicate 1025 0\<rparr>) = (s', taken, []) \<and>
    m_output_queue s' = replicate 1025 0 @ [7, 7, 7]"
proof -
  let ?s = "(sc_ctor False)\<lparr>m_output_queue := replicate 1025 0\<rparr>"
  obtain s' t g where r: "sc_run [Fifo_If, Reset, Ctrl_Signal] [held, held, held] ?s = (s', t, g)"
    by (cases "sc_run [Fifo_If, Reset, Ctrl_Signal] [held, held, held] ?s")
  have p: "quiet ?s" "\<forall>p \<in> set [held, held, held]. \<not> rst p" "[Fifo_If, Reset, Ctrl_Signal] \<in> set sc_orders"
    "\<not> fifo_out_ready ?s" "m_output_queue ?s = replicate 1025 0"
    by (simp_all only: quiet_def sc_ctor_def held_def sc_orders_def toplevel.simps ports.simps list.set insert_iff) simp_all
  have "length (replicate 1025 (0 :: u16)) = 1025" by (rule length_replicate)
  then show ?thesis using sc_output_ignores_ready [OF p(1-3) r] p(4,5) r
    by (simp only: OUTPUT_BUF_SIZE_def) (simp add: held_def)
qed

section \<open>Sockets\<close>

lemma words_of_append: "even (length bs) \<Longrightarrow> words_of (bs @ cs) = words_of bs @ words_of cs"
proof (induction bs rule: words_of.induct)
  case (1 a b bs)
  then show ?case by simp
qed auto

lemma words_of_odd:
  assumes "odd (length bs)"
  shows "words_of bs = words_of (butlast bs)"
proof -
  obtain cs x where b: "bs = cs @ [x]" using assms by (cases bs rule: rev_cases) auto
  then have "even (length cs)" using assms by simp
  then show ?thesis using b by (simp add: words_of_append)
qed

lemma word_of_bytes: "ucast (ucast w :: u8) OR push_bit 8 (ucast (ucast (drop_bit 8 w) :: u8)) = (w :: u16)"
proof (rule bit_word_eqI)
  fix j
  assume "j < LENGTH(16)"
  then have j: "j < 16" by simp
  then have "j - 8 < 8" by linarith
  with j show "bit (ucast (ucast w :: u8) OR push_bit 8 (ucast (ucast (drop_bit 8 w) :: u8)) :: u16) j = bit w j"
    by (cases "j < 8") (auto simp: bit_simps not_less)
qed

lemma words_of_bytes_of: "words_of (bytes_of ws) = ws"
  by (induction ws) (simp_all add: bytes_of_def word_of_bytes)

text \<open>C29: A turn of the data channel outside of a reset hands the oldest words to the socket as their bytes,
  least significant first, and puts the words of what was received behind those that wait.
  Received pieces of an even length make one stream of words however the bytes are cut; the last
  byte of a piece of an odd length is lost, and all bytes behind it change their places.  What the
  socket does not take is lost too.\<close>

theorem sc_data_turn_spec:
  assumes "\<not> m_int_rst s" and "rx l = Rx bs # r" and "bs \<noteq> []" and "length bs \<le> 2048"
    and "m_output_queue s \<noteq> []" and "sent = bytes_of (take 1024 (m_output_queue s))"
  shows "(\<exists>l' k. tcp_data_turn s l = Inr (s\<lparr>m_output_queue := drop 1024 (m_output_queue s),
        m_input_queue := m_input_queue s @ words_of bs\<rparr>, l', True) \<and>
      rx l' = r \<and> tx l' = tx l @ take k sent \<and>
      (tx_script l = [] \<longrightarrow> take k sent = sent) \<and>
      (\<forall>n w. tx_script l = Tx n # w \<longrightarrow> take k sent = take n sent) \<and>
      (\<forall>w. tx_script l = Tx_Again # w \<longrightarrow> take k sent = [])) \<and>
    words_of sent = take 1024 (m_output_queue s) \<and>
    words_of (bs @ cs) = (if even (length bs) then words_of bs @ words_of cs
      else words_of (butlast bs) @ words_of (last bs # cs))"
proof -
  let ?s = "s\<lparr>m_output_queue := drop 1024 (m_output_queue s), m_input_queue := m_input_queue s @ words_of bs\<rparr>"
  obtain l1 where l1: "fst (tty_write l sent) = l1" "rx l1 = Rx bs # r"
    using assms(2) by (auto simp: tty_write_def split: list.splits wr_event.splits)
  have "tty_read l1 2048 = Inr (l1\<lparr>rx := r\<rparr>, Io bs)" using l1(2) assms(4) by (simp add: tty_read_def)
  then have "tcp_data_turn s l = Inr (?s, l1\<lparr>rx := r\<rparr>, True)"
    using assms(1,3,5,6) l1(1) by (simp add: tcp_data_turn_def)
  moreover define k where "k = (case tx_script l of [] \<Rightarrow> length sent | Tx n # _ \<Rightarrow> n | _ \<Rightarrow> 0)"
  then have "tx l1 = tx l @ take k sent" unfolding l1(1) [symmetric]
    by (simp add: tty_write_def split: list.split wr_event.split)
  moreover have "tx_script l = [] \<longrightarrow> take k sent = sent" "\<forall>n w. tx_script l = Tx n # w \<longrightarrow> take k sent = take n sent"
    "\<forall>w. tx_script l = Tx_Again # w \<longrightarrow> take k sent = []"
    by (simp_all add: k_def)
  ultimately have turn: "\<exists>l' k. tcp_data_turn s l = Inr (?s, l', True) \<and>
      rx l' = r \<and> tx l' = tx l @ take k sent \<and>
      (tx_script l = [] \<longrightarrow> take k sent = sent) \<and>
      (\<forall>n w. tx_script l = Tx n # w \<longrightarrow> take k sent = take n sent) \<and>
      (\<forall>w. tx_script l = Tx_Again # w \<longrightarrow> take k sent = [])"
    by (intro exI [of _ "l1\<lparr>rx := r\<rparr>"] exI [of _ k]) simp
  have "words_of sent = take 1024 (m_output_queue s)" unfolding assms(6) by (rule words_of_bytes_of)
  moreover have "words_of (bs @ cs) = (if even (length bs) then words_of bs @ words_of cs
      else words_of (butlast bs) @ words_of (last bs # cs))"
    using words_of_append [of bs cs] words_of_append [of "butlast bs" "last bs # cs"] assms(3)
    by (cases bs rule: rev_cases) auto
  ultimately show ?thesis using turn by blast
qed

theorem sc_data_turn_spec_witness:
  "(\<exists>l' k. tcp_data_turn ((sc_ctor False)\<lparr>m_output_queue := [0x0102]\<rparr>) (line_of [Rx [1, 2, 3]]) =
      Inr ((sc_ctor False)\<lparr>m_input_queue := [0x0201]\<rparr>, l', True) \<and> tx l' = [2, 1]) \<and>
    words_of ([1, 2, 3] @ [4, 5, 6]) = [0x0201, 0x0403, 0x0605] \<and> words_of [1, 2, 3] @ words_of [4, 5, 6] = [0x0201, 0x0504]"
proof -
  have b: "bytes_of [0x0102] = [2, 1]" by (simp add: bytes_of_def)
  show ?thesis
    using sc_data_turn_spec [of "(sc_ctor False)\<lparr>m_output_queue := [0x0102]\<rparr>" "line_of [Rx [1, 2, 3]]" "[1, 2, 3]" "[]" "[2, 1]", THEN conjunct1]
    by (simp add: sc_ctor_def line_of_def b) auto
qed

section \<open>Reset\<close>

text \<open>When both channels are connected the module resets itself at the next edge, in whatever order its
  methods run: both queues are emptied, nothing is offered to the logic and nothing is taken from it, and
  the logic is told of the reset for exactly one edge.\<close>

theorem sc_reset_spec:
  assumes "order \<in> set sc_orders" and "m_chan_ctrl_ok s" and "\<not> rst p'"
    and "data_connect s = Ready s0" and "s1 = clock_edge order p s0" and "s2 = clock_edge order p' s1"
  shows "m_input_queue s1 = [] \<and> m_output_queue s1 = [] \<and> com_rst s1 \<and> \<not> fifo_in_valid s1 \<and> \<not> fifo_out_ready s1 \<and>
    m_int_rst s1 \<and> (\<forall>l. tcp_data_turn s1 l = Inr (s1, l, True)) \<and> \<not> com_rst s2 \<and> quiet s2 \<and> m_input_queue s2 = []"
proof -
  have s0: "s0 = s\<lparr>m_chan_data_ok := True, m_trigger_rst := True\<rparr>"
    using assms(2,4) by (simp add: data_connect_def)
  have one: "m_input_queue s1 = [] \<and> m_output_queue s1 = [] \<and> com_rst s1 \<and> \<not> fifo_in_valid s1 \<and>
      \<not> fifo_out_ready s1 \<and> m_int_rst s1 \<and> \<not> m_trigger_rst s1"
    unfolding assms(5) using assms(1)
    by (cases rule: sc_orders_cases)
      (simp_all add: s0 clock_edge_def reset_proc_def ctrl_signal_proc_def fifo_if_proc_def Let_def)
  have "\<not> com_rst s2 \<and> quiet s2 \<and> m_input_queue s2 = []"
    unfolding assms(6) using assms(1)
    by (cases rule: sc_orders_cases)
      (use one assms(3) in \<open>auto simp: clock_edge_def reset_proc_def ctrl_signal_proc_def fifo_if_proc_def quiet_def Let_def\<close>)
  then show ?thesis using one by (simp add: tcp_data_turn_def)
qed

theorem sc_reset_spec_witness:
  "\<exists>s0. data_connect ((sc_ctor False)\<lparr>m_chan_ctrl_ok := True, m_output_queue := [1]\<rparr>) = Ready s0 \<and>
    m_output_queue (clock_edge [Reset, Fifo_If, Ctrl_Signal] (port True) s0) = []"
proof -
  let ?s = "(sc_ctor False)\<lparr>m_chan_ctrl_ok := True, m_output_queue := [1]\<rparr>"
  obtain s0 where s0: "data_connect ?s = Ready s0" by (simp add: data_connect_def)
  have "[Reset, Fifo_If, Ctrl_Signal] \<in> set sc_orders" "m_chan_ctrl_ok ?s" "\<not> rst (port True)"
    by (simp_all add: sc_orders_def port_def)
  from sc_reset_spec [OF this s0 refl refl] show ?thesis using s0 by blast
qed

end
