(* ===== verification/Dpi_Bridge.thy ===== *)
theory Dpi_Bridge
  imports Dpi_Properties
begin

text \<open>
  The module that connects the endpoint to a design in a simulator,
  \<^verbatim>\<open>backend_tcp/logic/dpi/glip_tcp_toplevel.sv\<close>, and the C functions of \<^verbatim>\<open>glip_tcp_dpi.cpp\<close> it calls: at a
  falling edge it puts a word on the port to the design and says whether it takes one, at a rising edge the words that
  both sides agreed on are handed over.
\<close>

section \<open>The functions called from the simulator\<close>

text \<open>The handle is a null pointer when the object could not be created.\<close>

definition with_object :: "'q glip_tcp option \<Rightarrow> ('q glip_tcp \<Rightarrow> 'a exec) \<Rightarrow> 'a exec" where
  "with_object obj f = (case obj of None \<Rightarrow> Inl Mem_Fault | Some g \<Rightarrow> f g)"

definition GlipTcp_connected :: "'q glip_tcp \<Rightarrow> bool" where
  "GlipTcp_connected g = mConnected g"

definition glip_tcp_reset :: "'q spsc_ops \<Rightarrow> 'q glip_tcp option \<Rightarrow> ('q glip_tcp option \<times> int) exec" where
  "glip_tcp_reset ops obj = with_object obj (\<lambda>g.
     case GlipTcp_reset ops g of None \<Rightarrow> Inl Blocked | Some g' \<Rightarrow> Inr (Some g', 0))"

definition glip_tcp_connected :: "'q glip_tcp option \<Rightarrow> int exec" where
  "glip_tcp_connected obj = with_object obj (\<lambda>g. Inr (if GlipTcp_connected g then 1 else 0))"

definition glip_tcp_next_cycle :: "'q spsc_ops \<Rightarrow> 'q glip_tcp option \<Rightarrow> ('q glip_tcp option \<times> u32) exec" where
  "glip_tcp_next_cycle ops obj = with_object obj (\<lambda>g.
     cbind (next_cycle ops g) (\<lambda>(g', state). Inr (Some g', state)))"

definition glip_tcp_control_msg :: "'q glip_tcp option \<Rightarrow> ('q glip_tcp option \<times> u32) exec" where
  "glip_tcp_control_msg obj = with_object obj (\<lambda>g. let (g', m) = control_msg g in Inr (Some g', m))"

definition glip_tcp_read :: "'q glip_tcp option \<Rightarrow> u64 exec" where
  "glip_tcp_read obj = with_object obj readData"

definition glip_tcp_read_ack :: "'q glip_tcp option \<Rightarrow> 'q glip_tcp option exec" where
  "glip_tcp_read_ack obj = with_object obj (\<lambda>g. Inr (Some (readAck g)))"

definition glip_tcp_write :: "'q glip_tcp option \<Rightarrow> u64 \<Rightarrow> 'q glip_tcp option exec" where
  "glip_tcp_write obj data = with_object obj (\<lambda>g. cbind (writeData g data) (\<lambda>g'. Inr (Some g')))"

lemmas dpi_calls = with_object_def glip_tcp_connected_def glip_tcp_next_cycle_def glip_tcp_control_msg_def
  glip_tcp_read_def glip_tcp_read_ack_def glip_tcp_write_def GlipTcp_connected_def

section \<open>The module\<close>

text \<open>Its registers.  Those on the ports are unknown before the first edge; \<open>False\<close> stands for that too.\<close>

record 'q dpi_bridge =
  tcp_obj :: "'q glip_tcp option"
  com_rst :: bool
  logic_rst :: bool
  in_data :: u64
  in_valid :: bool
  out_ready :: bool

definition STATE_MASK_CTRL :: u32 where "STATE_MASK_CTRL = 0x1"
definition STATE_MASK_READ :: u32 where "STATE_MASK_READ = 0x2"
definition STATE_MASK_WRITE :: u32 where "STATE_MASK_WRITE = 0x4"

definition bridge_create :: "'q glip_tcp option \<Rightarrow> 'q dpi_bridge" where
  "bridge_create obj = \<lparr>tcp_obj = obj, com_rst = False, logic_rst = False, in_data = 0, in_valid = False, out_ready = False\<rparr>"

text \<open>The parts of the block for the falling edge, one for each call, and the block.\<close>

definition fall_connected :: "'q dpi_bridge \<Rightarrow> 'q dpi_bridge exec" where
  "fall_connected b = cbind (glip_tcp_connected (tcp_obj b)) (\<lambda>connected. Inr (b\<lparr>com_rst := \<not> 0 < connected\<rparr>))"

definition fall_cycle :: "'q spsc_ops \<Rightarrow> 'q dpi_bridge \<Rightarrow> ('q dpi_bridge \<times> u32) exec" where
  "fall_cycle ops b = cbind (glip_tcp_next_cycle ops (tcp_obj b)) (\<lambda>(obj, state). Inr (b\<lparr>tcp_obj := obj\<rparr>, state))"

definition fall_control :: "u32 \<Rightarrow> 'q dpi_bridge \<Rightarrow> 'q dpi_bridge exec" where
  "fall_control state b =
     (if state AND STATE_MASK_CTRL \<noteq> 0
      then cbind (glip_tcp_control_msg (tcp_obj b)) (\<lambda>(obj, data). Inr (b\<lparr>tcp_obj := obj, logic_rst := bit data 0\<rparr>))
      else Inr (b\<lparr>logic_rst := False\<rparr>))"

definition fall_read :: "nat \<Rightarrow> u32 \<Rightarrow> 'q dpi_bridge \<Rightarrow> 'q dpi_bridge exec" where
  "fall_read width state b =
     cbind (if state AND STATE_MASK_READ \<noteq> 0
            then cbind (glip_tcp_read (tcp_obj b)) (\<lambda>data. Inr (b\<lparr>in_data := take_bit width data, in_valid := True\<rparr>))
            else Inr (b\<lparr>in_valid := False\<rparr>)) (\<lambda>b'.
     Inr (b'\<lparr>out_ready := state AND STATE_MASK_WRITE \<noteq> 0\<rparr>))"

definition on_negedge :: "'q spsc_ops \<Rightarrow> nat \<Rightarrow> bool \<Rightarrow> 'q dpi_bridge \<Rightarrow> 'q dpi_bridge exec" where
  "on_negedge ops width rst b =
     (if rst then Inr (b\<lparr>logic_rst := False, com_rst := False\<rparr>)
      else cbind (fall_connected b) (\<lambda>b1.
           cbind (fall_cycle ops b1) (\<lambda>(b2, state).
           cbind (fall_control state b2) (\<lambda>b3. fall_read width state b3))))"

text \<open>The rising edge, with what the design drives.\<close>

definition rise_ack :: "bool \<Rightarrow> 'q dpi_bridge \<Rightarrow> 'q dpi_bridge exec" where
  "rise_ack in_ready b =
     (if in_valid b \<and> in_ready then cbind (glip_tcp_read_ack (tcp_obj b)) (\<lambda>obj. Inr (b\<lparr>tcp_obj := obj\<rparr>)) else Inr b)"

definition rise_write :: "nat \<Rightarrow> bool \<Rightarrow> u64 \<Rightarrow> 'q dpi_bridge \<Rightarrow> 'q dpi_bridge exec" where
  "rise_write width out_valid out_data b =
     (if out_valid \<and> out_ready b
      then cbind (glip_tcp_write (tcp_obj b) (take_bit width out_data)) (\<lambda>obj. Inr (b\<lparr>tcp_obj := obj\<rparr>)) else Inr b)"

definition on_posedge :: "nat \<Rightarrow> bool \<Rightarrow> bool \<Rightarrow> u64 \<Rightarrow> 'q dpi_bridge \<Rightarrow> 'q dpi_bridge exec" where
  "on_posedge width in_ready out_valid out_data b =
     cbind (rise_ack in_ready b) (\<lambda>b'. rise_write width out_valid out_data b')"

section \<open>The simulator and the thread of the endpoint\<close>

text \<open>
  Where the simulator is.  Between any two of its calls the thread may work on the queues.  \<open>came\<close> are the bytes that
  arrived, \<open>sent_on\<close> those that left, \<open>taken\<close> and \<open>given\<close> the words the design took and gave.
\<close>

datatype bridge_pc = At_Fall | At_Cycle | At_Control u32 | At_Read u32 | At_Rise | At_Write bool u64

record 'q dpi_sys =
  bridge :: "'q dpi_bridge"
  pc :: bridge_pc
  came :: "u8 list"
  sent_on :: "u8 list"
  taken :: "u64 list"
  given :: "u64 list"

text \<open>The next call, with what the design drives at a rising edge.\<close>

definition edge_step :: "'q spsc_ops \<Rightarrow> nat \<Rightarrow> bool \<Rightarrow> bool \<Rightarrow> u64 \<Rightarrow> 'q dpi_sys \<Rightarrow> 'q dpi_sys exec" where
  "edge_step ops width r v d s =
     (let b = bridge s in case pc s of
        At_Fall \<Rightarrow> cbind (fall_connected b) (\<lambda>b'. Inr (s\<lparr>bridge := b', pc := At_Cycle\<rparr>))
      | At_Cycle \<Rightarrow> cbind (fall_cycle ops b) (\<lambda>(b', state). Inr (s\<lparr>bridge := b', pc := At_Control state\<rparr>))
      | At_Control state \<Rightarrow> cbind (fall_control state b) (\<lambda>b'. Inr (s\<lparr>bridge := b', pc := At_Read state\<rparr>))
      | At_Read state \<Rightarrow> cbind (fall_read width state b) (\<lambda>b'. Inr (s\<lparr>bridge := b', pc := At_Rise\<rparr>))
      | At_Rise \<Rightarrow> cbind (rise_ack r b) (\<lambda>b'. Inr (s\<lparr>bridge := b', pc := At_Write v d,
          taken := taken s @ (if in_valid b \<and> r then [in_data b] else [])\<rparr>))
      | At_Write v' d' \<Rightarrow> cbind (rise_write width v' d' b) (\<lambda>b'. Inr (s\<lparr>bridge := b', pc := At_Fall,
          given := given s @ (if v' \<and> out_ready b then [take_bit width d'] else [])\<rparr>)))"

text \<open>The thread of the endpoint over an open connection: one operation on a queue.\<close>

inductive thread_step :: "'q spsc_ops \<Rightarrow> 'q dpi_sys \<Rightarrow> 'q dpi_sys \<Rightarrow> bool" for ops where
  control: "tcp_obj (bridge s) = Some g \<Longrightarrow> q_push ops (mControl g) d = Some q \<Longrightarrow>
    thread_step ops s (s\<lparr>bridge := (bridge s)\<lparr>tcp_obj := Some (g\<lparr>mControl := q\<rparr>)\<rparr>\<rparr>)"
| incoming: "tcp_obj (bridge s) = Some g \<Longrightarrow> q_push ops (mDataIn g) d = Some q \<Longrightarrow>
    thread_step ops s (s\<lparr>bridge := (bridge s)\<lparr>tcp_obj := Some (g\<lparr>mDataIn := q\<rparr>)\<rparr>, came := came s @ [d]\<rparr>)"
| outgoing: "tcp_obj (bridge s) = Some g \<Longrightarrow> q_pop ops (mDataOut g) = Some (q, d) \<Longrightarrow>
    thread_step ops s (s\<lparr>bridge := (bridge s)\<lparr>tcp_obj := Some (g\<lparr>mDataOut := q\<rparr>)\<rparr>, sent_on := sent_on s @ [d]\<rparr>)"

inductive dpi_reach :: "'q spsc_ops \<Rightarrow> nat \<Rightarrow> 'q dpi_sys \<Rightarrow> 'q dpi_sys \<Rightarrow> bool" for ops width s0 where
  start: "dpi_reach ops width s0 s0"
| edge: "dpi_reach ops width s0 s \<Longrightarrow> edge_step ops width r v d s = Inr s' \<Longrightarrow> dpi_reach ops width s0 s'"
| thread: "dpi_reach ops width s0 s \<Longrightarrow> thread_step ops s s' \<Longrightarrow> dpi_reach ops width s0 s'"

text \<open>The state when a connection has been accepted.\<close>

definition just_connected :: "'q spsc_ops \<Rightarrow> 'q dpi_bridge \<Rightarrow> 'q dpi_sys \<Rightarrow> bool" where
  "just_connected ops b s \<longleftrightarrow> (\<exists>g g'. tcp_obj b = Some g \<and> on_connect ops g = Some g' \<and>
     s = \<lparr>bridge = b\<lparr>tcp_obj := Some g'\<rparr>, pc = At_Fall, came = [], sent_on = [], taken = [], given = []\<rparr>)"

end
