(* ===== verification/Dpi_Bridge_Properties.thy ===== *)
theory Dpi_Bridge_Properties
  imports Dpi_Bridge
begin

text \<open>
  The module between the endpoint and the design keeps both streams in every state that the calls of the simulator and
  the operations of the thread can lead to, and none of its calls faults.  What a new connection or a reset
  in the wrong moment does is shown beside it.
\<close>

section \<open>Items and their bytes\<close>

definition item_bytes :: "nat \<Rightarrow> u64 \<Rightarrow> u8 list" where
  "item_bytes n v = map (out_byte n v) [0 ..< n]"

lemma length_item_bytes [simp]: "length (item_bytes n v) = n"
  by (simp add: item_bytes_def)

lemma out_byte_holds:
  assumes "holds n bs v" and "k < length bs" and "length bs \<le> n"
  shows "out_byte n v k = bs ! k"
proof (rule bit_word_eqI)
  fix i
  assume "i < LENGTH(8)"
  then have i: "i < 8" by simp
  define j where "j = (n - k - 1) * 8 + i"
  have d: "j div 8 = n - k - 1" "j mod 8 = i" using i by (simp_all add: j_def)
  have "(n - k - 1) * 8 + 8 \<le> 8 * n" using assms(2,3) by (simp add: algebra_simps)
  then have "j < 8 * n" using i by (simp add: j_def)
  then have "bit v j \<longleftrightarrow> n - 1 - j div 8 < length bs \<and> bit (bs ! (n - 1 - j div 8)) (j mod 8)"
    using assms(1) by (simp add: holds_def)
  moreover have "n - 1 - (n - k - 1) = k" using assms(2,3) by simp
  ultimately have "bit v j \<longleftrightarrow> bit (bs ! k) i" unfolding d using assms(2) by simp
  then show "bit (out_byte n v k) i \<longleftrightarrow> bit (bs ! k) i"
    using i by (simp add: out_byte_def bit_simps j_def)
qed

lemma take_item_bytes:
  assumes "holds n bs v" and "length bs \<le> n"
  shows "take (length bs) (item_bytes n v) = bs"
  using assms by (intro nth_equalityI) (simp_all add: item_bytes_def out_byte_holds)

lemma item_bytes_take_bit [simp]: "item_bytes n (take_bit (8 * n) v) = item_bytes n v"
proof -
  have "out_byte n (take_bit (8 * n) v) k = out_byte n v k" if "k < n" for k
  proof (rule bit_word_eqI)
    fix i
    assume "i < LENGTH(8)"
    moreover have "(n - k - 1) * 8 + 8 \<le> 8 * n" using that by (simp add: algebra_simps)
    ultimately have "(n - k - 1) * 8 + i < 8 * n" by simp
    then show "bit (out_byte n (take_bit (8 * n) v) k) i \<longleftrightarrow> bit (out_byte n v k) i"
      by (auto simp: out_byte_def bit_simps)
  qed
  then show ?thesis by (simp add: item_bytes_def)
qed

section \<open>A cycle of the endpoint\<close>

text \<open>An item being received holds the bytes it counts; when it is valid, all of them.\<close>

definition read_ok :: "nat \<Rightarrow> temp_storage \<Rightarrow> bool" where
  "read_ok n it \<longleftrightarrow> (\<exists>bs. ts_partial it = length bs \<and> holds n bs (ts_value it) \<and>
     (if ts_valid it then length bs = n else length bs < n))"

definition read_held :: "'q glip_tcp \<Rightarrow> u8 list" where
  "read_held g = take (ts_partial (mReadItem g)) (item_bytes (mNumBytes g) (ts_value (mReadItem g)))"

definition to_leave :: "'q glip_tcp \<Rightarrow> u8 list" where
  "to_leave g = (if ts_valid (mWriteItem g)
     then drop (ts_partial (mWriteItem g)) (item_bytes (mNumBytes g) (ts_value (mWriteItem g))) else [])"

definition endpoint_ok :: "('q \<Rightarrow> nat) \<Rightarrow> ('q \<Rightarrow> u8 list) \<Rightarrow> nat \<Rightarrow> 'q glip_tcp \<Rightarrow> bool" where
  "endpoint_ok cap bytes n g \<longleftrightarrow> mNumBytes g = n \<and> mConnected g \<and> read_ok n (mReadItem g) \<and>
     ts_partial (mControlItem g) \<le> 2 \<and> ts_partial (mWriteItem g) \<le> n \<and> length (bytes (mDataOut g)) \<le> cap (mDataOut g)"

lemma read_ok_no_item: "0 < n \<Longrightarrow> read_ok n no_item"
  by (auto simp: read_ok_def no_item_def holds_Nil intro!: exI [of _ "[]"])

lemma read_ok_collecting: "read_ok n it \<Longrightarrow> \<not> ts_valid it \<Longrightarrow> \<exists>bs. collecting n bs it"
  by (auto simp: read_ok_def collecting_def)

lemma pop_item_total:
  assumes "spsc_laws ops cap bytes" and "n \<le> 4" and "i \<le> n" and "ts_partial it = i"
  shows "\<exists>q' it'. pop_item ops n i q it = Inr (q', it') \<and> ts_partial it' \<le> n \<and> ts_valid it' = ts_valid it"
  using assms(3,4)
proof (induction "n - i" arbitrary: i q it)
  case 0
  then show ?case by (subst pop_item.simps) simp
next
  case (Suc m)
  then have i: "i < n" "\<not> 4 \<le> n - i - 1" using assms(2) by simp_all
  show ?case
  proof (cases "q_pop ops q")
    case None
    then show ?thesis using i Suc.prems by (subst pop_item.simps) simp
  next
    case (Some x)
    obtain q1 d where x: "x = (q1, d)" by fastforce
    obtain w where w: "byte_at d (n - i - 1) = Inr w" using i(2) by (simp add: byte_at_def)
    let ?it = "it\<lparr>ts_value := ts_value it OR w, ts_partial := ts_partial it + 1\<rparr>"
    have "m = n - Suc i" "Suc i \<le> n" "ts_partial ?it = Suc i" using Suc.hyps(2) Suc.prems i by simp_all
    from Suc.hyps(1) [OF this, of q1]
    show ?thesis using Some x i w by (subst pop_item.simps) simp
  qed
qed

lemma cycle_control_total:
  assumes "spsc_laws ops cap bytes" and "\<not> ts_valid (mControlItem g)" and "ts_partial (mControlItem g) \<le> 2"
  shows "\<exists>q it. cycle_control ops g = Inr (g\<lparr>mControl := q, mControlItem := it\<rparr>, if ts_valid it then 1 else 0) \<and> ts_partial it \<le> 2"
proof -
  obtain q it where p: "pop_item ops 2 (ts_partial (mControlItem g)) (mControl g) (mControlItem g) = Inr (q, it)"
    "ts_partial it \<le> 2" "\<not> ts_valid it"
    using pop_item_total [OF assms(1), of 2 "ts_partial (mControlItem g)" "mControlItem g" "mControl g"] assms(2,3) by auto
  show ?thesis
  proof (cases "ts_partial it = 2")
    case True
    then show ?thesis using p(1) assms(2)
      by (intro exI [of _ q] exI [of _ "it\<lparr>ts_valid := True\<rparr>"]) (simp add: cycle_control_def c_assert_def CONTROL_AVAILABLE_def)
  next
    case False
    then show ?thesis using p assms(2)
      by (intro exI [of _ q] exI [of _ it]) (simp add: cycle_control_def c_assert_def)
  qed
qed

lemma cycle_incoming_keeps:
  assumes "spsc_laws ops cap bytes" and "mNumBytes g = n" and "n \<le> 4" and "read_ok n (mReadItem g)"
    and "all = read_held g @ bytes (mDataIn g)"
  shows "\<exists>q it. cycle_incoming ops g = Inr (g\<lparr>mDataIn := q, mReadItem := it\<rparr>, if ts_valid it then 2 else 0) \<and>
    read_ok n it \<and> (ts_valid it \<longleftrightarrow> n \<le> length all) \<and> take (ts_partial it) (item_bytes n (ts_value it)) @ bytes q = all"
proof -
  obtain bs where bs: "ts_partial (mReadItem g) = length bs" "holds n bs (ts_value (mReadItem g))"
    "if ts_valid (mReadItem g) then length bs = n else length bs < n"
    using assms(4) by (auto simp: read_ok_def)
  then have le: "length bs \<le> n" by (auto split: if_splits)
  have all: "all = bs @ bytes (mDataIn g)"
    using assms(2,5) bs(1) take_item_bytes [OF bs(2) le] by (simp add: read_held_def)
  show ?thesis
  proof (cases "ts_valid (mReadItem g)")
    case True
    then show ?thesis using bs assms(4,5) all take_item_bytes [OF bs(2) le]
      by (intro exI [of _ "mDataIn g"] exI [of _ "mReadItem g"]) (simp add: cycle_incoming_def INCOMING_AVAILABLE_def)
  next
    case False
    define k where "k = min (n - length bs) (length (bytes (mDataIn g)))"
    obtain q it where p: "pop_item ops n (length bs) (mDataIn g) (mReadItem g) = Inr (q, it)"
      "bytes q = drop k (bytes (mDataIn g))" "ts_partial it = length bs + k" "\<not> ts_valid it"
      "holds n (bs @ take k (bytes (mDataIn g))) (ts_value it)"
      using pop_item_ok [OF assms(1,3) bs(2,1) le k_def] False by auto
    let ?all = "bs @ take k (bytes (mDataIn g))"
    have l: "length ?all = length bs + k" "length ?all \<le> n" using le by (simp_all add: k_def)
    have h: "take (length bs + k) (item_bytes n (ts_value it)) = ?all" using take_item_bytes [OF p(5) l(2)] l(1) by simp
    show ?thesis
    proof (cases "length bs + k = n")
      case True
      have "read_ok n (it\<lparr>ts_valid := True\<rparr>)" using True p(3,5) l by (auto simp: read_ok_def intro!: exI [of _ ?all])
      moreover have "n \<le> length all" using True all l by (simp add: k_def)
      moreover have "item_bytes n (ts_value it) = ?all" using h unfolding True by simp
      then have "item_bytes n (ts_value it) @ bytes q = all" using p(2) all by simp
      ultimately show ?thesis using True False bs(1) p(1,3,4) assms(2)
        by (intro exI [of _ q] exI [of _ "it\<lparr>ts_valid := True\<rparr>"]) (simp add: cycle_incoming_def INCOMING_AVAILABLE_def)
    next
      case no: False
      have "read_ok n it" using no p(3,4,5) l by (auto simp: read_ok_def intro!: exI [of _ ?all])
      moreover have "\<not> n \<le> length all" using no all le by (simp add: k_def)
      moreover have "?all @ bytes q = all" using p(2) all by simp
      ultimately show ?thesis using no False bs(1) p(1,3,4) assms(2) h
        by (intro exI [of _ q] exI [of _ it]) (simp add: cycle_incoming_def)
    qed
  qed
qed

lemma cycle_outgoing_keeps:
  assumes "spsc_laws ops cap bytes" and "mNumBytes g = n" and "ts_partial (mWriteItem g) \<le> n"
    and "length (bytes (mDataOut g)) \<le> cap (mDataOut g)"
  shows "\<exists>q it. cycle_outgoing ops g = (g\<lparr>mDataOut := q, mWriteItem := it\<rparr>, if ts_valid it then 0 else 4) \<and>
    ts_partial it \<le> n \<and> length (bytes q) \<le> cap q \<and>
    bytes q @ to_leave (g\<lparr>mDataOut := q, mWriteItem := it\<rparr>) = bytes (mDataOut g) @ to_leave g \<and>
    (ts_valid it \<longleftrightarrow> cap (mDataOut g) < length (bytes (mDataOut g)) + length (to_leave g))"
proof (cases "ts_valid (mWriteItem g)")
  case False
  then show ?thesis using assms(3,4)
    by (intro exI [of _ "mDataOut g"] exI [of _ "mWriteItem g"]) (simp add: cycle_outgoing_def to_leave_def OUTGOING_READY_def)
next
  case True
  let ?it = "mWriteItem g" and ?i = "ts_partial (mWriteItem g)"
  define k where "k = min (n - ?i) (cap (mDataOut g) - length (bytes (mDataOut g)))"
  have kk: "?i + k \<le> n" "length (bytes (mDataOut g)) + k \<le> cap (mDataOut g)"
    "?i + k < n \<Longrightarrow> length (bytes (mDataOut g)) + k = cap (mDataOut g)"
    using assms(3,4) by (auto simp: k_def)
  obtain q where q: "push_item ops n ?i (mDataOut g) ?it = (q, ?it\<lparr>ts_partial := ?i + k\<rparr>)"
    "bytes q = bytes (mDataOut g) @ map (out_byte n (ts_value ?it)) [?i ..< ?i + k]" "cap q = cap (mDataOut g)"
    using push_item_ok [OF assms(1) kk] by blast
  have k: "?i + k \<le> n" "length (bytes q) \<le> cap q" using assms(3,4) q(2,3) by (simp_all add: k_def)
  have d: "drop ?i (item_bytes n (ts_value ?it)) = map (out_byte n (ts_value ?it)) [?i ..< ?i + k] @
      drop (?i + k) (item_bytes n (ts_value ?it))"
    using k(1) upt_add_eq_append [of ?i "?i + k" "n - (?i + k)"] by (simp add: item_bytes_def drop_map)
  have len: "length (to_leave g) = n - ?i" using True assms(2) by (simp add: to_leave_def)
  show ?thesis
  proof (cases "?i + k = n")
    case e: True
    then show ?thesis using True q k d assms(2) len
      by (intro exI [of _ q] exI [of _ "?it\<lparr>ts_partial := n, ts_valid := False\<rparr>"])
        (simp add: cycle_outgoing_def to_leave_def OUTGOING_READY_def)
  next
    case ne: False
    then have "cap (mDataOut g) < length (bytes (mDataOut g)) + (n - ?i)" using k(1) by (simp add: k_def)
    then show ?thesis using True ne q k d assms(2) len
      by (intro exI [of _ q] exI [of _ "?it\<lparr>ts_partial := ?i + k\<rparr>"])
        (simp add: cycle_outgoing_def to_leave_def)
  qed
qed

text \<open>What the simulator is told: the mask of a state between two of its calls.\<close>

definition state_of :: "'q glip_tcp \<Rightarrow> u32" where
  "state_of g = (if ts_valid (mControlItem g) then 1 else 0) OR (if ts_valid (mReadItem g) then 2 else 0) OR
     (if ts_valid (mWriteItem g) then 0 else 4)"

lemma state_of_masks [simp]:
  "state_of g AND STATE_MASK_CTRL \<noteq> 0 \<longleftrightarrow> ts_valid (mControlItem g)"
  "state_of g AND STATE_MASK_CTRL = 0 \<longleftrightarrow> \<not> ts_valid (mControlItem g)"
  "state_of g AND STATE_MASK_READ \<noteq> 0 \<longleftrightarrow> ts_valid (mReadItem g)"
  "state_of g AND STATE_MASK_READ = 0 \<longleftrightarrow> \<not> ts_valid (mReadItem g)"
  "state_of g AND STATE_MASK_WRITE \<noteq> 0 \<longleftrightarrow> \<not> ts_valid (mWriteItem g)"
  "state_of g AND STATE_MASK_WRITE = 0 \<longleftrightarrow> ts_valid (mWriteItem g)"
  by (auto simp: state_of_def STATE_MASK_CTRL_def STATE_MASK_READ_def STATE_MASK_WRITE_def)

text \<open>Both streams, up to what is under way in the items.\<close>

definition in_stream :: "('q \<Rightarrow> u8 list) \<Rightarrow> 'q glip_tcp \<Rightarrow> u8 list" where
  "in_stream bytes g = read_held g @ bytes (mDataIn g)"

definition out_stream :: "('q \<Rightarrow> u8 list) \<Rightarrow> 'q glip_tcp \<Rightarrow> u8 list" where
  "out_stream bytes g = bytes (mDataOut g) @ to_leave g"

lemma next_cycle_ok:
  assumes "spsc_laws ops cap bytes" and "n \<le> 4" and "endpoint_ok cap bytes n g" and "\<not> ts_valid (mControlItem g)"
  shows "\<exists>g'. next_cycle ops g = Inr (g', state_of g') \<and> endpoint_ok cap bytes n g' \<and>
    in_stream bytes g' = in_stream bytes g \<and> out_stream bytes g' = out_stream bytes g \<and>
    (ts_valid (mReadItem g') \<longleftrightarrow> n \<le> length (in_stream bytes g)) \<and>
    (ts_valid (mWriteItem g') \<longleftrightarrow> cap (mDataOut g) < length (out_stream bytes g))"
proof -
  note e = assms(3) [unfolded endpoint_ok_def]
  obtain c ci where c: "cycle_control ops g = Inr (g\<lparr>mControl := c, mControlItem := ci\<rparr>, if ts_valid ci then 1 else 0)"
    "ts_partial ci \<le> 2"
    using cycle_control_total [OF assms(1,4)] e by blast
  let ?g1 = "g\<lparr>mControl := c, mControlItem := ci\<rparr>"
  have r1: "mNumBytes ?g1 = n" "read_ok n (mReadItem ?g1)"
    "in_stream bytes g = read_held ?g1 @ bytes (mDataIn ?g1)"
    using e by (simp_all add: in_stream_def read_held_def)
  obtain q it where i: "cycle_incoming ops ?g1 = Inr (?g1\<lparr>mDataIn := q, mReadItem := it\<rparr>, if ts_valid it then 2 else 0)"
    "read_ok n it" "ts_valid it \<longleftrightarrow> n \<le> length (in_stream bytes g)"
    "take (ts_partial it) (item_bytes n (ts_value it)) @ bytes q = in_stream bytes g"
    using cycle_incoming_keeps [OF assms(1) r1(1) assms(2) r1(2,3)] by blast
  let ?g2 = "?g1\<lparr>mDataIn := q, mReadItem := it\<rparr>"
  have w: "mNumBytes ?g2 = n" "ts_partial (mWriteItem ?g2) \<le> n" "length (bytes (mDataOut ?g2)) \<le> cap (mDataOut ?g2)"
    using e by simp_all
  have l: "to_leave ?g2 = to_leave g" by (simp add: to_leave_def)
  obtain d wi where o: "cycle_outgoing ops ?g2 = (?g2\<lparr>mDataOut := d, mWriteItem := wi\<rparr>, if ts_valid wi then 0 else 4)"
    "ts_partial wi \<le> n" "length (bytes d) \<le> cap d"
    "bytes d @ to_leave (?g2\<lparr>mDataOut := d, mWriteItem := wi\<rparr>) = bytes (mDataOut g) @ to_leave g"
    "ts_valid wi \<longleftrightarrow> cap (mDataOut g) < length (bytes (mDataOut g)) + length (to_leave g)"
    using cycle_outgoing_keeps [OF assms(1) w] unfolding l by auto
  let ?g3 = "?g2\<lparr>mDataOut := d, mWriteItem := wi\<rparr>"
  have "next_cycle ops g = Inr (?g3, state_of ?g3)"
    using e c(1) i(1) o(1) by (simp add: next_cycle_def state_of_def or.assoc)
  moreover have "endpoint_ok cap bytes n ?g3" using e c(2) i(2) o(2,3) by (simp add: endpoint_ok_def)
  moreover have "in_stream bytes ?g3 = in_stream bytes g"
    using i(4) e by (simp add: in_stream_def read_held_def)
  moreover have "out_stream bytes ?g3 = out_stream bytes g" using o(4) by (simp add: out_stream_def)
  moreover have "ts_valid (mWriteItem ?g3) \<longleftrightarrow> cap (mDataOut g) < length (out_stream bytes g)"
    using o(5) by (simp add: out_stream_def)
  ultimately show ?thesis using i(3) by (intro exI [of _ ?g3]) simp
qed

section \<open>The invariant\<close>

text \<open>What the registers of the module promise at each place.\<close>

fun port_ok :: "bridge_pc \<Rightarrow> nat \<Rightarrow> 'q dpi_bridge \<Rightarrow> 'q glip_tcp \<Rightarrow> bool" where
  "port_ok (At_Control state) n b g \<longleftrightarrow> state = state_of g"
| "port_ok (At_Read state) n b g \<longleftrightarrow> \<not> ts_valid (mControlItem g) \<and>
     (state AND STATE_MASK_READ \<noteq> 0 \<longleftrightarrow> ts_valid (mReadItem g)) \<and> (state AND STATE_MASK_WRITE \<noteq> 0 \<longleftrightarrow> \<not> ts_valid (mWriteItem g))"
| "port_ok At_Rise n b g \<longleftrightarrow> \<not> ts_valid (mControlItem g) \<and> (in_valid b \<longleftrightarrow> ts_valid (mReadItem g)) \<and>
     (in_valid b \<longrightarrow> in_data b = take_bit (8 * n) (ts_value (mReadItem g))) \<and> (out_ready b \<longleftrightarrow> \<not> ts_valid (mWriteItem g))"
| "port_ok (At_Write v d) n b g \<longleftrightarrow> \<not> ts_valid (mControlItem g) \<and> (out_ready b \<longleftrightarrow> \<not> ts_valid (mWriteItem g))"
| "port_ok _ n b g \<longleftrightarrow> \<not> ts_valid (mControlItem g)"

definition dpi_inv :: "('q \<Rightarrow> nat) \<Rightarrow> ('q \<Rightarrow> u8 list) \<Rightarrow> nat \<Rightarrow> 'q dpi_sys \<Rightarrow> bool" where
  "dpi_inv cap bytes n s \<longleftrightarrow> (\<exists>g. tcp_obj (bridge s) = Some g \<and> endpoint_ok cap bytes n g \<and> port_ok (pc s) n (bridge s) g \<and>
     came s = concat (map (item_bytes n) (taken s)) @ in_stream bytes g \<and>
     concat (map (item_bytes n) (given s)) = sent_on s @ out_stream bytes g)"

lemma dpi_invI:
  "tcp_obj (bridge s) = Some g \<Longrightarrow> endpoint_ok cap bytes n g \<Longrightarrow> port_ok (pc s) n (bridge s) g \<Longrightarrow>
    came s = concat (map (item_bytes n) (taken s)) @ in_stream bytes g \<Longrightarrow>
    concat (map (item_bytes n) (given s)) = sent_on s @ out_stream bytes g \<Longrightarrow> dpi_inv cap bytes n s"
  by (auto simp: dpi_inv_def)

lemmas stream_defs = endpoint_ok_def in_stream_def out_stream_def read_held_def to_leave_def

lemma control_msg_keeps:
  "endpoint_ok cap bytes n g \<Longrightarrow> endpoint_ok cap bytes n (fst (control_msg g))"
  "in_stream bytes (fst (control_msg g)) = in_stream bytes g" "out_stream bytes (fst (control_msg g)) = out_stream bytes g"
  "\<not> ts_valid (mControlItem (fst (control_msg g)))" "mReadItem (fst (control_msg g)) = mReadItem g"
  "mWriteItem (fst (control_msg g)) = mWriteItem g"
  by (simp_all add: control_msg_def stream_defs)

lemma readAck_keeps:
  assumes "endpoint_ok cap bytes n g" and "0 < n" and "ts_valid (mReadItem g)"
  shows "endpoint_ok cap bytes n (readAck g)" "in_stream bytes g = item_bytes n (ts_value (mReadItem g)) @ in_stream bytes (readAck g)"
    "out_stream bytes (readAck g) = out_stream bytes g"
proof -
  have "ts_partial (mReadItem g) = n" using assms(1,3) by (auto simp: endpoint_ok_def read_ok_def)
  then show "in_stream bytes g = item_bytes n (ts_value (mReadItem g)) @ in_stream bytes (readAck g)"
    using assms(1) by (simp add: stream_defs readAck_def no_item_def)
  show "endpoint_ok cap bytes n (readAck g)" using assms(1) read_ok_no_item [OF assms(2)] by (simp add: endpoint_ok_def readAck_def)
  show "out_stream bytes (readAck g) = out_stream bytes g" by (simp add: stream_defs readAck_def)
qed

lemma writeData_keeps:
  assumes "endpoint_ok cap bytes n g" and "\<not> ts_valid (mWriteItem g)"
  shows "\<exists>g'. writeData g v = Inr g' \<and> endpoint_ok cap bytes n g' \<and> in_stream bytes g' = in_stream bytes g \<and>
    out_stream bytes g' = out_stream bytes g @ item_bytes n v \<and> mControlItem g' = mControlItem g"
  using assms by (simp add: writeData_def stream_defs)

lemma edge_step_ok:
  assumes "spsc_laws ops cap bytes" and "0 < n" and "n \<le> 4" and "dpi_inv cap bytes n s"
  shows "\<exists>s'. edge_step ops (8 * n) r v d s = Inr s' \<and> dpi_inv cap bytes n s'"
proof -
  obtain g where g: "tcp_obj (bridge s) = Some g" "endpoint_ok cap bytes n g" "port_ok (pc s) n (bridge s) g"
    "came s = concat (map (item_bytes n) (taken s)) @ in_stream bytes g"
    "concat (map (item_bytes n) (given s)) = sent_on s @ out_stream bytes g"
    using assms(4) by (auto simp: dpi_inv_def)
  show ?thesis
  proof (cases "pc s")
    case At_Fall
    then show ?thesis using g by (auto simp: edge_step_def fall_connected_def dpi_calls intro!: dpi_invI [of _ g])
  next
    case At_Cycle
    then obtain g' where "next_cycle ops g = Inr (g', state_of g')" "endpoint_ok cap bytes n g'"
      "in_stream bytes g' = in_stream bytes g" "out_stream bytes g' = out_stream bytes g"
      using next_cycle_ok [OF assms(1,3) g(2)] g(3) by auto
    then show ?thesis using g At_Cycle by (auto simp: edge_step_def fall_cycle_def dpi_calls intro!: dpi_invI [of _ g'])
  next
    case (At_Control state)
    then have st: "state = state_of g" using g(3) by simp
    show ?thesis
    proof (cases "ts_valid (mControlItem g)")
      case True
      obtain h m where h: "control_msg g = (h, m)" by fastforce
      note k = control_msg_keeps [where g = g, unfolded h fst_conv]
      show ?thesis using True g h At_Control st k
        by (auto simp: edge_step_def fall_control_def dpi_calls intro!: dpi_invI [of _ h])
    next
      case False
      then show ?thesis using g At_Control st by (auto simp: edge_step_def fall_control_def intro!: dpi_invI [of _ g])
    qed
  next
    case (At_Read state)
    then show ?thesis using g
      by (auto simp: edge_step_def fall_read_def dpi_calls readData_def c_assert_def cbind_def intro!: dpi_invI [of _ g])
  next
    case At_Rise
    show ?thesis
    proof (cases "in_valid (bridge s) \<and> r")
      case True
      then have v: "ts_valid (mReadItem g)" "in_data (bridge s) = take_bit (8 * n) (ts_value (mReadItem g))"
        using g(3) At_Rise by simp_all
      show ?thesis using True g At_Rise v readAck_keeps [OF g(2) assms(2) v(1)]
        by (auto simp: edge_step_def rise_ack_def dpi_calls readAck_def intro!: dpi_invI [of _ "readAck g"])
    next
      case False
      then show ?thesis using g At_Rise by (auto simp: edge_step_def rise_ack_def intro!: dpi_invI [of _ g])
    qed
  next
    case (At_Write v' d')
    show ?thesis
    proof (cases "v' \<and> out_ready (bridge s)")
      case True
      then have "\<not> ts_valid (mWriteItem g)" using g(3) At_Write by simp
      from writeData_keeps [OF g(2) this, of "take_bit (8 * n) d'"]
      obtain g' where "writeData g (take_bit (8 * n) d') = Inr g'" "endpoint_ok cap bytes n g'"
        "in_stream bytes g' = in_stream bytes g" "mControlItem g' = mControlItem g"
        "out_stream bytes g' = out_stream bytes g @ item_bytes n (take_bit (8 * n) d')" by blast
      then show ?thesis using True g At_Write
        by (auto simp: edge_step_def rise_write_def dpi_calls simp del: item_bytes_take_bit intro!: dpi_invI [of _ g'])
    next
      case False
      then show ?thesis using g At_Write by (auto simp: edge_step_def rise_write_def intro!: dpi_invI [of _ g])
    qed
  qed
qed

lemma port_ok_queues:
  "port_ok p n (b\<lparr>tcp_obj := x\<rparr>) h = port_ok p n b g"
  if "mControlItem h = mControlItem g" "mReadItem h = mReadItem g" "mWriteItem h = mWriteItem g"
  using that by (cases p) (simp_all add: state_of_def)

lemma thread_step_ok:
  assumes "spsc_laws ops cap bytes" and "thread_step ops s s'" and "dpi_inv cap bytes n s"
  shows "dpi_inv cap bytes n s'"
proof -
  obtain g where g: "tcp_obj (bridge s) = Some g" "endpoint_ok cap bytes n g" "port_ok (pc s) n (bridge s) g"
    "came s = concat (map (item_bytes n) (taken s)) @ in_stream bytes g"
    "concat (map (item_bytes n) (given s)) = sent_on s @ out_stream bytes g"
    using assms(3) by (auto simp: dpi_inv_def)
  show ?thesis using assms(2)
  proof (cases rule: thread_step.cases)
    case (control h d q)
    then show ?thesis using g port_ok_queues [where g = h and h = "h\<lparr>mControl := q\<rparr>" and b = "bridge s"]
      by (auto simp: stream_defs intro!: dpi_invI [of _ "h\<lparr>mControl := q\<rparr>"])
  next
    case (incoming h d q)
    then show ?thesis using g spsc_push(1) [OF assms(1) incoming(3)] port_ok_queues [where g = h and h = "h\<lparr>mDataIn := q\<rparr>" and b = "bridge s"]
      by (auto simp: stream_defs intro!: dpi_invI [of _ "h\<lparr>mDataIn := q\<rparr>"])
  next
    case (outgoing h q d)
    then show ?thesis using g spsc_pop(1) [OF assms(1) outgoing(3)] port_ok_queues [where g = h and h = "h\<lparr>mDataOut := q\<rparr>" and b = "bridge s"]
      by (auto simp: stream_defs intro!: dpi_invI [of _ "h\<lparr>mDataOut := q\<rparr>"])
  qed
qed

lemma dpi_reach_inv:
  assumes "spsc_laws ops cap bytes" and "0 < n" and "n \<le> 4" and "dpi_reach ops (8 * n) s0 s" and "dpi_inv cap bytes n s0"
  shows "dpi_inv cap bytes n s"
  using assms(4)
proof induction
  case start
  then show ?case by (rule assms(5))
next
  case (edge s r v d s')
  then show ?case using edge_step_ok [OF assms(1-3) edge.IH, of r v d] by auto
next
  case (thread s s')
  then show ?case using thread_step_ok [OF assms(1)] by blast
qed

section \<open>The thread of the endpoint\<close>

text \<open>Emptying a queue ends, because it is bounded.\<close>

lemma q_clear_ok:
  assumes "spsc_laws ops cap bytes"
  shows "\<exists>q'. q_clear ops q = Some q' \<and> bytes q' = [] \<and> cap q' = cap q"
proof (induction "bytes q" arbitrary: q)
  case Nil
  then show ?case using spsc_pop_Nil [OF assms, of q] by (subst q_clear.simps) simp
next
  case (Cons d ds)
  obtain q1 where q1: "q_pop ops q = Some (q1, d)" "bytes q1 = ds" "cap q1 = cap q"
    by (rule spsc_pop_Cons [OF assms Cons.hyps(2) [symmetric]])
  then show ?case using Cons.hyps(1) [of q1] by (subst q_clear.simps) simp
qed

lemma GlipTcp_reset_ok:
  assumes "spsc_laws ops cap bytes"
  shows "\<exists>c i out. GlipTcp_reset ops g = Some (g\<lparr>mControl := c, mDataIn := i, mDataOut := out, mControlItem := no_item,
      mReadItem := no_item, mWriteItem := no_item\<rparr>) \<and> bytes i = [] \<and> bytes out = [] \<and> cap out = cap (mDataOut g)"
proof -
  obtain c i out where "q_clear ops (mControl g) = Some c" "q_clear ops (mDataIn g) = Some i" "bytes i = []"
    "q_clear ops (mDataOut g) = Some out" "bytes out = []" "cap out = cap (mDataOut g)"
    using q_clear_ok [OF assms] by meson
  then show ?thesis by (auto simp: GlipTcp_reset_def)
qed

lemma just_connected_inv:
  assumes "spsc_laws ops cap bytes" and "0 < n" and "tcp_obj b = Some g" and "mNumBytes g = n" and "just_connected ops b s"
  shows "dpi_inv cap bytes n s"
proof -
  obtain c i out where r: "GlipTcp_reset ops g = Some (g\<lparr>mControl := c, mDataIn := i, mDataOut := out,
      mControlItem := no_item, mReadItem := no_item, mWriteItem := no_item\<rparr>)" "bytes i = []" "bytes out = []"
    using GlipTcp_reset_ok [OF assms(1)] by blast
  have "\<not> ts_valid no_item" "ts_partial no_item = 0" by (simp_all add: no_item_def)
  then show ?thesis using r assms(3-5) read_ok_no_item [OF assms(2)]
    by (auto simp: just_connected_def on_connect_def dpi_inv_def stream_defs)
qed

lemma same_object: "tcp_obj b = Some g \<Longrightarrow> b\<lparr>tcp_obj := Some g\<rparr> = b"
  by (cases b) simp

text \<open>A turn of the thread is made of its operations on the queues.\<close>

lemma push_in_reach:
  assumes "dpi_reach ops w s0 s" and "tcp_obj (bridge s) = Some g" and "push_all ops (mDataIn g) ds = Inr q"
  shows "dpi_reach ops w s0 (s\<lparr>bridge := (bridge s)\<lparr>tcp_obj := Some (g\<lparr>mDataIn := q\<rparr>)\<rparr>, came := came s @ ds\<rparr>)"
  using assms
proof (induction ds arbitrary: s g)
  case Nil
  then show ?case by (auto simp: same_object)
next
  case (Cons d ds)
  then obtain q1 where q1: "q_push ops (mDataIn g) d = Some q1" "push_all ops q1 ds = Inr q"
    by (auto split: option.splits)
  show ?case
    using Cons.IH [OF dpi_reach.thread [OF Cons.prems(1) thread_step.incoming [OF Cons.prems(2) q1(1)]], of "g\<lparr>mDataIn := q1\<rparr>"] q1(2)
    by simp
qed

lemma push_control_reach:
  assumes "dpi_reach ops w s0 s" and "tcp_obj (bridge s) = Some g" and "push_all ops (mControl g) ds = Inr q"
  shows "dpi_reach ops w s0 (s\<lparr>bridge := (bridge s)\<lparr>tcp_obj := Some (g\<lparr>mControl := q\<rparr>)\<rparr>\<rparr>)"
  using assms
proof (induction ds arbitrary: s g)
  case Nil
  then show ?case by (auto simp: same_object)
next
  case (Cons d ds)
  then obtain q1 where q1: "q_push ops (mControl g) d = Some q1" "push_all ops q1 ds = Inr q"
    by (auto split: option.splits)
  show ?case
    using Cons.IH [OF dpi_reach.thread [OF Cons.prems(1) thread_step.control [OF Cons.prems(2) q1(1)]], of "g\<lparr>mControl := q1\<rparr>"] q1(2)
    by simp
qed

lemma pop_out_reach:
  assumes "dpi_reach ops w s0 s" and "tcp_obj (bridge s) = Some g" and "pop_many ops k (mDataOut g) = (q, ds)"
  shows "dpi_reach ops w s0 (s\<lparr>bridge := (bridge s)\<lparr>tcp_obj := Some (g\<lparr>mDataOut := q\<rparr>)\<rparr>, sent_on := sent_on s @ ds\<rparr>)"
  using assms
proof (induction k arbitrary: s g ds)
  case 0
  then show ?case by (auto simp: same_object)
next
  case (Suc k)
  show ?case
  proof (cases "q_pop ops (mDataOut g)")
    case None
    then show ?thesis using Suc.prems by (auto simp: same_object)
  next
    case (Some x)
    then obtain q1 d es where q1: "q_pop ops (mDataOut g) = Some (q1, d)" "pop_many ops k q1 = (q, es)" "ds = d # es"
      using Suc.prems(3) by (cases x) (auto split: prod.splits)
    show ?thesis
      using Suc.IH [OF dpi_reach.thread [OF Suc.prems(1) thread_step.outgoing [OF Suc.prems(2) q1(1)]], of "g\<lparr>mDataOut := q1\<rparr>" es]
        q1(2,3) by simp
  qed
qed

lemma receive_into_push:
  assumes "receive_into ops q l = Inr (q', l', go)"
  shows "\<exists>ds. push_all ops q ds = Inr q'"
proof -
  obtain l1 r where t: "tty_read l 2048 = Inr (l1, r)" using assms by (auto simp: receive_into_def cbind_eq_Inr_iff)
  show ?thesis
  proof (cases "push_all ops q [] = Inr q' \<or> (\<exists>ds. r = Io ds \<and> push_all ops q ds = Inr q')")
    case False
    then show ?thesis using assms t by (auto simp: receive_into_def cbind_eq_Inr_iff split: io.splits if_splits)
  qed blast
qed

lemma thread_turn_reach:
  assumes "dpi_reach ops w s0 s" and "tcp_obj (bridge s) = Some g" and "thread_turn ops g cl dl = Inr (g', cl', dl', go)"
  shows "\<exists>ds es. dpi_reach ops w s0 (s\<lparr>bridge := (bridge s)\<lparr>tcp_obj := Some g'\<rparr>, came := came s @ ds, sent_on := sent_on s @ es\<rparr>)"
proof -
  obtain c cl1 go1 where c: "receive_into ops (mControl g) cl = Inr (c, cl1, go1)"
    using assms(3) by (auto simp: thread_turn_def cbind_eq_Inr_iff)
  then obtain xs where xs: "push_all ops (mControl g) xs = Inr c" using receive_into_push [of ops "mControl g"] by blast
  let ?s1 = "s\<lparr>bridge := (bridge s)\<lparr>tcp_obj := Some (g\<lparr>mControl := c\<rparr>)\<rparr>\<rparr>"
  have r1: "dpi_reach ops w s0 ?s1" by (rule push_control_reach [OF assms(1,2) xs])
  show ?thesis
  proof (cases go1)
    case False
    then show ?thesis using r1 assms(3) c by (intro exI [of _ "[]"]) (simp add: thread_turn_def)
  next
    case go1: True
    obtain i dl1 go2 where i: "receive_into ops (mDataIn g) dl = Inr (i, dl1, go2)"
      using assms(3) c go1 by (auto simp: thread_turn_def cbind_eq_Inr_iff)
    then obtain ds where ds: "push_all ops (mDataIn g) ds = Inr i" using receive_into_push [of ops "mDataIn g"] by blast
    let ?g2 = "g\<lparr>mControl := c, mDataIn := i\<rparr>"
    let ?s2 = "?s1\<lparr>bridge := (bridge s)\<lparr>tcp_obj := Some ?g2\<rparr>, came := came s @ ds\<rparr>"
    have r2: "dpi_reach ops w s0 ?s2" using push_in_reach [OF r1, of "g\<lparr>mControl := c\<rparr>" ds i] ds by simp
    show ?thesis
    proof (cases go2)
      case False
      then show ?thesis using r2 assms(3) c i go1 by (intro exI [of _ ds] exI [of _ "[]"]) (simp add: thread_turn_def)
    next
      case go2: True
      obtain out es where o: "pop_many ops 2048 (mDataOut g) = (out, es)" by fastforce
      then have "g' = ?g2\<lparr>mDataOut := out\<rparr>" using assms(3) c i go1 go2
        by (auto simp: thread_turn_def cbind_eq_Inr_iff Let_def split: prod.splits io.splits)
      moreover have eq: "?s2\<lparr>bridge := (bridge ?s2)\<lparr>tcp_obj := Some (?g2\<lparr>mDataOut := out\<rparr>)\<rparr>, sent_on := sent_on ?s2 @ es\<rparr> =
        s\<lparr>bridge := (bridge s)\<lparr>tcp_obj := Some (?g2\<lparr>mDataOut := out\<rparr>)\<rparr>, came := came s @ ds, sent_on := sent_on s @ es\<rparr>"
        by (cases s) simp
      moreover have "dpi_reach ops w s0 (?s2\<lparr>bridge := (bridge ?s2)\<lparr>tcp_obj := Some (?g2\<lparr>mDataOut := out\<rparr>)\<rparr>,
        sent_on := sent_on ?s2 @ es\<rparr>)"
        using pop_out_reach [OF r2, of ?g2 2048 out es] o by simp
      ultimately show ?thesis unfolding eq by blast
    qed
  qed
qed

section \<open>The falling edge\<close>

lemma edge_steps_negedge:
  assumes "pc s = At_Fall"
  shows "cbind (edge_step ops w r1 v1 d1 s) (\<lambda>s1. cbind (edge_step ops w r2 v2 d2 s1) (\<lambda>s2.
      cbind (edge_step ops w r3 v3 d3 s2) (\<lambda>s3. edge_step ops w r4 v4 d4 s3))) =
    cbind (on_negedge ops w False (bridge s)) (\<lambda>b. Inr (s\<lparr>bridge := b, pc := At_Rise\<rparr>))"
  using assms by (simp add: edge_step_def on_negedge_def cbind_def split: sum.split prod.split)

lemma edge_steps_posedge:
  assumes "pc s = At_Rise"
  shows "cbind (edge_step ops w r v d s) (\<lambda>s1. cbind (edge_step ops w r2 v2 d2 s1) (\<lambda>s2. Inr (bridge s2))) =
    on_posedge w r v d (bridge s)"
proof (cases "rise_ack r (bridge s)")
  case (Inr b)
  then show ?thesis using assms by (cases "rise_write w v d b") (simp_all add: edge_step_def on_posedge_def Let_def)
qed (use assms in \<open>simp add: edge_step_def on_posedge_def\<close>)

lemma on_negedge_ok:
  assumes "spsc_laws ops cap bytes" and "n \<le> 4" and "tcp_obj b = Some g" and "endpoint_ok cap bytes n g"
    and "\<not> ts_valid (mControlItem g)"
  shows "\<exists>b'. on_negedge ops (8 * n) False b = Inr b' \<and> \<not> com_rst b' \<and>
    (in_valid b' \<longleftrightarrow> n \<le> length (in_stream bytes g)) \<and>
    (in_valid b' \<longrightarrow> item_bytes n (in_data b') = take n (in_stream bytes g)) \<and>
    (out_ready b' \<longleftrightarrow> length (out_stream bytes g) \<le> cap (mDataOut g))"
proof -
  obtain g' where g': "next_cycle ops g = Inr (g', state_of g')" "endpoint_ok cap bytes n g'"
    "in_stream bytes g' = in_stream bytes g" "ts_valid (mReadItem g') \<longleftrightarrow> n \<le> length (in_stream bytes g)"
    "ts_valid (mWriteItem g') \<longleftrightarrow> cap (mDataOut g) < length (out_stream bytes g)"
    using next_cycle_ok [OF assms(1,2,4,5)] by blast
  let ?b = "b\<lparr>com_rst := False, tcp_obj := Some g'\<rparr>"
  obtain h lr where h: "fall_control (state_of g') ?b = Inr (?b\<lparr>tcp_obj := Some h, logic_rst := lr\<rparr>)" "mReadItem h = mReadItem g'"
  proof (cases "ts_valid (mControlItem g')")
    case True
    obtain k m where "control_msg g' = (k, m)" by fastforce
    then show thesis using that [where h = k and lr = "bit m 0"] control_msg_keeps(5) [of g'] True
      by (simp add: fall_control_def dpi_calls)
  next
    case False
    then show thesis using that [where h = g' and lr = False] by (simp add: fall_control_def)
  qed
  have "on_negedge ops (8 * n) False b = fall_read (8 * n) (state_of g') (?b\<lparr>tcp_obj := Some h, logic_rst := lr\<rparr>)"
    using assms(3,4) g'(1) h(1) by (simp add: on_negedge_def fall_connected_def fall_cycle_def dpi_calls endpoint_ok_def)
  moreover have "take n (in_stream bytes g) = item_bytes n (ts_value (mReadItem h))" if "ts_valid (mReadItem h)"
    using that g'(2) h(2) unfolding g'(3) [symmetric] by (auto simp: stream_defs read_ok_def)
  ultimately show ?thesis using g'(4,5) h(2)
    by (cases "ts_valid (mReadItem h)") (auto simp: fall_read_def dpi_calls readData_def)
qed

text \<open>C30: Over one connection, in whatever order the calls of the simulator and the operations of the thread come and
  whatever the design does at its ports, no call faults and both streams are kept: the bytes that arrived are those of
  the words the design took, then what the endpoint holds, and the words the design gave are the bytes that left, then
  what the endpoint holds.  A falling edge offers the next \<open>n\<close> bytes as a word as soon as they are there,
  and offers to take a word when what the endpoint holds fits its queue.\<close>

theorem dpi_bridge_streams:
  assumes "spsc_laws ops cap bytes" and "0 < n" and "n \<le> 4" and "tcp_obj b = Some g0" and "mNumBytes g0 = n"
    and "just_connected ops b s0" and "dpi_reach ops (8 * n) s0 s"
  shows "(\<forall>r v d. \<exists>s'. edge_step ops (8 * n) r v d s = Inr s') \<and>
    (\<exists>g. tcp_obj (bridge s) = Some g \<and>
      came s = concat (map (item_bytes n) (taken s)) @ in_stream bytes g \<and>
      concat (map (item_bytes n) (given s)) = sent_on s @ out_stream bytes g \<and>
      (pc s = At_Fall \<longrightarrow> (\<exists>b'. on_negedge ops (8 * n) False (bridge s) = Inr b' \<and> \<not> com_rst b' \<and>
        (in_valid b' \<longleftrightarrow> n \<le> length (in_stream bytes g)) \<and>
        (in_valid b' \<longrightarrow> item_bytes n (in_data b') = take n (in_stream bytes g)) \<and>
        (out_ready b' \<longleftrightarrow> length (out_stream bytes g) \<le> cap (mDataOut g)))))"
proof -
  have I: "dpi_inv cap bytes n s"
    using dpi_reach_inv [OF assms(1-3,7) just_connected_inv [OF assms(1,2,4-6)]] .
  then obtain g where g: "tcp_obj (bridge s) = Some g" "endpoint_ok cap bytes n g" "port_ok (pc s) n (bridge s) g"
    "came s = concat (map (item_bytes n) (taken s)) @ in_stream bytes g"
    "concat (map (item_bytes n) (given s)) = sent_on s @ out_stream bytes g"
    by (auto simp: dpi_inv_def)
  have "\<exists>s'. edge_step ops (8 * n) r v d s = Inr s'" for r v d using edge_step_ok [OF assms(1-3) I, of r v d] by blast
  then show ?thesis using g on_negedge_ok [OF assms(1,3) g(1,2)] by (intro conjI exI [of _ g]) auto
qed

theorem dpi_bridge_streams_witness:
  "\<exists>s0 s b'. just_connected list_queue (bridge_create (Some (dpi0 2 [] []))) s0 \<and> dpi_reach list_queue 16 s0 s \<and>
    came s = [0x12, 0x34, 0x56] \<and> on_negedge list_queue 16 False (bridge s) = Inr b' \<and> in_valid b' \<and> out_ready b' \<and>
    item_bytes 2 (in_data b') = [0x12, 0x34]"
proof -
  let ?g = "dpi0 2 [] []" and ?b = "bridge_create (Some (dpi0 2 [] []))"
  let ?s0 = "\<lparr>bridge = ?b, pc = At_Fall, came = [], sent_on = [], taken = [], given = []\<rparr>"
  have c: "q_clear list_queue (k, []) = Some (k, [])" for k by (subst q_clear.simps) (simp add: list_queue_def)
  have "on_connect list_queue ?g = Some ?g" by (simp add: on_connect_def GlipTcp_reset_def c dpi0_def)
  then have j: "just_connected list_queue ?b ?s0" by (auto simp: just_connected_def bridge_create_def)
  have "push_all list_queue (16, []) [0x12, 0x34, 0x56] = Inr (16, [0x12, 0x34, 0x56])" by (simp add: list_queue_def)
  then obtain s where s: "dpi_reach list_queue (8 * 2) ?s0 s" "pc s = At_Fall" "came s = [0x12, 0x34, 0x56]" "taken s = []"
    "given s = []" "sent_on s = []"
    using push_in_reach [OF dpi_reach.start, of ?s0 ?g list_queue "[0x12, 0x34, 0x56]" "(16, [0x12, 0x34, 0x56])" "8 * 2"]
    by (fastforce simp: bridge_create_def)
  have t: "tcp_obj ?b = Some ?g" by (simp add: bridge_create_def)
  from dpi_bridge_streams [OF list_queue_laws _ _ t _ j s(1)]
  obtain b' where "on_negedge list_queue 16 False (bridge s) = Inr b'" "in_valid b'" "out_ready b'" 
    "item_bytes 2 (in_data b') = [0x12, 0x34]"
    using s(2-) by fastforce
  then show ?thesis using j s(1,3) by auto
qed

section \<open>Connections and resets in between\<close>

text \<open>When the thread resets the endpoint between the two calls of a falling edge, the second one fails an assertion.
  A new connection between the edges leaves the word of the old one on the port, and the design takes it.  A
  falling edge under reset leaves the offer to take a word in place, and a second word fails an assertion.\<close>

theorem dpi_bridge_races:
  assumes "spsc_laws ops cap bytes" and "tcp_obj (bridge s) = Some g"
  shows "(pc s = At_Read state \<and> state AND STATE_MASK_READ \<noteq> 0 \<longrightarrow> (\<exists>g'. on_connect ops g = Some g' \<and>
      edge_step ops w r v d (s\<lparr>bridge := (bridge s)\<lparr>tcp_obj := Some g'\<rparr>\<rparr>) = Inl Assert_Failed)) \<and>
    (pc s = At_Rise \<and> in_valid (bridge s) \<longrightarrow> (\<exists>g' s'. on_connect ops g = Some g' \<and>
      edge_step ops w True v d \<lparr>bridge = (bridge s)\<lparr>tcp_obj := Some g'\<rparr>, pc = At_Rise, came = [], sent_on = [], taken = [], given = []\<rparr> =
        Inr s' \<and> came s' = [] \<and> taken s' = [in_data (bridge s)])) \<and>
    (out_ready (bridge s) \<and> \<not> in_valid (bridge s) \<and> \<not> ts_valid (mWriteItem g) \<longrightarrow>
      cbind (on_posedge w r True d (bridge s)) (\<lambda>b. cbind (on_negedge ops w True b) (on_posedge w r True d)) = Inl Assert_Failed)"
proof -
  obtain g' where g': "on_connect ops g = Some g'" "\<not> ts_valid (mReadItem g')"
    using GlipTcp_reset_ok [OF assms(1), of g] by (auto simp: on_connect_def no_item_def)
  show ?thesis using assms(2) g'
    by (auto simp: edge_step_def fall_read_def rise_ack_def on_posedge_def on_negedge_def rise_write_def dpi_calls
        readData_def writeData_def)
qed

text \<open>The handle is not looked at: with a width that is not a multiple of eight, or above 64, the first falling edge
  dereferences a null pointer.  Every other width gives an object.\<close>

theorem dpi_bridge_width:
  assumes "spsc_laws ops cap bytes" and "\<not> mThreadReady g"
  shows "(width mod 8 \<noteq> 0 \<or> 64 < width \<longrightarrow> glip_tcp_create ops g port width = Inr None \<and>
      on_negedge ops width False (bridge_create None) = Inl Mem_Fault) \<and>
    (width mod 8 = 0 \<and> width \<le> 64 \<longrightarrow> (\<exists>g'. glip_tcp_create ops g port width = Inr (Some g') \<and> mNumBytes g' = width div 8))"
  using GlipTcp_reset_ok [OF assms(1), of "g\<lparr>mPort := port, mNumBytes := width div 8\<rparr>"] assms(2)
  by (auto simp: glip_tcp_create_def GlipTcp_init_def on_negedge_def fall_connected_def dpi_calls bridge_create_def)

end
