(* ===== verification/Tcp_Dpi.thy ===== *)
theory Tcp_Dpi
  imports Tcp_Properties Dpi_Bridge_Properties
begin

text \<open>
  The two ends of a TCP connection together: the calls of a program on the host, the simulator's calls at the edges of the
  clock and the operations of the endpoint's thread, in any order, with bytes under way in both directions.
\<close>

section \<open>Both ends\<close>

text \<open>
  \<open>te_out\<close> are the bytes the host's socket has taken and the endpoint's thread has not yet queued, \<open>te_back\<close> those the
  thread has sent and the host's socket has not yet got; \<open>te_wrote\<close> and \<open>te_read\<close> are all bytes the host's calls
  have reported as written and as read.
\<close>

record 'q ends =
  te_host :: tcp
  te_sim :: "'q dpi_sys"
  te_out :: "u8 list"
  te_back :: "u8 list"
  te_wrote :: "u8 list"
  te_read :: "u8 list"

text \<open>
  The calls are those that report a number of bytes: a blocking call that fails reports none although it may have
  moved some.  The thread queues the bytes in the order the host sent them, one at a time, when the queue has room for it;
  what it takes out to send is taken by its socket (\<open>dpi_thread_turn_spec\<close> shows what happens otherwise).  The
  network delivers the bytes on their way to the host in any pieces.
\<close>

inductive ends_step :: "'q spsc_ops \<Rightarrow> nat \<Rightarrow> 'q ends \<Rightarrow> 'q ends \<Rightarrow> bool" for ops width where
  put: "gb_tcp_write (te_host e) 0 sz data = Inr (t, Some k, rv) \<Longrightarrow> unat sz < 2 ^ 31 \<Longrightarrow>
    tx (tdata t) = tx (tdata (te_host e)) @ bs \<Longrightarrow>
    ends_step ops width e (e\<lparr>te_host := t, te_wrote := te_wrote e @ take (unat k) data, te_out := te_out e @ bs\<rparr>)"
| put_b: "gb_tcp_write_b (te_host e) 0 sz data timeout = Inr (t, Some k, rv) \<Longrightarrow> unat sz \<le> length data \<Longrightarrow>
    unat sz < 2 ^ 31 \<Longrightarrow> tx (tdata t) = tx (tdata (te_host e)) @ bs \<Longrightarrow>
    ends_step ops width e (e\<lparr>te_host := t, te_wrote := te_wrote e @ take (unat k) data, te_out := te_out e @ bs\<rparr>)"
| get: "gb_tcp_read (te_host e) 0 sz dst = Inr (t, d, Some k, rv) \<Longrightarrow> unat sz < 2 ^ 31 \<Longrightarrow>
    ends_step ops width e (e\<lparr>te_host := t, te_read := te_read e @ take (unat k) d\<rparr>)"
| get_b: "gb_tcp_read_b (te_host e) 0 sz dst timeout = Inr (t, d, Some k, rv) \<Longrightarrow> unat sz \<le> length dst \<Longrightarrow>
    unat sz < 2 ^ 31 \<Longrightarrow> ends_step ops width e (e\<lparr>te_host := t, te_read := te_read e @ take (unat k) d\<rparr>)"
| reset: "gb_tcp_logic_reset (te_host e) = Inr (t, rv) \<Longrightarrow> ends_step ops width e (e\<lparr>te_host := t\<rparr>)"
| simulator: "edge_step ops width r v d (te_sim e) = Inr s \<Longrightarrow> ends_step ops width e (e\<lparr>te_sim := s\<rparr>)"
| endpoint: "thread_step ops (te_sim e) s \<Longrightarrow> came s = came (te_sim e) @ xs \<Longrightarrow> te_out e = xs @ rest \<Longrightarrow>
    sent_on s = sent_on (te_sim e) @ bs \<Longrightarrow>
    ends_step ops width e (e\<lparr>te_sim := s, te_out := rest, te_back := te_back e @ bs\<rparr>)"
| network: "te_back e = pending ((tdata (te_host e))\<lparr>rx := evs\<rparr>) @ rest \<Longrightarrow>
    ends_step ops width e (e\<lparr>te_host := (te_host e)\<lparr>tdata := (tdata (te_host e))\<lparr>rx := rx (tdata (te_host e)) @ evs\<rparr>\<rparr>,
      te_back := rest\<rparr>)"

text \<open>A connection that has just been accepted: nothing is under way.\<close>

definition ends_start :: "tcp \<Rightarrow> 'q dpi_sys \<Rightarrow> 'q ends" where
  "ends_start t s = \<lparr>te_host = t, te_sim = s, te_out = [], te_back = [], te_wrote = [], te_read = []\<rparr>"

section \<open>What the calls leave alone\<close>

lemma edge_step_frame: "edge_step ops w r v d s = Inr s' \<Longrightarrow> came s' = came s \<and> sent_on s' = sent_on s"
  by (auto simp: edge_step_def cbind_eq_Inr_iff Let_def split: bridge_pc.splits)

lemma pending_frame [simp]:
  "pending (l\<lparr>tx_script := w\<rparr>) = pending l" "pending (l\<lparr>tx := b\<rparr>) = pending l"
  "pending (l\<lparr>rx := rx l @ evs\<rparr>) = pending l @ pending (l\<lparr>rx := evs\<rparr>)"
  by (simp_all add: pending_def)

lemma tty_write_pending: "tty_write l bs = (l', r) \<Longrightarrow> pending l' = pending l"
  by (auto simp: tty_write_def split: list.splits wr_event.splits)

lemma gb_tcp_write_pending: "gb_tcp_write t ch sz data = Inr (t', n, rv) \<Longrightarrow> pending (tdata t') = pending (tdata t)"
  by (auto simp: gb_tcp_write_def split: if_splits prod.splits dest: tty_write_pending)

lemma tcp_write_loop_pending:
  "tcp_write_loop t ch start sz data got timeout = Inr (t', n, rv) \<Longrightarrow> pending (tdata t') = pending (tdata t)"
proof (induction "length (tx_script (tdata t))" arbitrary: t got rule: less_induct)
  case less
  let ?rem = "sz - got"
  obtain t1 n1 rv1 where r: "gb_tcp_write t ch ?rem (drop (unat got) data) = Inr (t1, n1, rv1)"
    using less.prems by (subst (asm) tcp_write_loop.simps) (auto simp: cbind_eq_Inr_iff Let_def)
  let ?sw = "case n1 of None \<Rightarrow> 0 | Some k \<Rightarrow> k"
  let ?got = "got + ?sw"
  note p = gb_tcp_write_pending [OF r]
  show ?case
  proof (cases "rv1 = 0")
    case False
    then have "t' = t1" using less.prems r by (subst (asm) tcp_write_loop.simps; simp add: Let_def)+
    then show ?thesis using p by simp
  next
    case True
    obtain t2 w where w: "(if ?sw \<noteq> ?rem \<and> timeout > 0 then tcp_wait t1 EPOLLOUT start timeout else Inr (t1, Ready)) = Inr (t2, w)"
      and res: "(if w = Wait_Failed then Inr (t2, None, - 1)
        else if w = Ready \<and> ?got < sz then tcp_write_loop t2 ch start sz data ?got timeout
        else Inr (t2, Some ?got, if ?got \<noteq> sz then - ETIMEDOUT else 0)) = (Inr (t', n, rv) :: _ exec)"
      using less.prems r True by (subst (asm) tcp_write_loop.simps) (auto simp: cbind_eq_Inr_iff Let_def)
    have t2: "tdata t2 = tdata t1" using w tcp_wait_frame [of t1 _ start timeout t2 w] by (auto split: if_splits)
    show ?thesis
    proof (cases "w = Ready \<and> ?got < sz")
      case again: True
      have S: "gb_tcp_write t ch ?rem (drop (unat got) data) = Inr (t1, n1, 0)" using r True by simp
      have "n1 \<noteq> Some ?rem" using again by auto
      then have "length (tx_script (tdata t2)) < length (tx_script (tdata t))"
        using gb_tcp_write_script [OF S] t2 by simp
      then show ?thesis using less.hyps [of t2 ?got] res again p t2 by simp
    next
      case False
      then show ?thesis using res p t2 by (auto split: if_splits)
    qed
  qed
qed

lemma gb_tcp_write_b_pending:
  assumes "gb_tcp_write_b t ch sz data timeout = Inr (t', n, rv)"
  shows "pending (tdata t') = pending (tdata t)"
proof -
  obtain t1 start where "clock_monotonic t = Inr (t1, start)" "tcp_write_loop t1 ch start sz data 0 timeout = Inr (t', n, rv)"
    using assms by (auto simp: gb_tcp_write_b_def cbind_eq_Inr_iff)
  then show ?thesis using tcp_write_loop_pending clock_monotonic_frame by metis
qed

lemma gb_tcp_read_b_result:
  assumes "gb_tcp_read_b t 0 sz dst timeout = Inr (t', d, Some k, rv)" and "unat sz \<le> length dst" and "unat sz < 2 ^ 31"
  shows "pending (tdata t) = take (unat k) d @ pending (tdata t')"
proof -
  obtain t1 start where c: "clock_monotonic t = Inr (t1, start)"
    and r: "tcp_read_loop t1 0 start sz dst 0 timeout = Inr (t', d, Some k, rv)"
    using assms(1) by (auto simp: gb_tcp_read_b_def cbind_eq_Inr_iff)
  obtain bs where bs: "pending (tdata t1) = bs @ pending (tdata t')" "d = bs @ drop (length bs) dst"
    "length bs \<le> unat sz" "k = of_nat (length bs)"
    using tcp_read_loop_result [OF _ assms(2,3) r] by auto
  have "unat k = length bs" using bs(3,4) assms(3) by (simp add: unat_of_nat take_bit_nat_eq_self)
  then show ?thesis using bs(1,2) clock_monotonic_frame [OF c] by (metis append_eq_conv_conj)
qed

section \<open>The invariant\<close>

definition ends_inv :: "('q \<Rightarrow> nat) \<Rightarrow> ('q \<Rightarrow> u8 list) \<Rightarrow> nat \<Rightarrow> 'q ends \<Rightarrow> bool" where
  "ends_inv cap bytes n e \<longleftrightarrow> dpi_inv cap bytes n (te_sim e) \<and> te_wrote e = came (te_sim e) @ te_out e \<and>
     sent_on (te_sim e) = te_read e @ pending (tdata (te_host e)) @ te_back e"

lemma ends_step_inv:
  assumes "spsc_laws ops cap bytes" and "0 < n" and "n \<le> 4" and "ends_step ops (8 * n) e e'" and "ends_inv cap bytes n e"
  shows "ends_inv cap bytes n e'"
  using assms(4)
proof cases
  case (put sz data t k rv bs)
  obtain m where m: "tx (tdata t) = tx (tdata (te_host e)) @ take m data" "m \<le> unat sz" "Some k = Some (of_nat m)"
    by (rule gb_tcp_write_result [OF put(2,3)])
  have "unat k = m" using m(2,3) put(3) by (simp add: unat_of_nat take_bit_nat_eq_self)
  then show ?thesis using assms(5) put(1,4) m(1) gb_tcp_write_pending [OF put(2)] by (simp add: ends_inv_def)
next
  case (put_b sz data timeout t k rv bs)
  obtain m where m: "tx (tdata t) = tx (tdata (te_host e)) @ take m data" "m \<le> unat sz" "k = of_nat m"
    using tcp_write_b_result [OF put_b(3,4,2)] by auto
  have "unat k = m" using m(2,3) put_b(4) by (simp add: unat_of_nat take_bit_nat_eq_self)
  then show ?thesis using assms(5) put_b(1,5) m(1) gb_tcp_write_b_pending [OF put_b(2)] by (simp add: ends_inv_def)
next
  case (get sz dst t d k rv)
  obtain bs where bs: "pending (tdata (te_host e)) = bs @ pending (tdata t)" "d = bs @ drop (length bs) dst"
    "length bs \<le> unat sz" "Some k = Some (of_nat (length bs))"
    by (rule gb_tcp_read_result [OF get(2,3)])
  have "unat k = length bs" using bs(3,4) get(3) by (simp add: unat_of_nat take_bit_nat_eq_self)
  then have "take (unat k) d = bs" using bs(2) by (metis append_eq_conv_conj)
  then show ?thesis using assms(5) get(1) bs(1) by (simp add: ends_inv_def)
next
  case (get_b sz dst timeout t d k rv)
  then show ?thesis using assms(5) gb_tcp_read_b_result [OF get_b(2-4)] by (simp add: ends_inv_def)
next
  case (reset t rv)
  then have "tdata t = tdata (te_host e)" by (auto simp: gb_tcp_logic_reset_def split: prod.splits)
  then show ?thesis using assms(5) reset(1) by (simp add: ends_inv_def)
next
  case (simulator r v d s)
  have "dpi_inv cap bytes n s" using edge_step_ok [OF assms(1-3), of "te_sim e" r v d] assms(5) simulator(2) by (auto simp: ends_inv_def)
  then show ?thesis using assms(5) simulator(1) edge_step_frame [OF simulator(2)] by (simp add: ends_inv_def)
next
  case (endpoint s xs rest bs)
  have "dpi_inv cap bytes n s" using thread_step_ok [OF assms(1) endpoint(2)] assms(5) by (simp add: ends_inv_def)
  then show ?thesis using assms(5) endpoint(1,3-5) by (simp add: ends_inv_def)
next
  case (network evs rest)
  then show ?thesis using assms(5) by (simp add: ends_inv_def)
qed

lemma ends_reachable:
  assumes "spsc_laws ops cap bytes" and "0 < n" and "n \<le> 4" and "(ends_step ops (8 * n))\<^sup>*\<^sup>* e e'" and "ends_inv cap bytes n e"
  shows "ends_inv cap bytes n e'"
  using assms(4,5) by (induction rule: rtranclp_induct) (auto intro: ends_step_inv [OF assms(1-3)])

lemma queue_next:
  assumes "tcp_obj (bridge (te_sim e)) = Some g" and "te_out e = d # rest" and "q_push ops (mDataIn g) d = Some q"
  shows "ends_step ops w e (e\<lparr>te_sim := (te_sim e)\<lparr>bridge := (bridge (te_sim e))\<lparr>tcp_obj := Some (g\<lparr>mDataIn := q\<rparr>)\<rparr>,
    came := came (te_sim e) @ [d]\<rparr>, te_out := rest\<rparr>)"
  using ends_step.endpoint [OF thread_step.incoming [OF assms(1,3)], of "[d]" rest "[]" w] assms(2) by simp

lemma queue_many:
  assumes "tcp_obj (bridge (te_sim e)) = Some g" and "te_out e = ds @ rest" and "push_all ops (mDataIn g) ds = Inr q"
  shows "\<exists>e'. (ends_step ops w)\<^sup>*\<^sup>* e e' \<and> tcp_obj (bridge (te_sim e')) = Some (g\<lparr>mDataIn := q\<rparr>) \<and> te_out e' = rest \<and>
    te_wrote e' = te_wrote e \<and> pc (te_sim e') = pc (te_sim e) \<and> taken (te_sim e') = taken (te_sim e)"
  using assms
proof (induction ds arbitrary: e g)
  case Nil
  then show ?case by (intro exI [of _ e]) auto
next
  case (Cons d ds)
  then obtain q1 where q1: "q_push ops (mDataIn g) d = Some q1" "push_all ops q1 ds = Inr q"
    by (auto split: option.splits)
  let ?e = "e\<lparr>te_sim := (te_sim e)\<lparr>bridge := (bridge (te_sim e))\<lparr>tcp_obj := Some (g\<lparr>mDataIn := q1\<rparr>)\<rparr>,
    came := came (te_sim e) @ [d]\<rparr>, te_out := ds @ rest\<rparr>"
  have "ends_step ops w e ?e" using queue_next [OF Cons.prems(1) _ q1(1)] Cons.prems(2) by simp
  then show ?case using Cons.IH [of ?e "g\<lparr>mDataIn := q1\<rparr>"] q1(2)
    by (auto intro: converse_rtranclp_into_rtranclp)
qed

section \<open>Both streams from end to end\<close>

text \<open>C40: Over one connection with words of up to four bytes, in whatever order the calls of the program on the host, the
  calls of the simulator, the operations of the endpoint's thread and the deliveries of the network come, with any control
  messages and any amount of data in both directions: the bytes the host's calls reported as written are those of the
  words the design took, in order and each with its first byte at the most significant place, then what the endpoint
  holds, then what is on its way; and the bytes of the words the design gave are those the host's calls reported as
  read, then those its socket has got, those on their way and those the endpoint holds.  No call of the simulator
  faults; a byte on its way can be queued whenever the queue has room; and a falling edge offers the next word as soon as
  its bytes are there.  Conditions: no blocking call fails (it reports nothing then), the socket of the endpoint takes
  what its thread sends (\<open>dpi_thread_turn_spec\<close>), the connection begins before a falling edge and the reset of the
  module is low (\<open>dpi_bridge_races\<close>).  With wider words the first byte ends in an undefined shift
  (\<open>dpi_incoming_items\<close>).\<close>

theorem tcp_dpi_stream:
  assumes "spsc_laws ops cap bytes" and "0 < n" and "n \<le> 4" and "tcp_obj b = Some g0" and "mNumBytes g0 = n"
    and "just_connected ops b s0" and "pending (tdata t) = []"
    and "(ends_step ops (8 * n))\<^sup>*\<^sup>* (ends_start t s0) e"
  shows "\<exists>g. tcp_obj (bridge (te_sim e)) = Some g \<and>
    te_wrote e = concat (map (item_bytes n) (taken (te_sim e))) @ in_stream bytes g @ te_out e \<and>
    concat (map (item_bytes n) (given (te_sim e))) =
      te_read e @ pending (tdata (te_host e)) @ te_back e @ out_stream bytes g \<and>
    (\<forall>r v d. \<exists>s'. edge_step ops (8 * n) r v d (te_sim e) = Inr s') \<and>
    (te_out e \<noteq> [] \<and> length (bytes (mDataIn g)) < cap (mDataIn g) \<longrightarrow>
      (\<exists>e'. ends_step ops (8 * n) e e' \<and> te_out e' = tl (te_out e) \<and> te_wrote e' = te_wrote e)) \<and>
    (pc (te_sim e) = At_Fall \<and> n \<le> length (in_stream bytes g) \<longrightarrow>
      (\<exists>b'. on_negedge ops (8 * n) False (bridge (te_sim e)) = Inr b' \<and> in_valid b' \<and>
        item_bytes n (in_data b') = take n (in_stream bytes g)))"
proof -
  have "came s0 = []" "sent_on s0 = []" using assms(6) by (auto simp: just_connected_def)
  then have "ends_inv cap bytes n (ends_start t s0)"
    using just_connected_inv [OF assms(1,2,4-6)] assms(7) by (simp add: ends_inv_def ends_start_def)
  then have I: "ends_inv cap bytes n e" by (rule ends_reachable [OF assms(1-3,8)])
  then obtain g where g: "tcp_obj (bridge (te_sim e)) = Some g" "endpoint_ok cap bytes n g" "port_ok (pc (te_sim e)) n (bridge (te_sim e)) g"
    "came (te_sim e) = concat (map (item_bytes n) (taken (te_sim e))) @ in_stream bytes g"
    "concat (map (item_bytes n) (given (te_sim e))) = sent_on (te_sim e) @ out_stream bytes g"
    "te_wrote e = came (te_sim e) @ te_out e" "sent_on (te_sim e) = te_read e @ pending (tdata (te_host e)) @ te_back e"
    by (auto simp: ends_inv_def dpi_inv_def)
  have f: "\<exists>s'. edge_step ops (8 * n) r v d (te_sim e) = Inr s'" for r v d
    using edge_step_ok [OF assms(1-3)] I unfolding ends_inv_def by blast
  have q: "\<exists>e'. ends_step ops (8 * n) e e' \<and> te_out e' = tl (te_out e) \<and> te_wrote e' = te_wrote e"
    if h: "te_out e \<noteq> []" "length (bytes (mDataIn g)) < cap (mDataIn g)"
  proof -
    obtain d rest where d: "te_out e = d # rest" using h(1) by (cases "te_out e") auto
    obtain x where "q_push ops (mDataIn g) d = Some x" using spsc_room [OF assms(1) h(2)] by blast
    from queue_next [OF g(1) d this] show ?thesis using d by (intro exI conjI) (assumption, simp_all)
  qed
  have o: "\<exists>b'. on_negedge ops (8 * n) False (bridge (te_sim e)) = Inr b' \<and> in_valid b' \<and>
      item_bytes n (in_data b') = take n (in_stream bytes g)"
    if "pc (te_sim e) = At_Fall" "n \<le> length (in_stream bytes g)"
    using on_negedge_ok [OF assms(1,3) g(1,2)] g(3) that by auto
  show ?thesis using g(1,4-7) f q o by (intro exI [of _ g]) simp
qed

text \<open>The host writes five bytes in one blocking call, and the endpoint queues three of them.\<close>

theorem tcp_dpi_stream_witness:
  "\<exists>s0 e b'. just_connected list_queue (bridge_create (Some (dpi0 2 [] []))) s0 \<and>
    (ends_step list_queue 16)\<^sup>*\<^sup>* (ends_start (tcp0 ((line_of [])\<lparr>tx_script := [Tx 1, Tx_Again]\<rparr>) []) s0) e \<and>
    te_wrote e = [1, 2, 3, 4, 5] \<and> te_out e = [4, 5] \<and>
    on_negedge list_queue 16 False (bridge (te_sim e)) = Inr b' \<and> in_valid b' \<and> item_bytes 2 (in_data b') = [1, 2]"
proof -
  let ?t = "tcp0 ((line_of [])\<lparr>tx_script := [Tx 1, Tx_Again]\<rparr>) []" and ?d = "[1, 2, 3, 4, 5] :: u8 list"
  let ?g = "dpi0 2 [] []" and ?b = "bridge_create (Some (dpi0 2 [] []))"
  let ?s0 = "\<lparr>bridge = ?b, pc = At_Fall, came = [], sent_on = [], taken = [], given = []\<rparr>"
  have c: "q_clear list_queue (k, []) = Some (k, [])" for k by (subst q_clear.simps) (simp add: list_queue_def)
  have "on_connect list_queue ?g = Some ?g" by (simp add: on_connect_def GlipTcp_reset_def c dpi0_def)
  then have j: "just_connected list_queue ?b ?s0" by (auto simp: just_connected_def bridge_create_def)
  obtain t' where t': "gb_tcp_write_b ?t 0 5 ?d 0 = Inr (t', Some 5, 0)" "tx (tdata t') = tx (tdata ?t) @ ?d"
    using tcp_write_b_all [of 5 ?d ?t] by (auto simp: tcp0_def line_of_def tx_clean_def)
  let ?e1 = "(ends_start ?t ?s0)\<lparr>te_host := t', te_wrote := ?d, te_out := ?d\<rparr>"
  have w: "ends_step list_queue 16 (ends_start ?t ?s0) ?e1"
    using ends_step.put_b [of "ends_start ?t ?s0" 5 ?d 0 t' 5 0 ?d] t' by (simp add: ends_start_def)
  have "push_all list_queue (mDataIn ?g) [1, 2, 3] = Inr (16, [1, 2, 3])" by (simp add: list_queue_def)
  from queue_many [of ?e1 ?g "[1, 2, 3]" "[4, 5]", OF _ _ this, of 16]
  obtain e where e: "(ends_step list_queue 16)\<^sup>*\<^sup>* ?e1 e" "tcp_obj (bridge (te_sim e)) = Some (?g\<lparr>mDataIn := (16, [1, 2, 3])\<rparr>)"
    "te_out e = [4, 5]" "te_wrote e = ?d" "pc (te_sim e) = At_Fall"
    by (auto simp: ends_start_def bridge_create_def)
  have r: "(ends_step list_queue (8 * 2))\<^sup>*\<^sup>* (ends_start ?t ?s0) e"
    using converse_rtranclp_into_rtranclp [of "ends_step list_queue 16", OF w e(1)] by simp
  have p: "tcp_obj ?b = Some ?g" "pending (tdata ?t) = []" by (simp_all add: bridge_create_def tcp0_def line_of_def pending_def)
  from tcp_dpi_stream [OF list_queue_laws _ _ p(1) _ j p(2) r]
  obtain b' where "on_negedge list_queue 16 False (bridge (te_sim e)) = Inr b'" "in_valid b'" "item_bytes 2 (in_data b') = [1, 2]"
    using e(2,5) by (auto simp: in_stream_def read_held_def no_item_def)
  then show ?thesis using j r e(3,4) by auto
qed

end
