(* ===== verification/Firmware.thy ===== *)
theory Firmware
  imports Glip_Prelude
begin

text \<open>
  The firmware of the Cypress FX2 chip, \<^verbatim>\<open>backend_cypressfx2/fw/ztex/fw.c\<close>.  It sets the chip up to
  forward data by itself and answers one request of the host.  The registers of the chip are a map; the
  macro for the synchronisation delay is part of the vendor's kit and an event of its own.
\<close>

section \<open>The chip\<close>

datatype reg = FIFORESET | EP2FIFOCFG | EP6FIFOCFG | OUTPKTEND | PORTCCFG | OEC | EP2CS | EP6CS | REVCTL
  | IFCONFIG | EP6AUTOINLENH | EP6AUTOINLENL | FIFOPINPOLAR | EP6FIFOPFH | EP6FIFOPFL | PINFLAGSAB
  | PINFLAGSCD | PORTACFG

datatype fw_event = Wr reg u8 | Pin0 bool | Pin1 bool | Delay | Wait_Tens nat

text \<open>The two pins of port C are the reset signals of the attached logic: \<open>ioc0\<close> for the communication,
  \<open>ioc1\<close> for the logic.\<close>

record chip =
  regs :: "reg \<Rightarrow> u8"
  ioc0 :: bool
  ioc1 :: bool
  history :: "fw_event list"

definition fw_log :: "fw_event \<Rightarrow> chip \<Rightarrow> chip" where
  "fw_log e c = c\<lparr>history := history c @ [e]\<rparr>"

definition wr :: "reg \<Rightarrow> u8 \<Rightarrow> chip \<Rightarrow> chip" where
  "wr r v c = fw_log (Wr r v) (c\<lparr>regs := (regs c)(r := v)\<rparr>)"

definition set_ioc0 :: "bool \<Rightarrow> chip \<Rightarrow> chip" where
  "set_ioc0 b c = fw_log (Pin0 b) (c\<lparr>ioc0 := b\<rparr>)"

definition set_ioc1 :: "bool \<Rightarrow> chip \<Rightarrow> chip" where
  "set_ioc1 b c = fw_log (Pin1 b) (c\<lparr>ioc1 := b\<rparr>)"

abbreviation sync :: "chip \<Rightarrow> chip" where
  "sync \<equiv> fw_log Delay"

definition statements :: "(chip \<Rightarrow> chip) list \<Rightarrow> chip \<Rightarrow> chip" where
  "statements fs c = fold (\<lambda>f. f) fs c"

definition bmBIT :: "nat \<Rightarrow> u8" where "bmBIT n = push_bit n 1"

section \<open>The functions\<close>

definition reset_fifos :: "chip \<Rightarrow> chip" where
  "reset_fifos = statements
     [wr FIFORESET 0x80, sync,
      wr EP2FIFOCFG 0x00, sync,
      wr FIFORESET 0x02, sync,
      wr OUTPKTEND 0x82, sync, wr OUTPKTEND 0x82, sync, wr OUTPKTEND 0x82, sync, wr OUTPKTEND 0x82, sync,
      wr EP2FIFOCFG (bmBIT 4 OR bmBIT 0),
      wr FIFORESET 0x04, sync, wr FIFORESET 0x06, sync, wr FIFORESET 0x08, sync,
      wr FIFORESET 0x00, sync]"

text \<open>What is done when the configuration of the logic has been loaded.\<close>

definition post_fpga_config :: "chip \<Rightarrow> chip" where
  "post_fpga_config = statements
     [wr PORTCCFG 0x00, sync, wr OEC 0xFF, sync,
      set_ioc1 False, set_ioc0 True,
      (\<lambda>c. wr EP2CS (regs c EP2CS AND NOT (bmBIT 0)) c), (\<lambda>c. wr EP6CS (regs c EP6CS AND NOT (bmBIT 0)) c),
      wr REVCTL 0x3, sync,
      wr IFCONFIG (bmBIT 7 OR bmBIT 5 OR 0x3), sync,
      reset_fifos,
      wr EP6FIFOCFG (bmBIT 3 OR bmBIT 0), sync,
      wr EP6AUTOINLENH 0x02, sync, wr EP6AUTOINLENL 0x00, sync,
      wr FIFOPINPOLAR 0, sync,
      wr EP6FIFOPFH 0x19, sync, wr EP6FIFOPFL 0xFD, sync,
      wr PINFLAGSAB 0x08, sync, wr PINFLAGSCD 0x6E, sync,
      (\<lambda>c. wr PORTACFG (regs c PORTACFG OR bmBIT 7) c), sync,
      set_ioc0 False, set_ioc1 False]"

text \<open>
  The request \<open>0x60\<close> of the host; \<open>v\<close> is the low byte of its value.  The last pin is assigned a number
  that is zero or two: how the compiler makes a bit of it is the argument \<open>to_bit\<close>.
\<close>

definition vendor_command_0x60 :: "(u8 \<Rightarrow> bool) \<Rightarrow> u8 \<Rightarrow> chip \<Rightarrow> chip" where
  "vendor_command_0x60 to_bit v c =
     (let c1 = (if v AND bmBIT 0 \<noteq> 0 then statements [set_ioc0 True, fw_log (Wait_Tens 1), reset_fifos] c else c);
          c2 = (if NOT v AND bmBIT 0 \<noteq> 0 then set_ioc0 False c1 else c1)
      in set_ioc1 (to_bit (v AND bmBIT 1)) c2)"

end
