(* ===== verification/Firmware_Properties.thy ===== *)
theory Firmware_Properties
  imports Firmware Cypress_Properties
begin

text \<open>The firmware together with the backend that talks to it.\<close>

section \<open>Resetting the FIFOs\<close>

lemmas fw_ops = fw_log_def wr_def set_ioc0_def set_ioc1_def statements_def bmBIT_def

lemma statements_simps [simp]:
  "statements [] c = c" "statements (f # fs) c = statements fs (f c)"
  by (simp_all add: statements_def)

lemma chip_simps [simp]:
  "history (fw_log e c) = history c @ [e]" "regs (fw_log e c) = regs c"
  "ioc0 (fw_log e c) = ioc0 c" "ioc1 (fw_log e c) = ioc1 c"
  "history (wr r v c) = history c @ [Wr r v]" "regs (wr r v c) = (regs c)(r := v)"
  "ioc0 (wr r v c) = ioc0 c" "ioc1 (wr r v c) = ioc1 c"
  "history (set_ioc0 b c) = history c @ [Pin0 b]" "regs (set_ioc0 b c) = regs c"
  "ioc0 (set_ioc0 b c) = b" "ioc1 (set_ioc0 b c) = ioc1 c"
  "history (set_ioc1 b c) = history c @ [Pin1 b]" "regs (set_ioc1 b c) = regs c"
  "ioc0 (set_ioc1 b c) = ioc0 c" "ioc1 (set_ioc1 b c) = b"
  by (simp_all add: fw_ops)

definition reset_history :: "fw_event list" where
  "reset_history =
     [Wr FIFORESET 0x80, Delay, Wr EP2FIFOCFG 0, Delay, Wr FIFORESET 2, Delay, Wr OUTPKTEND 0x82, Delay,
      Wr OUTPKTEND 0x82, Delay, Wr OUTPKTEND 0x82, Delay, Wr OUTPKTEND 0x82, Delay, Wr EP2FIFOCFG 0x11,
      Wr FIFORESET 4, Delay, Wr FIFORESET 6, Delay, Wr FIFORESET 8, Delay, Wr FIFORESET 0, Delay]"

lemma reset_fifos_simps [simp]:
  "history (reset_fifos c) = history c @ reset_history" "ioc0 (reset_fifos c) = ioc0 c" "ioc1 (reset_fifos c) = ioc1 c"
  "regs (reset_fifos c) = (regs c)(FIFORESET := 0, OUTPKTEND := 0x82, EP2FIFOCFG := 0x11)"
  by (simp_all add: reset_fifos_def reset_history_def bmBIT_def fun_upd_twist)

text \<open>Pairs of registers written one after the other without the delay between them.\<close>

fun unsynced :: "fw_event list \<Rightarrow> (reg \<times> reg) list" where
  "unsynced (Wr r v # Wr r' v' # es) = (r, r') # unsynced (Wr r' v' # es)"
| "unsynced (_ # es) = unsynced es"
| "unsynced [] = []"

section \<open>The requests of the host\<close>

text \<open>What the chip does with the requests in a log of the backend.\<close>

fun serve :: "(u8 \<Rightarrow> bool) \<Rightarrow> usb_event list \<Rightarrow> chip \<Rightarrow> chip" where
  "serve to_bit [] c = c"
| "serve to_bit (Usb_Control v # es) c = serve to_bit es (vendor_command_0x60 to_bit (ucast v) c)"
| "serve to_bit (_ # es) c = serve to_bit es c"

lemma vendor_command_history:
  "history (vendor_command_0x60 to_bit 0 c) = history c @ [Pin0 False, Pin1 (to_bit 0)]"
  "history (vendor_command_0x60 to_bit 1 c) =
    history c @ [Pin0 True, Wait_Tens 1] @ reset_history @ [Pin1 (to_bit 0)]"
  "history (vendor_command_0x60 to_bit 2 c) = history c @ [Pin0 False, Pin1 (to_bit 2)]"
  by (simp_all add: vendor_command_0x60_def bmBIT_def)

lemma control_transfer_ok:
  "control_rvs c = [] \<Longrightarrow> libusb_control_transfer c v = (usb_logged [Usb_Control v] c, 0)"
  by (simp add: libusb_control_transfer_def)

lemma usb_logged_simps [simp]:
  "usb_log (usb_logged es c) = usb_log c @ es" "control_rvs (usb_logged es c) = control_rvs c"
  by (simp_all add: usb_logged_def)

lemma open_buffers_log: "open_buffers c = Inr (c', r) \<Longrightarrow> usb_log c' = usb_log c"
  by (auto simp: open_buffers_def cbind_eq_Inr_iff Let_def split: if_splits)

lemma start_threads_log: "start_threads c = (c', r) \<Longrightarrow> usb_log c' = usb_log c"
  by (auto simp: start_threads_def Let_def split: if_splits)

lemma open_device_requests:
  assumes "control_rvs c = []" and "0 \<le> config_rv c" and "0 \<le> claim_rv c" and "open_device c = Inr (c', rv)"
  shows "usb_log c' = usb_log c @ [Usb_Control 1, Usb_Control 0]"
proof -
  let ?c = "usb_logged [Usb_Control 0] (usb_logged [Usb_Control 1] c)"
  have "cbind (open_buffers ?c) (\<lambda>(c3, rv3). if rv3 < 0 then Inr (c3, - 1) else Inr (start_threads c3)) = Inr (c', rv)"
    using assms by (simp add: open_device_def control_transfer_ok)
  then obtain c3 rv3 where b: "open_buffers ?c = Inr (c3, rv3)"
    and r: "(if rv3 < 0 then Inr (c3, - 1) else Inr (start_threads c3)) = (Inr (c', rv) :: (cyp \<times> int) exec)"
    unfolding cbind_eq_Inr_iff by auto
  have "usb_log c' = usb_log c3"
    using r by (cases "rv3 < 0") (simp_all add: start_threads_log)
  then show ?thesis using open_buffers_log [OF b] by simp
qed

text \<open>C26: A reset of the logic asked for on the host raises and lowers its pin, when the compiler makes a set bit
  of the number two, and leaves data and communication alone.  Opening the device raises the pin of the communication, empties
  the FIFOs and arms the four buffers of the endpoint from the host while it is high, and lowers it.
  Within that, one delay the chip needs between two writes is missing.\<close>

theorem cyp_resets_reach_pins:
  assumes "usb_dev_handle c \<noteq> None" and "control_rvs c = []" and "to_bit 0 = False" and "to_bit 2 = True"
    and "0 \<le> config_rv c" and "0 \<le> claim_rv c"
  shows "(\<exists>c' es. gb_cypressfx2_logic_reset c = Inr (c', 0) \<and> usb_log c' = usb_log c @ es \<and>
      history (serve to_bit es chip) = history chip @ [Pin0 False, Pin1 True, Pin0 False, Pin1 False]) \<and>
    (\<forall>c' rv. open_device c = Inr (c', rv) \<longrightarrow> (\<exists>es. usb_log c' = usb_log c @ es \<and>
      history (serve to_bit es chip) = history chip @ [Pin0 True, Wait_Tens 1] @ reset_history @
        [Pin1 False, Pin0 False, Pin1 False] \<and>
      length (filter (\<lambda>e. e = Wr OUTPKTEND 0x82) reset_history) = 4 \<and>
      hd reset_history = Wr FIFORESET 0x80 \<and> last (butlast reset_history) = Wr FIFORESET 0 \<and>
      unsynced reset_history = [(EP2FIFOCFG, FIFORESET)]))"
proof -
  let ?c = "usb_logged [Usb_Control 0] (usb_logged [Usb_Control 2] c)"
  have "gb_cypressfx2_logic_reset c = Inr (?c, 0)"
    using assms(1,2) by (simp add: gb_cypressfx2_logic_reset_def control_transfer_ok)
  moreover have "history (serve to_bit [Usb_Control 2, Usb_Control 0] chip) =
      history chip @ [Pin0 False, Pin1 True, Pin0 False, Pin1 False]"
    using assms(3,4) by (simp add: vendor_command_history)
  ultimately have reset: "\<exists>c' es. gb_cypressfx2_logic_reset c = Inr (c', 0) \<and> usb_log c' = usb_log c @ es \<and>
      history (serve to_bit es chip) = history chip @ [Pin0 False, Pin1 True, Pin0 False, Pin1 False]"
    by (intro exI [of _ ?c] exI [of _ "[Usb_Control 2, Usb_Control 0]"]) simp
  have "usb_log c' = usb_log c @ [Usb_Control 1, Usb_Control 0]" if "open_device c = Inr (c', rv)" for c' rv
    using open_device_requests [OF assms(2,5,6) that] .
  moreover have "history (serve to_bit [Usb_Control 1, Usb_Control 0] chip) = history chip @ [Pin0 True, Wait_Tens 1] @
      reset_history @ [Pin1 False, Pin0 False, Pin1 False]"
    using assms(3) by (simp add: vendor_command_history)
  moreover have "length (filter (\<lambda>e. e = Wr OUTPKTEND 0x82) reset_history) = 4" "hd reset_history = Wr FIFORESET 0x80"
    "last (butlast reset_history) = Wr FIFORESET 0" "unsynced reset_history = [(EP2FIFOCFG, FIFORESET)]"
    by (simp_all add: reset_history_def)
  ultimately show ?thesis using reset by blast
qed

definition chip0 :: chip where
  "chip0 = \<lparr>regs = (\<lambda>_. 0xFF), ioc0 = True, ioc1 = True, history = []\<rparr>"

theorem cyp_resets_reach_pins_witness:
  "\<exists>c' es. gb_cypressfx2_logic_reset (cyp0\<lparr>usb_dev_handle := Some 1\<rparr>) = Inr (c', 0) \<and>
    usb_log c' = usb_log cyp0 @ es \<and>
    history (serve (\<lambda>v. v \<noteq> 0) es chip0) = [Pin0 False, Pin1 True, Pin0 False, Pin1 False]"
  using cyp_resets_reach_pins [of "cyp0\<lparr>usb_dev_handle := Some 1\<rparr>" "\<lambda>v. v \<noteq> 0" chip0]
  by (simp add: cyp0_def chip0_def)

section \<open>The configuration\<close>

text \<open>Whatever the registers held, the chip ends up forwarding data between USB and the logic as the comments
  in its source say: a 16 bit interface clocked by the chip, data from the host passed on by itself, data from the logic
  in packets of 512 bytes, the fourth flag one word short of three full packets; both resets are over.\<close>

theorem fw_configuration:
  "ioc0 (post_fpga_config c) = False \<and> ioc1 (post_fpga_config c) = False \<and>
   (let r = regs (post_fpga_config c) in
     bit (r EP2FIFOCFG) 4 \<and> bit (r EP2FIFOCFG) 0 \<and> \<not> bit (r EP2FIFOCFG) 3 \<and> \<not> bit (r EP2FIFOCFG) 2 \<and>
     bit (r EP6FIFOCFG) 3 \<and> bit (r EP6FIFOCFG) 0 \<and> \<not> bit (r EP6FIFOCFG) 4 \<and> \<not> bit (r EP6FIFOCFG) 2 \<and>
     256 * unat (r EP6AUTOINLENH) + unat (r EP6AUTOINLENL) = 512 \<and>
     bit (r IFCONFIG) 7 \<and> \<not> bit (r IFCONFIG) 6 \<and> bit (r IFCONFIG) 5 \<and> take_bit 4 (r IFCONFIG) = 3 \<and>
     take_bit 3 (drop_bit 3 (r EP6FIFOPFH)) = 3 \<and> \<not> bit (r EP6FIFOPFH) 7 \<and> \<not> bit (r EP6FIFOPFH) 6 \<and>
     256 * unat (take_bit 2 (r EP6FIFOPFH)) + unat (r EP6FIFOPFL) = 509 \<and>
     r FIFORESET = 0 \<and> \<not> bit (r EP2CS) 0 \<and> \<not> bit (r EP6CS) 0 \<and> bit (r PORTACFG) 7)"
  by (simp add: post_fpga_config_def Let_def bmBIT_def bit_simps)

end
