(* ===== verification/Demo.thy ===== *)
theory Demo
  imports Systemc Loopback
begin

text \<open>
  The demonstrator's own programs.  \<^verbatim>\<open>src/src/glip_test.c\<close> talks to the debug system of a simulated
  system: it reads registers, lists the modules, resets the system and prints what the UART module
  sends.  \<^verbatim>\<open>src/src/main.cpp\<close> drives the clock and the reset of the simulated system.
\<close>

section \<open>The client: state\<close>

text \<open>What the program prints, line by line.\<close>

datatype demo_out = Scm_Missing | Scm_Found | Scm_Version u16 | System_Wrong u16 | System_Found
  | Modules u16 | Module_Scm | Module_Uart int | Module_Unknown int | No_Uart | Reset_System
  | Enable_Uart | Uart_Char u8

text \<open>
  The variables of \<open>main\<close>: the packet of sixteen words, the size variable that reads and writes
  share, and the number of the UART module.  \<open>said\<close> is the output.
\<close>

record 'b demo =
  gctx :: "'b glip_ctx"
  packet :: "u16 list"
  size_written :: size_t
  uart_id :: u16
  said :: "demo_out list"

text \<open>A step of the program goes on or exits with a code.\<close>

type_synonym 'b demo_step = "'b demo \<Rightarrow> ('b demo \<times> int option) exec"

definition and_then :: "'b demo_step \<Rightarrow> 'b demo_step \<Rightarrow> 'b demo_step" where
  "and_then f g d = cbind (f d) (\<lambda>(d', code). if code = None then g d' else Inr (d', code))"

definition say :: "demo_out \<Rightarrow> 'b demo \<Rightarrow> 'b demo" where
  "say x d = d\<lparr>said := said d @ [x]\<rparr>"

definition demo_assert :: "('b demo \<Rightarrow> bool) \<Rightarrow> 'b demo_step" where
  "demo_assert p d = cbind (c_assert (p d)) (\<lambda>_. Inr (d, None))"

section \<open>The client: messages\<close>

text \<open>The words from the beginning of the packet are assigned, the others keep their values.\<close>

definition fill :: "u16 list \<Rightarrow> 'b demo \<Rightarrow> 'b demo" where
  "fill ws d = d\<lparr>packet := ws @ drop (length ws) (packet d)\<rparr>"

text \<open>The packet is handed over as bytes; the results of the calls are ignored.\<close>

definition demo_write :: "size_t \<Rightarrow> 'b demo_step" where
  "demo_write n d =
     cbind (glip_write_b (gctx d) 0 n (bytes_of (packet d)) (1 * 1000)) (\<lambda>(c, k, rv).
       Inr (d\<lparr>gctx := c, size_written := (case k of None \<Rightarrow> size_written d | Some k \<Rightarrow> k)\<rparr>, None))"

definition demo_read :: "size_t \<Rightarrow> u32 \<Rightarrow> 'b demo_step" where
  "demo_read n timeout d =
     cbind (glip_read_b (gctx d) 0 n (bytes_of (packet d)) timeout) (\<lambda>(c, bs, k, rv).
       Inr (d\<lparr>gctx := c, packet := words_of bs,
              size_written := (case k of None \<Rightarrow> size_written d | Some k \<Rightarrow> k)\<rparr>, None))"

text \<open>
  Reading the register \<open>addr\<close> of the module \<open>dest\<close>; \<open>n\<close> is the size the answer is asked for with,
  and the sender of the answer is compared as an \<open>int\<close>.
\<close>

definition reg_read :: "int \<Rightarrow> u16 \<Rightarrow> size_t \<Rightarrow> 'b demo_step" where
  "reg_read dest addr n d =
     and_then (and_then (demo_write 8) (demo_read n (1 * 1000)))
       (demo_assert (\<lambda>d. size_written d = 8 \<and> packet d ! 0 = 3 \<and> packet d ! 1 = 0 \<and> uint (packet d ! 2) = dest))
       (fill [3, word_of_int dest, push_bit 12 0x2 OR 0x0, addr] d)"

text \<open>
  Writing a register.  The last assertion of the source is \<open>(packet[2] == (1 << 11)) | sender\<close>, an
  \<open>or\<close> of two numbers.
\<close>

definition reg_write :: "u16 \<Rightarrow> u16 \<Rightarrow> u16 \<Rightarrow> 'b demo_step" where
  "reg_write dest addr value d =
     and_then (and_then (demo_write 10) (demo_read 6 (1 * 1000)))
       (demo_assert (\<lambda>d. size_written d = 6 \<and> packet d ! 0 = 2 \<and> packet d ! 1 = 0 \<and>
         (if packet d ! 2 = push_bit 11 1 then 1 else 0) OR dest \<noteq> 0))
       (fill [4, dest, push_bit 10 0x4 OR 0x0, addr, value] d)"

section \<open>The client: the dialogue\<close>

definition find_scm :: "'b demo_step" where
  "find_scm = and_then (reg_read 1 0 12) (\<lambda>d.
     if packet d ! 3 \<noteq> 1 then Inr (say Scm_Missing d, Some (- 1)) else Inr (say Scm_Found d, None))"

definition scm_version :: "'b demo_step" where
  "scm_version = and_then (reg_read 1 1 8) (\<lambda>d. Inr (say (Scm_Version (packet d ! 3)) d, None))"

definition system_id :: "'b demo_step" where
  "system_id = and_then (reg_read 1 0x200 8) (\<lambda>d.
     if packet d ! 3 \<noteq> 0xdead then Inr (say (System_Wrong (packet d ! 3)) d, Some (- 1))
     else Inr (say System_Found d, None))"

definition module_count :: "'b demo_step" where
  "module_count = and_then (reg_read 1 0x201 8) (\<lambda>d.
     Inr ((say Module_Scm (say (Modules (packet d ! 3)) d))\<lparr>uart_id := 0\<rparr>, None))"

text \<open>A turn of the enumeration: the kind of module \<open>i\<close> is asked for, printed, and kept when it is the UART.\<close>

definition module_turn :: "int \<Rightarrow> 'b demo_step" where
  "module_turn i = and_then (reg_read i 0 8) (\<lambda>d.
     Inr (if packet d ! 3 = 0x2 then (say (Module_Uart i) d)\<lparr>uart_id := word_of_int i\<rparr>
          else say (Module_Unknown i) d, None))"

text \<open>The bound of the loop is the word the answers are stored in.\<close>

function enumerate_modules :: "int \<Rightarrow> 'b demo_step" where
  "enumerate_modules i d =
     (if \<not> i \<le> uint (packet d ! 3) then Inr (d, None)
      else cbind (module_turn i d) (\<lambda>(d', code). if code = None then enumerate_modules (i + 1) d' else Inr (d', code)))"
  by pat_completeness auto
termination
proof (relation "measure (\<lambda>(i, _). nat (2 ^ 16 - i))")
  fix i and d :: "'b demo"
  assume "\<not> \<not> i \<le> uint (packet d ! 3)"
  moreover have "uint (packet d ! 3) < 2 ^ 16" using uint_lt2p [of "packet d ! 3"] by simp
  ultimately show "((i + 1, d'), i, d) \<in> measure (\<lambda>(i, _). nat (2 ^ 16 - i))" for d'
    by simp
qed simp

declare enumerate_modules.simps [simp del]

definition check_uart :: "'b demo_step" where
  "check_uart d = (if uart_id d = 0 then Inr (say No_Uart d, Some (- 1)) else Inr (d, None))"

definition reset_system :: "'b demo_step" where
  "reset_system d = and_then (reg_write 1 0x203 0x3) (reg_write 1 0x203 0x2) (say Reset_System d)"

definition enable_uart :: "'b demo_step" where
  "enable_uart d = reg_write (uart_id d) 0x3 (push_bit 11 1 OR 0x0) (say Enable_Uart d)"

text \<open>The last loop has no end: \<open>n\<close> is the number of turns looked at.\<close>

definition uart_turn :: "'b demo_step" where
  "uart_turn = and_then (and_then (demo_read 8 0)
     (demo_assert (\<lambda>d. size_written d = 8 \<and> packet d ! 0 = 3 \<and> packet d ! 1 = 0 \<and> packet d ! 2 = 0x4402)))
     (\<lambda>d. Inr (say (Uart_Char (ucast (packet d ! 3 AND 0xff))) d, None))"

fun uart_loop :: "nat \<Rightarrow> 'b demo_step" where
  "uart_loop 0 d = Inr (d, None)"
| "uart_loop (Suc n) d = and_then uart_turn (uart_loop n) d"

definition dialogue :: "nat \<Rightarrow> 'b demo_step" where
  "dialogue n =
     and_then (and_then (and_then (and_then (and_then (and_then (and_then (and_then
       find_scm scm_version) system_id) module_count) (enumerate_modules 2)) check_uart) reset_system) enable_uart)
       (uart_loop n)"

text \<open>
  The whole program.  The result of the opening is ignored; \<open>junk\<close> and \<open>junk_size\<close> are what the
  variables hold before the first assignment.
\<close>

definition demo_main ::
    "(string \<times> 'b backend_new option) list \<Rightarrow> bool \<Rightarrow> string option \<Rightarrow> u16 list \<Rightarrow> size_t \<Rightarrow> nat
       \<Rightarrow> ('b demo option \<times> int option) exec" where
  "demo_main backends ctx_alloc env junk junk_size n =
     (case glip_new backends ctx_alloc env ''tcp'' [] 0 of
        (c, rv) \<Rightarrow>
          if rv \<noteq> 0 then Inr (None, Some 1)
          else cbind (glip_open c 1) (\<lambda>(c', rv').
            case c' of None \<Rightarrow> Inl Mem_Fault
            | Some ctx \<Rightarrow>
                cbind (dialogue n \<lparr>gctx = ctx, packet = junk, size_written = junk_size, uart_id = 0, said = []\<rparr>)
                  (\<lambda>(d, code). Inr (Some d, code))))"

section \<open>The simulation\<close>

text \<open>
  The arguments.  \<open>vcd\<close> and \<open>stop\<close> are the variables, whose values nobody sets when the argument is missing.
\<close>

fun sim_args :: "string list \<Rightarrow> bool \<Rightarrow> u64 \<Rightarrow> bool \<times> u64" where
  "sim_args [] vcd stop = (vcd, stop)"
| "sim_args (a # as) vcd stop =
     (if a = ''+vcd'' then sim_args as True stop
      else if take 5 a = ''+end='' then sim_args as vcd (10 * strtoul10 (drop 5 a))
      else sim_args as vcd stop)"

text \<open>
  The design under simulation is generated from Verilog: \<open>'v\<close> is its state and \<open>eval\<close> what an
  evaluation makes of it, given the clock and the reset.  \<open>dumps\<close> are the times written to the trace.
\<close>

record 'v sim =
  sim_time :: u64
  sim_clk :: u8
  sim_rst :: u8
  design :: 'v
  dumps :: "u64 list"

definition sim_eval :: "('v \<Rightarrow> u8 \<Rightarrow> u8 \<Rightarrow> 'v) \<Rightarrow> 'v sim \<Rightarrow> 'v sim" where
  "sim_eval eval s = s\<lparr>design := eval (design s) (sim_clk s) (sim_rst s)\<rparr>"

definition sim_start :: "('v \<Rightarrow> u8 \<Rightarrow> u8 \<Rightarrow> 'v) \<Rightarrow> bool \<Rightarrow> u8 \<Rightarrow> 'v \<Rightarrow> 'v sim" where
  "sim_start eval vcd clk v =
     (let s = sim_eval eval \<lparr>sim_time = 0, sim_clk = clk, sim_rst = 1, design = v, dumps = []\<rparr>
      in if vcd then s\<lparr>dumps := [0]\<rparr> else s)"

definition sim_turn :: "('v \<Rightarrow> u8 \<Rightarrow> u8 \<Rightarrow> 'v) \<Rightarrow> bool \<Rightarrow> 'v sim \<Rightarrow> 'v sim" where
  "sim_turn eval vcd s =
     (let s1 = s\<lparr>sim_time := sim_time s + 5\<rparr>;
          s2 = (if sim_time s1 = 15 then s1\<lparr>sim_rst := 0\<rparr> else s1);
          s3 = sim_eval eval (s2\<lparr>sim_clk := 1 - sim_clk s2\<rparr>)
      in if vcd then s3\<lparr>dumps := dumps s3 @ [sim_time s3]\<rparr> else s3)"

text \<open>The loop, with what the simulator and the endpoint answer in each turn: finished, connected.\<close>

fun sim_loop :: "('v \<Rightarrow> u8 \<Rightarrow> u8 \<Rightarrow> 'v) \<Rightarrow> bool \<Rightarrow> u64 \<Rightarrow> (bool \<times> bool) list \<Rightarrow> 'v sim \<Rightarrow> 'v sim \<times> status" where
  "sim_loop eval vcd stop [] s = (s, Running)"
| "sim_loop eval vcd stop ((finish, conn) # es) s =
     (if \<not> (\<not> finish \<and> sim_time s < stop) then (s, Done)
      else if \<not> conn then sim_loop eval vcd stop es s
      else sim_loop eval vcd stop es (sim_turn eval vcd s))"

text \<open>
  The program: \<open>final\<close> is what the generated design does at the end.  Nothing is returned while it runs.  The program of the
  loopback demonstration, \<^verbatim>\<open>backend_tcp/logic/demo/verilator_dpi_loopback/main.cpp\<close>, is the same one
  around another design.
\<close>

definition sim_main :: "('v \<Rightarrow> u8 \<Rightarrow> u8 \<Rightarrow> 'v) \<Rightarrow> ('v \<Rightarrow> 'v) \<Rightarrow> string list \<Rightarrow> bool \<Rightarrow> u64 \<Rightarrow> u8 \<Rightarrow> 'v
    \<Rightarrow> (bool \<times> bool) list \<Rightarrow> 'v sim \<times> int option" where
  "sim_main eval final args vcd_enable stop clk v es =
     (let (vcd, end_time) = sim_args args vcd_enable stop;
          (s, st) = sim_loop eval vcd end_time es (sim_start eval vcd clk v)
      in if st = Done then (s\<lparr>design := final (design s)\<rparr>, Some 0) else (s, None))"

definition loopback_sim_main :: "('v \<Rightarrow> u8 \<Rightarrow> u8 \<Rightarrow> 'v) \<Rightarrow> ('v \<Rightarrow> 'v) \<Rightarrow> string list \<Rightarrow> bool \<Rightarrow> u64 \<Rightarrow> u8 \<Rightarrow> 'v
    \<Rightarrow> (bool \<times> bool) list \<Rightarrow> 'v sim \<times> int option" where
  "loopback_sim_main = sim_main"

end
