(* ===== verification/Demo_Properties.thy ===== *)
theory Demo_Properties
  imports Demo Tcp_Properties Systemc_Properties
begin

text \<open>
  What the demonstrator's client says and prints when the debug system answers, and how its
  simulation runs the clock.
\<close>

section \<open>The contract of a link with a system that answers\<close>

text \<open>
  \<open>ready b rs k\<close>: behind \<open>b\<close> is a system whose next answers are \<open>rs\<close>, and \<open>k\<close> more calls can be
  made.  A reading call gets one answer; when it asks for more than that it waits in vain.
\<close>

locale dialogue_backend =
  fixes fns :: "'b glip_backend_if"
    and ready :: "'b \<Rightarrow> u8 list list \<Rightarrow> nat \<Rightarrow> bool"
    and sent :: "'b \<Rightarrow> u8 list"
  assumes request: "ready b rs (Suc k) \<Longrightarrow> 0 < unat n \<Longrightarrow> unat n \<le> length src \<Longrightarrow>
      \<exists>b'. be_write_b fns b 0 n src 1000 = Inr (b', Some n, 0) \<and> ready b' rs k \<and>
        sent b' = sent b @ take (unat n) src"
    and answer: "ready b (r # rs) (Suc k) \<Longrightarrow> 0 < length r \<Longrightarrow> length r \<le> unat n \<Longrightarrow> unat n \<le> length dst \<Longrightarrow>
      length r = unat n \<or> timeout = 1000 \<Longrightarrow>
      \<exists>b' rv. be_read_b fns b 0 n dst timeout = Inr (b', r @ drop (length r) dst, Some (of_nat (length r)), rv) \<and>
        ready b' rs k \<and> sent b' = sent b"

text \<open>The state of the client over such a link, with what has been sent, printed, and found.\<close>

definition talking ::
    "'b glip_backend_if \<Rightarrow> ('b \<Rightarrow> u8 list list \<Rightarrow> nat \<Rightarrow> bool) \<Rightarrow> ('b \<Rightarrow> u8 list) \<Rightarrow> u8 list list \<Rightarrow> nat
       \<Rightarrow> u8 list \<Rightarrow> demo_out list \<Rightarrow> u16 \<Rightarrow> 'b demo \<Rightarrow> bool" where
  "talking fns ready sent rs k log out u d \<longleftrightarrow>
     connected (gctx d) \<and> backend_functions (gctx d) = fns \<and> length (packet d) = 16 \<and>
     ready (backend_ctx (gctx d)) rs k \<and> sent (backend_ctx (gctx d)) = log \<and> said d = out \<and> uart_id d = u"

lemma and_then_go: "f d = Inr (d', None) \<Longrightarrow> and_then f g d = g d'"
  by (simp add: and_then_def)

lemma bytes_of_simps [simp]:
  "bytes_of [] = []" "bytes_of (w # ws) = [ucast w, ucast (drop_bit 8 w)] @ bytes_of ws"
  by (simp_all add: bytes_of_def)

lemma bytes_of_append: "bytes_of (ws @ vs) = bytes_of ws @ bytes_of vs"
  by (simp add: bytes_of_def)

lemma length_bytes_of [simp]: "length (bytes_of ws) = 2 * length ws"
  by (induction ws) simp_all

lemma drop_bytes_of: "drop (2 * n) (bytes_of ws) = bytes_of (drop n ws)"
  by (induction n arbitrary: ws) (simp, case_tac ws, simp_all)

lemma take_bytes_of: "take (2 * n) (bytes_of ws) = bytes_of (take n ws)"
  by (induction n arbitrary: ws) (simp, case_tac ws, simp_all)

lemma bytes_of_Nil [simp]: "bytes_of ws = [] \<longleftrightarrow> ws = []"
  by (cases ws) simp_all

declare bytes_of_simps(2) [simp del]

lemma words_of_answer: "words_of (bytes_of r @ drop (2 * length r) (bytes_of p)) = r @ drop (length r) p"
  by (simp add: drop_bytes_of flip: bytes_of_append) (rule words_of_bytes_of)

text \<open>
  The modules the enumeration asks for, when module \<open>i\<close> is of kind \<open>kind i\<close>: the kind of each
  is the bound that decides whether there is a next one.
\<close>

function module_ids :: "(int \<Rightarrow> u16) \<Rightarrow> int \<Rightarrow> u16 \<Rightarrow> int list" where
  "module_ids kind i bound = (if i \<le> uint bound then i # module_ids kind (i + 1) (kind i) else [])"
  by pat_completeness auto
termination
proof (relation "measure (\<lambda>(_, i, _). nat (2 ^ 16 - i))")
  fix kind :: "int \<Rightarrow> u16" and i and bound :: u16
  assume "i \<le> uint bound"
  moreover have "uint bound < 2 ^ 16" using uint_lt2p [of bound] by simp
  ultimately show "((kind, i + 1, kind i), kind, i, bound) \<in> measure (\<lambda>(_, i, _). nat (2 ^ 16 - i))"
    by simp
qed simp

declare module_ids.simps [simp del]

definition is_uart :: "(int \<Rightarrow> u16) \<Rightarrow> int \<Rightarrow> u16 \<Rightarrow> u16" where
  "is_uart kind i u = (if kind i = 2 then word_of_int i else u)"

definition module_line :: "(int \<Rightarrow> u16) \<Rightarrow> int \<Rightarrow> demo_out" where
  "module_line kind i = (if kind i = 2 then Module_Uart i else Module_Unknown i)"

definition read_request :: "int \<Rightarrow> u16 \<Rightarrow> u16 list" where
  "read_request dest addr = [3, word_of_int dest, 0x2000, addr]"

definition write_request :: "u16 \<Rightarrow> u16 \<Rightarrow> u16 \<Rightarrow> u16 list" where
  "write_request dest addr w = [4, dest, 0x1000, addr, w]"

definition read_answer :: "int \<Rightarrow> u16 \<Rightarrow> u16 list" where
  "read_answer source v = [3, 0, word_of_int source, v]"

text \<open>What a system answers with \<open>n\<close> as its number of modules, and what the client then says and prints.\<close>

definition system_answers :: "u16 \<Rightarrow> u16 \<Rightarrow> (int \<Rightarrow> u16) \<Rightarrow> u16 list list" where
  "system_answers v n kind = [read_answer 1 1, read_answer 1 v, read_answer 1 0xdead, read_answer 1 n] @
     map (\<lambda>i. read_answer i (kind i)) (module_ids kind 2 n)"

definition control_answers :: "u16 list \<Rightarrow> u16 list \<Rightarrow> u16 list list" where
  "control_answers acks ws = map (\<lambda>a. [2, 0, a]) acks @ map (\<lambda>w. [3, 0, 0x4402, w]) ws"

definition found_uart :: "u16 \<Rightarrow> (int \<Rightarrow> u16) \<Rightarrow> u16" where
  "found_uart n kind = fold (is_uart kind) (module_ids kind 2 n) 0"

definition survey_lines :: "u16 \<Rightarrow> u16 \<Rightarrow> (int \<Rightarrow> u16) \<Rightarrow> demo_out list" where
  "survey_lines v n kind = [Scm_Found, Scm_Version v, System_Found, Modules n, Module_Scm] @
     map (module_line kind) (module_ids kind 2 n)"

definition survey_requests :: "u16 \<Rightarrow> (int \<Rightarrow> u16) \<Rightarrow> u16 list" where
  "survey_requests n kind = read_request 1 0 @ read_request 1 1 @ read_request 1 0x200 @ read_request 1 0x201 @
     concat (map (\<lambda>i. read_request i 0) (module_ids kind 2 n))"

definition control_requests :: "u16 \<Rightarrow> u16 list" where
  "control_requests u = write_request 1 0x203 3 @ write_request 1 0x203 2 @ write_request u 3 0x800"

context dialogue_backend
begin

abbreviation at where "at \<equiv> talking fns ready sent"

lemma write_ok:
  assumes "at rs (Suc k) log out u d" and "unat n = 2 * length ws" and "ws \<noteq> []" and "length ws \<le> 16"
  shows "\<exists>d'. demo_write n (fill ws d) = Inr (d', None) \<and> at rs k (log @ bytes_of ws) out u d'"
proof -
  let ?p = "ws @ drop (length ws) (packet d)"
  have t: "take (unat n) (bytes_of ?p) = bytes_of ws" unfolding assms(2) by (simp add: take_bytes_of)
  have l: "0 < unat n" "unat n \<le> length (bytes_of ?p)" using assms by (auto simp: talking_def)
  obtain b' where b: "be_write_b fns (backend_ctx (gctx d)) 0 n (bytes_of ?p) 1000 = Inr (b', Some n, 0)"
    "ready b' rs k" "sent b' = log @ bytes_of ws"
    using request [of "backend_ctx (gctx d)" rs k n "bytes_of ?p"] assms(1) l t by (auto simp: talking_def)
  have "n \<noteq> 0" using l(1) by auto
  then show ?thesis using assms b
    by (intro exI [of _ "(fill ws d)\<lparr>gctx := (gctx d)\<lparr>backend_ctx := b'\<rparr>, size_written := n\<rparr>"])
      (auto simp: demo_write_def glip_write_b_def talking_def fill_def)
qed

lemma read_ok:
  assumes "at (bytes_of r # rs) (Suc k) log out u d" and "r \<noteq> []" and "2 * length r \<le> unat n" and "unat n \<le> 32"
    and "2 * length r = unat n \<or> timeout = 1000"
  shows "\<exists>d'. demo_read n timeout d = Inr (d', None) \<and> at rs k log out u d' \<and>
    (\<exists>p. packet d' = r @ p) \<and> size_written d' = of_nat (2 * length r)"
proof -
  have "length (packet d) = 16" using assms(1) by (simp add: talking_def)
  moreover have "0 < length r" using assms(2) by simp
  ultimately obtain b' rv where b: "be_read_b fns (backend_ctx (gctx d)) 0 n (bytes_of (packet d)) timeout =
      Inr (b', bytes_of r @ drop (2 * length r) (bytes_of (packet d)), Some (of_nat (2 * length r)), rv)"
    "ready b' rs k" "sent b' = log"
    using answer [of "backend_ctx (gctx d)" "bytes_of r" rs k n "bytes_of (packet d)" timeout] assms
    by (auto simp: talking_def)
  have "n \<noteq> 0" using assms(2,3) by auto
  then show ?thesis using assms(1,3,4) b
    by (intro exI [of _ "d\<lparr>gctx := (gctx d)\<lparr>backend_ctx := b'\<rparr>, packet := r @ drop (length r) (packet d),
        size_written := of_nat (2 * length r)\<rparr>"])
      (auto simp: demo_read_def glip_read_b_def talking_def words_of_answer)
qed

lemma reg_read_ok:
  assumes "at (bytes_of (read_answer dest v) # rs) (Suc (Suc k)) log out u d" and "0 \<le> dest" and "dest < 2 ^ 16"
    and "n = 8 \<or> n = 12"
  shows "\<exists>d'. reg_read dest addr n d = Inr (d', None) \<and> packet d' ! 3 = v \<and>
    at rs k (log @ bytes_of (read_request dest addr)) out u d'"
proof -
  define src :: u16 where "src = word_of_int dest"
  have dest: "uint src = dest" using assms(2,3) by (simp add: src_def uint_word_of_int)
  note src = src_def [symmetric]
  obtain d1 where 1: "demo_write 8 (fill [3, src, 0x2000, addr] d) = Inr (d1, None)"
    "at (bytes_of [3, 0, src, v] # rs) (Suc k) (log @ bytes_of [3, src, 0x2000, addr]) out u d1"
    using write_ok [OF assms(1) [unfolded read_answer_def src], of 8 "[3, src, 0x2000, addr]"] by auto
  obtain d2 where 2: "demo_read n 1000 d1 = Inr (d2, None)"
    "at rs k (log @ bytes_of [3, src, 0x2000, addr]) out u d2"
    "\<exists>p. packet d2 = [3, 0, src, v] @ p" "size_written d2 = 8"
    using read_ok [OF 1(2), of n 1000] assms(4) by auto
  show ?thesis using 1(1) 2 dest
    by (auto simp: reg_read_def and_then_def demo_assert_def read_request_def src)
qed

lemma reg_write_ok:
  assumes "at (bytes_of [2, 0, a] # rs) (Suc (Suc k)) log out u d" and "dest \<noteq> 0"
  shows "\<exists>d'. reg_write dest addr w d = Inr (d', None) \<and> at rs k (log @ bytes_of (write_request dest addr w)) out u d'"
proof -
  obtain d1 where 1: "demo_write 10 (fill [4, dest, 0x1000, addr, w] d) = Inr (d1, None)"
    "at (bytes_of [2, 0, a] # rs) (Suc k) (log @ bytes_of [4, dest, 0x1000, addr, w]) out u d1"
    using write_ok [OF assms(1), of 10 "[4, dest, 0x1000, addr, w]"] by auto
  obtain d2 where 2: "demo_read 6 1000 d1 = Inr (d2, None)"
    "at rs k (log @ bytes_of [4, dest, 0x1000, addr, w]) out u d2"
    "\<exists>p. packet d2 = [2, 0, a] @ p" "size_written d2 = 6"
    using read_ok [OF 1(2), of 6 1000] by auto
  show ?thesis using 1(1) 2 assms(2)
    by (auto simp: reg_write_def and_then_def demo_assert_def or_eq_0_iff write_request_def)
qed

lemma say_at: "at rs k log out u d \<Longrightarrow> at rs k log (out @ [x]) u (say x d)"
  by (simp add: talking_def say_def)

lemma find_scm_ok:
  assumes "at (bytes_of (read_answer 1 1) # rs) (Suc (Suc k)) log out u d"
  shows "\<exists>d'. find_scm d = Inr (d', None) \<and> at rs k (log @ bytes_of (read_request 1 0)) (out @ [Scm_Found]) u d'"
proof -
  obtain d1 where 1: "reg_read 1 0 12 d = Inr (d1, None)" "packet d1 ! 3 = 1"
    "at rs k (log @ bytes_of (read_request 1 0)) out u d1"
    using reg_read_ok [OF assms, of 12 "0"] by auto
  then have "find_scm d = Inr (say (Scm_Found) d1, None)" by (simp add: find_scm_def and_then_go)
  then show ?thesis using say_at [OF 1(3)] by blast
qed

lemma scm_version_ok:
  assumes "at (bytes_of (read_answer 1 v) # rs) (Suc (Suc k)) log out u d"
  shows "\<exists>d'. scm_version d = Inr (d', None) \<and> at rs k (log @ bytes_of (read_request 1 1)) (out @ [Scm_Version v]) u d'"
proof -
  obtain d1 where 1: "reg_read 1 1 8 d = Inr (d1, None)" "packet d1 ! 3 = v"
    "at rs k (log @ bytes_of (read_request 1 1)) out u d1"
    using reg_read_ok [OF assms, of 8 "1"] by auto
  then have "scm_version d = Inr (say (Scm_Version v) d1, None)" by (simp add: scm_version_def and_then_go)
  then show ?thesis using say_at [OF 1(3)] by blast
qed

lemma system_id_ok:
  assumes "at (bytes_of (read_answer 1 0xdead) # rs) (Suc (Suc k)) log out u d"
  shows "\<exists>d'. system_id d = Inr (d', None) \<and> at rs k (log @ bytes_of (read_request 1 0x200)) (out @ [System_Found]) u d'"
proof -
  obtain d1 where 1: "reg_read 1 0x200 8 d = Inr (d1, None)" "packet d1 ! 3 = 0xdead"
    "at rs k (log @ bytes_of (read_request 1 0x200)) out u d1"
    using reg_read_ok [OF assms, of 8 "0x200"] by auto
  then have "system_id d = Inr (say (System_Found) d1, None)" by (simp add: system_id_def and_then_go)
  then show ?thesis using say_at [OF 1(3)] by blast
qed

lemma module_turn_ok:
  assumes "at (bytes_of (read_answer i (kind i)) # rs) (Suc (Suc k)) log out u d" and "0 \<le> i" and "i < 2 ^ 16"
  shows "\<exists>d'. module_turn i d = Inr (d', None) \<and> packet d' ! 3 = kind i \<and>
    at rs k (log @ bytes_of (read_request i 0)) (out @ [module_line kind i]) (is_uart kind i u) d'"
proof -
  obtain d1 where 1: "reg_read i 0 8 d = Inr (d1, None)" "packet d1 ! 3 = kind i"
    "at rs k (log @ bytes_of (read_request i 0)) out u d1"
    using reg_read_ok [OF assms] by blast
  then show ?thesis
    by (simp add: module_turn_def and_then_go talking_def say_def module_line_def is_uart_def)
qed

lemma enumerate_ok:
  assumes "at (map (\<lambda>i. bytes_of (read_answer i (kind i))) (module_ids kind i bound) @ rs)
      (2 * length (module_ids kind i bound) + k) log out u d" and "packet d ! 3 = bound" and "0 \<le> i"
  shows "\<exists>d'. enumerate_modules i d = Inr (d', None) \<and>
    at rs k (log @ bytes_of (concat (map (\<lambda>i. read_request i 0) (module_ids kind i bound))))
      (out @ map (module_line kind) (module_ids kind i bound)) (fold (is_uart kind) (module_ids kind i bound) u) d'"
  using assms
proof (induction kind i bound arbitrary: log out u d rule: module_ids.induct)
  case (1 kind i bound)
  show ?case
  proof (cases "i \<le> uint bound")
    case False
    then show ?thesis using 1(2,3)
      by (subst enumerate_modules.simps, subst (1 2 3) module_ids.simps)
        (simp add: module_ids.simps [of kind i bound])
  next
    case True
    then have ids: "module_ids kind i bound = i # module_ids kind (i + 1) (kind i)" by (subst module_ids.simps) simp
    have "i < 2 ^ 16" using True uint_lt2p [of bound] by simp
    with 1(2) obtain d1 where m: "module_turn i d = Inr (d1, None)" "packet d1 ! 3 = kind i"
      "at (map (\<lambda>i. bytes_of (read_answer i (kind i))) (module_ids kind (i + 1) (kind i)) @ rs)
        (2 * length (module_ids kind (i + 1) (kind i)) + k) (log @ bytes_of (read_request i 0))
        (out @ [module_line kind i]) (is_uart kind i u) d1"
      using module_turn_ok [of i kind _ _ log out u d] 1(4) unfolding ids by auto
    obtain d2 where "enumerate_modules (i + 1) d1 = Inr (d2, None)"
      "at rs k ((log @ bytes_of (read_request i 0)) @
          bytes_of (concat (map (\<lambda>i. read_request i 0) (module_ids kind (i + 1) (kind i)))))
        ((out @ [module_line kind i]) @ map (module_line kind) (module_ids kind (i + 1) (kind i)))
        (fold (is_uart kind) (module_ids kind (i + 1) (kind i)) (is_uart kind i u)) d2"
      using 1(1) [OF True m(3,2)] 1(4) by auto
    then show ?thesis using True m(1) 1(3) unfolding ids
      by (subst enumerate_modules.simps) (simp add: bytes_of_append)
  qed
qed

lemma uart_loop_ok:
  assumes "at (map (\<lambda>w. bytes_of [3, 0, 0x4402, w]) ws @ rs) (length ws + k) log out u d"
  shows "\<exists>d'. uart_loop (length ws) d = Inr (d', None) \<and> at rs k log (out @ map (\<lambda>w. Uart_Char (ucast w)) ws) u d'"
  using assms
proof (induction ws arbitrary: out d)
  case Nil
  then show ?case by simp
next
  case (Cons w ws)
  have "at (bytes_of [3, 0, 0x4402, w] # (map (\<lambda>w. bytes_of [3, 0, 0x4402, w]) ws @ rs)) (Suc (length ws + k)) log out u d"
    using Cons.prems by simp
  from read_ok [OF this, of 8 0] obtain d1 where 1: "demo_read 8 0 d = Inr (d1, None)"
    "at (map (\<lambda>w. bytes_of [3, 0, 0x4402, w]) ws @ rs) (length ws + k) log out u d1"
    "\<exists>p. packet d1 = [3, 0, 0x4402, w] @ p" "size_written d1 = 8"
    by auto
  have "w AND 0xff = take_bit 8 w" by (simp add: take_bit_eq_mask mask_eq_exp_minus_1)
  then have "ucast (w AND 0xff) = (ucast w :: u8)" by (auto intro!: bit_word_eqI simp: bit_simps)
  then have "uart_turn d = Inr (say (Uart_Char (ucast w)) d1, None)"
    using 1(1,3,4) by (auto simp: uart_turn_def and_then_def demo_assert_def)
  then show ?case using Cons.IH [OF say_at [OF 1(2)]] by (simp add: and_then_go)
qed

lemma survey_ok:
  assumes "at (map bytes_of (system_answers v n kind) @ rs) (2 * length (system_answers v n kind) + k) log [] u d"
  shows "\<exists>d'. and_then (and_then (and_then (and_then find_scm scm_version) system_id) module_count) (enumerate_modules 2) d =
      Inr (d', None) \<and> at rs k (log @ bytes_of (survey_requests n kind)) (survey_lines v n kind) (found_uart n kind) d'"
proof -
  let ?rs = "map (\<lambda>i. bytes_of (read_answer i (kind i))) (module_ids kind 2 n) @ rs"
  let ?k = "2 * length (module_ids kind 2 n) + k"
  have 0: "at (bytes_of (read_answer 1 1) # bytes_of (read_answer 1 v) # bytes_of (read_answer 1 0xdead) #
      bytes_of (read_answer 1 n) # ?rs) (Suc (Suc (Suc (Suc (Suc (Suc (Suc (Suc ?k)))))))) log [] u d"
    using assms by (simp add: system_answers_def comp_def)
  obtain d1 where 1: "find_scm d = Inr (d1, None)"
    "at (bytes_of (read_answer 1 v) # bytes_of (read_answer 1 0xdead) # bytes_of (read_answer 1 n) # ?rs)
      (Suc (Suc (Suc (Suc (Suc (Suc ?k)))))) (log @ bytes_of (read_request 1 0)) ([] @ [Scm_Found]) u d1"
    using find_scm_ok [OF 0] by auto
  obtain d2 where 2: "scm_version d1 = Inr (d2, None)"
    "at (bytes_of (read_answer 1 0xdead) # bytes_of (read_answer 1 n) # ?rs) (Suc (Suc (Suc (Suc ?k))))
      ((log @ bytes_of (read_request 1 0)) @ bytes_of (read_request 1 1)) (([] @ [Scm_Found]) @ [Scm_Version v]) u d2"
    using scm_version_ok [OF 1(2)] by blast
  obtain d3 where 3: "system_id d2 = Inr (d3, None)"
    "at (bytes_of (read_answer 1 n) # ?rs) (Suc (Suc ?k))
      (((log @ bytes_of (read_request 1 0)) @ bytes_of (read_request 1 1)) @ bytes_of (read_request 1 0x200))
      ((([] @ [Scm_Found]) @ [Scm_Version v]) @ [System_Found]) u d3"
    using system_id_ok [OF 2(2)] by blast
  obtain e where e: "reg_read 1 0x201 8 d3 = Inr (e, None)" "packet e ! 3 = n"
    "at ?rs ?k ((((log @ bytes_of (read_request 1 0)) @ bytes_of (read_request 1 1)) @ bytes_of (read_request 1 0x200)) @
        bytes_of (read_request 1 0x201)) ((([] @ [Scm_Found]) @ [Scm_Version v]) @ [System_Found]) u e"
    using reg_read_ok [OF 3(2), of 8 "0x201"] by auto
  let ?d = "(say Module_Scm (say (Modules n) e))\<lparr>uart_id := 0\<rparr>"
  have 4: "module_count d3 = Inr (?d, None)" "packet ?d ! 3 = n"
    using e(1,2) by (simp_all add: module_count_def and_then_go say_def)
  have "at ?rs ?k (log @ bytes_of (read_request 1 0 @ read_request 1 1 @ read_request 1 0x200 @ read_request 1 0x201))
      [Scm_Found, Scm_Version v, System_Found, Modules n, Module_Scm] 0 ?d"
    using e(3) by (simp add: talking_def say_def bytes_of_append)
  from enumerate_ok [OF this 4(2)] obtain d5 where 5: "enumerate_modules 2 ?d = Inr (d5, None)"
    "at rs k (log @ bytes_of (survey_requests n kind)) (survey_lines v n kind) (found_uart n kind) d5"
    by (auto simp: survey_requests_def survey_lines_def found_uart_def bytes_of_append)
  have "and_then (and_then (and_then (and_then find_scm scm_version) system_id) module_count) (enumerate_modules 2) d = Inr (d5, None)"
    using 1(1) 2(1) 3(1) 4(1) 5(1) by (simp add: and_then_go)
  then show ?thesis using 5(2) by blast
qed

lemma control_ok:
  assumes "at (map bytes_of (control_answers [a, b, c] ws) @ rs) (6 + length ws + k) log out u d" and "u \<noteq> 0"
  shows "\<exists>d'. and_then (and_then reset_system enable_uart) (uart_loop (length ws)) d = Inr (d', None) \<and>
    at rs k (log @ bytes_of (control_requests u)) (out @ [Reset_System, Enable_Uart] @ map (\<lambda>w. Uart_Char (ucast w)) ws) u d'"
proof -
  let ?rs = "map (\<lambda>w. bytes_of [3, 0, 0x4402, w]) ws @ rs" and ?k = "length ws + k"
  have 0: "at (bytes_of [2, 0, a] # bytes_of [2, 0, b] # bytes_of [2, 0, c] # ?rs)
      (Suc (Suc (Suc (Suc (Suc (Suc ?k)))))) log (out @ [Reset_System]) u (say Reset_System d)"
    using say_at [OF assms(1), of Reset_System] by (simp add: control_answers_def comp_def numeral_eq_Suc)
  obtain d1 where 1: "reg_write 1 0x203 3 (say Reset_System d) = Inr (d1, None)"
    "at (bytes_of [2, 0, b] # bytes_of [2, 0, c] # ?rs) (Suc (Suc (Suc (Suc ?k))))
      (log @ bytes_of (write_request 1 0x203 3)) (out @ [Reset_System]) u d1"
    using reg_write_ok [OF 0, of 1] by auto
  obtain d2 where 2: "reg_write 1 0x203 2 d1 = Inr (d2, None)"
    "at (bytes_of [2, 0, c] # ?rs) (Suc (Suc ?k))
      ((log @ bytes_of (write_request 1 0x203 3)) @ bytes_of (write_request 1 0x203 2)) (out @ [Reset_System]) u d2"
    using reg_write_ok [OF 1(2), of 1] by auto
  have u: "uart_id d2 = u" using 2(2) by (simp add: talking_def)
  obtain d3 where 3: "reg_write u 3 0x800 (say Enable_Uart d2) = Inr (d3, None)"
    "at ?rs ?k (((log @ bytes_of (write_request 1 0x203 3)) @ bytes_of (write_request 1 0x203 2)) @
        bytes_of (write_request u 3 0x800)) ((out @ [Reset_System]) @ [Enable_Uart]) u d3"
    using reg_write_ok [OF say_at [OF 2(2)] assms(2)] by blast
  obtain d4 where 4: "uart_loop (length ws) d3 = Inr (d4, None)"
    "at rs k (log @ bytes_of (control_requests u)) (out @ [Reset_System, Enable_Uart] @ map (\<lambda>w. Uart_Char (ucast w)) ws) u d4"
    using uart_loop_ok [OF 3(2)] by (auto simp: control_requests_def bytes_of_append)
  have "reset_system d = Inr (d2, None)" "enable_uart d2 = Inr (d3, None)"
    using 1(1) 2(1) 3(1) u by (simp_all add: reset_system_def enable_uart_def and_then_go)
  then show ?thesis using 4 by (auto simp: and_then_go)
qed

lemma dialogue_ok:
  assumes "at (map bytes_of (system_answers v n kind @ control_answers [a, b, c] ws))
      (2 * length (system_answers v n kind) + 6 + length ws) log [] u d"
  shows "\<exists>d'. dialogue (length ws) d = Inr (d', if found_uart n kind = 0 then Some (- 1) else None) \<and>
    said d' = survey_lines v n kind @ (if found_uart n kind = 0 then [No_Uart]
      else [Reset_System, Enable_Uart] @ map (\<lambda>w. Uart_Char (ucast w)) ws) \<and>
    sent (backend_ctx (gctx d')) = log @ bytes_of (survey_requests n kind @
      (if found_uart n kind = 0 then [] else control_requests (found_uart n kind)))"
proof -
  let ?u = "found_uart n kind"
  have "at (map bytes_of (system_answers v n kind) @ map bytes_of (control_answers [a, b, c] ws))
      (2 * length (system_answers v n kind) + (6 + length ws)) log [] u d"
    using assms by (simp add: add.assoc)
  from survey_ok [OF this] obtain d1 where
    1: "and_then (and_then (and_then (and_then find_scm scm_version) system_id) module_count) (enumerate_modules 2) d = Inr (d1, None)"
    "at (map bytes_of (control_answers [a, b, c] ws)) (6 + length ws) (log @ bytes_of (survey_requests n kind))
      (survey_lines v n kind) ?u d1"
    by blast
  have dlg: "dialogue (length ws) d = and_then (and_then (and_then check_uart reset_system) enable_uart) (uart_loop (length ws)) d1"
    unfolding dialogue_def using 1(1) by (simp add: and_then_def)
  show ?thesis
  proof (cases "?u = 0")
    case True
    then show ?thesis using 1(2) unfolding dlg
      by (simp add: and_then_def check_uart_def talking_def say_def)
  next
    case False
    have "at (map bytes_of (control_answers [a, b, c] ws) @ []) (6 + length ws + 0)
        (log @ bytes_of (survey_requests n kind)) (survey_lines v n kind) ?u d1"
      using 1(2) by simp
    from control_ok [OF this False] obtain d2 where
      "and_then (and_then reset_system enable_uart) (uart_loop (length ws)) d1 = Inr (d2, None)"
      "at [] 0 ((log @ bytes_of (survey_requests n kind)) @ bytes_of (control_requests ?u))
        (survey_lines v n kind @ [Reset_System, Enable_Uart] @ map (\<lambda>w. Uart_Char (ucast w)) ws) ?u d2"
      by blast
    moreover have "check_uart d1 = Inr (d1, None)" using False 1(2) by (simp add: check_uart_def talking_def)
    ultimately show ?thesis using False unfolding dlg
      by (simp add: and_then_def talking_def bytes_of_append)
  qed
qed

end

section \<open>The TCP backend as such a link\<close>

text \<open>The system answers each request in one piece, its socket takes what it is given, and nothing comes while
  nothing has been asked for.\<close>

definition tcp_dialogue :: "tcp \<Rightarrow> u8 list list \<Rightarrow> nat \<Rightarrow> bool" where
  "tcp_dialogue t rs k \<longleftrightarrow> tx_script (tdata t) = [] \<and> rx (tdata t) = map Rx rs \<and> 2 * k \<le> length (mono_clock t) \<and>
     k \<le> length (polls t) \<and> (\<forall>p \<in> set (polls t). fst p = 0)"

lemma tcp_dialogue_write:
  assumes "tcp_dialogue t rs (Suc k)" and "0 < unat n" and "unat n \<le> length src"
  shows "\<exists>t'. gb_tcp_write_b t 0 n src 1000 = Inr (t', Some n, 0) \<and> tcp_dialogue t' rs k \<and>
    tx (tdata t') = tx (tdata t) @ take (unat n) src"
proof -
  obtain c cs where c: "mono_clock t = c # cs" using assms(1) by (cases "mono_clock t") (auto simp: tcp_dialogue_def)
  let ?l = "(tdata t)\<lparr>tx := tx (tdata t) @ take (unat n) src\<rparr>" and ?t = "t\<lparr>mono_clock := cs\<rparr>"
  have "gb_tcp_write ?t 0 n src = Inr (?t\<lparr>tdata := ?l\<rparr>, Some n, 0)"
    using assms by (simp add: gb_tcp_write_def tty_write_def tcp_dialogue_def min_def)
  then have "tcp_write_loop ?t 0 c n src 0 1000 = Inr (?t\<lparr>tdata := ?l\<rparr>, Some n, 0)"
    by (subst tcp_write_loop.simps) simp
  then show ?thesis using assms(1) c
    by (auto simp: gb_tcp_write_b_def clock_monotonic_def tcp_dialogue_def)
qed

lemma tcp_wait_in_vain:
  assumes "mono_clock t = c # cs" and "polls t = (0, e) # ps"
  shows "\<exists>t'. tcp_wait t wanted start timeout = Inr (t', Give_Up) \<and> tdata t' = tdata t \<and> mono_clock t' = cs \<and>
    (polls t' = polls t \<or> polls t' = ps)"
  using assms by (subst tcp_wait.simps) (auto simp: clock_monotonic_def)

lemma tcp_dialogue_read:
  assumes "tcp_dialogue t (r # rs) (Suc k)" and "0 < length r" and "length r \<le> unat n" and "unat n \<le> length dst"
    and "length r = unat n \<or> timeout = 1000"
  shows "\<exists>t' rv. gb_tcp_read_b t 0 n dst timeout = Inr (t', r @ drop (length r) dst, Some (of_nat (length r)), rv) \<and>
    tcp_dialogue t' rs k \<and> tx (tdata t') = tx (tdata t)"
proof -
  obtain c c' cs where c: "mono_clock t = c # c' # cs"
    using assms(1) by (cases "mono_clock t"; cases "tl (mono_clock t)") (auto simp: tcp_dialogue_def)
  obtain e ps where p: "polls t = (0, e) # ps" "\<forall>p \<in> set ps. fst p = 0" "k \<le> length ps"
    using assms(1) by (cases "polls t") (auto simp: tcp_dialogue_def)
  let ?t = "t\<lparr>mono_clock := c' # cs\<rparr>" and ?l = "(tdata t)\<lparr>rx := map Rx rs\<rparr>"
  have rd: "gb_tcp_read ?t 0 n dst = Inr (?t\<lparr>tdata := ?l\<rparr>, r @ drop (length r) dst, Some (of_nat (length r)), 0)"
    using assms(1-4) by (simp add: gb_tcp_read_def tty_read_def tcp_dialogue_def memcpy_def)
  show ?thesis
  proof (cases "length r = unat n")
    case True
    then have "of_nat (length r) = n" by simp
    then have "tcp_read_loop ?t 0 c n dst 0 timeout = Inr (?t\<lparr>tdata := ?l\<rparr>, r @ drop (length r) dst, Some (of_nat (length r)), 0)"
      using rd by (subst tcp_read_loop.simps) simp
    then show ?thesis using assms(1) c p
      by (auto simp: gb_tcp_read_b_def clock_monotonic_def tcp_dialogue_def)
  next
    case False
    then have t: "timeout = 1000" "of_nat (length r) \<noteq> n"
      using assms(5,3) unsigned_less [of n] by (auto simp: unat_of_nat take_bit_nat_eq_self)
    obtain t' where w: "tcp_wait (?t\<lparr>tdata := ?l\<rparr>) (EPOLLIN OR EPOLLPRI) c 1000 = Inr (t', Give_Up)"
      "tdata t' = ?l" "mono_clock t' = cs" "polls t' = (0, e) # ps \<or> polls t' = ps"
      using tcp_wait_in_vain [of "?t\<lparr>tdata := ?l\<rparr>" c' cs e ps "EPOLLIN OR EPOLLPRI" c 1000] p(1) by auto
    then have "tcp_read_loop ?t 0 c n dst 0 timeout =
        Inr (t', r @ drop (length r) dst, Some (of_nat (length r)), - ETIMEDOUT)"
      using rd t by (subst tcp_read_loop.simps) simp
    then show ?thesis using assms(1) c p w(2-)
      by (auto simp: gb_tcp_read_b_def clock_monotonic_def tcp_dialogue_def)
  qed
qed

interpretation tdl: dialogue_backend tcp_backend tcp_dialogue "\<lambda>t. tx (tdata t)"
  by unfold_locales (use tcp_dialogue_write tcp_dialogue_read in \<open>simp_all add: tcp_backend_def\<close>)

section \<open>The program\<close>

lemma module_ids_stop: "2 \<le> uint n \<Longrightarrow> uint (kind 2) < 3 \<Longrightarrow> module_ids kind 2 n = [2]"
  by (subst module_ids.simps, subst module_ids.simps) simp

text \<open>C3: The client over the TCP backend, when the connection is made and the system answers each request: it
  prints the version, the number and the kinds of modules as answered, resets the system and prints
  every character of the UART, or exits when there is no UART; it sends exactly the requests for this.
  The modules it asks for are not the \<open>n\<close> the system has: the kind of each decides whether the next one is asked for,
  so that a UART (kind two) as the second module is the last one.\<close>

theorem demo_session:
  assumes "find_backend backends ''tcp'' = Some (Some ((t, tcp_backend), r))"
    and "gb_tcp_open \<lparr>backend_options = [], num_backend_options = 0\<rparr> t 1 = Inr (t1, 0)"
    and "tcp_dialogue t1 (map bytes_of (system_answers v n kind @ control_answers [a, b, c] ws))
      (2 * length (system_answers v n kind) + 6 + length ws)"
    and "tx (tdata t1) = []" and "length junk = 16" and "u = found_uart n kind"
  shows "\<exists>d. demo_main backends True env junk junk_size (length ws) = Inr (Some d, if u = 0 then Some (- 1) else None) \<and>
    said d = [Scm_Found, Scm_Version v, System_Found, Modules n, Module_Scm] @ map (module_line kind) (module_ids kind 2 n) @
      (if u = 0 then [No_Uart] else [Reset_System, Enable_Uart] @ map (\<lambda>w. Uart_Char (ucast w)) ws) \<and>
    words_of (tx (tdata (backend_ctx (gctx d)))) = survey_requests n kind @ (if u = 0 then [] else control_requests u) \<and>
    (2 \<le> uint n \<and> uint (kind 2) < 3 \<longrightarrow> module_ids kind 2 n = [2])"
proof -
  obtain ctx where new: "glip_new backends True env ''tcp'' [] 0 = (Some ctx, 0)"
    "backend_ctx ctx = t" "backend_functions ctx = tcp_backend"
    "glip_opts.truncate ctx = \<lparr>backend_options = [], num_backend_options = 0\<rparr>"
    using assms(1) by (simp add: glip_new_def glip_opts.truncate_def)
  let ?c = "ctx\<lparr>backend_ctx := t1, connected := True\<rparr>"
  let ?d = "\<lparr>gctx = ?c, packet = junk, size_written = junk_size, uart_id = 0, said = []\<rparr>"
  have op: "glip_open (Some ctx) 1 = Inr (Some ?c, 0)"
    using assms(2) new(2-4) by (simp add: glip_open_def tcp_backend_def gb_tcp_get_channel_count_def)
  have "talking tcp_backend tcp_dialogue (\<lambda>t. tx (tdata t))
      (map bytes_of (system_answers v n kind @ control_answers [a, b, c] ws))
      (2 * length (system_answers v n kind) + 6 + length ws) [] [] 0 ?d"
    using assms(3-5) new(3) by (simp add: talking_def)
  from tdl.dialogue_ok [OF this] obtain d where
    d: "dialogue (length ws) ?d = Inr (d, if u = 0 then Some (- 1) else None)"
    "said d = survey_lines v n kind @ (if u = 0 then [No_Uart]
      else [Reset_System, Enable_Uart] @ map (\<lambda>w. Uart_Char (ucast w)) ws)"
    "tx (tdata (backend_ctx (gctx d))) = [] @ bytes_of (survey_requests n kind @ (if u = 0 then [] else control_requests u))"
    unfolding assms(6) by blast
  have "demo_main backends True env junk junk_size (length ws) = Inr (Some d, if u = 0 then Some (- 1) else None)"
    using new(1) op d(1) by (simp add: demo_main_def)
  moreover have "words_of (tx (tdata (backend_ctx (gctx d)))) = survey_requests n kind @ (if u = 0 then [] else control_requests u)"
    unfolding d(3) append_Nil by (rule words_of_bytes_of)
  ultimately show ?thesis using d(2) module_ids_stop by (auto simp: survey_lines_def)
qed

text \<open>A system with four modules, the third of them the UART: the fourth is not asked for.\<close>

definition four_modules :: "int \<Rightarrow> u16" where
  "four_modules i = (if i = 2 then 5 else if i = 3 then 2 else 7)"

definition demo_tcp :: "u8 list list \<Rightarrow> tcp" where
  "demo_tcp rs = (tcp0 (line_of (map Rx rs)) (replicate 20 (0, 0)))
     \<lparr>data_sfd := - 1, data_efd := - 1, ctrl_sfd := - 1, tlookups := [\<lambda>_ _. (0, [\<lparr>sock_rv = 7, conn_rv = 0\<rparr>]), \<lambda>_ _. (0, [\<lparr>sock_rv = 8, conn_rv = 0\<rparr>])],
      mono_clock := replicate 40 (0, 0)\<rparr>"

lemma four_modules_ids: "module_ids four_modules 2 4 = [2, 3]"
  by (simp add: module_ids.simps four_modules_def)

definition demo_tcp_opened :: "u8 list list \<Rightarrow> tcp" where
  "demo_tcp_opened rs = (demo_tcp rs)
     \<lparr>data_sfd := 7, data_efd := 4, ctrl_sfd := 8, tlookups := [], tcp_events := [Tcp_Epoll_Add 4 7]\<rparr>"

lemma demo_tcp_opens:
  "gb_tcp_open \<lparr>backend_options = [], num_backend_options = 0\<rparr> (demo_tcp rs) 1 = Inr (demo_tcp_opened rs, 0)"
  by (simp add: demo_tcp_opened_def demo_tcp_def tcp0_def gb_tcp_open_def glip_option_get_char_def
      glip_option_get_uint32_def open_data_def open_ctrl_def tcp_connect_def gl_util_connect_to_host_def
      gl_util_fd_nonblock_def tcp_log_def DEFAULT_PORT_DATA_def Let_def)

lemma demo_tcp_dialogue: "length rs < 20 \<Longrightarrow> k \<le> 20 \<Longrightarrow> tcp_dialogue (demo_tcp_opened rs) rs k"
  by (simp add: tcp_dialogue_def demo_tcp_opened_def demo_tcp_def tcp0_def line_of_def)

theorem demo_session_witness:
  "\<exists>d. demo_main [(''tcp'', Some ((demo_tcp (map bytes_of (system_answers 1 4 four_modules @
        control_answers [0, 0, 0] [72, 105])), tcp_backend), 0))] True None (replicate 16 0) 0 2 = Inr (Some d, None) \<and>
    said d = [Scm_Found, Scm_Version 1, System_Found, Modules 4, Module_Scm, Module_Unknown 2, Module_Uart 3,
      Reset_System, Enable_Uart, Uart_Char 72, Uart_Char 105]"
proof -
  let ?rs = "map bytes_of (system_answers 1 4 four_modules @ control_answers [0, 0, 0] [72, 105])"
  have u: "found_uart 4 four_modules = 3"
    by (simp add: found_uart_def four_modules_ids is_uart_def four_modules_def)
  have l: "length (system_answers 1 4 four_modules) = 6" by (simp add: system_answers_def four_modules_ids)
  have "\<exists>d. demo_main [(''tcp'', Some ((demo_tcp ?rs, tcp_backend), 0))] True None (replicate 16 0) 0 (length [72, 105 :: u16]) =
      Inr (Some d, if (3 :: u16) = 0 then Some (- 1) else None) \<and>
    said d = [Scm_Found, Scm_Version 1, System_Found, Modules 4, Module_Scm] @
      map (module_line four_modules) (module_ids four_modules 2 4) @
      (if (3 :: u16) = 0 then [No_Uart] else [Reset_System, Enable_Uart] @ map (\<lambda>w. Uart_Char (ucast w)) [72, 105 :: u16]) \<and>
    words_of (tx (tdata (backend_ctx (gctx d)))) = survey_requests 4 four_modules @
      (if (3 :: u16) = 0 then [] else control_requests 3) \<and>
    (2 \<le> uint (4 :: u16) \<and> uint (four_modules 2) < 3 \<longrightarrow> module_ids four_modules 2 4 = [2])"
    by (rule demo_session [OF _ demo_tcp_opens demo_tcp_dialogue, where r = 0])
      (simp_all add: u l control_answers_def demo_tcp_opened_def demo_tcp_def tcp0_def line_of_def)
  moreover have "length [72, 105 :: u16] = 2" by simp
  ultimately show ?thesis
    by (simp only: four_modules_ids) (auto simp add: module_line_def four_modules_def simp del: length_Cons)
qed

text \<open>The result of the opening is not looked at: when there is no connection, the program stops at the first
  assertion, because the request is still in the packet.\<close>

theorem demo_no_connection:
  assumes "find_backend backends ''tcp'' = Some (Some ((b, fns), r))" and "1 \<le> be_get_channel_count fns b"
    and "be_open fns \<lparr>backend_options = [], num_backend_options = 0\<rparr> b 1 = Inr (b', rv)" and "rv \<noteq> 0"
  shows "demo_main backends True env junk junk_size n = Inl Assert_Failed"
proof -
  obtain ctx where new: "glip_new backends True env ''tcp'' [] 0 = (Some ctx, 0)"
    "backend_ctx ctx = b" "backend_functions ctx = fns" "\<not> connected ctx"
    "glip_opts.truncate ctx = \<lparr>backend_options = [], num_backend_options = 0\<rparr>"
    using assms(1) by (simp add: glip_new_def glip_opts.truncate_def)
  have op: "glip_open (Some ctx) 1 = Inr (Some (ctx\<lparr>backend_ctx := b'\<rparr>), - 1)"
    using assms(2-4) new(2,3,5) by (simp add: glip_open_def linorder_not_le [symmetric])
  have "dialogue n \<lparr>gctx = ctx\<lparr>backend_ctx := b'\<rparr>, packet = junk, size_written = junk_size, uart_id = 0, said = []\<rparr> =
      Inl Assert_Failed"
    using new(4) by (simp add: dialogue_def and_then_def find_scm_def reg_read_def demo_write_def demo_read_def glip_write_b_def
        glip_read_b_def demo_assert_def fill_def words_of_bytes_of)
  then show ?thesis using new(1) op by (simp add: demo_main_def)
qed

section \<open>The simulation\<close>

text \<open>The simulation after \<open>m\<close> turns of a connected endpoint, and the clock and reset of turn \<open>i\<close>.\<close>

definition sim_after :: "('v \<Rightarrow> u8 \<Rightarrow> u8 \<Rightarrow> 'v) \<Rightarrow> bool \<Rightarrow> u8 \<Rightarrow> 'v \<Rightarrow> nat \<Rightarrow> 'v sim" where
  "sim_after eval vcd clk v m = (sim_turn eval vcd ^^ m) (sim_start eval vcd clk v)"

definition wave :: "u8 \<Rightarrow> nat \<Rightarrow> u8 \<times> u8" where
  "wave clk i = (if even i then clk else 1 - clk, if i < 3 then 1 else 0)"

lemma sim_time_word: "5 * m < 2 ^ 64 \<Longrightarrow> (of_nat (5 * m) :: u64) = 15 \<longleftrightarrow> m = 3"
proof -
  assume m: "5 * m < 2 ^ 64"
  have "(of_nat (5 * m) :: u64) = of_nat 15 \<longleftrightarrow> 5 * m = 15"
    using m by (simp only: word_of_nat_eq_iff) (simp add: take_bit_nat_eq_self)
  then show ?thesis by simp
qed

lemma sim_turn_simps:
  "sim_time (sim_turn eval vcd s) = sim_time s + 5" "sim_clk (sim_turn eval vcd s) = 1 - sim_clk s"
  "sim_rst (sim_turn eval vcd s) = (if sim_time s + 5 = 15 then 0 else sim_rst s)"
  "design (sim_turn eval vcd s) = eval (design s) (1 - sim_clk s) (sim_rst (sim_turn eval vcd s))"
  "dumps (sim_turn eval vcd s) = dumps s @ (if vcd then [sim_time s + 5] else [])"
  by (simp_all add: sim_turn_def sim_eval_def Let_def)

lemma sim_after_state:
  assumes "5 * m < 2 ^ 64"
  shows "sim_time (sim_after eval vcd clk v m) = of_nat (5 * m) \<and>
    (sim_clk (sim_after eval vcd clk v m), sim_rst (sim_after eval vcd clk v m)) = wave clk m \<and>
    design (sim_after eval vcd clk v m) = fold (\<lambda>(c, r) v. eval v c r) (map (wave clk) [0 ..< Suc m]) v \<and>
    dumps (sim_after eval vcd clk v m) = (if vcd then map (\<lambda>i. of_nat (5 * i)) [0 ..< Suc m] else [])"
  using assms
proof (induction m)
  case 0
  then show ?case by (simp add: sim_after_def sim_start_def sim_eval_def wave_def Let_def)
next
  case (Suc m)
  let ?s = "sim_after eval vcd clk v m"
  have a: "sim_after eval vcd clk v (Suc m) = sim_turn eval vcd ?s" by (simp add: sim_after_def)
  have t: "sim_time ?s + 5 = of_nat (5 * Suc m)" using Suc by simp
  have "sim_time ?s + 5 = 15 \<longleftrightarrow> Suc m = 3" unfolding t by (rule sim_time_word [OF Suc.prems])
  moreover have s: "(sim_clk ?s, sim_rst ?s) = wave clk m" "sim_time ?s = of_nat (5 * m)"
    "design ?s = fold (\<lambda>(c, r) v. eval v c r) (map (wave clk) [0 ..< Suc m]) v"
    "dumps ?s = (if vcd then map (\<lambda>i. of_nat (5 * i)) [0 ..< Suc m] else [])"
    using Suc by simp_all
  moreover have "sim_rst ?s = (if m < 3 then 1 else 0)" "sim_clk ?s = (if even m then clk else 1 - clk)"
    using s(1) by (simp_all add: wave_def)
  ultimately have w: "(sim_clk (sim_turn eval vcd ?s), sim_rst (sim_turn eval vcd ?s)) = wave clk (Suc m)"
    by (simp add: sim_turn_simps wave_def)
  have c: "1 - sim_clk ?s = fst (wave clk (Suc m))" "sim_rst (sim_turn eval vcd ?s) = snd (wave clk (Suc m))"
    using w by (simp_all add: sim_turn_simps flip: w)
  have "design (sim_turn eval vcd ?s) = fold (\<lambda>(c, r) v. eval v c r) (map (wave clk) [0 ..< Suc (Suc m)]) v"
    unfolding sim_turn_simps(4) c s(3) by (simp add: split_def)
  moreover have "dumps (sim_turn eval vcd ?s) = (if vcd then map (\<lambda>i. of_nat (5 * i)) [0 ..< Suc (Suc m)] else [])"
    unfolding sim_turn_simps(5) t s(4) by simp
  ultimately show ?case using w t unfolding a by (simp only: sim_turn_simps(1))
qed

lemma sim_loop_ok:
  assumes "\<forall>e \<in> set es. \<not> fst e" and "unat stop + 5 < 2 ^ 64" and "m \<le> (unat stop + 4) div 5"
  shows "\<exists>st. sim_loop eval vcd stop es (sim_after eval vcd clk v m) =
      (sim_after eval vcd clk v (min (m + length (filter snd es)) ((unat stop + 4) div 5)), st) \<and>
    ((unat stop + 4) div 5 < m + length (filter snd es) \<longrightarrow> st = Done) \<and>
    (m + length (filter snd es) < (unat stop + 4) div 5 \<longrightarrow> st = Running)"
  using assms(1,3)
proof (induction es arbitrary: m)
  case Nil
  then show ?case by (simp add: min_def)
next
  case (Cons e es)
  obtain conn where e: "e = (False, conn)" using Cons.prems(1) by (cases e) auto
  have m: "5 * m < 2 ^ 64" using Cons.prems(2) assms(2) by linarith
  have "unat (sim_time (sim_after eval vcd clk v m)) = 5 * m"
    using sim_after_state [OF m, of eval vcd clk v] m unat_of_nat_small [of "5 * m", where 'a = 64] by simp
  then have lt: "sim_time (sim_after eval vcd clk v m) < stop \<longleftrightarrow> m < (unat stop + 4) div 5"
    by (auto simp: word_less_nat_alt)
  have n: "sim_turn eval vcd (sim_after eval vcd clk v m) = sim_after eval vcd clk v (Suc m)"
    by (simp add: sim_after_def)
  show ?case
  proof (cases "m < (unat stop + 4) div 5")
    case False
    then show ?thesis using Cons.prems(2) lt by (auto simp: e min_def)
  next
    case True
    then show ?thesis
      using Cons.IH [of m] Cons.IH [of "Suc m"] Cons.prems lt n by (cases conn) (auto simp: e)
  qed
qed

text \<open>C39: While the endpoint is connected and the simulator not finished, the simulation evaluates the design
  once every five units of time with an alternating clock, with the reset in the evaluations at the times 0, 5 and 10
  and never after, records every evaluation if it is told to, and ends at the first multiple of five that is not
  below the end; while the endpoint is not connected nothing advances.\<close>

theorem sim_run:
  assumes "\<forall>e \<in> set es. \<not> fst e" and "unat stop + 5 < 2 ^ 64"
    and "turns = min (length (filter snd es)) ((unat stop + 4) div 5)"
  shows "\<exists>s st. sim_loop eval vcd stop es (sim_start eval vcd clk v) = (s, st) \<and> sim_time s = of_nat (5 * turns) \<and>
    design s = fold (\<lambda>(c, r) v. eval v c r)
      (map (\<lambda>i. (if even i then clk else 1 - clk, if i < 3 then 1 else 0)) [0 ..< Suc turns]) v \<and>
    dumps s = (if vcd then map (\<lambda>i. of_nat (5 * i)) [0 ..< Suc turns] else []) \<and>
    ((unat stop + 4) div 5 < length (filter snd es) \<longrightarrow> st = Done \<and> stop \<le> sim_time s) \<and>
    (length (filter snd es) < (unat stop + 4) div 5 \<longrightarrow> st = Running)"
proof -
  have 0: "sim_start eval vcd clk v = sim_after eval vcd clk v 0" by (simp add: sim_after_def)
  obtain st where l: "sim_loop eval vcd stop es (sim_start eval vcd clk v) = (sim_after eval vcd clk v turns, st)"
    "(unat stop + 4) div 5 < length (filter snd es) \<longrightarrow> st = Done"
    "length (filter snd es) < (unat stop + 4) div 5 \<longrightarrow> st = Running"
    using sim_loop_ok [OF assms(1,2), of 0 eval vcd clk v] unfolding 0 assms(3) by auto
  have t: "5 * turns < 2 ^ 64" using assms(2,3) by linarith
  have "(unat stop + 4) div 5 < length (filter snd es) \<longrightarrow> stop \<le> of_nat (5 * turns)"
    using t assms(3) unat_of_nat_small [of "5 * turns", where 'a = 64] by (auto simp: word_le_nat_alt)
  then show ?thesis
    using l sim_after_state [OF t, of eval vcd clk v] by (simp add: wave_def [abs_def])
qed

theorem sim_run_witness:
  "\<exists>s st. sim_loop (\<lambda>v c r. v @ [(c, r)]) True 18 [(False, False), (False, True), (False, True), (False, False), (False, True),
      (False, True), (False, True)] (sim_start (\<lambda>v c r. v @ [(c, r)]) True 0 []) = (s, st) \<and> sim_time s = 20 \<and>
    design s = [(0, 1), (1, 1), (0, 1), (1, 0), (0, 0)] \<and> dumps s = [0, 5, 10, 15, 20] \<and> st = Done"
proof -
  have u: "[0 ..< Suc 4] = [0, 1, 2, 3, 4]" by (simp add: upt_rec)
  show ?thesis
    using sim_run [of "[(False, False), (False, True), (False, True), (False, False), (False, True), (False, True),
        (False, True)]" 18 4 "\<lambda>v c r. v @ [(c, r)]" True 0 "[]"] unfolding u
    by (simp del: sim_loop.simps) blast
qed

text \<open>The program returns 0 once the end given on its command line, in tens of units, is reached, and not before.\<close>

lemma sim_main_returns:
  assumes "\<forall>e \<in> set es. \<not> fst e" and "sim_args args vcd0 stop0 = (vcd, stop)" and "unat stop + 5 < 2 ^ 64"
  shows "\<exists>s code. sim_main eval final args vcd0 stop0 clk v es = (s, code) \<and>
    ((unat stop + 4) div 5 < length (filter snd es) \<longrightarrow>
       code = Some 0 \<and> design s = final (design (sim_after eval vcd clk v ((unat stop + 4) div 5)))) \<and>
    (length (filter snd es) < (unat stop + 4) div 5 \<longrightarrow> code = None)"
proof -
  have 0: "sim_start eval vcd clk v = sim_after eval vcd clk v 0" by (simp add: sim_after_def)
  obtain st where "sim_loop eval vcd stop es (sim_start eval vcd clk v) =
      (sim_after eval vcd clk v (min (length (filter snd es)) ((unat stop + 4) div 5)), st)"
    "(unat stop + 4) div 5 < length (filter snd es) \<longrightarrow> st = Done"
    "length (filter snd es) < (unat stop + 4) div 5 \<longrightarrow> st = Running"
    using sim_loop_ok [OF assms(1,3), of 0 eval vcd clk v] unfolding 0 by auto
  then show ?thesis using assms(2) by (auto simp: sim_main_def min_def)
qed

end
