(* ===== verification/Uart_Link.thy ===== *)
theory Uart_Link
  imports Uart_Backend
begin

text \<open>
  The UART backend together with the far end of its line, which sends every data word back: what is on
  its way between them, the turns of the parts of a round of the backend's thread (\<open>thread_read\<close>,
  \<open>thread_write\<close>, \<open>thread_credit\<close>) and of the far end, and what all of them keep.
\<close>

section \<open>The far end\<close>

text \<open>\<open>far_line\<close> are the messages the far end has sent and the thread has not received, \<open>far_held\<close> the data
  words it has taken and not sent back.\<close>

record far =
  far_line :: "msg list"
  far_held :: "u8 list"

definition on_way :: "far \<Rightarrow> u8 list" where
  "on_way w = datas (far_line w) @ far_held w"

text \<open>The sum of all credit given in messages, without wrapping around.\<close>

definition total_granted :: "msg list \<Rightarrow> nat" where
  "total_granted ms = sum_list (map (\<lambda>m. case m of Credit a b \<Rightarrow> unat (tranche_of a b) | _ \<Rightarrow> 0) ms)"

text \<open>
  The bytes on the line are those of the messages; the far end never sends more data words than it was
  given credit for, and never has given credit for \<open>2 ^ 31\<close> words or more.  No call on the device fails.
\<close>

definition uart_link :: "uart \<Rightarrow> far \<Rightarrow> bool" where
  "uart_link u w \<longleftrightarrow> uart_inv u \<and> rx_clean (uline u) \<and> tx_clean (uline u) \<and>
     pending (uline u) = encode (far_line w) \<and> (\<forall>m \<in> set (far_line w). valid_msg m) \<and>
     length (datas (far_line w)) \<le> unat (credit u) \<and> unat (debt u) + total_granted (far_line w) < 2 ^ 31 \<and>
     0x3fff \<le> unat (buffer_size u)"

text \<open>
  Receiving: what the line still holds afterwards says how many messages were taken.  With a full input buffer
  a data word stops the program (\<open>uart_overrun\<close>), so that none may be on the line then.  Sending: the far
  end takes the data words it finds on the line.  Answering: the far end sends messages of its own, in any
  pieces; their data words are the oldest it holds.
\<close>

inductive uart_wire :: "uart \<Rightarrow> far \<Rightarrow> uart \<Rightarrow> far \<Rightarrow> bool" where
  receive: "length (uart_in u) < capacity (input_buffer u) \<or> datas (far_line w) = [] \<Longrightarrow>
    thread_read u = Inr u' \<Longrightarrow> k \<le> length (far_line w) \<Longrightarrow> pending (uline u') = encode (drop k (far_line w)) \<Longrightarrow>
    uart_wire u w u' (w\<lparr>far_line := drop k (far_line w)\<rparr>)"
| send: "thread_write u = Inr u' \<Longrightarrow> tx (uline u') = tx (uline u) @ encode (map Data ds) \<Longrightarrow>
    uart_wire u w u' (w\<lparr>far_held := far_held w @ ds\<rparr>)"
| grant: "thread_credit u = Inr u' \<Longrightarrow> uart_wire u w u' w"
| answer: "\<forall>m \<in> set ms. valid_msg m \<Longrightarrow> datas ms = take k (far_held w) \<Longrightarrow>
    length (datas (far_line w @ ms)) \<le> unat (credit u) \<Longrightarrow>
    unat (debt u) + total_granted (far_line w @ ms) < 2 ^ 31 \<Longrightarrow>
    Rx_Fail \<notin> set evs \<Longrightarrow> concat (map (\<lambda>e. case e of Rx bs \<Rightarrow> bs | _ \<Rightarrow> []) evs) = encode ms \<Longrightarrow>
    uart_wire u w (u\<lparr>uline := (uline u)\<lparr>rx := rx (uline u) @ evs\<rparr>\<rparr>)
      (w\<lparr>far_line := far_line w @ ms, far_held := drop k (far_held w)\<rparr>)"

section \<open>Messages\<close>

lemma datas_append [simp]: "datas (ms @ ns) = datas ms @ datas ns"
  by (simp add: datas_def)

lemma total_granted_append [simp]: "total_granted (ms @ ns) = total_granted ms + total_granted ns"
  by (simp add: total_granted_def)

lemma total_granted_simps [simp]: "total_granted [] = 0" "total_granted (Data d # ms) = total_granted ms"
    "total_granted (Credit a b # ms) = unat (tranche_of a b) + total_granted ms"
  by (simp_all add: total_granted_def)

lemma datas_map_Data [simp]: "datas (map Data ds) = ds"
  by (induction ds) simp_all

lemma granted_unat:
  "unat x + total_granted ms < 2 ^ 31 \<Longrightarrow> unat (x + granted ms) = unat x + total_granted ms"
proof (induction ms arbitrary: x)
  case (Cons m ms)
  show ?case
  proof (cases m)
    case (Credit a b)
    have u: "unat (x + tranche_of a b) = unat x + unat (tranche_of a b)"
      using Cons.prems Credit by (subst unat_add_small) simp_all
    then show ?thesis using Cons.IH [of "x + tranche_of a b"] Cons.prems Credit by (simp add: add.assoc)
  qed (use Cons in simp)
qed simp

lemma datas_take_drop: "datas (take k ms) @ datas (drop k ms) = datas ms"
  by (metis append_take_drop_id datas_append)

lemma cover_le: "cover n ms \<le> length ms"
  by (induction n ms rule: cover.induct) simp_all

lemma datas_cover_le: "length (datas (take (cover n ms) ms)) \<le> n"
proof (induction n ms rule: cover.induct)
  case (2 n m ms)
  have "length (datas [m]) \<le> length (encode_msg m)" by (cases m) simp_all
  then show ?case using 2 by (cases "n = 0"; cases m) (simp_all split: if_splits)
qed simp

lemma encode_inject_Data: "encode (map Data ds) = encode (map Data ds') \<Longrightarrow> ds = ds'"
proof (induction ds arbitrary: ds')
  case Nil
  then show ?case by (cases ds') (auto split: if_splits)
next
  case (Cons d ds)
  then obtain e es where "ds' = e # es" by (cases ds') (auto split: if_splits)
  then show ?case using Cons by (auto split: if_splits)
qed

lemma encode_drop_inject:
  assumes "encode (drop i ms) = encode (drop j ms)" and "i \<le> length ms" and "j \<le> length ms"
  shows "i = j"
proof -
  have less: "encode (drop a ms) \<noteq> encode (drop b ms)" if "a < b" "b \<le> length ms" for a b
  proof -
    have "drop a ms = take (b - a) (drop a ms) @ drop b ms"
      using that by (metis append_take_drop_id drop_drop le_add_diff_inverse2 less_imp_le)
    moreover have "take (b - a) (drop a ms) \<noteq> []" using that by simp
    then obtain m xs where "take (b - a) (drop a ms) = m # xs" by (cases "take (b - a) (drop a ms)") auto
    ultimately have "length (encode (drop a ms)) = length (encode_msg m) + length (encode xs) + length (encode (drop b ms))"
      by (metis append_Cons encode_append encode_simps(2) length_append add.assoc)
    then show ?thesis using length_encode_msg [of m] by (metis add.assoc add_cancel_right_left gr_implies_not0 add_eq_0_iff_both_eq_0)
  qed
  show ?thesis using less [of i j] less [of j i] assms by (metis linorder_neqE_nat)
qed

section \<open>Receiving\<close>

lemma received_idle:
  assumes "uart_link u w" and "rx_clean l" and "tx l = tx (uline u)" and "tx_script l = tx_script (uline u)"
  shows "received u [] (u\<lparr>uline := l\<rparr>)"
  using assms by (simp add: received_def unchanged_def uart_link_def uart_inv_def)

lemma read_full:
  assumes "uart_link u w" and "datas (far_line w) = []" and "cbuf_free_level (input_buffer u) = 0"
    and "tty_read (uline u) 1 = Inr (l, Io [b])" and "pending (uline u) = b # pending l" and "rx_clean l"
    and "tx l = tx (uline u)" and "tx_script l = tx_script (uline u)"
  obtains u' where "thread_read u = Inr u'" "received u (take 1 (far_line w)) u'"
    "pending (uline u') = encode (drop 1 (far_line w))" "1 \<le> length (far_line w)"
proof -
  have e: "encode (far_line w) = b # pending l" using assms(1,5) by (simp add: uart_link_def)
  then obtain m ms where ms: "far_line w = m # ms" by (cases "far_line w") simp_all
  then obtain a c where m: "m = Credit a c" using assms(2) by (cases m) simp_all
  have b: "b = 0xfe" "pending l = a # c # encode ms" using e ms m by simp_all
  obtain l2 where l2: "read_blocking l 2 0 = Inr (l2, [a, c], 0)" "pending l2 = encode ms" "rx_clean l2"
    "tx l2 = tx l" "tx_script l2 = tx_script l"
    by (rule read_blocking_ok [OF assms(6), of 2]) (use b(2) in simp_all)
  have "thread_read u = Inr (update_debt (u\<lparr>uline := l2\<rparr>) a c)"
    using assms(3,4) b(1) l2(1) by (simp add: thread_read_def Let_def)
  moreover have "received u [m] (update_debt (u\<lparr>uline := l2\<rparr>) a c)"
    using assms(1,7,8) l2(3-5) m
    by (simp add: received_def unchanged_def uart_link_def uart_inv_def update_debt_def)
  moreover have "pending (uline (update_debt (u\<lparr>uline := l2\<rparr>) a c)) = encode ms"
    using l2(2) by (simp add: update_debt_def)
  ultimately show thesis using that ms by simp
qed

text \<open>What \<open>thread_read\<close> does in a round: it waits, or takes in some messages.\<close>

lemma thread_read_link:
  assumes "uart_link u w" and "length (uart_in u) < capacity (input_buffer u) \<or> datas (far_line w) = []"
  shows "thread_read u = Inl Blocked \<or> (\<exists>u' k. thread_read u = Inr u' \<and> k \<le> length (far_line w) \<and>
    received u (take k (far_line w)) u' \<and> pending (uline u') = encode (drop k (far_line w)))"
proof (cases "rx (uline u) = []")
  case True
  then show ?thesis by (simp add: thread_read_def tty_read_def Let_def)
next
  case False
  let ?ms = "far_line w" and ?free = "cbuf_free_level (input_buffer u)"
  have L: "rx_clean (uline u)" "pending (uline u) = encode ?ms" "\<forall>m \<in> set ?ms. valid_msg m"
    "length (datas ?ms) \<le> unat (credit u)" "cbuf_wf (input_buffer u)"
    using assms(1) by (simp_all add: uart_link_def uart_inv_def)
  have free: "unat ?free = capacity (input_buffer u) - length (uart_in u)" by (rule cq.room [OF L(5)])
  define n where "n = (if ?free = 0 then 1 else unat (c_min ?free 256))"
  obtain l r bs where r: "tty_read (uline u) n = Inr (l, r)" "r \<noteq> Io_Fail"
    "bs = (case r of Io bs \<Rightarrow> bs | _ \<Rightarrow> [])" "length bs \<le> n" "pending (uline u) = bs @ pending l"
    "rx_clean l" "tx l = tx (uline u)" "tx_script l = tx_script (uline u)"
    using tty_read_clean [OF L(1) False] by metis
  have idle: "thread_read u = Inr (u\<lparr>uline := l\<rparr>)" if "bs = []"
    using that r(1-3) by (cases r) (auto simp: thread_read_def n_def Let_def TMP_BUFFER_SIZE_def split: if_splits)
  show ?thesis
  proof (cases "bs = []")
    case True
    then have "thread_read u = Inr (u\<lparr>uline := l\<rparr>)" "received u (take 0 ?ms) (u\<lparr>uline := l\<rparr>)"
      "pending (uline (u\<lparr>uline := l\<rparr>)) = encode (drop 0 ?ms)"
      using idle received_idle [OF assms(1) r(6-8)] r(5) L(2) by simp_all
    then show ?thesis by blast
  next
    case got: False
    then have io: "r = Io bs" using r(2,3) by (cases r) simp_all
    show ?thesis
    proof (cases "?free = 0")
      case True
      then have "length (uart_in u) \<ge> capacity (input_buffer u)" using free by simp
      then have d: "datas ?ms = []" using assms(2) by simp
      obtain b where b: "bs = [b]" using got r(4) True by (cases bs) (auto simp: n_def)
      have "tty_read (uline u) 1 = Inr (l, Io [b])" "pending (uline u) = b # pending l"
        using r(1,5) io b True by (simp_all add: n_def)
      from read_full [OF assms(1) d True this r(6-8)] show ?thesis by metis
    next
      case nz: False
      have "unat ?free < 2 ^ 31" by (rule fifo_small(4) [OF L(5)])
      then have "n = min (unat ?free) 256" using nz by (simp add: n_def c_min_eq unat_min)
      then have n: "length bs \<le> unat ?free" using r(4) by simp
      let ?k = "cover (length bs) ?ms"
      have "length (datas (take ?k ?ms)) \<le> length (datas ?ms)"
        by (metis datas_take_drop length_append le_add1)
      then have c: "length (datas (take ?k ?ms)) \<le> unat (credit u)" using L(4) by linarith
      have "length (datas (take ?k ?ms)) \<le> unat ?free" using datas_cover_le [of "length bs" ?ms] n by linarith
      then have "length (uart_in u) + length (datas (take ?k ?ms)) \<le> capacity (input_buffer u)"
        using free cq.bounded [OF L(5)] by linarith
      then have rd: "ready u (length (datas (take ?k ?ms)))"
        unfolding ready_def using L(1,5) c by blast
      have "length (uart_in u) < capacity (input_buffer u)"
        using free nz by (metis unat_eq_0 zero_less_diff gr0I)
      then obtain u' where "thread_read u = Inr u'" "received u (take ?k ?ms) u'" "pending (uline u') = encode (drop ?k ?ms)"
        using thread_read_decodes [OF L(3,2) _ got L(1) rd] r(1) io nz by (auto simp: n_def)
      then show ?thesis using cover_le by blast
    qed
  qed
qed

lemma received_link:
  assumes "uart_link u w" and "received u (take k (far_line w)) u'" and "pending (uline u') = encode (drop k (far_line w))"
    and "v = w\<lparr>far_line := drop k (far_line w)\<rparr>"
  shows "uart_link u' v \<and> uart_in u' @ on_way v @ uart_out u' = uart_in u @ on_way w @ uart_out u"
proof -
  let ?ms = "far_line w"
  have R: "unchanged u u'" "cbuf_wf (input_buffer u')" "uart_in u' = uart_in u @ datas (take k ?ms)"
    "unat (credit u') + length (datas (take k ?ms)) = unat (credit u)" "debt u' = debt u + granted (take k ?ms)"
    "rx_clean (uline u')" "tx_script (uline u') = tx_script (uline u)"
    using assms(2) by (simp_all add: received_def)
  have U: "output_buffer u' = output_buffer u" "buffer_size u' = buffer_size u"
    using R(1) by (cases u; cases u'; simp add: unchanged_def)+
  have d: "length (datas ?ms) = length (datas (take k ?ms)) + length (datas (drop k ?ms))"
    by (metis datas_take_drop length_append)
  have g: "total_granted ?ms = total_granted (take k ?ms) + total_granted (drop k ?ms)"
    by (metis append_take_drop_id total_granted_append)
  have "unat (debt u') = unat (debt u) + total_granted (take k ?ms)"
    unfolding R(5) using assms(1) g by (intro granted_unat) (simp add: uart_link_def)
  then have g': "unat (debt u') + total_granted (drop k ?ms) < 2 ^ 31"
    using assms(1) g by (simp add: uart_link_def)
  have c': "length (datas (drop k ?ms)) \<le> unat (credit u')"
    using assms(1) d R(4) by (simp add: uart_link_def)
  have A: "cbuf_wf (output_buffer u)" "tx_clean (uline u)" "\<forall>m \<in> set ?ms. valid_msg m" "0x3fff \<le> unat (buffer_size u)"
    using assms(1) unfolding uart_link_def uart_inv_def by blast+
  have m: "\<forall>m \<in> set (drop k ?ms). valid_msg m" using A(3) in_set_dropD by metis
  have t: "tx_clean (uline u')" using A(2) clean_cong(3) [OF R(7)] by blast
  have l: "far_line v = drop k ?ms" unfolding assms(4) by simp
  have "uart_link u' v"
    unfolding uart_link_def uart_inv_def l U using R(2,6) A(1,4) m t assms(3) c' g' by blast
  moreover have "uart_in u' @ on_way v @ uart_out u' = uart_in u @ on_way w @ uart_out u"
    unfolding R(3) U(1) on_way_def l datas_take_drop [of k ?ms, symmetric] by (simp add: assms(4))
  ultimately show ?thesis by blast
qed

section \<open>Sending and granting\<close>

lemma thread_write_link:
  assumes "uart_link u w"
  obtains u' ds where "thread_write u = Inr u'" "tx (uline u') = tx (uline u) @ encode (map Data ds)"
    "uart_link u' w" "ds @ uart_out u' = uart_out u" "input_buffer u' = input_buffer u"
proof -
  have L: "cbuf_wf (output_buffer u)" "tx_clean (uline u)" "unat (debt u) < 2 ^ 31"
    using assms by (simp_all add: uart_link_def uart_inv_def)
  define n where "n = min (unat (debt u)) (min (length (contents (output_buffer u))) 256)"
  obtain u' where u': "thread_write u = Inr u'" "cbuf_wf (output_buffer u')" "uart_out u' = drop n (uart_out u)"
    "tx (uline u') = tx (uline u) @ encode (map Data (take n (uart_out u)))" "unat (debt u') = unat (debt u) - n"
    "tx_clean (uline u')" "rx (uline u') = rx (uline u)" "credit u' = credit u" "input_buffer u' = input_buffer u"
    "buffer_size u' = buffer_size u"
    by (rule thread_write_ok [OF L n_def])
  have "uart_link u' w"
    using assms u' clean_cong(1,2) [OF u'(7)] by (auto simp: uart_link_def uart_inv_def)
  then show thesis using that [OF u'(1,4)] u'(3,9) by simp
qed

lemma thread_credit_link:
  assumes "uart_link u w"
  obtains u' where "thread_credit u = Inr u'" "uart_link u' w" "input_buffer u' = input_buffer u"
    "output_buffer u' = output_buffer u"
proof (cases "credit u < buffer_size u - ucast UART_MAX_TRANCHE")
  case False
  then show thesis using that [of u] assms by (simp add: thread_credit_def)
next
  case True
  have t: "(ucast UART_MAX_TRANCHE :: size_t) = 0x3fff" by (simp add: UART_MAX_TRANCHE_def)
  have B: "0x3fff \<le> unat (buffer_size u)" "tx_clean (uline u)" using assms by (simp_all add: uart_link_def)
  have "unat (buffer_size u - 0x3fff) = unat (buffer_size u) - 0x3fff"
    using B(1) by (subst unat_minus_le) (simp_all add: word_le_nat_alt)
  then have "unat (credit u) + 0x3fff < 2 ^ 64"
    using True unsigned_less [of "buffer_size u", where ?'a = nat] B(1) unfolding t by (simp add: word_less_nat_alt)
  then have c: "unat (credit u + 0x3fff) = unat (credit u) + 0x3fff" by (subst unat_add_small) simp_all
  obtain l where l: "write_blocking (uline u) (credit_msg UART_MAX_TRANCHE) 0 = Inr (l, length (credit_msg UART_MAX_TRANCHE), 0)"
    "tx_clean l" "rx l = rx (uline u)"
    by (rule write_blocking_ok [OF B(2)])
  have "thread_credit u = Inr (u\<lparr>credit := credit u + 0x3fff, uline := l\<rparr>)"
    using True l(1) unfolding thread_credit_def t by (simp add: send_credit_def)
  moreover have "uart_link (u\<lparr>credit := credit u + 0x3fff, uline := l\<rparr>) w"
    using assms c l(2) clean_cong(1,2) [OF l(3)] by (simp add: uart_link_def uart_inv_def)
  ultimately show thesis using that by simp
qed

section \<open>All turns\<close>

lemma uart_wire_keeps:
  assumes "uart_wire u w u' w'" and "uart_link u w"
  shows "uart_link u' w' \<and> uart_in u' @ on_way w' @ uart_out u' = uart_in u @ on_way w @ uart_out u"
  using assms(1)
proof cases
  case (receive k)
  obtain j where j: "j \<le> length (far_line w)" "received u (take j (far_line w)) u'"
    "pending (uline u') = encode (drop j (far_line w))"
    using thread_read_link [OF assms(2) receive(2)] receive(3) by auto
  have "j = k" by (rule encode_drop_inject [OF _ j(1) receive(4)]) (use j(3) receive(5) in simp)
  then show ?thesis using received_link [OF assms(2)] j(2,3) receive(1) by blast
next
  case (send ds)
  obtain ds' where d: "tx (uline u') = tx (uline u) @ encode (map Data ds')" "uart_link u' w"
    "ds' @ uart_out u' = uart_out u" "input_buffer u' = input_buffer u"
    using thread_write_link [OF assms(2)] send(2) by (metis sum.inject(2))
  have "ds' = ds" using d(1) send(3) encode_inject_Data by simp
  then show ?thesis using d(2-4) send(1) by (auto simp: uart_link_def on_way_def)
next
  case grant
  then show ?thesis using thread_credit_link [OF assms(2)] by (metis sum.inject(2))
next
  case (answer ms k evs)
  have p: "pending ((uline u)\<lparr>rx := rx (uline u) @ evs\<rparr>) = pending (uline u) @ encode ms"
    using answer(8) by (simp add: pending_def)
  have "uart_link u' w'"
    using assms(2) answer p by (auto simp: uart_link_def uart_inv_def rx_clean_def tx_clean_def encode_append)
  moreover have "on_way w' = on_way w"
    using answer(2,4) by (simp add: on_way_def)
  ultimately show ?thesis using answer(1) by simp
qed

lemma gb_uart_read_frame: "gb_uart_read u ch n dst = Inr (u', d, k, rv) \<Longrightarrow> \<exists>b. u' = u\<lparr>input_buffer := b\<rparr>"
  by (auto simp: gb_uart_read_def cbind_eq_Inr_iff split: if_splits intro: exI [of _ "input_buffer u"])

lemma gb_uart_write_frame: "gb_uart_write u ch n src = Inr (u', k, rv) \<Longrightarrow> \<exists>b. u' = u\<lparr>output_buffer := b\<rparr>"
  by (auto simp: gb_uart_write_def cbind_eq_Inr_iff split: if_splits intro: exI [of _ "output_buffer u"])

lemma uart_link_calls:
  "uart_link u w \<Longrightarrow> uart_inv (u\<lparr>input_buffer := b\<rparr>) \<Longrightarrow> uart_link (u\<lparr>input_buffer := b\<rparr>) w"
  "uart_link u w \<Longrightarrow> uart_inv (u\<lparr>output_buffer := b\<rparr>) \<Longrightarrow> uart_link (u\<lparr>output_buffer := b\<rparr>) w"
  by (simp_all add: uart_link_def)

end
