(* ===== verification/Loopback_Run.thy ===== *)
theory Loopback_Run
  imports Loopback_Properties Uart_Link
begin

text \<open>
  The measuring program as a whole over the UART backend: the turns of the sending loop, of the checking
  thread, of the backend's own thread and of a far end that sends every data word back, in any order.
\<close>

section \<open>The pattern on its way\<close>

lemma take_pattern: "k \<le> n \<Longrightarrow> take k (pattern a n) = pattern a k"
  using pattern_add [of a k "n - k"] by simp

lemma drop_pattern: "k \<le> n \<Longrightarrow> drop k (pattern a n) = pattern (a + k) (n - k)"
  using pattern_add [of a k "n - k"] by simp

text \<open>Where in the stream of \<open>N\<close> bytes the sender may be: at a block's start, or so far from the end that the
  rest of the block lies before it.\<close>

definition whole_blocks :: "nat \<Rightarrow> nat \<Rightarrow> bool" where
  "whole_blocks N c \<longleftrightarrow> c mod 6 = 0 \<or> c + 6 \<le> N \<or> c = N"

lemma whole_blocks_step:
  assumes "whole_blocks N c" and "c < N" and "6 \<le> r \<or> c + 11 \<le> N"
    and "k = (if c mod 6 \<le> min 6 (N - c) then min (min 6 (N - c) - c mod 6) r else r)"
  shows "k \<le> 6 - c mod 6" and "c + k \<le> N" and "whole_blocks N (c + k)"
proof -
  have q: "c mod 6 < 6" "c mod 6 \<le> min 6 (N - c)" "c mod 6 = 0 \<or> c + 6 \<le> N"
    using assms(1,2) by (auto simp: whole_blocks_def)
  have k: "k = min (min 6 (N - c) - c mod 6) r" using assms(4) q(2) by simp
  then have "k \<le> min 6 (N - c) - c mod 6" by simp
  then show "k \<le> 6 - c mod 6" "c + k \<le> N" using assms(2) by linarith+
  have "(c + k) mod 6 = 0 \<or> c + k + 6 \<le> N \<or> c + k = N"
  proof (cases "k = 6 - c mod 6")
    case True
    then have "c mod 6 + k = 6" using q(1) by simp
    then have "(c mod 6 + k) mod 6 = 0" by simp
    then have "(c + k) mod 6 = 0" by (simp only: mod_add_left_eq)
    then show ?thesis by blast
  next
    case False
    show ?thesis
    proof (cases "r < 6")
      case True
      moreover have "k \<le> r" using k by simp
      ultimately show ?thesis using assms(3) by linarith
    next
      case r: False
      then have k': "k = min 6 (N - c) - c mod 6" using k by simp
      show ?thesis
      proof (cases "c + 6 \<le> N")
        case True
        then show ?thesis using k' False by simp
      next
        case last: False
        then show ?thesis using k' q(3) assms(2) by simp
      qed
    qed
  qed
  then show "whole_blocks N (c + k)" unfolding whole_blocks_def .
qed

context copying_backend
begin

lemma run_read:
  assumes "connected ctx" and "backend_functions ctx = fns" and "inv (backend_ctx ctx)" and "\<not> use_blocking_functions m"
    and "length (rd_data r) = 2048" and "rd_exp r = of_nat (a mod 6)" and "rd_byte r = int a"
    and "unat (current_sent m) = c" and "unat (current_received m) = a" and "a \<le> c" and "c < 2 ^ 31"
    and "inq (backend_ctx ctx) @ rest = pattern a (c - a)" and "k = min 2048 (length (inq (backend_ctx ctx)))"
  shows "\<exists>s' m' r'. read_turn ctx m r =
      Inr (ctx\<lparr>backend_ctx := s'\<rparr>, m', r', if send_done m \<and> c \<le> a + k then Done else Running) \<and>
    m' = m\<lparr>current_received := current_received m + of_nat k\<rparr> \<and> unat (current_received m') = a + k \<and> a + k \<le> c \<and>
    inv s' \<and> inq s' @ rest = pattern (a + k) (c - (a + k)) \<and> outq s' = outq (backend_ctx ctx) \<and>
    length (rd_data r') = 2048 \<and> rd_exp r' = of_nat ((a + k) mod 6) \<and> rd_byte r' = int (a + k)"
proof -
  let ?q = "inq (backend_ctx ctx)"
  have "length ?q \<le> c - a" using arg_cong [OF assms(12), of length] by simp
  then have k: "k \<le> c - a" "k \<le> length ?q" "a + k < 2 ^ 31" "a + k \<le> c" using assms(10,11,13) by auto
  have "take k ?q = take k (?q @ rest)" using k(2) by simp
  then have t: "take k ?q = pattern a k" unfolding assms(12) take_pattern [OF k(1)] .
  obtain s' d where b: "inv s'" "inq s' = drop k ?q" "outq s' = outq (backend_ctx ctx)" "length d = 2048"
    and r: "read_turn ctx m r = Inr (ctx\<lparr>backend_ctx := s'\<rparr>, m\<lparr>current_received := current_received m + of_nat k\<rparr>,
      r\<lparr>rd_data := d, rd_size := of_nat k, rd_exp := of_nat ((a + k) mod 6), rd_byte := int (a + k)\<rparr>,
      if send_done m \<and> current_sent m \<le> current_received m + of_nat k then Done else Running)"
    using read_turn_ok [OF assms(1-7) k(3) assms(13)] t by (auto simp: Let_def)
  have u: "unat (current_received m + of_nat k) = a + k"
    using assms(9) k(3) by (simp add: unat_word_ariths unat_of_nat take_bit_nat_eq_self)
  have "inq s' @ rest = drop k (?q @ rest)" using b(2) k(2) by simp
  then have "inq s' @ rest = pattern (a + k) (c - (a + k))" unfolding assms(12) drop_pattern [OF k(1)] by simp
  moreover have "current_sent m \<le> current_received m + of_nat k \<longleftrightarrow> c \<le> a + k"
    using u assms(8) by (simp add: word_le_nat_alt)
  ultimately show ?thesis using r u b k(4)
    by (intro exI [of _ s'] exI [of _ "m\<lparr>current_received := current_received m + of_nat k\<rparr>"]
      exI [of _ "r\<lparr>rd_data := d, rd_size := of_nat k, rd_exp := of_nat ((a + k) mod 6), rd_byte := int (a + k)\<rparr>"]) simp
qed

lemma run_send:
  assumes "connected ctx" and "backend_functions ctx = fns" and "inv (backend_ctx ctx)" and "\<not> use_blocking_functions m"
    and "unat (current_sent m) = c" and "unat (transfer_size m) = N" and "c < N" and "N < 2 ^ 31"
    and "whole_blocks N c" and "6 \<le> room (backend_ctx ctx) \<or> c + 11 \<le> N"
  shows "\<exists>s' m' k. send_turn junk ctx m = Inr (ctx\<lparr>backend_ctx := s'\<rparr>, m', True) \<and>
    m' = m\<lparr>current_sent := current_sent m + of_nat k\<rparr> \<and> unat (current_sent m') = c + k \<and> c + k \<le> N \<and>
    whole_blocks N (c + k) \<and> inv s' \<and> outq s' = outq (backend_ctx ctx) @ pattern c k \<and> inq s' = inq (backend_ctx ctx)"
proof -
  define k where "k = (if c mod 6 \<le> min 6 (N - c) then min (min 6 (N - c) - c mod 6) (room (backend_ctx ctx))
    else room (backend_ctx ctx))"
  note k = whole_blocks_step [OF assms(9,7,10) k_def]
  have n: "N < 2 ^ 63" using assms(8) by simp
  obtain s' where s: "send_turn junk ctx m = Inr (ctx\<lparr>backend_ctx := s'\<rparr>,
      m\<lparr>current_sent := current_sent m + of_nat k\<rparr>, True)" "inv s'"
    "outq s' = outq (backend_ctx ctx) @ pattern c k" "inq s' = inq (backend_ctx ctx)"
    using send_turn_ok [OF assms(1-7) n refl k_def, of junk] k(1) by auto
  have "c + k < 2 ^ 64" using k(2) assms(8) by simp
  then have "unat (current_sent m + of_nat k) = c + k"
    using assms(5) by (simp add: unat_word_ariths unat_of_nat take_bit_nat_eq_self)
  then show ?thesis using s k(2,3)
    by (intro exI [of _ s'] exI [of _ "m\<lparr>current_sent := current_sent m + of_nat k\<rparr>"] exI [of _ k]) simp
qed

end

text \<open>The UART's functions keep what holds of its line and the far end.\<close>

interpretation lb: copying_backend uart_backend "\<lambda>u. uart_link u w" uart_in uart_out uart_room for w
proof
  fix s :: uart and n :: size_t and dst :: "u8 list" and k :: nat
  assume a: "uart_link s w" "unat n < 2 ^ 31" "unat n \<le> length dst" "k = min (unat n) (length (uart_in s))"
  have "uart_inv s" using a(1) by (simp add: uart_link_def)
  from ub.read_some [OF this a(2-4)] obtain s' where
    s: "be_read uart_backend s 0 n dst = Inr (s', take k (uart_in s) @ drop k dst, Some (of_nat k), 0)" "uart_inv s'"
    "uart_in s' = drop k (uart_in s)" "uart_out s' = uart_out s" "uart_room s' = uart_room s" by blast
  obtain b where "s' = s\<lparr>input_buffer := b\<rparr>"
    using gb_uart_read_frame [of s 0 n dst] s(1) by (auto simp: uart_backend_def)
  then have "uart_link s' w" using uart_link_calls(1) [OF a(1), of b] s(2) by simp
  then show "\<exists>s'. be_read uart_backend s 0 n dst =
      Inr (s', take k (uart_in s) @ drop k dst, Some (of_nat k), 0) \<and> uart_link s' w \<and>
      uart_in s' = drop k (uart_in s) \<and> uart_out s' = uart_out s \<and> uart_room s' = uart_room s"
    using s by blast
next
  fix s :: uart and n :: size_t and src :: "u8 list" and k :: nat
  assume a: "uart_link s w" "unat n < 2 ^ 31" "unat n \<le> length src" "k = min (unat n) (uart_room s)"
  have "uart_inv s" using a(1) by (simp add: uart_link_def)
  from ub.write_some [OF this a(2-4)] obtain s' where
    s: "be_write uart_backend s 0 n src = Inr (s', Some (of_nat k), 0)" "uart_inv s'"
    "uart_out s' = uart_out s @ take k src" "uart_in s' = uart_in s" "uart_room s' = uart_room s - k" by blast
  obtain b where "s' = s\<lparr>output_buffer := b\<rparr>"
    using gb_uart_write_frame [of s 0 n src] s(1) by (auto simp: uart_backend_def)
  then have "uart_link s' w" using uart_link_calls(2) [OF a(1), of b] s(2) by simp
  then show "\<exists>s'. be_write uart_backend s 0 n src = Inr (s', Some (of_nat k), 0) \<and> uart_link s' w \<and>
      uart_out s' = uart_out s @ take k src \<and> uart_in s' = uart_in s \<and> uart_room s' = uart_room s - k"
    using s by blast
next
  fix s :: uart and n :: size_t and src :: "u8 list" and k :: nat
  assume "uart_link s w" and k: "k = min (unat n) (uart_room s)"
  then have "uart_inv s" by (simp add: uart_link_def)
  from ub.write_fits [OF this k] show "be_write uart_backend s 0 n src = be_write uart_backend s 0 (of_nat k) src" .
next
  fix s :: uart and n :: size_t and src :: "u8 list"
  assume "uart_link s w" and o: "unat n \<le> uart_room s" "length src < unat n"
  then have "uart_inv s" by (simp add: uart_link_def)
  from ub.write_outside [OF this o] show "be_write uart_backend s 0 n src = Inl Mem_Fault" .
qed (auto simp only: uart_link_def intro: ub.inq_small ub.room_small ub.bad_channel)

section \<open>The threads\<close>

record run =
  ru_ctx :: "uart glip_ctx"
  ru_measure :: measure
  ru_reader :: checker_vars
  ru_far :: far
  send_status :: status
  check_status :: status

abbreviation ru_uart :: "run \<Rightarrow> uart" where
  "ru_uart s \<equiv> backend_ctx (ru_ctx s)"

text \<open>The bytes sent and not yet checked: those the backend holds on both sides and, between them, those
  on the line and at the far end.\<close>

definition underway :: "run \<Rightarrow> u8 list" where
  "underway s = uart_in (ru_uart s) @ on_way (ru_far s) @ uart_out (ru_uart s)"

text \<open>
  Room for a block of six bytes, which is needed in the last eleven bytes only: a short write there breaks the
  last block (\<open>loopback_tail\<close>).
\<close>

definition block_fits :: "uart \<Rightarrow> measure \<Rightarrow> bool" where
  "block_fits u m \<longleftrightarrow> 6 \<le> uart_room u \<or> unat (current_sent m) + 11 \<le> unat (transfer_size m)"

text \<open>A turn of each thread of the program is one step, and so is a part of a round of the backend's thread and a
  turn of the far end.\<close>

inductive measure_step :: "size_t \<Rightarrow> run \<Rightarrow> run \<Rightarrow> bool" for junk where
  Send: "send_status s = Running \<Longrightarrow> current_sent (ru_measure s) < transfer_size (ru_measure s) \<Longrightarrow>
    block_fits (ru_uart s) (ru_measure s) \<Longrightarrow> send_turn junk (ru_ctx s) (ru_measure s) = Inr (ctx', m', go) \<Longrightarrow>
    measure_step junk s (s\<lparr>ru_ctx := ctx', ru_measure := m', send_status := if go then Running else Exited\<rparr>)"
| Finish: "send_status s = Running \<Longrightarrow> \<not> current_sent (ru_measure s) < transfer_size (ru_measure s) \<Longrightarrow>
    measure_step junk s (s\<lparr>ru_measure := (ru_measure s)\<lparr>send_done := True\<rparr>, send_status := Done\<rparr>)"
| Read: "check_status s = Running \<Longrightarrow> read_turn (ru_ctx s) (ru_measure s) (ru_reader s) = Inr (ctx', m', r', st) \<Longrightarrow>
    measure_step junk s (s\<lparr>ru_ctx := ctx', ru_measure := m', ru_reader := r', check_status := st\<rparr>)"
| Wire: "uart_wire (ru_uart s) (ru_far s) u' w' \<Longrightarrow>
    measure_step junk s (s\<lparr>ru_ctx := (ru_ctx s)\<lparr>backend_ctx := u'\<rparr>, ru_far := w'\<rparr>)"

text \<open>The program when both threads begin; \<open>n\<close> is the transfer size.\<close>

definition run_start :: "uart glip_ctx \<Rightarrow> far \<Rightarrow> size_t \<Rightarrow> nat \<Rightarrow> run" where
  "run_start ctx w junk n = \<lparr>ru_ctx = ctx,
     ru_measure = \<lparr>transfer_size = of_nat n, current_sent = 0, current_received = 0, send_done = False,
       use_blocking_functions = False\<rparr>,
     ru_reader = \<lparr>rd_data = replicate 2048 0, rd_size = junk, rd_exp = 0, rd_byte = 0\<rparr>,
     ru_far = w, send_status = Running, check_status = Running\<rparr>"

text \<open>What holds at every moment: \<open>a\<close> bytes received and checked, \<open>c\<close> bytes sent, the rest on its way.\<close>

definition run_inv :: "nat \<Rightarrow> nat \<Rightarrow> nat \<Rightarrow> run \<Rightarrow> bool" where
  "run_inv N c a s \<longleftrightarrow>
     connected (ru_ctx s) \<and> backend_functions (ru_ctx s) = uart_backend \<and> uart_link (ru_uart s) (ru_far s) \<and>
     \<not> use_blocking_functions (ru_measure s) \<and> unat (transfer_size (ru_measure s)) = N \<and>
     unat (current_sent (ru_measure s)) = c \<and> unat (current_received (ru_measure s)) = a \<and> a \<le> c \<and> c \<le> N \<and>
     whole_blocks N c \<and> underway s = pattern a (c - a) \<and>
     length (rd_data (ru_reader s)) = 2048 \<and> rd_exp (ru_reader s) = of_nat (a mod 6) \<and> rd_byte (ru_reader s) = int a \<and>
     send_done (ru_measure s) = (send_status s = Done) \<and> send_status s \<noteq> Exited \<and> check_status s \<noteq> Exited \<and>
     (send_status s = Done \<longrightarrow> c = N) \<and> (check_status s = Done \<longrightarrow> send_status s = Done \<and> a = N)"

lemma run_sends:
  assumes "run_inv N c a s" and "c < N" and "N < 2 ^ 31" and "block_fits (ru_uart s) (ru_measure s)"
  shows "\<exists>u' m' k. send_turn junk (ru_ctx s) (ru_measure s) = Inr ((ru_ctx s)\<lparr>backend_ctx := u'\<rparr>, m', True) \<and>
    m' = (ru_measure s)\<lparr>current_sent := current_sent (ru_measure s) + of_nat k\<rparr> \<and> unat (current_sent m') = c + k \<and>
    c + k \<le> N \<and> whole_blocks N (c + k) \<and> uart_link u' (ru_far s) \<and> uart_out u' = uart_out (ru_uart s) @ pattern c k \<and>
    uart_in u' = uart_in (ru_uart s)"
proof -
  have I: "connected (ru_ctx s)" "backend_functions (ru_ctx s) = uart_backend" "uart_link (ru_uart s) (ru_far s)"
    "\<not> use_blocking_functions (ru_measure s)" "unat (current_sent (ru_measure s)) = c"
    "unat (transfer_size (ru_measure s)) = N" "whole_blocks N c"
    using assms(1) unfolding run_inv_def by blast+
  have "6 \<le> uart_room (ru_uart s) \<or> c + 11 \<le> N" using assms(4) I(5,6) unfolding block_fits_def by simp
  from lb.run_send [OF I(1-6) assms(2,3) I(7) this] show ?thesis .
qed

lemma run_reads:
  assumes "run_inv N c a s" and "N < 2 ^ 31" and "k = min 2048 (length (uart_in (ru_uart s)))"
  shows "\<exists>u' m' r'. read_turn (ru_ctx s) (ru_measure s) (ru_reader s) =
      Inr ((ru_ctx s)\<lparr>backend_ctx := u'\<rparr>, m', r', if send_status s = Done \<and> a + k = N then Done else Running) \<and>
    m' = (ru_measure s)\<lparr>current_received := current_received (ru_measure s) + of_nat k\<rparr> \<and>
    unat (current_received m') = a + k \<and> a + k \<le> c \<and> uart_link u' (ru_far s) \<and>
    uart_in u' @ on_way (ru_far s) @ uart_out u' = pattern (a + k) (c - (a + k)) \<and>
    length (rd_data r') = 2048 \<and> rd_exp r' = of_nat ((a + k) mod 6) \<and> rd_byte r' = int (a + k)"
proof -
  have I: "connected (ru_ctx s)" "backend_functions (ru_ctx s) = uart_backend" "uart_link (ru_uart s) (ru_far s)"
    "\<not> use_blocking_functions (ru_measure s)" "length (rd_data (ru_reader s)) = 2048"
    "rd_exp (ru_reader s) = of_nat (a mod 6)" "rd_byte (ru_reader s) = int a"
    "unat (current_sent (ru_measure s)) = c" "unat (current_received (ru_measure s)) = a" "a \<le> c"
    and J: "c \<le> N" "underway s = pattern a (c - a)" "send_done (ru_measure s) = (send_status s = Done)"
      "send_status s = Done \<longrightarrow> c = N"
    using assms(1) unfolding run_inv_def by blast+
  have "c < 2 ^ 31" using J(1) assms(2) by simp
  from lb.run_read [OF I(1-10) this J(2) [unfolded underway_def] assms(3)]
  obtain u' m' r' where r: "read_turn (ru_ctx s) (ru_measure s) (ru_reader s) =
      Inr ((ru_ctx s)\<lparr>backend_ctx := u'\<rparr>, m', r', if send_done (ru_measure s) \<and> c \<le> a + k then Done else Running)"
    and b: "m' = (ru_measure s)\<lparr>current_received := current_received (ru_measure s) + of_nat k\<rparr>"
      "unat (current_received m') = a + k" "a + k \<le> c" "uart_link u' (ru_far s)"
      "uart_in u' @ on_way (ru_far s) @ uart_out (ru_uart s) = pattern (a + k) (c - (a + k))"
      "uart_out u' = uart_out (ru_uart s)"
      "length (rd_data r') = 2048" "rd_exp r' = of_nat ((a + k) mod 6)" "rd_byte r' = int (a + k)" by blast
  have d: "send_done (ru_measure s) \<and> c \<le> a + k \<longleftrightarrow> send_status s = Done \<and> a + k = N" using J(3,4) b(3) by auto
  have q: "uart_in u' @ on_way (ru_far s) @ uart_out u' = pattern (a + k) (c - (a + k))" using b(5,6) by simp
  show ?thesis using r [unfolded d] b(1-4,7-9) q by blast
qed

lemma run_step:
  assumes "measure_step junk s s'" and "run_inv N c a s" and "N < 2 ^ 31"
  shows "\<exists>c' a'. run_inv N c' a' s'"
  using assms(1)
proof cases
  case (Send ctx' m' go)
  have c: "c < N" using Send(3) assms(2) by (simp add: run_inv_def word_less_nat_alt)
  from run_sends [OF assms(2) c assms(3) Send(4), of junk] obtain u' m1 k where
    r: "send_turn junk (ru_ctx s) (ru_measure s) = Inr ((ru_ctx s)\<lparr>backend_ctx := u'\<rparr>, m1, True)"
    and m1: "m1 = (ru_measure s)\<lparr>current_sent := current_sent (ru_measure s) + of_nat k\<rparr>"
    and b: "unat (current_sent m1) = c + k" "c + k \<le> N" "whole_blocks N (c + k)" "uart_link u' (ru_far s)"
      "uart_out u' = uart_out (ru_uart s) @ pattern c k" "uart_in u' = uart_in (ru_uart s)" by blast
  have e: "ctx' = (ru_ctx s)\<lparr>backend_ctx := u'\<rparr>" "m' = m1" "go" using Send(5) unfolding r by simp_all
  have U: "underway s = pattern a (c - a)" "a \<le> c" using assms(2) unfolding run_inv_def by blast+
  have "underway s' = underway s @ pattern c k" unfolding Send(1) e using b(5,6) by (simp add: underway_def)
  then have "underway s' = pattern a (c + k - a)" using pattern_add [of a "c - a" k] U by simp
  then have "run_inv N (c + k) a s'"
    using assms(2) b(1-4) Send(2) m1 e U(2) unfolding Send(1) run_inv_def by auto
  then show ?thesis by blast
next
  case Finish
  then have "run_inv N c a s'"
    using assms(2) by (auto simp: run_inv_def underway_def word_less_nat_alt)
  then show ?thesis by blast
next
  case (Read ctx' m' r' st)
  define k where "k = min 2048 (length (uart_in (ru_uart s)))"
  from run_reads [OF assms(2,3) k_def] obtain u' m1 r1 where
    r: "read_turn (ru_ctx s) (ru_measure s) (ru_reader s) = Inr ((ru_ctx s)\<lparr>backend_ctx := u'\<rparr>, m1, r1,
      if send_status s = Done \<and> a + k = N then Done else Running)"
    and m1: "m1 = (ru_measure s)\<lparr>current_received := current_received (ru_measure s) + of_nat k\<rparr>"
    and b: "unat (current_received m1) = a + k" "a + k \<le> c" "uart_link u' (ru_far s)"
      "uart_in u' @ on_way (ru_far s) @ uart_out u' = pattern (a + k) (c - (a + k))"
      "length (rd_data r1) = 2048" "rd_exp r1 = of_nat ((a + k) mod 6)" "rd_byte r1 = int (a + k)" by blast
  have e: "ctx' = (ru_ctx s)\<lparr>backend_ctx := u'\<rparr>" "m' = m1" "r' = r1"
    "st = (if send_status s = Done \<and> a + k = N then Done else Running)"
    using Read(3) unfolding r by simp_all
  have I: "connected (ru_ctx s)" "backend_functions (ru_ctx s) = uart_backend" "\<not> use_blocking_functions (ru_measure s)"
    "unat (transfer_size (ru_measure s)) = N" "unat (current_sent (ru_measure s)) = c" "c \<le> N"
    "whole_blocks N c" "send_done (ru_measure s) = (send_status s = Done)" "send_status s \<noteq> Exited"
    "send_status s = Done \<longrightarrow> c = N"
    using assms(2) unfolding run_inv_def by blast+
  have "run_inv N c (a + k) s'"
    unfolding Read(1) run_inv_def underway_def e using b(1) by (simp add: I b(2-)) (simp add: I m1)
  then show ?thesis by blast
next
  case (Wire u' w')
  have U: "uart_link (ru_uart s) (ru_far s)" using assms(2) unfolding run_inv_def by blast
  have "run_inv N c a s'"
    using assms(2) uart_wire_keeps [OF Wire(2) U] unfolding Wire(1) run_inv_def underway_def by simp
  then show ?thesis by blast
qed

lemma run_reachable:
  "(measure_step junk)\<^sup>*\<^sup>* s s' \<Longrightarrow> run_inv N c a s \<Longrightarrow> N < 2 ^ 31 \<Longrightarrow> \<exists>c' a'. run_inv N c' a' s'"
proof (induction arbitrary: c a rule: converse_rtranclp_induct)
  case base
  then show ?case by blast
next
  case (step s s1)
  then show ?case using run_step by blast
qed

text \<open>The next turns of all threads.\<close>

lemma run_progress:
  assumes "run_inv N c a s" and "N < 2 ^ 31"
  shows "(c < N \<and> block_fits (ru_uart s) (ru_measure s) \<longrightarrow> (\<exists>x. send_turn junk (ru_ctx s) (ru_measure s) = Inr x)) \<and>
    (\<exists>x m r st. read_turn (ru_ctx s) (ru_measure s) (ru_reader s) = Inr (x, m, r, st) \<and>
      (send_status s = Done \<and> on_way (ru_far s) = [] \<and> uart_out (ru_uart s) = [] \<and> length (uart_in (ru_uart s)) \<le> 2048
        \<longrightarrow> st = Done)) \<and>
    (length (uart_in (ru_uart s)) < capacity (input_buffer (ru_uart s)) \<or> datas (far_line (ru_far s)) = [] \<longrightarrow>
      thread_read (ru_uart s) = Inl Blocked \<or> (\<exists>u. thread_read (ru_uart s) = Inr u)) \<and>
    (\<exists>u. thread_write (ru_uart s) = Inr u) \<and> (\<exists>u. thread_credit (ru_uart s) = Inr u)"
proof (intro conjI)
  show "c < N \<and> block_fits (ru_uart s) (ru_measure s) \<longrightarrow> (\<exists>x. send_turn junk (ru_ctx s) (ru_measure s) = Inr x)"
    using run_sends [OF assms(1) _ assms(2), of junk] by blast
  have q: "underway s = pattern a (c - a)" "a \<le> c" "send_status s = Done \<longrightarrow> c = N" and l: "uart_link (ru_uart s) (ru_far s)"
    using assms(1) unfolding run_inv_def by blast+
  have d: "a + min 2048 (length (uart_in (ru_uart s))) = N"
    if "send_status s = Done" "on_way (ru_far s) = []" "uart_out (ru_uart s) = []" "length (uart_in (ru_uart s)) \<le> 2048"
  proof -
    have l: "length (uart_in (ru_uart s)) = c - a"
      using that(2,3) arg_cong [OF q(1), of length] by (simp only: underway_def append_Nil append_Nil2 length_pattern)
    show ?thesis using that(1,4) q(2,3) unfolding l by simp
  qed
  from run_reads [OF assms refl] obtain u' m' r' where
    r: "read_turn (ru_ctx s) (ru_measure s) (ru_reader s) = Inr ((ru_ctx s)\<lparr>backend_ctx := u'\<rparr>, m', r',
      if send_status s = Done \<and> a + min 2048 (length (uart_in (ru_uart s))) = N then Done else Running)" by blast
  show "\<exists>x m r st. read_turn (ru_ctx s) (ru_measure s) (ru_reader s) = Inr (x, m, r, st) \<and>
      (send_status s = Done \<and> on_way (ru_far s) = [] \<and> uart_out (ru_uart s) = [] \<and> length (uart_in (ru_uart s)) \<le> 2048
        \<longrightarrow> st = Done)"
    using r d by (intro exI conjI) (assumption, simp)
  show "length (uart_in (ru_uart s)) < capacity (input_buffer (ru_uart s)) \<or> datas (far_line (ru_far s)) = [] \<longrightarrow>
      thread_read (ru_uart s) = Inl Blocked \<or> (\<exists>u. thread_read (ru_uart s) = Inr u)"
    using thread_read_link [OF l] by blast
  show "\<exists>u. thread_write (ru_uart s) = Inr u" using thread_write_link [OF l] by blast
  show "\<exists>u. thread_credit (ru_uart s) = Inr u" using thread_credit_link [OF l] by blast
qed

section \<open>The program over a UART\<close>

text \<open>C36: The non-blocking measurement (option \<open>-n\<close>) over the UART backend never reports a difference and never
  fails, when a far end sends every data word back: in whatever order the turns of the program's two threads, the
  parts of the rounds of the backend's thread and the turns of the far end come, the bytes in the input buffer, on the line, at
  the far end and in the output buffer are at every moment the pattern from what has been checked to what has been
  sent.  No turn of the program and no part of a round faults, the checking thread is done only when
  everything has come back, and it is done with its next turn when the sender has finished and what is left is
  in the input buffer and fits its array.  Conditions: a transfer of less than \<open>2 ^ 31\<close> bytes; in its last eleven
  bytes a block is written only when the output buffer has room for six (\<open>loopback_tail\<close> shows what happens
  otherwise); the backend's thread does not read a data word with a full input buffer (\<open>uart_overrun\<close>); the far
  end sends valid messages, no more data words than it has credit for, and grants less than \<open>2 ^ 31\<close> words ahead;
  the device reports no errors.\<close>

theorem loopback_run:
  assumes "connected ctx" and "backend_functions ctx = uart_backend" and "uart_link (backend_ctx ctx) w"
    and "uart_in (backend_ctx ctx) = []" and "uart_out (backend_ctx ctx) = []" and "on_way w = []" and "N < 2 ^ 31"
    and "(measure_step junk)\<^sup>*\<^sup>* (run_start ctx w junk' N) s"
  shows "\<exists>a c. a \<le> c \<and> c \<le> N \<and> unat (current_received (ru_measure s)) = a \<and> unat (current_sent (ru_measure s)) = c \<and>
    uart_in (ru_uart s) @ on_way (ru_far s) @ uart_out (ru_uart s) = pattern a (c - a) \<and>
    send_status s \<noteq> Exited \<and> check_status s \<noteq> Exited \<and> (check_status s = Done \<longrightarrow> send_status s = Done \<and> a = N) \<and>
    (c < N \<and> block_fits (ru_uart s) (ru_measure s) \<longrightarrow> (\<exists>x. send_turn junk (ru_ctx s) (ru_measure s) = Inr x)) \<and>
    (\<exists>x m r st. read_turn (ru_ctx s) (ru_measure s) (ru_reader s) = Inr (x, m, r, st) \<and>
      (send_status s = Done \<and> on_way (ru_far s) = [] \<and> uart_out (ru_uart s) = [] \<and> length (uart_in (ru_uart s)) \<le> 2048
        \<longrightarrow> st = Done)) \<and>
    (length (uart_in (ru_uart s)) < capacity (input_buffer (ru_uart s)) \<or> datas (far_line (ru_far s)) = [] \<longrightarrow>
      thread_read (ru_uart s) = Inl Blocked \<or> (\<exists>u. thread_read (ru_uart s) = Inr u)) \<and>
    (\<exists>u. thread_write (ru_uart s) = Inr u) \<and> (\<exists>u. thread_credit (ru_uart s) = Inr u)"
proof -
  have N: "unat (of_nat N :: size_t) = N" using assms(7) by (simp add: unat_of_nat take_bit_nat_eq_self)
  have "run_inv N 0 0 (run_start ctx w junk' N)"
    using assms(1-6) N unfolding run_inv_def
    by (simp add: run_start_def underway_def whole_blocks_def)
  then obtain c a where I: "run_inv N c a s" using run_reachable [OF assms(8)] assms(7) by blast
  then show ?thesis using run_progress [OF I assms(7), of junk] unfolding run_inv_def underway_def by blast
qed

text \<open>A run of the example: six bytes are handed to the backend, its thread sends the four it has leave for, the far
  end sends them back, and they arrive in the input buffer.\<close>

definition uart1 :: uart where
  "uart1 = (uart0 (line_of []) [] [])\<lparr>buffer_size := 32768\<rparr>"

definition far0 :: far where
  "far0 = \<lparr>far_line = [], far_held = []\<rparr>"

lemma example_turns:
  assumes "send_turn 0 (uart_ctx uart1) (ru_measure (run_start (uart_ctx uart1) far0 0 8)) = Inr (c\<lparr>backend_ctx := u1\<rparr>, m, go)"
  obtains u2 u3 where "thread_write u1 = Inr u2"
    "tx (uline u2) = tx (uline u1) @ encode (map Data [0, 1, 2, 3])" "unat (credit u2) = 5" "unat (debt u2) = 0"
    "length (uart_in u2) < capacity (input_buffer u2)"
    "thread_read (u2\<lparr>uline := (uline u2)\<lparr>rx := rx (uline u2) @ [Rx [0, 1, 2, 3]]\<rparr>\<rparr>) = Inr u3"
    "pending (uline u3) = []" "uart_in u3 = [0, 1, 2, 3]" "uart_out u3 = [4, 5]"
proof -
  have "case send_turn 0 (uart_ctx uart1) (ru_measure (run_start (uart_ctx uart1) far0 0 8)) of Inl _ \<Rightarrow> False
    | Inr (c, m, go) \<Rightarrow> (case thread_write (backend_ctx c) of Inl _ \<Rightarrow> False
      | Inr u2 \<Rightarrow> tx (uline u2) = tx (uline (backend_ctx c)) @ encode (map Data [0, 1, 2, 3]) \<and> unat (credit u2) = 5 \<and>
          unat (debt u2) = 0 \<and> length (uart_in u2) < capacity (input_buffer u2) \<and>
          (case thread_read (u2\<lparr>uline := (uline u2)\<lparr>rx := rx (uline u2) @ [Rx [0, 1, 2, 3]]\<rparr>\<rparr>) of Inl _ \<Rightarrow> False
           | Inr u3 \<Rightarrow> pending (uline u3) = [] \<and> uart_in u3 = [0, 1, 2, 3] \<and> uart_out u3 = [4, 5]))"
    by code_simp
  then show thesis using that assms by (auto split: sum.splits)
qed

lemma uart1_start:
  "uart_link uart1 far0" "uart_in uart1 = []" "uart_out uart1 = []" "on_way far0 = []" "uart_room uart1 = 8"
  "buffer_size uart1 = 32768"
  by (simp_all add: uart1_def far0_def uart0_def uart_link_def uart_inv_def small_buf_wf line_of_def rx_clean_def
    tx_clean_def pending_def on_way_def)

theorem loopback_run_witness:
  "\<exists>s. (measure_step 0)\<^sup>*\<^sup>* (run_start (uart_ctx uart1) far0 0 8) s \<and>
    unat (current_sent (ru_measure s)) = 6 \<and> uart_in (ru_uart s) = [0, 1, 2, 3] \<and> uart_out (ru_uart s) = [4, 5] \<and>
    check_status s \<noteq> Exited \<and> (\<exists>u. thread_write (ru_uart s) = Inr u)"
proof -
  let ?s0 = "run_start (uart_ctx uart1) far0 0 8" and ?c = "uart_ctx uart1"
  let ?m = "(ru_measure ?s0)\<lparr>current_sent := of_nat 6\<rparr>" and ?ds = "[0, 1, 2, 3] :: u8 list"
  obtain u1 where u1: "send_turn 0 ?c (ru_measure ?s0) = Inr (?c\<lparr>backend_ctx := u1\<rparr>, ?m, True)"
    using lb.send_turn_ok [of ?c far0 "ru_measure ?s0" 0 8 6 6 0] uart1_start by (auto simp: run_start_def)
  obtain u2 u3 where u: "thread_write u1 = Inr u2" "tx (uline u2) = tx (uline u1) @ encode (map Data ?ds)"
    "unat (credit u2) = 5" "unat (debt u2) = 0" "length (uart_in u2) < capacity (input_buffer u2)"
    "thread_read (u2\<lparr>uline := (uline u2)\<lparr>rx := rx (uline u2) @ [Rx ?ds]\<rparr>\<rparr>) = Inr u3"
    "pending (uline u3) = []" "uart_in u3 = ?ds" "uart_out u3 = [4, 5]"
    by (rule example_turns [OF u1])
  let ?s1 = "?s0\<lparr>ru_ctx := ?c\<lparr>backend_ctx := u1\<rparr>, ru_measure := ?m, send_status := Running\<rparr>"
  let ?w2 = "far0\<lparr>far_held := far_held far0 @ ?ds\<rparr>"
  let ?w3 = "?w2\<lparr>far_line := far_line ?w2 @ map Data ?ds, far_held := drop 4 (far_held ?w2)\<rparr>"
  let ?v = "u2\<lparr>uline := (uline u2)\<lparr>rx := rx (uline u2) @ [Rx ?ds]\<rparr>\<rparr>"
  let ?w4 = "?w3\<lparr>far_line := drop 4 (far_line ?w3)\<rparr>"
  have s1: "measure_step 0 ?s0 ?s1"
    using measure_step.Send [of ?s0 0 _ _ True] u1 uart1_start(5) by (auto simp: run_start_def block_fits_def)
  have w: "uart_wire u1 far0 u2 ?w2" by (rule uart_wire.send [OF u(1,2)])
  have x: "uart_wire u2 ?w2 ?v ?w3"
    by (rule uart_wire.answer) (use u(3,4) in \<open>simp_all add: far0_def\<close>)
  have y: "uart_wire ?v ?w3 u3 ?w4"
    by (rule uart_wire.receive [where k = 4]) (use u(5-7) in \<open>simp_all add: far0_def\<close>)
  let ?s2 = "?s1\<lparr>ru_ctx := (ru_ctx ?s1)\<lparr>backend_ctx := u2\<rparr>, ru_far := ?w2\<rparr>"
  let ?s3 = "?s2\<lparr>ru_ctx := (ru_ctx ?s2)\<lparr>backend_ctx := ?v\<rparr>, ru_far := ?w3\<rparr>"
  let ?s4 = "?s3\<lparr>ru_ctx := (ru_ctx ?s3)\<lparr>backend_ctx := u3\<rparr>, ru_far := ?w4\<rparr>"
  have "measure_step 0 ?s1 ?s2" using w by (intro measure_step.Wire) (simp add: run_start_def)
  moreover have "measure_step 0 ?s2 ?s3" using x by (intro measure_step.Wire) simp
  moreover have "measure_step 0 ?s3 ?s4" using y by (intro measure_step.Wire) simp
  ultimately have r: "(measure_step 0)\<^sup>*\<^sup>* ?s0 ?s4" using s1
    by (metis (no_types, lifting) converse_rtranclp_into_rtranclp rtranclp.rtrancl_refl)
  obtain a c where "check_status ?s4 \<noteq> Exited" "\<exists>u. thread_write (ru_uart ?s4) = Inr u"
    using loopback_run [OF _ _ _ _ _ uart1_start(4) _ r] uart1_start(1-3) by auto
  then show ?thesis using r u(8,9) by (intro exI [of _ ?s4]) simp
qed

end
