(* ===== verification/Backend_Reads.thy ===== *)
theory Backend_Reads
  imports Uart_Api Jtag Tcp_Properties Cypress_Streams
begin

text \<open>
  One contract for the reading calls of all four backends: what a call that returns has done with the
  bytes that were there, with those that came while it waited, and with the array of the caller.
\<close>

section \<open>The contract\<close>

text \<open>
  \<open>took q arr q' sz data data' n\<close>: of the bytes \<open>q\<close> that were there and \<open>arr\<close> that came during the call, the
  oldest \<open>k\<close>, at most \<open>sz\<close>, were put at the front of the array and taken away; what is behind them in
  the array and what is behind them in the stream is left alone, and the number handed back is \<open>k\<close>.
\<close>

definition took ::
    "u8 list \<Rightarrow> u8 list \<Rightarrow> u8 list \<Rightarrow> size_t \<Rightarrow> u8 list \<Rightarrow> u8 list \<Rightarrow> size_t option \<Rightarrow> bool" where
  "took q arr q' sz data data' n \<longleftrightarrow> (\<exists>k \<le> unat sz. k \<le> length (q @ arr) \<and>
     data' = take k (q @ arr) @ drop k data \<and> q' = drop k (q @ arr) \<and> (n = None \<or> n = Some (of_nat k)))"

text \<open>
  \<open>ok\<close> is what the backend keeps of its state and \<open>pend\<close> the bytes that have come and are not read.  The
  array has room for \<open>sz\<close> bytes; on a channel other than zero nothing is taken, and success comes with
  a number.  Nothing comes in during a call that does not wait.
\<close>

definition reads_oldest :: "('b \<Rightarrow> bool) \<Rightarrow> ('b \<Rightarrow> u8 list) \<Rightarrow> 'b glip_backend_if \<Rightarrow> bool" where
  "reads_oldest ok pend fns \<longleftrightarrow> (\<forall>b ch sz data t b' data' n rv.
     ok b \<and> unat sz < 2 ^ 31 \<and> unat sz \<le> length data \<longrightarrow>
       (be_read fns b ch sz data = Inr (b', data', n, rv) \<longrightarrow>
          ok b' \<and> took (pend b) [] (pend b') sz data data' n \<and> (rv = 0 \<longrightarrow> n \<noteq> None) \<and>
          (ch \<noteq> 0 \<longrightarrow> data' = data \<and> rv = - 1)) \<and>
       (be_read_b fns b ch sz data t = Inr (b', data', n, rv) \<longrightarrow>
          ok b' \<and> (\<exists>arr. took (pend b) arr (pend b') sz data data' n) \<and> (rv = 0 \<longrightarrow> n = Some sz) \<and>
          (ch \<noteq> 0 \<longrightarrow> data' = data \<and> rv = - 1)))"

lemma reads_oldestI:
  assumes "\<And>b ch sz data b' data' n rv. ok b \<Longrightarrow> unat sz < 2 ^ 31 \<Longrightarrow> unat sz \<le> length data \<Longrightarrow>
      be_read fns b ch sz data = Inr (b', data', n, rv) \<Longrightarrow>
      ok b' \<and> took (pend b) [] (pend b') sz data data' n \<and> (rv = 0 \<longrightarrow> n \<noteq> None) \<and> (ch \<noteq> 0 \<longrightarrow> data' = data \<and> rv = - 1)"
    and "\<And>b ch sz data t b' data' n rv. ok b \<Longrightarrow> unat sz < 2 ^ 31 \<Longrightarrow> unat sz \<le> length data \<Longrightarrow>
      be_read_b fns b ch sz data t = Inr (b', data', n, rv) \<Longrightarrow>
      ok b' \<and> (\<exists>arr. took (pend b) arr (pend b') sz data data' n) \<and> (rv = 0 \<longrightarrow> n = Some sz) \<and>
      (ch \<noteq> 0 \<longrightarrow> data' = data \<and> rv = - 1)"
  shows "reads_oldest ok pend fns"
  unfolding reads_oldest_def using assms by blast

lemma took_none [simp]: "took q arr (q @ arr) sz data data None" "took q arr (q @ arr) sz data data (Some 0)"
  by (auto simp: took_def intro: exI [of _ 0])

lemma took_append: "took (q @ arr) [] q' sz data data' n = took q arr q' sz data data' n"
  by (simp add: took_def)

lemma took_same [simp]: "took q [] q sz data data None" "took q [] q sz data data (Some 0)"
  using took_none [of q "[]"] by simp_all

lemma took_front:
  "unat sz < 2 ^ 31 \<Longrightarrow> k = min (unat sz) (length (q @ arr)) \<Longrightarrow>
     took q arr (drop k (q @ arr)) sz data (take k (q @ arr) @ drop k data) (Some (of_nat k))"
  by (auto simp: took_def intro: exI [of _ k])

section \<open>Reads from a circular buffer\<close>

lemma fifo_read_took:
  assumes "cbuf_wf b" and "unat sz < 2 ^ 31" and "unat sz \<le> length data" and "fifo_read b sz data = Inr (b', d, n, rv)"
  shows "cbuf_wf b' \<and> took (contents b) [] (contents b') sz data d n \<and> rv = 0 \<and>
    n = Some (of_nat (min (unat sz) (length (contents b))))"
  using fifo_read_ok [OF assms(1-3) refl] assms(2,4)
    took_front [of sz "min (unat sz) (length (contents b))" "contents b" "[]" data] by auto

text \<open>What comes while a call waits is put behind what is there, or refused as a whole.\<close>

lemma wait_fill_behind:
  "cbuf_wf b \<Longrightarrow> wait_fill b sz evs = Inr (b', evs') \<Longrightarrow> cbuf_wf b' \<and> (\<exists>arr. contents b' = contents b @ arr)"
proof (induction evs arbitrary: b)
  case Nil
  then show ?case by (subst (asm) wait_fill.simps) (auto split: if_splits)
next
  case (Cons e evs)
  show ?case
  proof (cases "cbuf_fill_level b < sz")
    case False
    then show ?thesis using Cons.prems by (subst (asm) wait_fill.simps) auto
  next
    case True
    let ?n = "of_nat (length (we_bytes e)) :: size_t"
    obtain b1 rv where b1: "cbuf_write b (we_bytes e) ?n = Inr (b1, rv)"
      "if cbuf_timedwait_for_level_change 0 (we_rv e) \<noteq> 0 then b' = b1
       else wait_fill b1 sz evs = Inr (b', evs')"
      using Cons.prems(2) True by (subst (asm) wait_fill.simps) (auto simp: cbind_eq_Inr_iff split: if_splits)
    have n: "unat ?n \<le> length (we_bytes e)" by (simp add: unat_of_nat)
    have "cbuf_wf b1 \<and> (\<exists>arr. contents b1 = contents b @ arr)"
    proof (cases "unat ?n \<le> capacity b - length (contents b)")
      case True
      then show ?thesis using cq.put [OF Cons.prems(1) True n] b1(1) by auto
    next
      case False
      then show ?thesis using cq.put_full [OF Cons.prems(1), of ?n] b1(1) Cons.prems(1) by auto
    qed
    then show ?thesis using Cons.IH [of b1] b1(2) by (fastforce split: if_splits)
  qed
qed

lemma fifo_read_b_took:
  assumes "cbuf_wf b" and "unat sz < 2 ^ 31" and "unat sz \<le> length data"
    and "fifo_read_b b sz data evs = Inr (b', evs', d, n, rv)"
  shows "cbuf_wf b' \<and> (\<exists>arr. took (contents b) arr (contents b') sz data d n) \<and> (rv = 0 \<longrightarrow> n = Some sz)"
proof -
  obtain b1 m rv1 where b1: "wait_fill b sz evs = Inr (b1, evs')" "fifo_read b1 sz data = Inr (b', d, m, rv1)"
    "n = Some (case m of None \<Rightarrow> 0 | Some k \<Rightarrow> k)" "rv = (if rv1 = 0 \<and> sz \<noteq> the n then - ETIMEDOUT else rv1)"
    using assms(4) by (auto simp: fifo_read_b_def cbind_eq_Inr_iff Let_def)
  obtain arr where arr: "cbuf_wf b1" "contents b1 = contents b @ arr" using wait_fill_behind [OF assms(1) b1(1)] by blast
  have f: "cbuf_wf b' \<and> took (contents b1) [] (contents b') sz data d m \<and> rv1 = 0 \<and>
      m = Some (of_nat (min (unat sz) (length (contents b1))))"
    by (rule fifo_read_took [OF arr(1) assms(2,3) b1(2)])
  then have "n = m" using b1(3) by simp
  then have "took (contents b) arr (contents b') sz data d n"
    using f unfolding arr(2) took_append by blast
  moreover have "rv = 0 \<longrightarrow> n = Some sz" using b1(3,4) f by (auto simp: ETIMEDOUT_def)
  ultimately show ?thesis using f by blast
qed

section \<open>The backends\<close>

lemma uart_reads: "reads_oldest (\<lambda>u. cbuf_wf (input_buffer u)) (\<lambda>u. contents (input_buffer u)) uart_backend"
proof (rule reads_oldestI)
  fix u u' :: uart and ch sz data data' n rv
  assume a: "cbuf_wf (input_buffer u)" "unat sz < 2 ^ 31" "unat sz \<le> length data"
    "be_read uart_backend u ch sz data = Inr (u', data', n, rv)"
  show "cbuf_wf (input_buffer u') \<and>
    took (contents (input_buffer u)) [] (contents (input_buffer u')) sz data data' n \<and>
    (rv = 0 \<longrightarrow> n \<noteq> None) \<and> (ch \<noteq> 0 \<longrightarrow> data' = data \<and> rv = - 1)"
  proof (cases "0 < ch")
    case True
    then show ?thesis using a(1,4) by (auto simp: uart_backend_def gb_uart_read_def)
  next
    case False
    then obtain b where b: "fifo_read (input_buffer u) sz data = Inr (b, data', n, rv)" "input_buffer u' = b"
      using a(4) by (auto simp: uart_backend_def gb_uart_read_def cbind_eq_Inr_iff)
    have "ch = 0" using False word_neq_0_conv by blast
    then show ?thesis using fifo_read_took [OF a(1-3) b(1)] b(2) by auto
  qed
next
  fix u u' :: uart and ch sz data t data' n rv
  assume a: "cbuf_wf (input_buffer u)" "unat sz < 2 ^ 31" "unat sz \<le> length data"
    "be_read_b uart_backend u ch sz data t = Inr (u', data', n, rv)"
  show "cbuf_wf (input_buffer u') \<and>
    (\<exists>arr. took (contents (input_buffer u)) arr (contents (input_buffer u')) sz data data' n) \<and>
    (rv = 0 \<longrightarrow> n = Some sz) \<and> (ch \<noteq> 0 \<longrightarrow> data' = data \<and> rv = - 1)"
  proof (cases "0 < ch \<or> sz > buffer_size u")
    case True
    then have "u' = u \<and> data' = data \<and> n = None \<and> rv = - 1"
      using a(4) by (auto simp: uart_backend_def gb_uart_read_b_def split: if_splits)
    then show ?thesis using a(1) by (auto intro: exI [of _ "[]"])
  next
    case False
    then obtain b evs where b: "fifo_read_b (input_buffer u) sz data (in_waits u) = Inr (b, evs, data', n, rv)"
      "input_buffer u' = b"
      using a(4) by (auto simp: uart_backend_def gb_uart_read_b_def cbind_eq_Inr_iff)
    have "ch = 0" using False word_neq_0_conv by blast
    then show ?thesis using fifo_read_b_took [OF a(1-3) b(1)] b(2) by simp
  qed
qed

lemma jtag_reads: "reads_oldest (\<lambda>j. cbuf_wf (jread_buf j)) (\<lambda>j. contents (jread_buf j)) jtag_backend"
proof (rule reads_oldestI)
  fix j j' :: jtag and ch sz data data' n rv
  assume a: "cbuf_wf (jread_buf j)" "unat sz < 2 ^ 31" "unat sz \<le> length data"
    "be_read jtag_backend j ch sz data = Inr (j', data', n, rv)"
  show "cbuf_wf (jread_buf j') \<and> took (contents (jread_buf j)) [] (contents (jread_buf j')) sz data data' n \<and>
    (rv = 0 \<longrightarrow> n \<noteq> None) \<and> (ch \<noteq> 0 \<longrightarrow> data' = data \<and> rv = - 1)"
  proof (cases "ch = 0")
    case False
    then show ?thesis using a(1,4) by (auto simp: jtag_backend_def gb_jtag_read_def)
  next
    case True
    then obtain b where b: "fifo_read (jread_buf j) sz data = Inr (b, data', n, rv)" "jread_buf j' = b"
      using a(4) by (auto simp: jtag_backend_def gb_jtag_read_def cbind_eq_Inr_iff)
    then show ?thesis using fifo_read_took [OF a(1-3) b(1)] True by auto
  qed
next
  fix j j' :: jtag and ch sz data t data' n rv
  assume a: "cbuf_wf (jread_buf j)" "unat sz < 2 ^ 31" "unat sz \<le> length data"
    "be_read_b jtag_backend j ch sz data t = Inr (j', data', n, rv)"
  show "cbuf_wf (jread_buf j') \<and>
    (\<exists>arr. took (contents (jread_buf j)) arr (contents (jread_buf j')) sz data data' n) \<and>
    (rv = 0 \<longrightarrow> n = Some sz) \<and> (ch \<noteq> 0 \<longrightarrow> data' = data \<and> rv = - 1)"
  proof (cases "sz > JTAG_BUFFER_SIZE")
    case True
    then have "j' = j \<and> data' = data \<and> n = None \<and> rv = - 1"
      using a(4) by (auto simp: jtag_backend_def gb_jtag_read_b_def)
    then show ?thesis using a(1) by (auto intro: exI [of _ "[]"])
  next
    case size: False
    show ?thesis
    proof (cases "ch = 0")
      case True
      then obtain b evs where b: "fifo_read_b (jread_buf j) sz data (jin_waits j) = Inr (b, evs, data', n, rv)"
        "jread_buf j' = b"
        using a(4) size by (auto simp: jtag_backend_def gb_jtag_read_b_def cbind_eq_Inr_iff)
      then show ?thesis using fifo_read_b_took [OF a(1-3) b(1)] True by simp
    next
      case False
      then obtain b evs where b: "wait_fill (jread_buf j) sz (jin_waits j) = Inr (b, evs)" "jread_buf j' = b"
        "data' = data" "n = Some 0" "rv = - 1"
        using a(4) size by (auto simp: jtag_backend_def gb_jtag_read_b_def cbind_eq_Inr_iff)
      obtain arr where "cbuf_wf b" "contents b = contents (jread_buf j) @ arr"
        using wait_fill_behind [OF a(1) b(1)] by blast
      then show ?thesis using b(2-5) by (auto intro: exI [of _ arr])
    qed
  qed
qed

lemma tcp_took:
  assumes "pending l = bs @ pending l'" and "data' = bs @ drop (length bs) data" and "length bs \<le> unat sz"
    and "n = None \<or> n = Some (of_nat (length bs))"
  shows "took (pending l) [] (pending l') sz data data' n"
  using assms by (auto simp: took_def intro!: exI [of _ "length bs"])

lemma tcp_reads: "reads_oldest (\<lambda>_. True) (\<lambda>t. pending (tdata t)) tcp_backend"
proof (rule reads_oldestI)
  fix t t' :: tcp and ch sz data data' n rv
  assume a: "unat (sz :: size_t) < 2 ^ 31" "be_read tcp_backend t ch sz data = Inr (t', data', n, rv)"
  show "True \<and> took (pending (tdata t)) [] (pending (tdata t')) sz data data' n \<and> (rv = 0 \<longrightarrow> n \<noteq> None) \<and>
    (ch \<noteq> 0 \<longrightarrow> data' = data \<and> rv = - 1)"
  proof (cases "ch = 0")
    case False
    then show ?thesis using a(2) by (auto simp: tcp_backend_def gb_tcp_read_def)
  next
    case True
    obtain bs where bs: "pending (tdata t) = bs @ pending (tdata t')" "data' = bs @ drop (length bs) data"
      "length bs \<le> unat sz" "n = Some (of_nat (length bs))"
      by (rule gb_tcp_read_result [of t sz data t' data' n rv])
        (use a True in \<open>auto simp: tcp_backend_def\<close>)
    have "took (pending (tdata t)) [] (pending (tdata t')) sz data data' n"
      by (rule tcp_took [OF bs(1-3)]) (simp add: bs(4))
    then show ?thesis using True bs(4) by simp
  qed
next
  fix t t' :: tcp and ch sz data tmo data' n rv
  assume a: "unat (sz :: size_t) < 2 ^ 31" "unat sz \<le> length data"
    "be_read_b tcp_backend t ch sz data tmo = Inr (t', data', n, rv)"
  obtain t1 start where c: "clock_monotonic t = Inr (t1, start)"
    "tcp_read_loop t1 ch start sz data 0 tmo = Inr (t', data', n, rv)"
    using a(3) by (auto simp: tcp_backend_def gb_tcp_read_b_def cbind_eq_Inr_iff)
  have t1: "tdata t1 = tdata t" using c(1) by (auto simp: clock_monotonic_def split: list.splits)
  show "True \<and> (\<exists>arr. took (pending (tdata t)) arr (pending (tdata t')) sz data data' n) \<and>
    (rv = 0 \<longrightarrow> n = Some sz) \<and> (ch \<noteq> 0 \<longrightarrow> data' = data \<and> rv = - 1)"
  proof (cases "ch = 0")
    case False
    then have "t' = t1 \<and> data' = data \<and> n = None \<and> rv = - 1"
      using c(2) by (subst (asm) tcp_read_loop.simps) (auto simp: gb_tcp_read_def Let_def)
    then show ?thesis using t1 by (auto intro: exI [of _ "[]"])
  next
    case True
    obtain bs where bs: "pending (tdata t1) = bs @ pending (tdata t')" "data' = bs @ drop (length bs) data"
      "length bs \<le> unat sz"
      "n = None \<and> rv = - 1 \<or> n = Some (of_nat (length bs)) \<and> rv = (if length bs = unat sz then 0 else - ETIMEDOUT)"
      using tcp_read_loop_result [of 0 sz data t1 start tmo t' data' n rv] a(1,2) c(2) True by auto
    have "took (pending (tdata t)) [] (pending (tdata t')) sz data data' n"
      by (rule tcp_took [OF bs(1) [unfolded t1] bs(2,3)]) (use bs(4) in blast)
    moreover have "rv = 0 \<longrightarrow> n = Some sz"
    proof (cases "length bs = unat sz")
      case True
      then have "of_nat (length bs) = sz" by simp
      then show ?thesis using bs(4) by auto
    qed (use bs(4) in \<open>auto simp: ETIMEDOUT_def\<close>)
    ultimately show ?thesis using True by blast
  qed
qed

lemma cyp_read_took:
  assumes "read_buf c = Some b" and "cbuf_wf b" and "unat sz < 2 ^ 31" and "unat sz \<le> length data"
    and "gb_cypressfx2_read c ch sz data = Inr (c', data', n, rv)"
  shows "\<exists>b'. read_buf c' = Some b' \<and> cbuf_wf b' \<and> took (contents b) [] (contents b') sz data data' n \<and>
    (ch = 0 \<longrightarrow> rv = 0 \<and> n \<noteq> None) \<and> (ch \<noteq> 0 \<longrightarrow> contents b' = contents b \<and> data' = data \<and> n = None \<and> rv = - 1)"
proof (cases "ch = 0")
  case False
  then show ?thesis using assms(1,2,5) by (auto simp: gb_cypressfx2_read_def)
next
  case True
  define m where "m = (if sz > cbuf_fill_level b then cbuf_fill_level b else sz)"
  have m: "unat m = min (unat sz) (length (contents b))"
    using cq.level [OF assms(2)] by (auto simp: m_def word_less_nat_alt)
  obtain b' where b': "cbuf_read b data m = Inr (b', take (unat m) (contents b) @ drop (unat m) data, 0)"
    "cbuf_wf b'" "contents b' = drop (unat m) (contents b)"
    using cq.get_some [OF assms(2,4) m] by blast
  have "read_buf c' = Some b'" "data' = take (unat m) (contents b) @ drop (unat m) data" "n = Some m" "rv = 0"
    using assms(1,5) True b'(1) by (auto simp: gb_cypressfx2_read_def simp flip: m_def)
  moreover have w: "of_nat (unat m) = m" by simp
  have "took (contents b) [] (contents b') sz data (take (unat m) (contents b) @ drop (unat m) data) (Some m)"
    using took_front [of sz "unat m" "contents b" "[]" data] assms(3) m unfolding b'(3) w by (simp only: append_Nil2)
  ultimately show ?thesis using True b'(2) by simp
qed

lemma cypress_reads:
  "reads_oldest (\<lambda>c. \<exists>b. read_buf c = Some b \<and> cbuf_wf b) (\<lambda>c. held (read_buf c)) cypressfx2_backend"
proof (rule reads_oldestI)
  fix c c' :: cyp and ch sz data data' n rv
  assume a: "\<exists>b. read_buf c = Some b \<and> cbuf_wf b" "unat sz < 2 ^ 31" "unat sz \<le> length data"
    "be_read cypressfx2_backend c ch sz data = Inr (c', data', n, rv)"
  show "(\<exists>b. read_buf c' = Some b \<and> cbuf_wf b) \<and>
    took (held (read_buf c)) [] (held (read_buf c')) sz data data' n \<and> (rv = 0 \<longrightarrow> n \<noteq> None) \<and>
    (ch \<noteq> 0 \<longrightarrow> data' = data \<and> rv = - 1)"
    using a(1) cyp_read_took [of c _ sz data ch c' data' n rv] a(2-4) by (fastforce simp: cypressfx2_backend_def)
next
  fix c c' :: cyp and ch sz data t data' n rv
  assume a: "\<exists>b. read_buf c = Some b \<and> cbuf_wf b" "unat sz < 2 ^ 31" "unat sz \<le> length data"
    "be_read_b cypressfx2_backend c ch sz data t = Inr (c', data', n, rv)"
  obtain b where b: "read_buf c = Some b" "cbuf_wf b" using a(1) by blast
  show "(\<exists>b. read_buf c' = Some b \<and> cbuf_wf b) \<and>
    (\<exists>arr. took (held (read_buf c)) arr (held (read_buf c')) sz data data' n) \<and> (rv = 0 \<longrightarrow> n = Some sz) \<and>
    (ch \<noteq> 0 \<longrightarrow> data' = data \<and> rv = - 1)"
  proof (cases "sz > ucast USB_BUF_SIZE")
    case True
    then have "c' = c \<and> data' = data \<and> n = None \<and> rv = - 1"
      using a(4) by (auto simp: cypressfx2_backend_def gb_cypressfx2_read_b_def)
    then show ?thesis using b by (auto intro: exI [of _ "[]"])
  next
    case False
    obtain b1 evs m rv1 where b1: "wait_fill b sz (read_waits c) = Inr (b1, evs)"
      "gb_cypressfx2_read (c\<lparr>read_buf := Some b1, read_waits := evs\<rparr>) ch sz data = Inr (c', data', m, rv1)"
      "n = Some (case m of None \<Rightarrow> 0 | Some k \<Rightarrow> k)" "rv = (if rv1 = 0 \<and> sz \<noteq> the n then - ETIMEDOUT else rv1)"
      using a(4) b(1) False
      by (auto simp: cypressfx2_backend_def gb_cypressfx2_read_b_def cbind_eq_Inr_iff Let_def)
    obtain arr where arr: "cbuf_wf b1" "contents b1 = contents b @ arr" using wait_fill_behind [OF b(2) b1(1)] by blast
    obtain b' where b': "read_buf c' = Some b'" "cbuf_wf b'" "took (contents b1) [] (contents b') sz data data' m"
      "ch = 0 \<longrightarrow> rv1 = 0 \<and> m \<noteq> None" "ch \<noteq> 0 \<longrightarrow> contents b' = contents b1 \<and> data' = data \<and> m = None \<and> rv1 = - 1"
      using cyp_read_took [OF _ arr(1) a(2,3) b1(2)] by auto
    have "took (contents b) arr (contents b') sz data data' n"
    proof (cases "ch = 0")
      case True
      then show ?thesis using b'(3,4) b1(3) unfolding arr(2) took_append by auto
    next
      case False
      then show ?thesis using b'(5) b1(3) arr(2) by simp
    qed
    moreover have "rv = 0 \<longrightarrow> n = Some sz"
      using b1(3,4) b'(4,5) by (cases "ch = 0"; cases m) (simp_all add: ETIMEDOUT_def split: if_splits)
    moreover have "ch \<noteq> 0 \<longrightarrow> data' = data \<and> rv = - 1" using b1(4) b'(5) by simp
    ultimately show ?thesis unfolding b(1) b'(1) held_def option.case using b'(2) by blast
  qed
qed

section \<open>The property\<close>

text \<open>C21: Every backend keeps one contract for its reading calls.  Whatever the channel, the size (below 2 GiB and
  not above that of the array), the timeout and the state, a read or blocking read that returns has put the oldest
  pending bytes, at most as many as asked for, at the front of the array, has left the rest of the array and the rest of
  the stream as they were, and hands back their number (or none, with an error); what came while it waited is
  behind what was there; a blocking read that succeeds has stored exactly what was asked for; and on a channel
  other than zero nothing is stored and \<open>-1\<close> returned.\<close>

theorem reads_take_oldest:
  "reads_oldest (\<lambda>u. cbuf_wf (input_buffer u)) (\<lambda>u. contents (input_buffer u)) uart_backend \<and>
   reads_oldest (\<lambda>j. cbuf_wf (jread_buf j)) (\<lambda>j. contents (jread_buf j)) jtag_backend \<and>
   reads_oldest (\<lambda>t. True) (\<lambda>t. pending (tdata t)) tcp_backend \<and>
   reads_oldest (\<lambda>c. \<exists>b. read_buf c = Some b \<and> cbuf_wf b) (\<lambda>c. held (read_buf c)) cypressfx2_backend"
  using uart_reads jtag_reads tcp_reads cypress_reads by blast

text \<open>Three bytes have come over TCP and two are asked for, with an array of three.\<close>

theorem reads_take_oldest_witness:
  "\<exists>t'. gb_tcp_read (tcp0 (line_of [Rx [1, 2, 3]]) []) 0 2 [7, 8, 9] = Inr (t', [1, 2, 9], Some 2, 0) \<and>
    took [1, 2, 3] [] (pending (tdata t')) 2 [7, 8, 9] [1, 2, 9] (Some 2)"
proof -
  let ?t = "tcp0 (line_of [Rx [1, 2, 3]]) []"
  obtain t' where r: "gb_tcp_read ?t 0 2 [7, 8, 9] = Inr (t', [1, 2, 9], Some 2, 0)"
    by (simp add: gb_tcp_read_def tty_read_def tcp0_def line_of_def memcpy_def)
  have "be_read tcp_backend ?t 0 2 [7, 8, 9] = Inr (t', [1, 2, 9], Some 2, 0)" using r by (simp add: tcp_backend_def)
  then have "took (pending (tdata ?t)) [] (pending (tdata t')) 2 [7, 8, 9] [1, 2, 9] (Some 2)"
    using reads_take_oldest [unfolded reads_oldest_def, THEN conjunct2, THEN conjunct2, THEN conjunct1,
        rule_format, of 2 "[7, 8, 9]" ?t 0 t' "[1, 2, 9]" "Some 2" 0] by simp
  moreover have "pending (tdata ?t) = [1, 2, 3]" by (simp add: tcp0_def line_of_def pending_def)
  ultimately show ?thesis using r by auto
qed

end
