(* ===== verification/Option_Pointers.thy ===== *)
theory Option_Pointers
  imports Options_Properties Loopback Uart_Api Tcp_Properties Jtag Cypress
begin

text \<open>
  An option without a value on its way from the command line through the library into the backends:
  the parser stores a null pointer, the library hands it on, and reading it as a number is a fault.
\<close>

lemma find_option_total:
  "n \<le> length opts \<Longrightarrow> find_option opts n name \<noteq> Inl e"
proof (induction opts n name rule: find_option.induct)
  case (3 p opts n name)
  then show ?case by simp
qed simp_all

lemma find_option_null:
  assumes "\<forall>p \<in> set pre. to_name p \<noteq> name"
  shows "find_option (library_options (pre @ \<lparr>to_name = name, to_value = None\<rparr> # post))
    (length (pre @ \<lparr>to_name = name, to_value = None\<rparr> # post)) name = Inr (Some None)"
  using assms by (induction pre) (simp_all add: library_options_def)

lemma option_get_null:
  assumes "find_option (backend_options opts) (unat (num_backend_options opts)) name = Inr (Some None)"
  shows "glip_option_get_uint32 opts name = Inl Mem_Fault" "glip_option_get_uint16 opts name = Inl Mem_Fault"
    "glip_option_get_uint8 opts name = Inl Mem_Fault" "glip_option_get_char opts name = Inr (Some None, 0)"
  using assms by (simp_all add: glip_option_get_uint32_def glip_option_get_uint16_def glip_option_get_uint8_def
      glip_option_get_char_def)

text \<open>A search within the array faults only on a null pointer that is read as a number.\<close>

lemma option_get_total:
  assumes "unat (num_backend_options opts) \<le> length (backend_options opts)"
  shows "\<exists>r rv. glip_option_get_char opts name = Inr (r, rv)"
    and "glip_option_get_uint32 opts name = Inl Mem_Fault \<or> (\<exists>r rv. glip_option_get_uint32 opts name = Inr (r, rv))"
    and "glip_option_get_uint8 opts name = Inl Mem_Fault \<or> (\<exists>r rv. glip_option_get_uint8 opts name = Inr (r, rv))"
proof -
  obtain f where f: "find_option (backend_options opts) (unat (num_backend_options opts)) name = Inr f"
    using find_option_total [OF assms, of name]
    by (cases "find_option (backend_options opts) (unat (num_backend_options opts)) name") auto
  then show "\<exists>r rv. glip_option_get_char opts name = Inr (r, rv)"
    by (cases f) (simp_all add: glip_option_get_char_def)
  show u: "glip_option_get_uint32 opts name = Inl Mem_Fault \<or> (\<exists>r rv. glip_option_get_uint32 opts name = Inr (r, rv))"
    using f by (auto simp: glip_option_get_uint32_def split: option.split)
  then show "glip_option_get_uint8 opts name = Inl Mem_Fault \<or> (\<exists>r rv. glip_option_get_uint8 opts name = Inr (r, rv))"
    by (auto simp: glip_option_get_uint8_def split: option.split)
qed

text \<open>The options of a program as the library keeps them in its context.\<close>

definition options_of :: "tool_option list \<Rightarrow> glip_opts" where
  "options_of os = \<lparr>backend_options = library_options os, num_backend_options = of_nat (length os)\<rparr>"

text \<open>C31: When a piece of the options string has no equals sign, the value that reaches the backend under its name is
  a null pointer.  Whoever asks for it as a string gets that pointer with a success code, and whoever asks for a number
  faults: so does opening a UART, a JTAG or TCP connection or a USB device with the options they read as numbers.\<close>

theorem option_without_value:
  assumes "NUL \<notin> set s" and "pieces s = pre @ name # post" and "CHR ''='' \<notin> set name"
    and "\<forall>w \<in> set pre. to_name (parse_option w) \<noteq> name" and "length (pieces s) < 2 ^ 32"
  shows "\<exists>b os. parse_options (s @ [NUL]) = Inr (b, Some os, length os) \<and>
    glip_option_get_char (options_of os) name = Inr (Some None, 0) \<and>
    glip_option_get_uint32 (options_of os) name = Inl Mem_Fault \<and>
    glip_option_get_uint16 (options_of os) name = Inl Mem_Fault \<and>
    glip_option_get_uint8 (options_of os) name = Inl Mem_Fault \<and>
    (name = ''speed'' \<longrightarrow> (\<forall>u. gb_uart_open (options_of os) u 1 = Inl Mem_Fault)) \<and>
    (name = ''port'' \<longrightarrow> (\<forall>t j. gb_jtag_open (options_of os) j 1 = Inl Mem_Fault \<and>
      (data_sfd t < 0 \<and> ctrl_sfd t < 0 \<longrightarrow> gb_tcp_open (options_of os) t 1 = Inl Mem_Fault))) \<and>
    (name = ''usb_dev_bus'' \<longrightarrow> (\<forall>c. usb_dev_handle c = None \<longrightarrow>
      gb_cypressfx2_open (options_of os) c 1 = Inl Mem_Fault))"
proof -
  let ?os = "map parse_option (pieces s)"
  have os: "?os = map parse_option pre @ \<lparr>to_name = name, to_value = None\<rparr> # map parse_option post"
    using assms(2) parse_option_eq(2) [OF assms(3)] by simp
  have len: "unat (num_backend_options (options_of ?os)) = length ?os" "length (backend_options (options_of ?os)) = length ?os"
    using assms(5) by (simp_all add: options_of_def library_options_def unat_of_nat take_bit_nat_eq_self)
  have "find_option (library_options ?os) (length ?os) name = Inr (Some None)"
    unfolding os by (rule find_option_null) (use assms(4) in auto)
  then have "find_option (backend_options (options_of ?os)) (unat (num_backend_options (options_of ?os))) name = Inr (Some None)"
    unfolding len by (simp add: options_of_def)
  note G = option_get_null [OF this] and T = option_get_total [of "options_of ?os", unfolded len, OF order_refl]
  obtain b where p: "parse_options (s @ [NUL]) = Inr (b, Some ?os, length ?os)"
    using parse_options_ok [OF assms(1)] assms(2) by auto
  have "gb_uart_open (options_of ?os) u 1 = Inl Mem_Fault" if "name = ''speed''" for u
    using G T(1) [of "''device''"] that by (auto simp: gb_uart_open_def open_options_def)
  moreover have "gb_tcp_open (options_of ?os) t 1 = Inl Mem_Fault"
    if "name = ''port''" "data_sfd t < 0" "ctrl_sfd t < 0" for t
    using G T(1) [of "''hostname''"] that by (auto simp: gb_tcp_open_def)
  moreover have "gb_jtag_open (options_of ?os) j 1 = Inl Mem_Fault" if "name = ''port''" for j
    using G T(1) [of "''hostname''"] T(3) [of "''coding''"] that by (auto simp: gb_jtag_open_def)
  moreover have "gb_cypressfx2_open (options_of ?os) c 1 = Inl Mem_Fault"
    if "name = ''usb_dev_bus''" "usb_dev_handle c = None" for c
    using G that by (simp add: gb_cypressfx2_open_def device_config_def)
  ultimately show ?thesis using p G by (intro exI [of _ b] exI [of _ ?os] conjI) simp_all
qed

text \<open>The measuring program, started with the options \<open>port\<close>, stops while it opens the TCP backend.\<close>

definition closed_tcp :: tcp where
  "closed_tcp = (tcp0 (line_of []) [])\<lparr>data_sfd := - 1, ctrl_sfd := - 1\<rparr>"

theorem option_without_value_witness:
  "measure_launch [(''tcp'', Some ((closed_tcp, tcp_backend), 0))] True None
      [Arg_Backend ''tcp'', Arg_Options ''hostname=vm1,port''] = Inl Mem_Fault"
proof -
  let ?s = "''hostname=vm1,port''"
  have pc: "pieces ?s = [''hostname=vm1''] @ ''port'' # []" by (simp add: pieces_def)
  have "NUL \<notin> set ?s" "CHR ''='' \<notin> set ''port''" "length (pieces ?s) < 2 ^ 32"
    "\<forall>w \<in> set [''hostname=vm1'']. to_name (parse_option w) \<noteq> ''port''"
    unfolding pc by (simp_all add: NUL_def parse_option_def)
  from option_without_value [OF this(1) pc this(2,4,3)]
  obtain b os where o: "parse_options (?s @ [NUL]) = Inr (b, Some os, length os)"
    "gb_tcp_open (options_of os) closed_tcp 1 = Inl Mem_Fault"
    using that by (auto simp: closed_tcp_def)
  obtain b' where "parse_options (?s @ [NUL]) = Inr (b', Some (map parse_option (pieces ?s)), length (pieces ?s))"
    using parse_options_ok [of ?s] \<open>NUL \<notin> set ?s\<close> pc by auto
  then have "os = map parse_option (pieces ?s)" using o(1) by simp
  then have "length os = 2" using pc by simp
  then show ?thesis using o
    by (simp add: measure_launch_def measure_start_def no_args_def glip_new_def glip_open_def tcp_backend_def
        gb_tcp_get_channel_count_def options_of_def glip_opts.truncate_def)
qed

end
