(* ===== verification/Spec2Isabelle.thy ===== *)
theory Spec2Isabelle
  imports Cbuf_Properties Util_Properties Glip_Properties Uart_Properties Jtag_Properties
  Tcp_Properties Cypress_Properties Dpi_Properties Options_Properties
  Loopback_Properties Systemc_Properties Tcp_Dpi Firmware_Properties Demo_Properties
  Loopback_Run Backend_Reads Option_Pointers Dpi_Bridge_Properties
begin

text \<open>
  GLIP, the library of Open SoC Debug that gives a program on a host and a system on chip a pair of
  byte streams, with the program that measures it and its endpoints in simulated systems.  All file
  names are relative to \<^verbatim>\<open>src/glip/src/\<close>; the demonstrator's own are under \<^verbatim>\<open>src/src/\<close>.

  \<^bold>\<open>The program.\<close>  The public interface (\<^verbatim>\<open>glip.c\<close>) hands every call to one of four
  backends, chosen by name, through a table of functions (\<^verbatim>\<open>glip-protected.h\<close>).  The UART, JTAG
  and Cypress FX2 backends keep their data in two circular buffers (\<^verbatim>\<open>cbuf.c\<close>): the caller works
  at one end of each, the backend's own threads at the other, where they speak the protocol of the
  line.  The TCP backend reads and writes its socket in the caller's thread.  Its counterparts, in
  C++, run inside a simulator: \<^verbatim>\<open>backend_tcp/logic/dpi\<close> and \<^verbatim>\<open>backend_tcp/logic/systemc\<close>.
  \<^verbatim>\<open>util.c\<close> holds what the backends share, \<^verbatim>\<open>tools/\<close> the measuring program.

  \<^bold>\<open>The common ground.\<close>
  \<^item> \<open>Glip_Prelude\<close>: the names of the C types as words of their width; the type \<open>exec\<close> of a call
    that returns or stops the program (a failed assertion, an access outside an array, an
    undefined operation on \<open>int\<close>, a division by zero) or has not returned; arrays as lists of bytes with
    \<open>memcpy\<close>.  That a call does not fault is always something that is proved.
  \<^item> \<open>C_Strings\<close>: \<open>strtoul\<close> and \<open>strtol\<close> of the C library.
  \<^item> \<open>Ring_Memory\<close>: slices of a ring of cells, over natural numbers.
  \<^item> \<open>Uart_Line\<close>: the kernel's side of a serial line or a socket.  It is a script of what the coming
    calls will find, so that every result a call can have occurs: bytes in pieces of any size, nothing
    there, failure.  The same record serves all backends and both simulated endpoints.

  \<^bold>\<open>Circular buffer\<close>, \<^verbatim>\<open>cbuf.c\<close>.  \<open>Cbuf\<close> has the record of \<^verbatim>\<open>struct cbuf\<close> and one
  definition for each function, with positions masked in words of 64 bits and the temporary buffers of the
  zero-copy calls.  \<open>Cbuf_Refinement\<close> gives the representation invariant \<open>cbuf_wf\<close>, the
  abstraction \<open>contents\<close> and what every function does to it; \<open>Cbuf_Fifo\<close> interprets the locale
  \<open>byte_fifo\<close> of \<open>Fifo_Contract\<close> and shows that any sequence of calls behaves like a queue;
  \<open>Cbuf_Concurrent\<close> cuts the calls into steps at their accesses to shared memory and shows by rule
  induction that one reader and one writer keep the stream under every interleaving.

  \<^bold>\<open>Utilities\<close>, \<^verbatim>\<open>util.c\<close>, \<^verbatim>\<open>util.h\<close>: \<open>Util\<close> has the time arithmetic, connecting to
  a host, descriptor flags and child processes.

  \<^bold>\<open>Public interface\<close>, \<^verbatim>\<open>glip.c\<close>: \<open>Glip\<close> has the context as a record over the type of the
  backend's state and every function of the file.  \<open>Backend_Contract\<close> states, as locales, what a
  backend promises (\<open>fifo_backend\<close>: two byte queues; \<open>copying_backend\<close>: what happens to requests
  longer than the caller's array; \<open>taking_backend\<close>: blocking writes take everything) and proves once what
  follows for callers of the public interface.

  \<^bold>\<open>UART backend\<close>, \<^verbatim>\<open>backend_uart/sw/backend_uart.c\<close>.  \<open>Cbuf_Blocking\<close> has the reading and
  writing calls of the backends over one buffer, with scripts for what the other thread does while a
  call waits; \<open>Uart\<close> the protocol of the thread (markers, credit, debt); \<open>Uart_Api\<close> opening with baud
  rate detection, resetting and the function table.  \<open>Uart_Protocol\<close> compares the thread with a
  decoder of the whole stream, \<open>Uart_Backend\<close> interprets the three contracts, and \<open>Uart_Link\<close> puts the thread and a
  far end that sends every data word back together, with messages under way on the line.

  \<^bold>\<open>JTAG backend\<close>, \<^verbatim>\<open>backend_jtag/sw/backend_jtag.c\<close>.  \<open>Jtag_Text\<close> has the text protocol spoken
  to OpenOCD, \<open>Jtag_Transfer\<close> words, requests, responses and the thread, \<open>Jtag\<close> the backend
  interface and the OpenOCD process.  \<open>Jtag_Protocol\<close>, \<open>Jtag_Command\<close> and \<open>Jtag_Response\<close> show
  that commands and responses survive the trip through text, in pieces of any size that fit what the code has room
  for, \<open>Jtag_Round\<close> what a round does to the two queues with words of up to three bytes (with wider ones it stops),
  \<open>Jtag_Backend\<close> interprets the contract.

  \<^bold>\<open>TCP backend\<close>, \<^verbatim>\<open>backend_tcp/sw/backend_tcp.c\<close>: \<open>Tcp\<close>, with \<open>Tcp_Properties\<close>.

  \<^bold>\<open>Cypress FX2 backend\<close>, \<^verbatim>\<open>backend_cypressfx2/sw/backend_cypressfx2.c\<close>: \<open>Cypress\<close> has the search
  for a device, opening, the calls and a turn of each thread; libusb is environment.  \<open>Cypress_Streams\<close>
  interprets the contract, \<open>Cypress_Reach\<close> has the states that the calls of the caller, blocking, failing and resetting ones
  included, and the turns of both threads can reach as an inductive predicate, with all that the calls reported and
  all that the transfers moved (allocations of the temporary buffers succeed), \<open>Cypress_Open\<close> relates the search to a reference definition.
  \<open>Firmware\<close> models the chip's own program, \<^verbatim>\<open>fw/ztex/fw.c\<close>: what is assigned to the registers and
  the two reset pins, in order, and the answer to the backend's request; \<open>Firmware_Properties\<close> puts the two together.

  \<^bold>\<open>Simulated endpoints.\<close>  \<open>Dpi\<close> models \<^verbatim>\<open>GlipTcp.cpp\<close>: a cycle makes items out of bytes and bytes out
  of items, a thread moves bytes between sockets and queues; the queues are Boost's, an argument of the
  definitions with the documented laws \<open>spsc_laws\<close>.  \<open>Systemc\<close> models \<^verbatim>\<open>glip_tcp_toplevel.cpp\<close>: three
  methods that run at an edge in any order, signals that change after it, and two threads.
  \<open>Dpi_Bridge\<close> models the C functions of \<^verbatim>\<open>glip_tcp_dpi.cpp\<close> and the module \<^verbatim>\<open>glip_tcp_toplevel.sv\<close> that
  calls them at the edges of the clock; its step relation lets the thread of the endpoint work between any two of these
  calls, and \<open>Dpi_Bridge_Properties\<close> shows by rule induction that no call faults and no word is lost over a connection.
  \<open>Tcp_Dpi\<close> puts the two ends of a connection together, the calls of the TCP backend on the host and the
  simulator's calls, with bytes under way in both directions.

  \<^bold>\<open>Tools.\<close>  \<open>Options\<close> models \<^verbatim>\<open>tools/options.c\<close> with the string as an array that \<open>strtok\<close> cuts up,
  \<open>Loopback\<close> the arguments, the start, the sending loop, the checking thread and the end of
  \<^verbatim>\<open>tools/loopback_measure.c\<close> over any backend; \<open>Loopback_Run\<close> lets the turns of its two threads, of the UART
  backend's thread and of the far end of the line come in any order.
  \<open>Option_Pointers\<close> follows an option written without a value from the command line through the library into the backends.
  \<open>Backend_Reads\<close> has what all backends have in common: a read stores the oldest bytes it has, as many as it reports,
  and leaves the rest of the caller's array alone.

  \<^bold>\<open>Demonstrator.\<close>  \<open>Demo\<close> models the two programs of the repository itself: \<^verbatim>\<open>src/src/glip_test.c\<close>, which
  reads, resets and listens to a debug system through the public interface, step by step with its assertions, and
  \<^verbatim>\<open>src/src/main.cpp\<close>, which runs the clock of the simulated system.  In \<open>Demo_Properties\<close> the locale
  \<open>dialogue_backend\<close> is a link with a system that answers, interpreted by the TCP backend.

  \<^bold>\<open>What the lemmas show.\<close>  In the theories \<open>..._Properties\<close>: that the streams are kept, in order
  and without loss, at each level (ring, backend thread, public interface, endpoint), the exact
  result of the blocking calls on each branch, the round trips of the protocols, the equivalence of parsers and searches
  with reference definitions, termination and progress, and, where the code does not do what it
  means to, what it does instead.  Every property with a hypothesis is followed by an example that applies it.

  \<^bold>\<open>Bounds.\<close>  The size of a circular buffer is a power of two of at most \<open>2 ^ 29\<close>, for which the \<open>int\<close>
  operations of the code are exact; the library uses 32 and 64 KiB.  Sizes of requests below \<open>2 ^ 31\<close> are those
  the code converts to \<open>int\<close> and back.  Loops over a script end with it: they return, or have the value \<open>Blocked\<close>,
  or say that they are still running.  \<open>BUILD_ATTEMPTS\<close> bounds how often a JTAG request is assembled anew in one
  round; \<open>connection\<close> and the turns of the threads are bounded by the number of turns
  looked at.  \<open>q_clear\<close> is the only loop without a bound of its own: its value is \<open>None\<close> when it does not end, and
  \<open>q_clear_ok\<close> shows that it ends for a bounded queue.

  \<^bold>\<open>Not modelled.\<close>  Printing (log messages, help, version, progress bar); memory that runs out where the code
  does not look at the result, except where a definition has an argument for it; the vendor's kit
  the firmware is built with (its main loop is empty); the trace
  files and the design of the simulation, which is generated code;
  the logic in Verilog but for the module that calls the endpoint; unknown values of its registers.  Memory is sequentially
  consistent: the code's use of plain variables between threads is not examined further.
\<close>

end
